(* ===== verification/Prelude.thy ===== *)
theory Prelude
  imports Main "HOL-Library.Word"
begin

text \<open>
  Shared vocabulary of the development: the machine integer types of a 32-bit x86
  coreboot stage, the alignment and power-of-two macros of
  \<^verbatim>\<open>src/commonlib/include/commonlib/helpers.h\<close>, a flat byte-addressed memory with
  little-endian accessors, and the collections of rewrite rules the component theories use.
\<close>

unbundle bit_operations_syntax

section \<open>Machine integers\<close>

text \<open>
  The stages modelled are compiled for 32-bit x86: \<^verbatim>\<open>size_t\<close>, \<^verbatim>\<open>uintptr_t\<close>,
  \<^verbatim>\<open>unsigned long\<close> and pointers have 32 bits, \<^verbatim>\<open>resource_t\<close> and
  \<^verbatim>\<open>uint64_t\<close> 64. A signed C integer is the same word read with \<open>sint\<close>.
\<close>

type_synonym u8 = "8 word"
type_synonym u16 = "16 word"
type_synonym u32 = "32 word"
type_synonym u64 = "64 word"
type_synonym usize = "32 word"
type_synonym ptr = "32 word"
type_synonym resource_t = "64 word"

abbreviation NULL :: ptr where
  "NULL \<equiv> 0"

named_theorems word_nat "rules that read a machine operation as arithmetic on nat"

lemma unat_add_nowrap [word_nat]:
  fixes a b :: "'a::len word"
  shows "unat a + unat b < 2 ^ LENGTH('a) \<Longrightarrow> unat (a + b) = unat a + unat b"
  by (simp add: unat_add_lem)

lemma unat_sub_nowrap [word_nat]:
  fixes a b :: "'a::len word"
  shows "unat b \<le> unat a \<Longrightarrow> unat (a - b) = unat a - unat b"
  by (simp add: unat_sub word_le_nat_alt)

lemma unat_lt_exp: "unat (a :: 'a::len word) < 2 ^ LENGTH('a)"
  by simp

lemma unat_sub_sum:
  fixes a b :: "'a::len word"
  assumes "a \<noteq> b"
  shows "unat (b - a) + unat (a - b) = 2 ^ LENGTH('a)"
proof -
  have "unat a \<noteq> unat b" using assms by (simp add: word_unat_eq_iff)
  moreover have "unat a < 2 ^ LENGTH('a)" "unat b < 2 ^ LENGTH('a)" by simp_all
  ultimately show ?thesis
    by (auto simp only: unat_sub_if_size word_size split: if_splits)
qed

lemma unat_of_nat_id [word_nat]:
  "n < 2 ^ LENGTH('a) \<Longrightarrow> unat (of_nat n :: 'a::len word) = n"
  by (simp add: unat_of_nat take_bit_nat_eq_self)

lemma unat_lt32: "unat (a :: 32 word) < 4294967296"
  using unat_lt_exp [of a] by simp

lemma unat_lt64: "unat (a :: 64 word) < 18446744073709551616"
  using unat_lt_exp [of a] by simp

section \<open>Alignment\<close>

definition align_down :: "'a::len word \<Rightarrow> 'a word \<Rightarrow> 'a word" where
  "align_down x a = x AND NOT (a - 1)"

definition align_up :: "'a::len word \<Rightarrow> 'a word \<Rightarrow> 'a word" where
  "align_up x a = (x + (a - 1)) AND NOT (a - 1)"

definition is_aligned :: "'a::len word \<Rightarrow> 'a word \<Rightarrow> bool" where
  "is_aligned x a \<longleftrightarrow> x AND (a - 1) = 0"

definition is_power_of_2 :: "'a::len word \<Rightarrow> bool" where
  "is_power_of_2 x \<longleftrightarrow> x AND (x - 1) = 0"

lemma and_not_mask_eq: "(x :: 'a::len word) AND NOT (mask n) = x - take_bit n x"
proof -
  have "x AND NOT (mask n) = push_bit n (drop_bit n x)"
    by (rule bit_eqI) (auto simp: bit_simps)
  then show ?thesis
    by (metis bits_ident add_diff_cancel_right')
qed

lemma unat_and_not_mask:
  fixes x :: "'a::len word"
  shows "unat (x AND NOT (mask n)) = unat x - unat x mod 2 ^ n"
proof -
  note eq = and_not_mask_eq [of x n]
  have t: "unat (take_bit n x) = unat x mod 2 ^ n"
    by (simp add: unsigned_take_bit_eq flip: take_bit_eq_mod)
  then have "unat (take_bit n x) \<le> unat x" by simp
  then show ?thesis
    by (simp only: eq unat_sub_nowrap t)
qed

lemma unat_align_down:
  fixes x :: "'a::len word"
  shows "unat (align_down x (2 ^ n)) = unat x - unat x mod 2 ^ n"
  by (simp add: align_down_def unat_and_not_mask flip: mask_eq_exp_minus_1)

lemma unat_exp_minus_1:
  "n < LENGTH('a) \<Longrightarrow> unat (2 ^ n - 1 :: 'a::len word) = 2 ^ n - 1"
  by (simp add: unat_eq_nat_uint uint_mask_eq nat_mask_eq flip: mask_eq_exp_minus_1)
    (simp add: mask_eq_exp_minus_1)

lemma unat_align_up:
  fixes x :: "'a::len word"
  assumes "n < LENGTH('a)" and "unat x + (2 ^ n - 1) < 2 ^ LENGTH('a)"
  shows "unat (align_up x (2 ^ n)) = (unat x + (2 ^ n - 1)) div 2 ^ n * 2 ^ n"
proof -
  have u: "unat (x + (2 ^ n - 1)) = unat x + (2 ^ n - 1)"
    using assms by (simp add: unat_add_nowrap unat_exp_minus_1)
  have "align_up x (2 ^ n) = align_down (x + (2 ^ n - 1)) (2 ^ n)"
    by (simp add: align_up_def align_down_def)
  then show ?thesis
    by (simp only: unat_align_down u minus_mod_eq_div_mult)
qed

lemma take_bit_add_exp: "take_bit n (y + 2 ^ n) = take_bit n (y :: 'a::len word)"
proof (transfer, goal_cases)
  case (1 n y)
  show ?case
    using take_bit_add [of "min LENGTH('a) n" y "2 ^ n"]
    by (cases "LENGTH('a) \<le> n") (auto simp flip: take_bit_add)
qed

text \<open>The last byte of the aligned block that holds the byte before \<open>x\<close>; no overflow case.\<close>

lemma align_up_minus_1:
  fixes x :: "'a::len word"
  shows "align_up x (2 ^ n) - 1 = align_down (x - 1) (2 ^ n) + (2 ^ n - 1)"
proof -
  define y where "y = x - 1"
  have "take_bit n (y + 2 ^ n) = take_bit n y" by (rule take_bit_add_exp)
  then have "(y + 2 ^ n) AND NOT (mask n) = (y AND NOT (mask n)) + 2 ^ n"
    by (simp only: and_not_mask_eq) simp
  moreover have "x + (2 ^ n - 1) = y + 2 ^ n" by (simp add: y_def)
  ultimately show ?thesis
    by (simp only: align_up_def align_down_def y_def [symmetric] flip: mask_eq_exp_minus_1)
      (simp add: mask_eq_exp_minus_1)
qed

lemma unat_ucast_small:
  fixes x :: "'a::len word"
  shows "unat x < 2 ^ LENGTH('b::len) \<Longrightarrow> unat (ucast x :: 'b word) = unat x"
  by (simp add: unsigned_ucast_eq take_bit_nat_eq_self)

lemma unat_ucast_up:
  fixes x :: "'a::len word"
  shows "LENGTH('a) \<le> LENGTH('b::len) \<Longrightarrow> unat (ucast x :: 'b word) = unat x"
  using unat_lt_exp [of x] by (intro unat_ucast_small) (meson less_le_trans one_le_numeral power_increasing)

lemma align_up_ge_nat: "(n::nat) \<le> (n + (2 ^ k - 1)) div 2 ^ k * 2 ^ k"
proof -
  have "(n + (2 ^ k - 1)) mod 2 ^ k \<le> 2 ^ k - (1::nat)"
    using mod_less_divisor [of "2 ^ k" "n + (2 ^ k - 1)"] by (simp add: less_eq_Suc_le)
  moreover have "(n + (2 ^ k - 1)) div 2 ^ k * 2 ^ k = (n + (2 ^ k - 1)) - (n + (2 ^ k - 1)) mod 2 ^ k"
    by (simp add: minus_mod_eq_div_mult)
  ultimately show ?thesis by linarith
qed

lemma align_up_lt_nat: "(n + (2 ^ k - 1)) div 2 ^ k * 2 ^ k \<le> n + (2 ^ k - (1::nat))"
  by (rule div_times_less_eq_dividend)

lemma is_aligned_iff:
  fixes x :: "'a::len word"
  shows "is_aligned x (2 ^ n) \<longleftrightarrow> 2 ^ n dvd unat x"
proof -
  have "is_aligned x (2 ^ n) \<longleftrightarrow> take_bit n x = 0"
    by (simp add: is_aligned_def take_bit_eq_mask flip: mask_eq_exp_minus_1)
  also have "\<dots> \<longleftrightarrow> unat (take_bit n x) = 0"
    by (simp add: unat_eq_zero)
  also have "\<dots> \<longleftrightarrow> 2 ^ n dvd unat x"
    by (simp add: unsigned_take_bit_eq take_bit_eq_0_iff)
  finally show ?thesis .
qed

lemma is_power_of_2_exp [simp]: "is_power_of_2 (2 ^ n :: 'a::len word)"
proof -
  have "(2 ^ n :: 'a word) AND (2 ^ n - 1) = 0"
    by (rule bit_eqI) (auto simp: bit_simps simp flip: mask_eq_exp_minus_1)
  then show ?thesis by (simp add: is_power_of_2_def)
qed

lemma is_power_of_2D:
  fixes x :: "'a::len word"
  assumes "is_power_of_2 x" and "x \<noteq> 0"
  shows "\<exists>n < LENGTH('a). x = 2 ^ n"
proof -
  define u where "u = unat x"
  have u0: "0 < u" and ub: "u < 2 ^ LENGTH('a)"
    using assms(2) by (simp_all add: u_def unat_gt_0)
  obtain m where m: "2 ^ m \<le> u" "u < 2 ^ Suc m"
    using ex_power_ivl1 [of 2 u] u0 by auto
  then have mlt: "m < LENGTH('a)"
    using ub by (meson le_less_trans nat_power_less_imp_less zero_less_numeral)
  have "u = 2 ^ m"
  proof (rule ccontr)
    assume "u \<noteq> 2 ^ m"
    with m have lo: "2 ^ m \<le> u - 1" "u - 1 < 2 ^ Suc m" by auto
    have pred: "unat (x - 1) = u - 1"
      using u0 by (simp add: u_def unat_minus_one assms(2))
    have div1: "v div 2 ^ m = 1" if "2 ^ m \<le> v" "v < 2 ^ Suc m" for v :: nat
      using that by (simp add: div_nat_eqI)
    have "bit (unat x) m" "bit (unat (x - 1)) m"
      using m lo div1 by (simp_all add: bit_iff_odd pred u_def)
    then have "bit (x AND (x - 1)) m"
      by (simp add: bit_and_iff bit_unsigned_iff)
    with assms(1) show False by (simp add: is_power_of_2_def)
  qed
  then have "unat x = 2 ^ m" by (simp add: u_def)
  then have "of_nat (unat x) = (2 ^ m :: 'a word)" by simp
  then have "x = 2 ^ m" by simp
  with mlt show ?thesis by blast
qed

section \<open>Little-endian byte strings\<close>

primrec le_encode :: "nat \<Rightarrow> 'a::len word \<Rightarrow> u8 list" where
  "le_encode 0 w = []"
| "le_encode (Suc n) w = ucast w # le_encode n (drop_bit 8 w)"

primrec le_decode :: "u8 list \<Rightarrow> 'a::len word" where
  "le_decode [] = 0"
| "le_decode (b # bs) = ucast b OR push_bit 8 (le_decode bs)"

lemma length_le_encode [simp]: "length (le_encode n w) = n"
  by (induction n arbitrary: w) auto

lemma le_decode_encode: "le_decode (le_encode n w) = take_bit (8 * n) (w :: 'a::len word)"
proof (induction n arbitrary: w)
  case 0
  then show ?case by simp
next
  case (Suc n)
  show ?case
    by (rule bit_eqI) (auto simp: Suc bit_simps)
qed

lemma le_decode_encode_full [simp]:
  "LENGTH('a) \<le> 8 * n \<Longrightarrow> le_decode (le_encode n w) = (w :: 'a::len word)"
  by (simp add: le_decode_encode take_bit_word_eq_self)

lemma le_encode_byte:
  "8 \<le> LENGTH('a) \<Longrightarrow> ucast (ucast b OR push_bit 8 (w :: 'a::len word)) = (b :: u8)"
  by (rule bit_eqI) (auto simp: bit_simps)

lemma le_encode_rest:
  "drop_bit 8 (ucast (b :: u8) OR push_bit 8 w) = take_bit (LENGTH('a) - 8) (w :: 'a::len word)"
  by (rule bit_eqI) (auto simp: bit_simps dest: bit_imp_le_length)

lemma le_encode_take_bit:
  "8 * n \<le> m \<Longrightarrow> le_encode n (take_bit m w) = le_encode n (w :: 'a::len word)"
proof (induction n arbitrary: w m)
  case 0
  then show ?case by simp
next
  case (Suc n)
  have "ucast (take_bit m w) = (ucast w :: u8)"
    using Suc.prems by (intro bit_eqI) (auto simp: bit_simps)
  moreover have "drop_bit 8 (take_bit m w) = take_bit (m - 8) (drop_bit 8 w)"
    using Suc.prems by (simp add: drop_bit_take_bit)
  ultimately show ?case
    using Suc by simp
qed

lemma le_encode_decode:
  "8 * length bs \<le> LENGTH('a) \<Longrightarrow> le_encode (length bs) (le_decode bs :: 'a::len word) = bs"
proof (induction bs)
  case Nil
  then show ?case by simp
next
  case (Cons b bs)
  then have "8 \<le> LENGTH('a)" and "8 * length bs \<le> LENGTH('a) - 8" by simp_all
  with Cons show ?case
    by (simp add: le_encode_byte le_encode_rest le_encode_take_bit del: drop_bit_or)
qed

end
