(* ===== verification/Memory.thy ===== *)
theory Memory
  imports Prelude
begin

text \<open>
  The flat memory the C code reads and writes through pointers: a function from 32-bit
  addresses to bytes, with byte-string, 16-bit and 32-bit little-endian accessors, and the
  read-over-write laws the component proofs use. Addresses wrap as machine addresses do.
\<close>

type_synonym mem = "ptr \<Rightarrow> u8"

definition mem_read :: "mem \<Rightarrow> ptr \<Rightarrow> nat \<Rightarrow> u8 list" where
  "mem_read m a n = map (\<lambda>i. m (a + of_nat i)) [0..<n]"

definition mem_write :: "mem \<Rightarrow> ptr \<Rightarrow> u8 list \<Rightarrow> mem" where
  "mem_write m a bs = (\<lambda>p. let k = unat (p - a) in if k < length bs then bs ! k else m p)"

definition load32 :: "mem \<Rightarrow> ptr \<Rightarrow> u32" where
  "load32 m a = le_decode (mem_read m a 4)"

definition store32 :: "mem \<Rightarrow> ptr \<Rightarrow> u32 \<Rightarrow> mem" where
  "store32 m a v = mem_write m a (le_encode 4 v)"

lemma length_mem_read [simp]: "length (mem_read m a n) = n"
  by (simp add: mem_read_def)

lemma nth_mem_read [simp]: "i < n \<Longrightarrow> mem_read m a n ! i = m (a + of_nat i)"
  by (simp add: mem_read_def)

lemma mem_write_Nil [simp]: "mem_write m a [] = m"
  by (simp add: mem_write_def)

lemma mem_read_cong: "(\<And>i. i < n \<Longrightarrow> m (a + of_nat i) = m' (a' + of_nat i)) \<Longrightarrow> mem_read m a n = mem_read m' a' n"
  by (simp add: mem_read_def)

lemma mem_write_same:
  assumes "length bs \<le> 2 ^ 32" and "i < length bs"
  shows "mem_write m a bs (a + of_nat i) = bs ! i"
proof -
  have "unat (of_nat i :: ptr) = i"
    using assms by (simp add: unat_of_nat_id)
  then show ?thesis using assms by (simp add: mem_write_def)
qed

lemma mem_read_write_same:
  "length bs \<le> 2 ^ 32 \<Longrightarrow> mem_read (mem_write m a bs) a (length bs) = bs"
  by (rule nth_equalityI) (simp_all add: mem_write_same)

text \<open>Two ranges are disjoint when each starts at least its neighbour's length away.\<close>

definition disjoint_ranges :: "ptr \<Rightarrow> nat \<Rightarrow> ptr \<Rightarrow> nat \<Rightarrow> bool" where
  "disjoint_ranges a n b k \<longleftrightarrow> n \<le> unat (b - a) \<and> k \<le> unat (a - b)"

lemma disjoint_ranges_sym: "disjoint_ranges a n b k \<longleftrightarrow> disjoint_ranges b k a n"
  by (auto simp: disjoint_ranges_def)

lemma mem_write_other:
  assumes d: "disjoint_ranges a (length bs) b k" and i: "i < k"
  shows "mem_write m a bs (b + of_nat i) = m (b + of_nat i)"
proof -
  define x y where "x = unat (b - a)" and "y = unat (a - b)"
  have ks: "k \<le> y" and ns: "length bs \<le> x"
    using d by (simp_all add: disjoint_ranges_def x_def y_def)
  have y32: "y < 2 ^ 32" using unat_lt32 by (simp add: y_def)
  have ui: "unat (of_nat i :: ptr) = i"
    using i ks y32 by (simp add: unat_of_nat_id)
  have "x + i < 2 ^ 32"
  proof (cases "a = b")
    case True
    then show ?thesis using i ks by (simp add: y_def)
  next
    case False
    then have "x + y = 2 ^ 32"
      unfolding x_def y_def using unat_sub_sum [of a b] by simp
    then show ?thesis using i ks by linarith
  qed
  then have "unat ((b - a) + of_nat i) = x + i"
    by (simp add: unat_add_nowrap ui x_def)
  moreover have "b + of_nat i - a = (b - a) + of_nat i" by simp
  ultimately have "unat (b + of_nat i - a) = x + i" by (simp only:)
  with ns show ?thesis by (simp add: mem_write_def)
qed

lemma mem_read_write_other:
  "disjoint_ranges a (length bs) b k \<Longrightarrow> mem_read (mem_write m a bs) b k = mem_read m b k"
  by (rule mem_read_cong) (rule mem_write_other)

lemma disjoint_offsets:
  assumes "i + n \<le> j \<or> j + k \<le> i" and "i + n \<le> 2 ^ 32" "j + k \<le> 2 ^ 32"
    and "0 < n" "0 < k"
  shows "disjoint_ranges (r + of_nat i) n (r + of_nat j) k"
proof -
  have u: "unat (of_nat i :: ptr) = i" "unat (of_nat j :: ptr) = j"
    using assms by (simp_all add: unat_of_nat_id)
  have sub: "unat ((r + of_nat x) - (r + of_nat y)) = (if y \<le> x then x - y else 2 ^ 32 - (y - x))"
    if "x < 2 ^ 32" "y < 2 ^ 32" for x y
  proof -
    have ux: "unat (of_nat x :: ptr) = x" "unat (of_nat y :: ptr) = y"
      using that by (simp_all add: unat_of_nat_id)
    have "(r + of_nat x) - (r + of_nat y) = of_nat x - (of_nat y :: ptr)" by simp
    then show ?thesis using that ux
      by (simp only: unat_sub_if' word_size) auto
  qed
  show ?thesis
    unfolding disjoint_ranges_def using assms sub [of i j] sub [of j i] by (auto split: if_splits)
qed

lemma load32_store32_same [simp]: "load32 (store32 m a v) a = v"
  using mem_read_write_same [of "le_encode 4 v" m a] by (simp add: load32_def store32_def)

lemma load32_store32_other:
  "disjoint_ranges a 4 b 4 \<Longrightarrow> load32 (store32 m a v) b = load32 m b"
  by (simp add: load32_def store32_def mem_read_write_other)

lemma load32_store32_off:
  assumes "i + 4 \<le> j \<or> j + 4 \<le> i" and "i + 4 \<le> 2 ^ 32" "j + 4 \<le> 2 ^ 32"
  shows "load32 (store32 m (r + of_nat i) v) (r + of_nat j) = load32 m (r + of_nat j)"
  using assms by (intro load32_store32_other disjoint_offsets) auto

end
