(* ===== verification/Mem_Pool.thy ===== *)
theory Mem_Pool
  imports Memory
begin

text \<open>
  The bump allocator of \<^verbatim>\<open>src/commonlib/mem_pool.c\<close>: a fixed buffer from which only the
  most recent allocation can be given back. The invariant \<open>mem_pool_wf\<close> says that the bump
  offset stays inside the buffer and that the remembered allocation, if any, lies below it.
\<close>

record mem_pool =
  mp_buf :: ptr
  mp_size :: usize
  mp_last_alloc :: ptr
  mp_free_offset :: usize

definition mem_pool_reset :: "mem_pool \<Rightarrow> mem_pool" where
  "mem_pool_reset mp = mp\<lparr>mp_last_alloc := NULL, mp_free_offset := 0\<rparr>"

definition mem_pool_init :: "ptr \<Rightarrow> usize \<Rightarrow> mem_pool" where
  "mem_pool_init buf sz =
     mem_pool_reset \<lparr>mp_buf = buf, mp_size = sz, mp_last_alloc = NULL, mp_free_offset = 0\<rparr>"

definition mem_pool_alloc :: "mem_pool \<Rightarrow> usize \<Rightarrow> ptr \<times> mem_pool" where
  "mem_pool_alloc mp sz =
     (let sz = align_up sz 8 in
      if mp_size mp - mp_free_offset mp < sz then (NULL, mp)
      else let p = mp_buf mp + mp_free_offset mp in
        (p, mp\<lparr>mp_free_offset := mp_free_offset mp + sz, mp_last_alloc := p\<rparr>))"

definition mem_pool_free :: "mem_pool \<Rightarrow> ptr \<Rightarrow> mem_pool" where
  "mem_pool_free mp p =
     (if p = NULL \<or> mp_last_alloc mp \<noteq> p then mp
      else mp\<lparr>mp_free_offset := mp_last_alloc mp - mp_buf mp, mp_last_alloc := NULL\<rparr>)"

definition mem_pool_wf :: "mem_pool \<Rightarrow> bool" where
  "mem_pool_wf mp \<longleftrightarrow>
     mp_buf mp \<noteq> NULL \<and> unat (mp_buf mp) + unat (mp_size mp) < 2 ^ 32 \<and>
     mp_free_offset mp \<le> mp_size mp \<and>
     (mp_last_alloc mp \<noteq> NULL \<longrightarrow>
        mp_buf mp \<le> mp_last_alloc mp \<and> mp_last_alloc mp - mp_buf mp \<le> mp_free_offset mp)"

lemma mem_pool_wf_init:
  "buf \<noteq> NULL \<Longrightarrow> unat buf + unat sz < 2 ^ 32 \<Longrightarrow> mem_pool_wf (mem_pool_init buf sz)"
  by (simp add: mem_pool_wf_def mem_pool_init_def mem_pool_reset_def)

lemma unat_align_up_8:
  "unat sz + 7 < 2 ^ 32 \<Longrightarrow> unat (align_up sz (8 :: usize)) = (unat sz + 7) div 8 * 8"
  using unat_align_up [of 3 sz] by simp

text \<open>A successful allocation hands out the bytes between the old and the new bump offset.\<close>

lemma mem_pool_alloc_cases:
  assumes "mem_pool_wf mp" and "mem_pool_alloc mp sz = (p, mp')"
  obtains "p = NULL" "mp' = mp"
  | "p = mp_buf mp + mp_free_offset mp" "mp_last_alloc mp' = p" "p \<noteq> NULL"
    "unat p = unat (mp_buf mp) + unat (mp_free_offset mp)"
    "unat (mp_free_offset mp') = unat (mp_free_offset mp) + unat (align_up sz 8)"
    "mp_buf mp' = mp_buf mp" "mp_size mp' = mp_size mp" "mp_free_offset mp' \<le> mp_size mp"
proof (cases "mp_size mp - mp_free_offset mp < align_up sz 8")
  case True
  with assms(2) have "p = NULL" "mp' = mp" by (simp_all add: mem_pool_alloc_def)
  then show ?thesis by (rule that(1))
next
  case False
  define fo n where "fo = mp_free_offset mp" and "n = align_up sz 8"
  from assms(1) have wf: "unat (mp_buf mp) + unat (mp_size mp) < 2 ^ 32" "unat fo \<le> unat (mp_size mp)"
    "mp_buf mp \<noteq> 0"
    by (simp_all add: mem_pool_wf_def word_le_nat_alt fo_def)
  from False have "unat n \<le> unat (mp_size mp - fo)"
    by (simp add: not_less word_le_nat_alt n_def fo_def)
  then have n: "unat fo + unat n \<le> unat (mp_size mp)"
    using wf by (simp add: unat_sub_nowrap)
  then have sum: "unat (fo + n) = unat fo + unat n"
    using unat_lt32 [of "mp_size mp"] by (intro unat_add_nowrap) simp
  have p: "unat (mp_buf mp + fo) = unat (mp_buf mp) + unat fo"
    using wf by (intro unat_add_nowrap) simp
  have nz: "mp_buf mp + fo \<noteq> 0"
  proof
    assume "mp_buf mp + fo = 0"
    with p have "unat (mp_buf mp) = 0" by simp
    with wf show False by (simp add: unat_eq_zero)
  qed
  from False assms(2) have eq: "p = mp_buf mp + fo"
    "mp' = mp\<lparr>mp_free_offset := fo + n, mp_last_alloc := mp_buf mp + fo\<rparr>"
    by (auto simp: mem_pool_alloc_def Let_def fo_def n_def)
  show ?thesis
  proof (rule that(2))
    show "unat p = unat (mp_buf mp) + unat (mp_free_offset mp)" using p eq by (simp add: fo_def)
    show "unat (mp_free_offset mp') = unat (mp_free_offset mp) + unat (align_up sz 8)"
      using sum eq by (simp add: fo_def n_def)
    show "mp_free_offset mp' \<le> mp_size mp" using n sum eq by (simp add: word_le_nat_alt)
  qed (use eq nz in \<open>simp_all add: fo_def\<close>)
qed

lemma mem_pool_alloc_wf:
  assumes "mem_pool_wf mp" and "mem_pool_alloc mp sz = (p, mp')"
  shows "mem_pool_wf mp'"
  using assms
proof (cases rule: mem_pool_alloc_cases)
  case 1
  then show ?thesis using assms by simp
next
  case 2
  have "unat (p - mp_buf mp) = unat (mp_free_offset mp)" using 2(1) by simp
  with 2 assms(1) show ?thesis
    by (simp add: mem_pool_wf_def word_le_nat_alt)
qed

lemma mem_pool_free_wf: "mem_pool_wf mp \<Longrightarrow> mem_pool_wf (mem_pool_free mp p)"
  by (auto simp: mem_pool_wf_def mem_pool_free_def)

text \<open>Giving back the latest allocation restores the bump offset it was taken at.\<close>

lemma mem_pool_free_alloc:
  assumes "mem_pool_wf mp" and "mem_pool_alloc mp sz = (p, mp')" and "p \<noteq> NULL"
  shows "mem_pool_free mp' p = mp\<lparr>mp_last_alloc := NULL\<rparr>"
proof -
  have "mp' = mp\<lparr>mp_free_offset := mp_free_offset mp + align_up sz 8, mp_last_alloc := p\<rparr>"
    "p = mp_buf mp + mp_free_offset mp"
    using assms(2,3) by (auto simp: mem_pool_alloc_def Let_def split: if_splits)
  then show ?thesis using assms(3) by (simp add: mem_pool_free_def)
qed

end
