(* ===== verification/Region.thy ===== *)
theory Region
  imports Mem_Pool
begin

text \<open>
  Region devices, \<^verbatim>\<open>src/commonlib/region.c\<close>: bounds-checked windows onto a backing
  store. A root device owns an operation table; a child made by \<open>rdev_chain\<close> keeps its
  root and an absolute window. The operation tables of the file are the constructors of
  \<open>rdev_ops\<close>: memory-mapped (\<^verbatim>\<open>mem_rdev_ro_ops\<close>, \<^verbatim>\<open>mem_rdev_rw_ops\<close>),
  translated (\<^verbatim>\<open>xlate_rdev_ro_ops\<close>, \<^verbatim>\<open>xlate_rdev_rw_ops\<close>) and incoherent
  (\<^verbatim>\<open>incoherent_rdev_ops\<close>). The enclosing struct that \<^verbatim>\<open>container_of\<close> recovers is
  the constructor's argument; a read-only table lacks \<open>writeat\<close> and \<open>eraseat\<close>.
  \<^verbatim>\<open>ssize_t\<close> results are words, negative as \<open>sint\<close>.
\<close>

section \<open>Regions\<close>

record region =
  r_offset :: usize
  r_size :: usize

definition region_end :: "region \<Rightarrow> usize" where
  "region_end r = r_size r + r_offset r"

definition region_is_subregion :: "region \<Rightarrow> region \<Rightarrow> bool" where
  "region_is_subregion p c =
     (if r_offset c < r_offset p then False
      else if r_size c > r_size p then False
      else if region_end c > region_end p then False
      else True)"

definition normalize_and_ok :: "region \<Rightarrow> region \<Rightarrow> region \<times> bool" where
  "normalize_and_ok outer inner =
     (let inner = inner\<lparr>r_offset := r_offset inner + r_offset outer\<rparr>
      in (inner, region_is_subregion outer inner))"

section \<open>Devices\<close>

datatype rdev_ops =
    Mem_ops bool ptr                         \<comment> \<open>writable?, base\<close>
  | Xlate_ops bool region_device region      \<comment> \<open>writable?, access_dev, sub_region\<close>
  | Incoherent_ops region_device region_device  \<comment> \<open>read, write\<close>
and root_device = Root_device (root_addr: ptr) (root_ops: rdev_ops) (root_region: region)
and region_device = Root root_device | Child root_device region

type_synonym ssize = "32 word"

primrec rdev_root :: "region_device \<Rightarrow> root_device" where
  "rdev_root (Root r) = r"
| "rdev_root (Child r _) = r"

primrec rdev_region :: "region_device \<Rightarrow> region" where
  "rdev_region (Root r) = root_region r"
| "rdev_region (Child _ reg) = reg"

definition region_device_sz :: "region_device \<Rightarrow> usize" where
  "region_device_sz rd = r_size (rdev_region rd)"

definition region_device_offset :: "region_device \<Rightarrow> usize" where
  "region_device_offset rd = r_offset (rdev_region rd)"

definition rdev_relative_offset :: "region_device \<Rightarrow> region_device \<Rightarrow> ssize" where
  "rdev_relative_offset p c =
     (if root_addr (rdev_root p) \<noteq> root_addr (rdev_root c) then -1
      else if \<not> region_is_subregion (rdev_region p) (rdev_region c) then -1
      else region_device_offset c - region_device_offset p)"

definition rdev_chain :: "region_device \<Rightarrow> usize \<Rightarrow> usize \<Rightarrow> region_device option" where
  "rdev_chain parent offset sz =
     (let (req, ok) = normalize_and_ok (rdev_region parent) \<lparr>r_offset = offset, r_size = sz\<rparr>
      in if \<not> ok then None
         else Some (Child (rdev_root parent) \<lparr>r_offset = r_offset req, r_size = r_size req\<rparr>))"

definition region_device_init :: "ptr \<Rightarrow> rdev_ops \<Rightarrow> usize \<Rightarrow> usize \<Rightarrow> region_device" where
  "region_device_init self ops offset sz =
     Root (Root_device self ops \<lparr>r_offset = offset, r_size = sz\<rparr>)"

definition mem_region_device_init :: "ptr \<Rightarrow> bool \<Rightarrow> ptr \<Rightarrow> usize \<Rightarrow> region_device" where
  "mem_region_device_init self rw base sz =
     Root (Root_device self (Mem_ops rw base) \<lparr>r_offset = 0, r_size = sz\<rparr>)"

definition mem_region_device_ro_init :: "ptr \<Rightarrow> ptr \<Rightarrow> usize \<Rightarrow> region_device" where
  "mem_region_device_ro_init self base sz = mem_region_device_init self False base sz"

definition mem_region_device_rw_init :: "ptr \<Rightarrow> ptr \<Rightarrow> usize \<Rightarrow> region_device" where
  "mem_region_device_rw_init self base sz = mem_region_device_init self True base sz"

definition xlate_region_device_init ::
    "ptr \<Rightarrow> bool \<Rightarrow> region_device \<Rightarrow> usize \<Rightarrow> usize \<Rightarrow> usize \<Rightarrow> region_device" where
  "xlate_region_device_init self rw access_dev sub_offset sub_size parent_size =
     region_device_init self
       (Xlate_ops rw access_dev \<lparr>r_offset = sub_offset, r_size = sub_size\<rparr>) 0 parent_size"

definition xlate_region_device_ro_init ::
    "ptr \<Rightarrow> region_device \<Rightarrow> usize \<Rightarrow> usize \<Rightarrow> usize \<Rightarrow> region_device" where
  "xlate_region_device_ro_init self access_dev sub_offset sub_size parent_size =
     xlate_region_device_init self False access_dev sub_offset sub_size parent_size"

definition xlate_region_device_rw_init ::
    "ptr \<Rightarrow> region_device \<Rightarrow> usize \<Rightarrow> usize \<Rightarrow> usize \<Rightarrow> region_device" where
  "xlate_region_device_rw_init self access_dev sub_offset sub_size parent_size =
     xlate_region_device_init self True access_dev sub_offset sub_size parent_size"

definition incoherent_rdev_init ::
    "ptr \<Rightarrow> region \<Rightarrow> region_device \<Rightarrow> region_device \<Rightarrow> region_device option" where
  "incoherent_rdev_init self r rd wr =
     (let sz = r_size r in
      if sz \<noteq> region_device_sz rd \<or> sz \<noteq> region_device_sz wr then None
      else Some (region_device_init self (Incoherent_ops rd wr) 0 sz))"

lemma size_rdev_root: "size (rdev_root rd) < size rd"
  by (cases rd) auto

lemma size_root_ops: "size (root_ops r) < size r"
  by (cases r) auto

lemma size_xlate:
  "root_ops (rdev_root rd) = Xlate_ops rw acc sub \<Longrightarrow> Suc (size acc) < size rd"
  using size_rdev_root [of rd] size_root_ops [of "rdev_root rd"] by simp

lemma size_incoherent:
  "root_ops (rdev_root rd) = Incoherent_ops r w \<Longrightarrow> Suc (size r) < size rd \<and> Suc (size w) < size rd"
  using size_rdev_root [of rd] size_root_ops [of "rdev_root rd"] by simp

section \<open>Memory-mapped devices\<close>

definition mdev_mmap :: "ptr \<Rightarrow> usize \<Rightarrow> ptr" where
  "mdev_mmap base offset = base + offset"

definition mdev_munmap :: "ptr \<Rightarrow> ssize" where
  "mdev_munmap mapping = 0"

definition mdev_readat :: "mem \<Rightarrow> ptr \<Rightarrow> usize \<Rightarrow> usize \<Rightarrow> u8 list \<times> ssize" where
  "mdev_readat m base offset sz = (mem_read m (base + offset) (unat sz), sz)"

definition mdev_writeat :: "mem \<Rightarrow> ptr \<Rightarrow> u8 list \<Rightarrow> usize \<Rightarrow> usize \<Rightarrow> mem \<times> ssize" where
  "mdev_writeat m base b offset sz = (mem_write m (base + offset) (take (unat sz) b), sz)"

definition mdev_eraseat :: "mem \<Rightarrow> ptr \<Rightarrow> usize \<Rightarrow> usize \<Rightarrow> mem \<times> ssize" where
  "mdev_eraseat m base offset sz =
     (mem_write m (base + offset) (replicate (unat sz) 0), sz)"

section \<open>The device operations\<close>

text \<open>
  Each operation of a device checks the request against the device's window, makes it
  absolute and dispatches to the root's table; the translated and incoherent tables call
  back into the operation of the device they wrap. Buffers are passed by value: a read
  returns the bytes put into the caller's buffer, none when it fails; a write is given the
  bytes of the caller's buffer. A missing table entry is the
  \<^verbatim>\<open>NULL\<close> check of the code.
\<close>

function (sequential) rdev_mmap :: "region_device \<Rightarrow> usize \<Rightarrow> usize \<Rightarrow> ptr"
  and xlate_mmap :: "region_device \<Rightarrow> region \<Rightarrow> usize \<Rightarrow> usize \<Rightarrow> ptr"
  and incoherent_mmap :: "region_device \<Rightarrow> usize \<Rightarrow> usize \<Rightarrow> ptr" where
  "rdev_mmap rd offset sz =
     (let (req, ok) = normalize_and_ok (rdev_region rd) \<lparr>r_offset = offset, r_size = sz\<rparr> in
      if \<not> ok then NULL
      else case root_ops (rdev_root rd) of
        Mem_ops _ base \<Rightarrow> mdev_mmap base (r_offset req)
      | Xlate_ops _ acc sub \<Rightarrow> xlate_mmap acc sub (r_offset req) (r_size req)
      | Incoherent_ops r w \<Rightarrow> incoherent_mmap r (r_offset req) (r_size req))"
| "xlate_mmap acc sub offset sz =
     (if \<not> region_is_subregion sub \<lparr>r_offset = offset, r_size = sz\<rparr> then NULL
      else rdev_mmap acc (offset - r_offset sub) sz)"
| "incoherent_mmap r offset sz = rdev_mmap r offset sz"
  by pat_completeness auto
termination
  by (relation "measure (\<lambda>x. case x of Inl (rd, _) \<Rightarrow> 2 * size rd
        | Inr (Inl (acc, _)) \<Rightarrow> 2 * size acc + 1 | Inr (Inr (r, _)) \<Rightarrow> 2 * size r + 1)")
    (auto dest: size_xlate size_incoherent)

function (sequential) rdev_munmap :: "region_device \<Rightarrow> ptr \<Rightarrow> ssize"
  and xlate_munmap :: "region_device \<Rightarrow> ptr \<Rightarrow> ssize"
  and incoherent_munmap :: "region_device \<Rightarrow> ptr \<Rightarrow> ssize" where
  "rdev_munmap rd mapping =
     (case root_ops (rdev_root rd) of
        Mem_ops _ _ \<Rightarrow> mdev_munmap mapping
      | Xlate_ops _ acc _ \<Rightarrow> xlate_munmap acc mapping
      | Incoherent_ops r _ \<Rightarrow> incoherent_munmap r mapping)"
| "xlate_munmap acc mapping = rdev_munmap acc mapping"
| "incoherent_munmap r mapping = rdev_munmap r mapping"
  by pat_completeness auto
termination
  by (relation "measure (\<lambda>x. case x of Inl (rd, _) \<Rightarrow> 2 * size rd
        | Inr (Inl (acc, _)) \<Rightarrow> 2 * size acc + 1 | Inr (Inr (r, _)) \<Rightarrow> 2 * size r + 1)")
    (auto dest: size_xlate size_incoherent)

function (sequential) rdev_readat :: "mem \<Rightarrow> region_device \<Rightarrow> usize \<Rightarrow> usize \<Rightarrow> u8 list \<times> ssize"
  and xlate_readat :: "mem \<Rightarrow> region_device \<Rightarrow> region \<Rightarrow> usize \<Rightarrow> usize \<Rightarrow> u8 list \<times> ssize"
  and incoherent_readat :: "mem \<Rightarrow> region_device \<Rightarrow> usize \<Rightarrow> usize \<Rightarrow> u8 list \<times> ssize" where
  "rdev_readat m rd offset sz =
     (let (req, ok) = normalize_and_ok (rdev_region rd) \<lparr>r_offset = offset, r_size = sz\<rparr> in
      if \<not> ok then ([], -1)
      else case root_ops (rdev_root rd) of
        Mem_ops _ base \<Rightarrow> mdev_readat m base (r_offset req) (r_size req)
      | Xlate_ops _ acc sub \<Rightarrow> xlate_readat m acc sub (r_offset req) (r_size req)
      | Incoherent_ops r w \<Rightarrow> incoherent_readat m r (r_offset req) (r_size req))"
| "xlate_readat m acc sub offset sz =
     (if \<not> region_is_subregion sub \<lparr>r_offset = offset, r_size = sz\<rparr> then ([], -1)
      else rdev_readat m acc (offset - r_offset sub) sz)"
| "incoherent_readat m r offset sz = rdev_readat m r offset sz"
  by pat_completeness auto
termination
  by (relation "measure (\<lambda>x. case x of Inl (m, rd, _) \<Rightarrow> 2 * size rd
        | Inr (Inl (m, acc, _)) \<Rightarrow> 2 * size acc + 1 | Inr (Inr (m, r, _)) \<Rightarrow> 2 * size r + 1)")
    (auto dest: size_xlate size_incoherent)

function (sequential) rdev_writeat :: "mem \<Rightarrow> region_device \<Rightarrow> u8 list \<Rightarrow> usize \<Rightarrow> usize \<Rightarrow> mem \<times> ssize"
  and xlate_writeat :: "mem \<Rightarrow> region_device \<Rightarrow> region \<Rightarrow> u8 list \<Rightarrow> usize \<Rightarrow> usize \<Rightarrow> mem \<times> ssize"
  and incoherent_writeat :: "mem \<Rightarrow> region_device \<Rightarrow> u8 list \<Rightarrow> usize \<Rightarrow> usize \<Rightarrow> mem \<times> ssize" where
  "rdev_writeat m rd b offset sz =
     (let (req, ok) = normalize_and_ok (rdev_region rd) \<lparr>r_offset = offset, r_size = sz\<rparr> in
      if \<not> ok then (m, -1)
      else case root_ops (rdev_root rd) of
        Mem_ops rw base \<Rightarrow>
          if \<not> rw then (m, -1) else mdev_writeat m base b (r_offset req) (r_size req)
      | Xlate_ops rw acc sub \<Rightarrow>
          if \<not> rw then (m, -1) else xlate_writeat m acc sub b (r_offset req) (r_size req)
      | Incoherent_ops r w \<Rightarrow> incoherent_writeat m w b (r_offset req) (r_size req))"
| "xlate_writeat m acc sub b offset sz =
     (if \<not> region_is_subregion sub \<lparr>r_offset = offset, r_size = sz\<rparr> then (m, -1)
      else rdev_writeat m acc b (offset - r_offset sub) sz)"
| "incoherent_writeat m w b offset sz = rdev_writeat m w b offset sz"
  by pat_completeness auto
termination
  by (relation "measure (\<lambda>x. case x of Inl (m, rd, _) \<Rightarrow> 2 * size rd
        | Inr (Inl (m, acc, _)) \<Rightarrow> 2 * size acc + 1 | Inr (Inr (m, r, _)) \<Rightarrow> 2 * size r + 1)")
    (auto dest: size_xlate size_incoherent)

text \<open>A table without \<^verbatim>\<open>eraseat\<close> counts as an erase that succeeded.\<close>

function (sequential) rdev_eraseat :: "mem \<Rightarrow> region_device \<Rightarrow> usize \<Rightarrow> usize \<Rightarrow> mem \<times> ssize"
  and xlate_eraseat :: "mem \<Rightarrow> region_device \<Rightarrow> region \<Rightarrow> usize \<Rightarrow> usize \<Rightarrow> mem \<times> ssize"
  and incoherent_eraseat :: "mem \<Rightarrow> region_device \<Rightarrow> usize \<Rightarrow> usize \<Rightarrow> mem \<times> ssize" where
  "rdev_eraseat m rd offset sz =
     (let (req, ok) = normalize_and_ok (rdev_region rd) \<lparr>r_offset = offset, r_size = sz\<rparr> in
      if \<not> ok then (m, -1)
      else case root_ops (rdev_root rd) of
        Mem_ops rw base \<Rightarrow>
          if \<not> rw then (m, sz) else mdev_eraseat m base (r_offset req) (r_size req)
      | Xlate_ops rw acc sub \<Rightarrow>
          if \<not> rw then (m, sz) else xlate_eraseat m acc sub (r_offset req) (r_size req)
      | Incoherent_ops r w \<Rightarrow> incoherent_eraseat m w (r_offset req) (r_size req))"
| "xlate_eraseat m acc sub offset sz =
     (if \<not> region_is_subregion sub \<lparr>r_offset = offset, r_size = sz\<rparr> then (m, -1)
      else rdev_eraseat m acc (offset - r_offset sub) sz)"
| "incoherent_eraseat m w offset sz = rdev_eraseat m w offset sz"
  by pat_completeness auto
termination
  by (relation "measure (\<lambda>x. case x of Inl (m, rd, _) \<Rightarrow> 2 * size rd
        | Inr (Inl (m, acc, _)) \<Rightarrow> 2 * size acc + 1 | Inr (Inr (m, r, _)) \<Rightarrow> 2 * size r + 1)")
    (auto dest: size_xlate size_incoherent)

lemmas rdev_op_simps = rdev_mmap.simps rdev_munmap.simps rdev_readat.simps rdev_writeat.simps
  rdev_eraseat.simps

declare rdev_op_simps [simp del]

section \<open>Memory mapping through a cache\<close>

text \<open>
  \<^verbatim>\<open>mmap_helper_rdev_mmap\<close> gives a driver without memory-mapped media an
  \<^verbatim>\<open>mmap\<close>: a buffer from the pool filled by the driver's own \<^verbatim>\<open>readat\<close>, which is
  the parameter \<open>readat\<close>.
\<close>

definition mmap_helper_device_init :: "ptr \<Rightarrow> usize \<Rightarrow> mem_pool" where
  "mmap_helper_device_init cache cache_size = mem_pool_init cache cache_size"

definition mmap_helper_rdev_mmap ::
    "(mem \<Rightarrow> usize \<Rightarrow> usize \<Rightarrow> u8 list \<times> ssize) \<Rightarrow> mem \<Rightarrow> mem_pool \<Rightarrow> usize \<Rightarrow> usize
     \<Rightarrow> mem \<times> mem_pool \<times> ptr" where
  "mmap_helper_rdev_mmap readat m pool offset sz =
     (let (mapping, pool) = mem_pool_alloc pool sz in
      if mapping = NULL then (m, pool, NULL)
      else let (bs, n) = readat m offset sz; m = mem_write m mapping bs in
        if n \<noteq> sz then (m, mem_pool_free pool mapping, NULL)
        else (m, pool, mapping))"

definition mmap_helper_rdev_munmap :: "mem_pool \<Rightarrow> ptr \<Rightarrow> mem_pool \<times> ssize" where
  "mmap_helper_rdev_munmap pool mapping = (mem_pool_free pool mapping, 0)"

section \<open>Windows without wrap-around\<close>

definition region_ok :: "region \<Rightarrow> bool" where
  "region_ok r \<longleftrightarrow> unat (r_offset r) + unat (r_size r) < 2 ^ 32"

lemma unat_region_end: "region_ok r \<Longrightarrow> unat (region_end r) = unat (r_offset r) + unat (r_size r)"
  using unat_add_nowrap [of "r_size r" "r_offset r"] by (simp add: region_ok_def region_end_def)

lemma region_is_subregion_nat:
  assumes "region_ok p" and "region_ok c"
  shows "region_is_subregion p c \<longleftrightarrow>
    unat (r_offset p) \<le> unat (r_offset c) \<and>
    unat (r_offset c) + unat (r_size c) \<le> unat (r_offset p) + unat (r_size p)"
  using assms
  by (simp add: region_is_subregion_def word_less_nat_alt unat_region_end)

lemma region_ok_subregion: "region_is_subregion p c \<Longrightarrow> r_size c \<le> r_size p"
  by (auto simp: region_is_subregion_def not_less split: if_splits)

definition in_window :: "region \<Rightarrow> usize \<Rightarrow> usize \<Rightarrow> bool" where
  "in_window r offset sz \<longleftrightarrow> unat offset + unat sz \<le> unat (r_size r)"

lemma normalize_and_ok_in_window:
  assumes ok: "region_ok outer" and w: "in_window outer offset sz"
  shows "normalize_and_ok outer \<lparr>r_offset = offset, r_size = sz\<rparr> =
    (\<lparr>r_offset = offset + r_offset outer, r_size = sz\<rparr>, True)"
proof -
  have sum: "unat (offset + r_offset outer) = unat offset + unat (r_offset outer)"
    using assms by (intro unat_add_nowrap) (simp add: region_ok_def in_window_def)
  have "region_is_subregion outer \<lparr>r_offset = offset + r_offset outer, r_size = sz\<rparr>"
    using assms by (subst region_is_subregion_nat) (simp_all add: region_ok_def in_window_def sum)
  then show ?thesis by (simp add: normalize_and_ok_def)
qed

text \<open>Rejected without memory access: any request that ends past the window without wrapping.\<close>

lemma normalize_and_ok_out_of_window:
  assumes "region_ok outer"
    and "unat offset + unat (r_offset outer) + unat sz < 2 ^ 32" and "\<not> in_window outer offset sz"
  shows "snd (normalize_and_ok outer \<lparr>r_offset = offset, r_size = sz\<rparr>) = False"
proof -
  have sum: "unat (offset + r_offset outer) = unat offset + unat (r_offset outer)"
    using assms by (intro unat_add_nowrap) simp
  show ?thesis
    using assms by (simp add: normalize_and_ok_def region_is_subregion_nat region_ok_def sum in_window_def)
qed

lemma rdev_chain_in_window:
  "region_ok (rdev_region parent) \<Longrightarrow> in_window (rdev_region parent) offset sz \<Longrightarrow>
   rdev_chain parent offset sz = Some (Child (rdev_root parent)
     \<lparr>r_offset = offset + region_device_offset parent, r_size = sz\<rparr>)"
  by (simp add: rdev_chain_def normalize_and_ok_in_window region_device_offset_def)

lemma region_ok_chain:
  assumes "region_ok (rdev_region parent)" and "in_window (rdev_region parent) offset sz"
    and "rdev_chain parent offset sz = Some child"
  shows "region_ok (rdev_region child)" and "region_device_sz child = sz"
proof -
  have "unat (offset + r_offset (rdev_region parent)) = unat offset + unat (r_offset (rdev_region parent))"
    using assms(1,2) by (intro unat_add_nowrap) (simp add: region_ok_def in_window_def)
  with assms show "region_ok (rdev_region child)"
    by (auto simp: rdev_chain_in_window region_ok_def in_window_def region_device_offset_def)
  show "region_device_sz child = sz"
    using assms by (auto simp: rdev_chain_in_window region_device_sz_def)
qed

lemma in_window_shift:
  assumes "in_window outer offset sz" and "unat o' + unat n \<le> unat sz"
  shows "in_window outer (offset + o') n"
proof -
  have "unat (offset + o') = unat offset + unat o'"
    using assms unat_lt32 [of "r_size outer"] by (intro unat_add_nowrap) (simp add: in_window_def)
  then show ?thesis using assms by (simp add: in_window_def)
qed

lemma normalize_chain:
  assumes "region_ok (rdev_region parent)" and "in_window (rdev_region parent) offset sz"
    and "rdev_chain parent offset sz = Some child" and "unat o' + unat n \<le> unat sz"
  shows "normalize_and_ok (rdev_region child) \<lparr>r_offset = o', r_size = n\<rparr> =
    normalize_and_ok (rdev_region parent) \<lparr>r_offset = offset + o', r_size = n\<rparr>"
    and "rdev_root child = rdev_root parent"
proof -
  have child: "child = Child (rdev_root parent)
      \<lparr>r_offset = offset + region_device_offset parent, r_size = sz\<rparr>"
    using assms(1-3) by (simp add: rdev_chain_in_window)
  have "in_window (rdev_region child) o' n"
    using assms(4) by (simp add: child in_window_def)
  then have "normalize_and_ok (rdev_region child) \<lparr>r_offset = o', r_size = n\<rparr> =
      (\<lparr>r_offset = o' + r_offset (rdev_region child), r_size = n\<rparr>, True)"
    using region_ok_chain(1) [OF assms(1-3)] by (rule normalize_and_ok_in_window [rotated])
  moreover have "normalize_and_ok (rdev_region parent) \<lparr>r_offset = offset + o', r_size = n\<rparr> =
      (\<lparr>r_offset = offset + o' + r_offset (rdev_region parent), r_size = n\<rparr>, True)"
    using assms by (intro normalize_and_ok_in_window in_window_shift)
  ultimately show "normalize_and_ok (rdev_region child) \<lparr>r_offset = o', r_size = n\<rparr> =
      normalize_and_ok (rdev_region parent) \<lparr>r_offset = offset + o', r_size = n\<rparr>"
    by (simp add: child region_device_offset_def add_ac)
  show "rdev_root child = rdev_root parent" by (simp add: child)
qed

text \<open>The operations of a child are those of its parent at the shifted offset.\<close>

lemma chain_ops:
  assumes "region_ok (rdev_region parent)" and "in_window (rdev_region parent) offset sz"
    and "rdev_chain parent offset sz = Some child" and "unat o' + unat n \<le> unat sz"
  shows chain_readat: "rdev_readat m child o' n = rdev_readat m parent (offset + o') n"
    and chain_writeat: "rdev_writeat m child b o' n = rdev_writeat m parent b (offset + o') n"
    and chain_eraseat: "rdev_eraseat m child o' n = rdev_eraseat m parent (offset + o') n"
    and chain_mmap: "rdev_mmap child o' n = rdev_mmap parent (offset + o') n"
  using normalize_chain [OF assms]
  by (simp_all only: rdev_readat.simps(1) rdev_writeat.simps(1) rdev_eraseat.simps(1) rdev_mmap.simps(1))

section \<open>Memory-backed devices as byte stores\<close>

text \<open>
  A device whose root is memory-mapped and whose window does not wrap shows the bytes at
  \<open>rdev_base\<close>; \<open>rdev_bytes\<close> is what it holds.
\<close>

definition mem_backed :: "region_device \<Rightarrow> bool" where
  "mem_backed rd \<longleftrightarrow> region_ok (rdev_region rd) \<and>
     (case root_ops (rdev_root rd) of Mem_ops rw _ \<Rightarrow> rw | _ \<Rightarrow> False)"

definition rdev_base :: "region_device \<Rightarrow> ptr" where
  "rdev_base rd = (case root_ops (rdev_root rd) of
     Mem_ops _ base \<Rightarrow> base + region_device_offset rd | _ \<Rightarrow> NULL)"

definition rdev_bytes :: "mem \<Rightarrow> region_device \<Rightarrow> u8 list" where
  "rdev_bytes m rd = mem_read m (rdev_base rd) (unat (region_device_sz rd))"

lemma length_rdev_bytes [simp]: "length (rdev_bytes m rd) = unat (region_device_sz rd)"
  by (simp add: rdev_bytes_def)

lemma mem_backed_readat:
  assumes "mem_backed rd" and "in_window (rdev_region rd) offset sz"
  shows "rdev_readat m rd offset sz = (take (unat sz) (drop (unat offset) (rdev_bytes m rd)), sz)"
proof -
  obtain base where ops: "root_ops (rdev_root rd) = Mem_ops True base"
    using assms(1) by (auto simp: mem_backed_def split: rdev_ops.splits)
  have "rdev_readat m rd offset sz = (mem_read m (base + (offset + r_offset (rdev_region rd))) (unat sz), sz)"
    using assms ops
    by (simp add: rdev_readat.simps(1) mem_backed_def normalize_and_ok_in_window mdev_readat_def)
  moreover have "mem_read m (base + (offset + r_offset (rdev_region rd))) (unat sz)
      = take (unat sz) (drop (unat offset) (rdev_bytes m rd))"
    using assms(2) ops
    by (intro nth_equalityI)
      (simp_all add: in_window_def rdev_bytes_def rdev_base_def region_device_sz_def
        region_device_offset_def add_ac)
  ultimately show ?thesis by simp
qed

lemma mem_backed_writeat:
  assumes "mem_backed rd" and "in_window (rdev_region rd) offset sz"
  shows "rdev_writeat m rd b offset sz = (mem_write m (rdev_base rd + offset) (take (unat sz) b), sz)"
proof -
  obtain base where ops: "root_ops (rdev_root rd) = Mem_ops True base"
    using assms(1) by (auto simp: mem_backed_def split: rdev_ops.splits)
  then show ?thesis using assms
    by (simp add: rdev_writeat.simps(1) mem_backed_def normalize_and_ok_in_window mdev_writeat_def
        rdev_base_def region_device_offset_def add_ac)
qed

lemma mem_backed_eraseat:
  assumes "mem_backed rd" and "in_window (rdev_region rd) offset sz"
  shows "rdev_eraseat m rd offset sz = (mem_write m (rdev_base rd + offset) (replicate (unat sz) 0), sz)"
proof -
  obtain base where ops: "root_ops (rdev_root rd) = Mem_ops True base"
    using assms(1) by (auto simp: mem_backed_def split: rdev_ops.splits)
  then show ?thesis using assms
    by (simp add: rdev_eraseat.simps(1) mem_backed_def normalize_and_ok_in_window mdev_eraseat_def
        rdev_base_def region_device_offset_def add_ac)
qed

lemma nth_mem_write_window:
  assumes "unat offset + length bs \<le> n" and "n \<le> 2 ^ 32" and "i < n"
  shows "mem_write m (base + offset) bs (base + of_nat i) =
    (if unat offset \<le> i \<and> i < unat offset + length bs then bs ! (i - unat offset) else m (base + of_nat i))"
proof (cases "unat offset \<le> i")
  case True
  have "(base + of_nat i) - (base + offset) = of_nat (i - unat offset)"
    using True by (simp add: of_nat_diff)
  moreover have "unat (of_nat (i - unat offset) :: ptr) = i - unat offset"
    using assms by (intro unat_of_nat_id) simp
  ultimately have "unat ((base + of_nat i) - (base + offset)) = i - unat offset" by (simp only:)
  then show ?thesis using True by (auto simp: mem_write_def Let_def)
next
  case False
  define k where "k = unat offset - i"
  have k: "0 < k" "k \<le> unat offset" using False by (simp_all add: k_def)
  then have uk: "unat (of_nat k :: ptr) = k"
    using unat_lt32 [of offset] by (intro unat_of_nat_id) simp
  have "offset = of_nat (unat offset)" by simp
  then have diff: "(base + offset) - (base + of_nat i) = of_nat k"
    using False unfolding k_def by (simp add: of_nat_diff)
  have ne: "base + of_nat i \<noteq> base + offset"
  proof
    assume "base + of_nat i = base + offset"
    with diff have "(of_nat k :: ptr) = 0" by (simp only: diff_self)
    with uk k(1) show False by simp
  qed
  have "unat ((base + of_nat i) - (base + offset)) + k = 2 ^ LENGTH(32)"
    using unat_sub_sum [OF ne] unfolding diff uk by (simp only: add.commute)
  then have "unat ((base + of_nat i) - (base + offset)) + k = 2 ^ 32" by simp
  then have "length bs \<le> unat ((base + of_nat i) - (base + offset))"
    using assms(1,2) k(2) by simp
  then show ?thesis using False by (simp add: mem_write_def Let_def)
qed

lemma rdev_bytes_write:
  assumes "in_window (rdev_region rd) offset sz" and "length bs = unat sz"
  shows "rdev_bytes (mem_write m (rdev_base rd + offset) bs) rd =
    take (unat offset) (rdev_bytes m rd) @ bs @ drop (unat offset + unat sz) (rdev_bytes m rd)"
proof -
  define n where "n = unat (region_device_sz rd)"
  have w: "unat offset + length bs \<le> n" and n: "n \<le> 2 ^ 32"
    using assms unat_lt32 [of "region_device_sz rd"]
    by (simp_all add: in_window_def region_device_sz_def n_def)
  then have "rdev_bytes (mem_write m (rdev_base rd + offset) bs) rd ! i =
      (take (unat offset) (rdev_bytes m rd) @ bs @ drop (unat offset + unat sz) (rdev_bytes m rd)) ! i"
    if "i < n" for i
    using nth_mem_write_window [OF w n that, of m "rdev_base rd"] that assms(2)
    by (auto simp: rdev_bytes_def nth_append n_def)
  then show ?thesis
    using w assms(2) by (intro nth_equalityI) (simp_all add: n_def)
qed

section \<open>Properties\<close>

definition region_addrs :: "region \<Rightarrow> nat set" where
  "region_addrs r = {unat (r_offset r) ..< unat (r_offset r) + unat (r_size r)}"

text \<open>
  For regions that do not wrap around the address space and a non-empty candidate,
  \<open>region_is_subregion\<close> accepts exactly the candidates whose addresses all belong to the
  outer region.
\<close>

theorem subregion_iff_contained:
  assumes "region_ok p" and "region_ok c" and "r_size c \<noteq> 0"
  shows "region_is_subregion p c \<longleftrightarrow> region_addrs c \<subseteq> region_addrs p"
proof -
  have "0 < unat (r_size c)" using assms(3) by (simp add: unat_gt_0)
  then show ?thesis
    using region_is_subregion_nat [OF assms(1,2)] by (auto simp: region_addrs_def)
qed

theorem subregion_iff_contained_witness:
  "region_is_subregion \<lparr>r_offset = 16, r_size = 64\<rparr> \<lparr>r_offset = 32, r_size = 48\<rparr> \<longleftrightarrow>
   region_addrs \<lparr>r_offset = 32, r_size = 48\<rparr> \<subseteq> region_addrs \<lparr>r_offset = 16, r_size = 64\<rparr>"
  by (rule subregion_iff_contained) (simp_all add: region_ok_def)

text \<open>
  The containment test is evaluated modulo the word size, so a request that wraps
  passes it: a 4 KiB memory-backed device at any base serves a 32-byte read at offset
  0xfffffff0, and the bytes delivered start 16 bytes below the device.
\<close>

theorem wrapping_request_escapes_window:
  "rdev_readat m (mem_region_device_ro_init self base 0x1000) 0xfffffff0 0x20 =
     (mem_read m (base - 16) 32, 0x20)"
proof -
  have "(4294967280 :: ptr) = - 16" by simp
  then have eq: "base + 4294967280 = base - 16"
    by (simp only: diff_conv_add_uminus)
  show ?thesis
    by (simp add: mem_region_device_ro_init_def mem_region_device_init_def rdev_readat.simps(1)
        normalize_and_ok_def region_is_subregion_def region_end_def mdev_readat_def)
      (simp only: eq)
qed

text \<open>
  C11: A device chained from a window of its parent that does not wrap serves every request
  inside its own window exactly as the parent serves the request moved by the chain offset:
  reads, writes, erases and mappings alike, whatever operation table the root has.
\<close>

theorem chained_device_is_parent_window:
  assumes "region_ok (rdev_region parent)"
    and "unat offset + unat sz \<le> unat (region_device_sz parent)"
    and "unat o' + unat n \<le> unat sz"
  shows "\<exists>child. rdev_chain parent offset sz = Some child \<and>
    region_device_sz child = sz \<and>
    rdev_readat m child o' n = rdev_readat m parent (offset + o') n \<and>
    rdev_writeat m child b o' n = rdev_writeat m parent b (offset + o') n \<and>
    rdev_eraseat m child o' n = rdev_eraseat m parent (offset + o') n \<and>
    rdev_mmap child o' n = rdev_mmap parent (offset + o') n"
proof -
  have w: "in_window (rdev_region parent) offset sz"
    using assms(2) by (simp add: in_window_def region_device_sz_def)
  obtain child where c: "rdev_chain parent offset sz = Some child"
    using rdev_chain_in_window [OF assms(1) w] by blast
  show ?thesis
    using c region_ok_chain(2) [OF assms(1) w c] chain_ops [OF assms(1) w c assms(3)] by blast
qed

theorem chained_device_is_parent_window_witness:
  "\<exists>child. rdev_chain (mem_region_device_rw_init 4 0x10000 0x1000) 0x100 0x80 = Some child \<and>
    region_device_sz child = 0x80 \<and>
    rdev_readat (\<lambda>_. 0) child 8 16 = rdev_readat (\<lambda>_. 0) (mem_region_device_rw_init 4 0x10000 0x1000) (0x100 + 8) 16 \<and>
    rdev_writeat (\<lambda>_. 0) child [1] 8 16 = rdev_writeat (\<lambda>_. 0) (mem_region_device_rw_init 4 0x10000 0x1000) [1] (0x100 + 8) 16 \<and>
    rdev_eraseat (\<lambda>_. 0) child 8 16 = rdev_eraseat (\<lambda>_. 0) (mem_region_device_rw_init 4 0x10000 0x1000) (0x100 + 8) 16 \<and>
    rdev_mmap child 8 16 = rdev_mmap (mem_region_device_rw_init 4 0x10000 0x1000) (0x100 + 8) 16"
  by (rule chained_device_is_parent_window)
    (simp_all add: region_ok_def mem_region_device_rw_init_def mem_region_device_init_def
      region_device_sz_def)

text \<open>
  C12: A write through a writable memory-backed device, chained or not, to a range inside the
  window reports the full size, replaces exactly that range of the device's bytes, touches no
  memory outside it, and a read of the range then returns the bytes written.
\<close>

theorem mem_rdev_write_read:
  assumes "mem_backed rd" and "in_window (rdev_region rd) offset sz" and "length bs = unat sz"
  shows "\<exists>m'. rdev_writeat m rd bs offset sz = (m', sz) \<and>
    rdev_readat m' rd offset sz = (bs, sz) \<and>
    rdev_bytes m' rd =
      take (unat offset) (rdev_bytes m rd) @ bs @ drop (unat offset + unat sz) (rdev_bytes m rd) \<and>
    (\<forall>p. unat sz \<le> unat (p - (rdev_base rd + offset)) \<longrightarrow> m' p = m p)"
proof (intro exI conjI allI impI)
  let ?m' = "mem_write m (rdev_base rd + offset) bs"
  show "rdev_writeat m rd bs offset sz = (?m', sz)"
    using assms by (simp add: mem_backed_writeat)
  show bytes: "rdev_bytes ?m' rd =
      take (unat offset) (rdev_bytes m rd) @ bs @ drop (unat offset + unat sz) (rdev_bytes m rd)"
    using assms(2,3) by (rule rdev_bytes_write)
  show "rdev_readat ?m' rd offset sz = (bs, sz)"
    using assms by (simp add: mem_backed_readat bytes in_window_def region_device_sz_def)
  fix p assume "unat sz \<le> unat (p - (rdev_base rd + offset))"
  then show "?m' p = m p" using assms(3) by (simp add: mem_write_def)
qed

theorem mem_rdev_write_read_witness:
  "\<exists>m'. rdev_writeat (\<lambda>_. 0) (mem_region_device_rw_init 4 0x10000 0x1000) [1, 2] 6 2 = (m', 2) \<and>
    rdev_readat m' (mem_region_device_rw_init 4 0x10000 0x1000) 6 2 = ([1, 2], 2)"
  using mem_rdev_write_read [of "mem_region_device_rw_init 4 0x10000 0x1000" 6 2 "[1, 2]" "\<lambda>_. 0"]
  by (auto simp: mem_backed_def region_ok_def mem_region_device_rw_init_def
      mem_region_device_init_def in_window_def)

text \<open>
  A translated device answers a request inside its translation window as the access
  device answers the request made relative to that window, and refuses every other request
  of the published range without reading anything.
\<close>

theorem xlate_readat_translates:
  assumes "rd = xlate_region_device_ro_init self acc sub_off sub_sz parent_sz"
    and "unat sub_off + unat sub_sz < 2 ^ 32"
    and "unat offset + unat n \<le> unat parent_sz"
  shows "rdev_readat m rd offset n =
    (if unat sub_off \<le> unat offset \<and> unat offset + unat n \<le> unat sub_off + unat sub_sz
     then rdev_readat m acc (offset - sub_off) n else ([], -1))"
proof -
  have "region_ok \<lparr>r_offset = offset, r_size = n\<rparr>" "region_ok \<lparr>r_offset = sub_off, r_size = sub_sz\<rparr>"
    "region_ok \<lparr>r_offset = 0, r_size = parent_sz\<rparr>" "in_window \<lparr>r_offset = 0, r_size = parent_sz\<rparr> offset n"
    using assms(2,3) unat_lt32 [of parent_sz] by (simp_all add: region_ok_def in_window_def)
  then show ?thesis
    unfolding assms(1)
    by (simp add: xlate_region_device_ro_init_def xlate_region_device_init_def region_device_init_def
        rdev_readat.simps normalize_and_ok_in_window region_is_subregion_nat)
qed

theorem xlate_readat_translates_witness:
  "rdev_readat (\<lambda>_. 7) (xlate_region_device_ro_init 8 (mem_region_device_ro_init 4 0x10000 0x100) 0xff00 0x100 0x10000)
     0xff10 4 = rdev_readat (\<lambda>_. 7) (mem_region_device_ro_init 4 0x10000 0x100) 0x10 4"
  by (simp add: xlate_readat_translates [OF refl])

text \<open>
  The cached mapping of a device without memory-mapped media keeps its pool balanced:
  the mapping, when it succeeds, holds the bytes the driver read; unmapping it, and likewise
  a read that falls short, returns the bump offset of the pool to where it was.
\<close>

theorem mmap_helper_balanced:
  assumes "mem_pool_wf pool"
    and "mmap_helper_rdev_mmap readat m pool offset sz = (m', pool', mapping)"
    and "length (fst (readat m offset sz)) \<le> 2 ^ 32"
  shows "if mapping = NULL then mp_free_offset pool' = mp_free_offset pool
    else mem_read m' mapping (length (fst (readat m offset sz))) = fst (readat m offset sz) \<and>
      snd (readat m offset sz) = sz \<and>
      mp_free_offset (fst (mmap_helper_rdev_munmap pool' mapping)) = mp_free_offset pool"
proof -
  obtain p q where a: "mem_pool_alloc pool sz = (p, q)" by fastforce
  obtain bs n where r: "readat m offset sz = (bs, n)" by fastforce
  show ?thesis
  proof (cases rule: mem_pool_alloc_cases [OF assms(1) a])
    case 1
    with assms(2) a show ?thesis by (simp add: mmap_helper_rdev_mmap_def)
  next
    case 2
    note free = mem_pool_free_alloc [OF assms(1) a \<open>p \<noteq> NULL\<close>]
    have "(m', pool', mapping) = (if n \<noteq> sz then (mem_write m p bs, mem_pool_free q p, NULL)
        else (mem_write m p bs, q, p))"
      using assms(2) a r \<open>p \<noteq> NULL\<close> by (simp add: mmap_helper_rdev_mmap_def Let_def)
    then show ?thesis
      using assms(3) \<open>p \<noteq> NULL\<close>
      by (cases "n = sz") (simp_all add: r free mmap_helper_rdev_munmap_def mem_read_write_same)
  qed
qed

theorem mmap_helper_balanced_witness:
  "case mmap_helper_rdev_mmap (\<lambda>m off n. ([7, 8], n)) (\<lambda>_. 0) (mmap_helper_device_init 64 32) 0 2 of
     (m', pool', mapping) \<Rightarrow> mapping = 64 \<and> mem_read m' mapping 2 = [7, 8] \<and>
       mp_free_offset (fst (mmap_helper_rdev_munmap pool' mapping)) = 0"
proof -
  obtain m' pool' mapping where r: "mmap_helper_rdev_mmap (\<lambda>m off n. ([7, 8], n)) (\<lambda>_. 0)
      (mmap_helper_device_init 64 32) 0 2 = (m', pool', mapping)"
    by (rule prod_cases3)
  have m: "mapping = 64"
    using r by (simp add: mmap_helper_rdev_mmap_def mmap_helper_device_init_def mem_pool_init_def
        mem_pool_reset_def mem_pool_alloc_def align_up_def Let_def)
  have "mem_pool_wf (mmap_helper_device_init 64 32)"
    by (simp add: mmap_helper_device_init_def mem_pool_wf_init)
  from mmap_helper_balanced [OF this r]
  have "mem_read m' mapping (length [7, 8 :: u8]) = [7, 8]"
    and "mp_free_offset (fst (mmap_helper_rdev_munmap pool' mapping)) = 0"
    by (simp_all add: m mmap_helper_device_init_def mem_pool_init_def mem_pool_reset_def)
  moreover have "length [7, 8 :: u8] = 2" by simp
  ultimately show ?thesis
    unfolding r by (simp only: m prod.case simp_thms)
qed

end
