(* ===== verification/Memrange.thy ===== *)
theory Memrange
  imports Prelude
begin

text \<open>
  Tagged address ranges, \<^verbatim>\<open>src/lib/memrange.c\<close>. The singly linked list of entries is a
  list, in address order; the list of free entries keeps the stale entries it links. A walk
  that keeps a \<^verbatim>\<open>prev_ptr\<close> into the list is a recursion over the rest of the list that
  returns the rewritten rest and the free list. \<open>ram\<close> is \<^verbatim>\<open>ENV_RAMSTAGE\<close>, the stage where
  a new entry can come from \<^verbatim>\<open>malloc\<close> (which halts the machine rather than fail);
  elsewhere an empty free list makes the allocation fail.

  The abstract view of a list is \<open>tag_at\<close>: the tag of the range an address lies in.
\<close>

section \<open>Data\<close>

record range_entry =
  re_begin :: resource_t
  re_end :: resource_t   \<comment> \<open>inclusive\<close>
  re_tag :: u32

record memranges =
  mr_entries :: "range_entry list"
  mr_free_list :: "range_entry list"

definition range_entry_init :: "resource_t \<Rightarrow> resource_t \<Rightarrow> u32 \<Rightarrow> range_entry" where
  "range_entry_init incl_begin excl_end tag =
     \<lparr>re_begin = incl_begin, re_end = excl_end - 1, re_tag = tag\<rparr>"

definition range_entry_base :: "range_entry \<Rightarrow> resource_t" where
  "range_entry_base r = re_begin r"

definition range_entry_end :: "range_entry \<Rightarrow> resource_t" where
  "range_entry_end r = re_end r + 1"

definition range_entry_size :: "range_entry \<Rightarrow> resource_t" where
  "range_entry_size r = re_end r - re_begin r + 1"

section \<open>List surgery\<close>

definition alloc_range :: "bool \<Rightarrow> range_entry list \<Rightarrow> range_entry list option" where
  "alloc_range ram fr = (case fr of _ # fr' \<Rightarrow> Some fr' | [] \<Rightarrow> if ram then Some [] else None)"

text \<open>\<open>range_list_add\<close> links a new entry before the rest \<open>es\<close> of the list.\<close>

definition range_list_add ::
    "bool \<Rightarrow> range_entry list \<times> range_entry list \<Rightarrow> resource_t \<Rightarrow> resource_t \<Rightarrow> u32
     \<Rightarrow> range_entry list \<times> range_entry list" where
  "range_list_add ram = (\<lambda>(es, fr) b e tag. case alloc_range ram fr of
     None \<Rightarrow> (es, fr)
   | Some fr' \<Rightarrow> (\<lparr>re_begin = b, re_end = e, re_tag = tag\<rparr> # es, fr'))"

fun merge_from :: "range_entry \<Rightarrow> range_entry list \<Rightarrow> range_entry list
    \<Rightarrow> range_entry list \<times> range_entry list" where
  "merge_from prev [] fr = ([prev], fr)"
| "merge_from prev (cur # rest) fr =
     (if re_end prev + 1 \<ge> re_begin cur \<and> re_tag prev = re_tag cur
      then merge_from (prev\<lparr>re_end := re_end cur\<rparr>) rest (cur # fr)
      else let (es, fr') = merge_from cur rest fr in (prev # es, fr'))"

definition merge_neighbor_entries :: "memranges \<Rightarrow> memranges" where
  "merge_neighbor_entries mr = (case mr_entries mr of
     [] \<Rightarrow> mr
   | e # es \<Rightarrow> let (es', fr') = merge_from e es (mr_free_list mr)
               in mr\<lparr>mr_entries := es', mr_free_list := fr'\<rparr>)"

fun remove_loop :: "bool \<Rightarrow> range_entry list \<Rightarrow> range_entry list \<Rightarrow> resource_t \<Rightarrow> resource_t
    \<Rightarrow> range_entry list \<times> range_entry list" where
  "remove_loop ram [] fr b e = ([], fr)"
| "remove_loop ram (cur # rest) fr b e =
     (if e < re_begin cur then (cur # rest, fr)
      else if b > re_end cur then
        let (es, fr') = remove_loop ram rest fr b e in (cur # es, fr')
      else if b \<le> re_begin cur \<and> e \<ge> re_end cur then
        remove_loop ram rest (cur # fr) (re_end cur + 1) e
      else
        let b = (if b \<le> re_begin cur then re_begin cur else b);
            tmp_end = (if e > re_end cur then re_end cur else e)
        in if b > re_begin cur \<and> tmp_end < re_end cur then
             let (es, fr') = range_list_add ram (rest, fr) (e + 1) (re_end cur) (re_tag cur)
             in (cur\<lparr>re_end := b - 1\<rparr> # es, fr')
           else
             let cur1 = (if b = re_begin cur then cur\<lparr>re_begin := tmp_end + 1\<rparr> else cur);
                 cur2 = (if tmp_end = re_end cur1 then cur1\<lparr>re_end := b - 1\<rparr> else cur1);
                 (es, fr') = remove_loop ram rest fr b e
             in (cur2 # es, fr'))"

definition remove_memranges :: "bool \<Rightarrow> memranges \<Rightarrow> resource_t \<Rightarrow> resource_t \<Rightarrow> u32 \<Rightarrow> memranges" where
  "remove_memranges ram mr b e unused =
     (let (es, fr) = remove_loop ram (mr_entries mr) (mr_free_list mr) b e
      in mr\<lparr>mr_entries := es, mr_free_list := fr\<rparr>)"

text \<open>The new entry goes before the first entry that starts after its end.\<close>

fun insert_loop :: "bool \<Rightarrow> range_entry list \<Rightarrow> range_entry list \<Rightarrow> resource_t \<Rightarrow> resource_t \<Rightarrow> u32
    \<Rightarrow> range_entry list \<times> range_entry list" where
  "insert_loop ram [] fr b e tag = range_list_add ram ([], fr) b e tag"
| "insert_loop ram (cur # rest) fr b e tag =
     (if e < re_begin cur then range_list_add ram (cur # rest, fr) b e tag
      else let (es, fr') = insert_loop ram rest fr b e tag in (cur # es, fr'))"

definition merge_add_memranges :: "bool \<Rightarrow> memranges \<Rightarrow> resource_t \<Rightarrow> resource_t \<Rightarrow> u32 \<Rightarrow> memranges" where
  "merge_add_memranges ram mr b e tag =
     (let mr = remove_memranges ram mr b e (-1);
          (es, fr) = insert_loop ram (mr_entries mr) (mr_free_list mr) b e tag
      in merge_neighbor_entries (mr\<lparr>mr_entries := es, mr_free_list := fr\<rparr>))"

definition memranges_update_tag :: "memranges \<Rightarrow> u32 \<Rightarrow> u32 \<Rightarrow> memranges" where
  "memranges_update_tag mr old_tag new_tag =
     merge_neighbor_entries (mr\<lparr>mr_entries :=
       map (\<lambda>r. if re_tag r = old_tag then r\<lparr>re_tag := new_tag\<rparr> else r) (mr_entries mr)\<rparr>)"

definition do_action ::
    "memranges \<Rightarrow> resource_t \<Rightarrow> resource_t \<Rightarrow> u32
     \<Rightarrow> (memranges \<Rightarrow> resource_t \<Rightarrow> resource_t \<Rightarrow> u32 \<Rightarrow> memranges) \<Rightarrow> memranges" where
  "do_action mr base sz tag action =
     (if sz = 0 then mr
      else let b = align_down base 4096;
               e = b + sz + (base - b);
               e = align_up e 4096 - 1
           in action mr b e tag)"

definition memranges_create_hole :: "bool \<Rightarrow> memranges \<Rightarrow> resource_t \<Rightarrow> resource_t \<Rightarrow> memranges" where
  "memranges_create_hole ram mr base sz = do_action mr base sz (-1) (remove_memranges ram)"

definition memranges_insert :: "bool \<Rightarrow> memranges \<Rightarrow> resource_t \<Rightarrow> resource_t \<Rightarrow> u32 \<Rightarrow> memranges" where
  "memranges_insert ram mr base sz tag = do_action mr base sz tag (merge_add_memranges ram)"

section \<open>Populating from device resources\<close>

record resource =
  res_base :: resource_t
  res_size :: resource_t
  res_limit :: resource_t
  res_flags :: u32
  res_index :: u32
  res_align :: u8
  res_gran :: u8

record device =
  dev_enabled :: bool
  dev_path_type :: nat
  dev_class :: u32
  dev_resource_list :: "resource list"

definition IORESOURCE_MEM :: u32 where "IORESOURCE_MEM = 0x200"
definition IORESOURCE_PREFETCH :: u32 where "IORESOURCE_PREFETCH = 0x1000"
definition IORESOURCE_SUBTRACTIVE :: u32 where "IORESOURCE_SUBTRACTIVE = 0x40000"
definition IORESOURCE_CACHEABLE :: u32 where "IORESOURCE_CACHEABLE = 0x4000"
definition IORESOURCE_RESERVE :: u32 where "IORESOURCE_RESERVE = 0x10000000"

text \<open>\<^verbatim>\<open>search_global_resources\<close> calls back for every matching resource, in device order.\<close>

definition search_global_resources ::
    "device list \<Rightarrow> u32 \<Rightarrow> u32 \<Rightarrow> (device \<Rightarrow> resource \<Rightarrow> 's \<Rightarrow> 's) \<Rightarrow> 's \<Rightarrow> 's" where
  "search_global_resources all_devices type_mask type search s =
     fold (\<lambda>dev s. if \<not> dev_enabled dev then s
        else fold (\<lambda>res s.
               if res_flags res AND type_mask \<noteq> type then s
               else if res_flags res AND IORESOURCE_SUBTRACTIVE \<noteq> 0 then s
               else search dev res s) (dev_resource_list dev) s) all_devices s"

definition collect_ranges ::
    "bool \<Rightarrow> u32 \<Rightarrow> (device \<Rightarrow> resource \<Rightarrow> bool) option \<Rightarrow> device \<Rightarrow> resource \<Rightarrow> memranges \<Rightarrow> memranges" where
  "collect_ranges ram tag filt dev res mr =
     (if res_size res = 0 then mr
      else if (case filt of None \<Rightarrow> True | Some f \<Rightarrow> f dev res)
        then memranges_insert ram mr (res_base res) (res_size res) tag
      else mr)"

definition memranges_add_resources_filter ::
    "bool \<Rightarrow> device list \<Rightarrow> memranges \<Rightarrow> u32 \<Rightarrow> u32 \<Rightarrow> u32 \<Rightarrow> (device \<Rightarrow> resource \<Rightarrow> bool) option \<Rightarrow> memranges" where
  "memranges_add_resources_filter ram devs mr msk match tag filt =
     search_global_resources devs (msk OR IORESOURCE_MEM) (match OR IORESOURCE_MEM)
       (collect_ranges ram tag filt) mr"

definition memranges_add_resources ::
    "bool \<Rightarrow> device list \<Rightarrow> memranges \<Rightarrow> u32 \<Rightarrow> u32 \<Rightarrow> u32 \<Rightarrow> memranges" where
  "memranges_add_resources ram devs mr msk match tag =
     memranges_add_resources_filter ram devs mr msk match tag None"

text \<open>The caller's array of spare entries ends up on the free list, last element first.\<close>

definition memranges_init_empty :: "range_entry list \<Rightarrow> memranges" where
  "memranges_init_empty to_free = \<lparr>mr_entries = [], mr_free_list = rev to_free\<rparr>"

definition memranges_init :: "bool \<Rightarrow> device list \<Rightarrow> u32 \<Rightarrow> u32 \<Rightarrow> u32 \<Rightarrow> memranges" where
  "memranges_init ram devs msk match tag =
     memranges_add_resources ram devs (memranges_init_empty []) msk match tag"

text \<open>
  Cloning allocates one entry per entry; a failed allocation makes the code follow a null
  pointer, \<open>None\<close> here.
\<close>

definition memranges_clone :: "bool \<Rightarrow> memranges \<Rightarrow> memranges option" where
  "memranges_clone ram old =
     (if mr_entries old = [] \<or> ram
      then Some \<lparr>mr_entries = map (\<lambda>r. \<lparr>re_begin = re_begin r, re_end = re_end r, re_tag = re_tag r\<rparr>)
                               (mr_entries old), mr_free_list = []\<rparr>
      else None)"

definition memranges_teardown :: "memranges \<Rightarrow> memranges" where
  "memranges_teardown mr = \<lparr>mr_entries = [], mr_free_list = rev (mr_entries mr) @ mr_free_list mr\<rparr>"

section \<open>Filling holes\<close>

text \<open>
  \<open>fill_from prev rest\<close> is the loop with \<^verbatim>\<open>prev\<close> set; it returns the entries from
  \<^verbatim>\<open>prev\<close> on, the free list, and includes the final range up to the limit.
\<close>

fun fill_from :: "bool \<Rightarrow> range_entry \<Rightarrow> range_entry list \<Rightarrow> range_entry list \<Rightarrow> resource_t \<Rightarrow> u32
    \<Rightarrow> range_entry list \<times> range_entry list" where
  "fill_from ram prev [] fr limit tag =
     (if range_entry_end prev < limit
      then let (es, fr') = range_list_add ram ([], fr) (range_entry_end prev) (limit - 1) tag
           in (prev # es, fr')
      else ([prev], fr))"
| "fill_from ram prev (cur # rest) fr limit tag =
     (let (gap, fr) =
        (if range_entry_end prev \<noteq> re_begin cur
         then let e = re_begin cur - 1;
                  e = (if e \<ge> limit then limit - 1 else e)
              in range_list_add ram ([], fr) (range_entry_end prev) e tag
         else ([], fr));
        (es, fr') =
          (if re_begin cur \<ge> limit
           then if range_entry_end cur < limit
                then let (es, fr') = range_list_add ram (rest, fr) (range_entry_end cur) (limit - 1) tag
                     in (cur # es, fr')
                else (cur # rest, fr)
           else fill_from ram cur rest fr limit tag)
      in (prev # gap @ es, fr'))"

definition memranges_fill_holes_up_to :: "bool \<Rightarrow> memranges \<Rightarrow> resource_t \<Rightarrow> u32 \<Rightarrow> memranges" where
  "memranges_fill_holes_up_to ram mr limit tag =
     (let (es, fr) = (case mr_entries mr of [] \<Rightarrow> ([], mr_free_list mr)
                      | e # es \<Rightarrow> fill_from ram e es (mr_free_list mr) limit tag)
      in merge_neighbor_entries (mr\<lparr>mr_entries := es, mr_free_list := fr\<rparr>))"

section \<open>The abstract view and the list invariant\<close>

fun tag_at :: "range_entry list \<Rightarrow> resource_t \<Rightarrow> u32 option" where
  "tag_at [] a = None"
| "tag_at (r # rs) a = (if re_begin r \<le> a \<and> a \<le> re_end r then Some (re_tag r) else tag_at rs a)"

text \<open>Well-formed ranges, in order and disjoint.\<close>

fun ranges_sorted :: "range_entry list \<Rightarrow> bool" where
  "ranges_sorted [] \<longleftrightarrow> True"
| "ranges_sorted (r # rs) \<longleftrightarrow>
     re_begin r \<le> re_end r \<and> (\<forall>x\<in>set rs. re_end r < re_begin x) \<and> ranges_sorted rs"

text \<open>No two neighbours that touch carry the same tag.\<close>

fun ranges_merged :: "range_entry list \<Rightarrow> bool" where
  "ranges_merged [] \<longleftrightarrow> True"
| "ranges_merged [x] \<longleftrightarrow> True"
| "ranges_merged (x # y # rs) \<longleftrightarrow>
     \<not> (re_end x + 1 = re_begin y \<and> re_tag x = re_tag y) \<and> ranges_merged (y # rs)"

lemma ranges_sorted_begin_end: "ranges_sorted rs \<Longrightarrow> x \<in> set rs \<Longrightarrow> re_begin x \<le> re_end x"
  by (induction rs) auto

lemma tag_at_below: "(\<And>x. x \<in> set rs \<Longrightarrow> a < re_begin x) \<Longrightarrow> tag_at rs a = None"
  by (induction rs) (auto simp: not_le[symmetric])

lemma tag_at_append: "tag_at (xs @ ys) a = (case tag_at xs a of None \<Rightarrow> tag_at ys a | Some t \<Rightarrow> Some t)"
  by (induction xs) auto

lemma tag_at_Some_iff: "tag_at rs a \<noteq> None \<longleftrightarrow> (\<exists>x\<in>set rs. re_begin x \<le> a \<and> a \<le> re_end x)"
  by (induction rs) auto

text \<open>\<open>within xs ys\<close>: every range of \<open>xs\<close> lies inside one of \<open>ys\<close>.\<close>

definition within :: "range_entry list \<Rightarrow> range_entry list \<Rightarrow> bool" where
  "within xs ys \<longleftrightarrow> (\<forall>x\<in>set xs. \<exists>y\<in>set ys. re_begin y \<le> re_begin x \<and> re_end x \<le> re_end y)"

lemma within_refl [simp]: "within xs xs"
  by (auto simp: within_def)

lemma within_Cons: "within xs ys \<Longrightarrow> within xs (y # ys)"
  by (auto simp: within_def)

lemma within_Cons2:
  "within xs ys \<Longrightarrow> re_begin y \<le> re_begin x \<Longrightarrow> re_end x \<le> re_end y \<Longrightarrow> within (x # xs) (y # ys)"
  by (auto simp: within_def)

lemma within_begin:
  "within xs ys \<Longrightarrow> \<forall>y\<in>set ys. a < re_begin y \<Longrightarrow> x \<in> set xs \<Longrightarrow> a < re_begin x"
  unfolding within_def by (meson order_less_le_trans)

section \<open>Removing a range\<close>

lemma inc_less: "(x :: 'a::len word) < y \<Longrightarrow> x < x + 1"
  using inc_less_eq_triv_imp [of x] by (metis not_le word_order.extremum)

lemma alloc_range_ok:
  "ram \<or> fr \<noteq> [] \<Longrightarrow> \<exists>fr1. alloc_range ram fr = Some fr1 \<and> length fr \<le> Suc (length fr1)"
  by (cases fr) (auto simp: alloc_range_def)

lemma dec_less: "(x :: 'a::len word) \<noteq> 0 \<Longrightarrow> x - 1 < x"
  using less_eq_dec_iff [of x x] by (simp add: not_le [symmetric])

lemma remove_loop_correct:
  assumes "ranges_sorted es" and "b \<le> e \<or> (\<forall>x\<in>set es. e < re_begin x)"
    and "ram \<or> fr \<noteq> []" and "remove_loop ram es fr b e = (es', fr')"
  shows "ranges_sorted es' \<and> within es' es \<and> length fr \<le> Suc (length fr') \<and>
    (\<forall>a. tag_at es' a = (if b \<le> a \<and> a \<le> e then None else tag_at es a))"
  using assms
proof (induction ram es fr b e arbitrary: es' fr' rule: remove_loop.induct)
  case (1 ram fr b e)
  then show ?case by simp
next
  case (2 ram cur rest fr b e)
  note prems = "2.prems"
  have cur: "re_begin cur \<le> re_end cur" and rest: "\<forall>x\<in>set rest. re_end cur < re_begin x"
    and srt: "ranges_sorted rest"
    using prems(1) by auto
  have none: "tag_at rest a = None" if "a \<le> re_end cur" for a
    using that rest by (intro tag_at_below) (auto intro: le_less_trans)
  show ?case
  proof (cases "e < re_begin cur")
    case True
    have "tag_at (cur # rest) a = None" if "a \<le> e" for a
      using that True prems(1) by (intro tag_at_below) (auto intro: le_less_trans)
    with True prems show ?thesis by auto
  next
    case e: False
    then have be: "b \<le> e" using prems(2) by auto
    show ?thesis
    proof (cases "b > re_end cur")
      case True
      obtain es1 fr1 where r: "remove_loop ram rest fr b e = (es1, fr1)" by fastforce
      have IH: "ranges_sorted es1 \<and> within es1 rest \<and> length fr \<le> Suc (length fr1) \<and>
          (\<forall>a. tag_at es1 a = (if b \<le> a \<and> a \<le> e then None else tag_at rest a))"
        using "2.IH"(1) [OF e True srt _ prems(3) r] be by simp
      have "es' = cur # es1" "fr' = fr1" using prems(4) e True r by auto
      with IH cur True rest within_begin [of es1 rest] show ?thesis
        by (auto intro: within_Cons2)
    next
      case b: False
      show ?thesis
      proof (cases "b \<le> re_begin cur \<and> e \<ge> re_end cur")
        case cov: True
        have "remove_loop ram rest (cur # fr) (re_end cur + 1) e = (es', fr')"
          using prems(4) e b cov by simp
        moreover have "re_end cur + 1 \<le> e \<or> (\<forall>x\<in>set rest. e < re_begin x)"
          using cov rest by (cases "re_end cur = e") (auto simp: inc_less_eq_iff order.strict_iff_order)
        ultimately have IH: "ranges_sorted es' \<and> within es' rest \<and> length (cur # fr) \<le> Suc (length fr') \<and>
            (\<forall>a. tag_at es' a = (if re_end cur + 1 \<le> a \<and> a \<le> e then None else tag_at rest a))"
          using "2.IH"(2) [OF e b cov srt] by simp
        have "tag_at es' a = (if b \<le> a \<and> a \<le> e then None else tag_at (cur # rest) a)" for a
        proof (cases "re_end cur < a")
          case True
          then have "re_end cur + 1 \<le> a" by (rule inc_le)
          moreover have "b \<le> a" using True b by simp
          ultimately show ?thesis using IH True by auto
        next
          case False
          then have "tag_at es' a = None" using IH none by simp
          then show ?thesis using False none cov by auto
        qed
        with IH within_Cons [of es' rest cur] show ?thesis by simp
      next
        case False
        define b1 tmp where "b1 = (if b \<le> re_begin cur then re_begin cur else b)"
          and "tmp = (if e > re_end cur then re_end cur else e)"
        have b1: "re_begin cur \<le> b1" "b1 \<le> re_end cur" "b \<le> b1" "tmp \<le> re_end cur" "b1 \<le> tmp" "tmp \<le> e"
          using cur b e be by (auto simp: b1_def tmp_def)
        have step: "remove_loop ram (cur # rest) fr b e =
          (if b1 > re_begin cur \<and> tmp < re_end cur then
             let (es, fr') = range_list_add ram (rest, fr) (e + 1) (re_end cur) (re_tag cur)
             in (cur\<lparr>re_end := b1 - 1\<rparr> # es, fr')
           else
             let cur1 = (if b1 = re_begin cur then cur\<lparr>re_begin := tmp + 1\<rparr> else cur);
                 cur2 = (if tmp = re_end cur1 then cur1\<lparr>re_end := b1 - 1\<rparr> else cur1);
                 (es, fr') = remove_loop ram rest fr b1 e
             in (cur2 # es, fr'))"
          using e b False by (simp only: remove_loop.simps if_False b1_def tmp_def Let_def)
        show ?thesis
        proof (cases "b1 > re_begin cur \<and> tmp < re_end cur")
          case True
          then have e1: "e = tmp" by (auto simp: tmp_def split: if_splits)
          obtain fr1 where fr1: "alloc_range ram fr = Some fr1" "length fr \<le> Suc (length fr1)"
            using alloc_range_ok [OF prems(3)] by blast
          have eq: "es' = cur\<lparr>re_end := b1 - 1\<rparr> #
              \<lparr>re_begin = e + 1, re_end = re_end cur, re_tag = re_tag cur\<rparr> # rest" "fr' = fr1"
            using prems(4) step True fr1(1) by (auto simp: range_list_add_def)
          have "b1 = b" using True by (auto simp: b1_def split: if_splits)
          moreover have dec: "b1 - 1 < b1" "re_begin cur \<le> b1 - 1"
            using True by (auto simp: less_eq_dec_iff intro: dec_less)
          moreover have "e < e + 1" using True e1 by (auto intro: inc_less)
          then have "b1 - 1 < e + 1" "re_begin cur \<le> e + 1"
            using dec b1 by auto
          ultimately show ?thesis
            using eq fr1(2) True rest srt e1 b1 none be
            by (auto simp: inc_le inc_less_eq_iff less_eq_dec_iff within_def)
        next
          case shrink: False
          obtain es1 fr1 where r: "remove_loop ram rest fr b1 e = (es1, fr1)" by fastforce
          have IH: "ranges_sorted es1 \<and> within es1 rest \<and> length fr \<le> Suc (length fr1) \<and>
              (\<forall>a. tag_at es1 a = (if b1 \<le> a \<and> a \<le> e then None else tag_at rest a))"
            by (rule "2.IH"(3) [OF e b False b1_def tmp_def shrink refl refl srt disjI1 prems(3) r])
              (use b1 in \<open>auto intro: order_trans\<close>)
          have beyond: "tag_at es1 a = None" if "a \<le> re_end cur" for a
            using IH none [OF that] by simp
          show ?thesis
          proof (cases "b1 = re_begin cur")
            case True
            then have tl: "tmp = e" "e < re_end cur"
              using False e b by (auto simp: b1_def tmp_def split: if_splits)
            have "es' = cur\<lparr>re_begin := e + 1\<rparr> # es1" "fr' = fr1"
              using prems(4) step shrink True r tl by (auto simp: Let_def split: if_splits)
            moreover have "re_begin cur \<le> e + 1"
              using tl b1 True inc_less [OF tl(2)] by auto
            ultimately show ?thesis
              using IH True rest tl b1 beyond none within_begin [of es1 rest] within_Cons2 [of es1 rest]
              by (auto simp: inc_less_eq_iff inc_le)
          next
            case ne: False
            then have tl: "b1 > re_begin cur" "tmp = re_end cur" "b1 = b"
              using b1 shrink by (auto simp: b1_def)
            have "es' = cur\<lparr>re_end := b1 - 1\<rparr> # es1" "fr' = fr1"
              using prems(4) step shrink ne r tl by (auto simp: Let_def split: if_splits)
            moreover have dec: "b1 - 1 < b1" "re_begin cur \<le> b1 - 1"
              using tl b1 by (auto simp: less_eq_dec_iff intro: dec_less)
            moreover have lt: "b1 - 1 < re_end cur"
              using dec(1) b1(2) by (rule less_le_trans)
            moreover have "b1 - 1 < re_begin x" if "x \<in> set es1" for x
              using lt within_begin [OF _ rest that] IH by (blast intro: less_trans)
            ultimately show ?thesis
              using IH rest tl b1 beyond none within_begin [of es1 rest] within_Cons2 [of es1 rest]
              by (auto simp: less_eq_dec_iff)
          qed
        qed
      qed
    qed
  qed
qed

section \<open>Inserting and merging\<close>

lemma free_range_gap:
  assumes "ranges_sorted es" and "b \<le> e" and "\<And>a. b \<le> a \<Longrightarrow> a \<le> e \<Longrightarrow> tag_at es a = None"
    and "x \<in> set es"
  shows "e < re_begin x \<or> re_end x < b"
proof (rule ccontr)
  assume "\<not> (e < re_begin x \<or> re_end x < b)"
  then have "b \<le> max b (re_begin x)" "max b (re_begin x) \<le> e"
    "re_begin x \<le> max b (re_begin x)" "max b (re_begin x) \<le> re_end x"
    using assms(2) ranges_sorted_begin_end [OF assms(1,4)] by auto
  with assms(3,4) tag_at_Some_iff [of es] show False by blast
qed

lemma insert_loop_correct:
  assumes "ranges_sorted es" and "b \<le> e" and "\<forall>x\<in>set es. e < re_begin x \<or> re_end x < b"
    and "ram \<or> fr \<noteq> []" and "insert_loop ram es fr b e tag = (es', fr')"
  shows "ranges_sorted es' \<and> es' \<noteq> [] \<and>
    set es' = insert \<lparr>re_begin = b, re_end = e, re_tag = tag\<rparr> (set es) \<and>
    (\<forall>a. tag_at es' a = (if b \<le> a \<and> a \<le> e then Some tag else tag_at es a))"
  using assms
proof (induction ram es fr b e tag arbitrary: es' fr' rule: insert_loop.induct)
  case (1 ram fr b e tag)
  then show ?case
    using alloc_range_ok [OF "1.prems"(4)] by (auto simp: range_list_add_def)
next
  case (2 ram cur rest fr b e tag)
  show ?case
  proof (cases "e < re_begin cur")
    case True
    then have "\<forall>x\<in>set (cur # rest). e < re_begin x"
      using "2.prems"(1) by (auto intro: less_le_trans less_trans)
    then show ?thesis
      using True "2.prems" alloc_range_ok [OF "2.prems"(4)] by (auto simp: range_list_add_def)
  next
    case False
    obtain es1 fr1 where r: "insert_loop ram rest fr b e tag = (es1, fr1)" by fastforce
    have "re_end cur < b" using "2.prems"(3) False by auto
    moreover have "es' = cur # es1" using "2.prems"(5) False r by simp
    ultimately show ?thesis
      using "2.IH" [OF False _ "2.prems"(2) _ "2.prems"(4) r] "2.prems"(1,3) by auto
  qed
qed

lemma merge_from_correct:
  assumes "ranges_sorted (prev # rest)" and "merge_from prev rest fr = (es', fr')"
  shows "ranges_sorted es' \<and> ranges_merged es' \<and> es' \<noteq> [] \<and>
    re_begin (hd es') = re_begin prev \<and> re_tag (hd es') = re_tag prev \<and>
    (\<forall>a. tag_at es' a = tag_at (prev # rest) a) \<and> length fr \<le> length fr'"
  using assms
proof (induction prev rest fr arbitrary: es' fr' rule: merge_from.induct)
  case (1 prev fr)
  then show ?case by (auto simp: fun_eq_iff)
next
  case (2 prev cur rest fr)
  have lt: "re_end prev < re_begin cur" "re_begin cur \<le> re_end cur" "re_begin prev \<le> re_end prev"
    using "2.prems"(1) by auto
  show ?case
  proof (cases "re_end prev + 1 \<ge> re_begin cur \<and> re_tag prev = re_tag cur")
    case True
    define p where "p = prev\<lparr>re_end := re_end cur\<rparr>"
    have "re_end prev + 1 = re_begin cur" using True inc_le [OF lt(1)] by simp
    then have adj: "a \<le> re_end prev \<or> re_begin cur \<le> a" for a
      by (metis inc_le not_le)
    have "ranges_sorted (p # rest)"
      using "2.prems"(1) lt by (auto simp: p_def)
    moreover have "merge_from p rest (cur # fr) = (es', fr')"
      using "2.prems"(2) True by (simp add: p_def)
    ultimately have IH: "ranges_sorted es' \<and> ranges_merged es' \<and> es' \<noteq> [] \<and>
        re_begin (hd es') = re_begin p \<and> re_tag (hd es') = re_tag p \<and>
        (\<forall>a. tag_at es' a = tag_at (p # rest) a) \<and> length (cur # fr) \<le> length fr'"
      using "2.IH"(1) [OF True] by (simp add: p_def)
    moreover have "tag_at (p # rest) a = tag_at (prev # cur # rest) a" for a
      using True adj lt by (auto simp: p_def)
    ultimately show ?thesis by (simp only: p_def) simp
  next
    case False
    obtain es1 fr1 where r: "merge_from cur rest fr = (es1, fr1)" by fastforce
    then have es': "es' = prev # es1" "fr' = fr1" using "2.prems"(2) False by auto
    have IH: "ranges_sorted es1 \<and> ranges_merged es1 \<and> es1 \<noteq> [] \<and>
        re_begin (hd es1) = re_begin cur \<and> re_tag (hd es1) = re_tag cur \<and>
        (\<forall>a. tag_at es1 a = tag_at (cur # rest) a) \<and> length fr \<le> length fr1"
      using "2.IH"(2) [OF False _ r] "2.prems"(1) by simp
    then obtain h t where ht: "es1 = h # t" by (cases es1) auto
    have "\<forall>x\<in>set es1. re_end prev < re_begin x"
      using IH lt ht ranges_sorted_begin_end [of es1 h] by (auto intro: less_trans le_less_trans)
    then have "ranges_sorted es'" using IH lt es' by simp
    moreover have "ranges_merged es'" using IH False ht es' by auto
    moreover have "tag_at es' a = tag_at (prev # cur # rest) a" for a
      using IH es' by (simp only: tag_at.simps(2) [of prev])
    ultimately show ?thesis using IH es' by simp
  qed
qed

lemma merge_neighbor_entries_correct:
  assumes "ranges_sorted (mr_entries mr)"
  defines "mr' \<equiv> merge_neighbor_entries mr"
  shows "ranges_sorted (mr_entries mr')" and "ranges_merged (mr_entries mr')"
    and "tag_at (mr_entries mr') = tag_at (mr_entries mr)"
proof -
  have "ranges_sorted (mr_entries mr') \<and> ranges_merged (mr_entries mr') \<and>
      tag_at (mr_entries mr') = tag_at (mr_entries mr)"
  proof (cases "mr_entries mr")
    case Nil
    then show ?thesis by (simp add: mr'_def merge_neighbor_entries_def)
  next
    case (Cons e es)
    obtain es' fr' where "merge_from e es (mr_free_list mr) = (es', fr')" by fastforce
    with Cons merge_from_correct [of e es "mr_free_list mr" es' fr'] assms(1) show ?thesis
      by (auto simp: mr'_def merge_neighbor_entries_def fun_eq_iff)
  qed
  then show "ranges_sorted (mr_entries mr')" "ranges_merged (mr_entries mr')"
    "tag_at (mr_entries mr') = tag_at (mr_entries mr)" by simp_all
qed

lemma merge_add_memranges_correct:
  fixes tag :: u32
  assumes "ranges_sorted (mr_entries mr)" and "b \<le> e" and "ram \<or> 2 \<le> length (mr_free_list mr)"
  defines "mr' \<equiv> merge_add_memranges ram mr b e tag"
  shows "ranges_sorted (mr_entries mr')" and "ranges_merged (mr_entries mr')"
    and "tag_at (mr_entries mr') a = (if b \<le> a \<and> a \<le> e then Some tag else tag_at (mr_entries mr) a)"
proof -
  obtain es1 fr1 where r: "remove_loop ram (mr_entries mr) (mr_free_list mr) b e = (es1, fr1)"
    by fastforce
  have fr: "ram \<or> mr_free_list mr \<noteq> []" using assms(3) by auto
  have R: "ranges_sorted es1" "length (mr_free_list mr) \<le> Suc (length fr1)"
    "\<And>a. tag_at es1 a = (if b \<le> a \<and> a \<le> e then None else tag_at (mr_entries mr) a)"
    using remove_loop_correct [OF assms(1) disjI1 [OF assms(2)] fr r] by auto
  have gap: "\<forall>x\<in>set es1. e < re_begin x \<or> re_end x < b"
    using free_range_gap [OF R(1) assms(2)] R(3) by simp
  obtain es2 fr2 where i: "insert_loop ram es1 fr1 b e tag = (es2, fr2)" by fastforce
  have fr1: "ram \<or> fr1 \<noteq> []" using assms(3) R(2) by (cases fr1) auto
  note I = insert_loop_correct [OF R(1) assms(2) gap fr1 i]
  have mr': "mr' = merge_neighbor_entries (mr\<lparr>mr_entries := es2, mr_free_list := fr2\<rparr>)"
    using r i by (simp add: mr'_def merge_add_memranges_def remove_memranges_def Let_def)
  show "ranges_sorted (mr_entries mr')" "ranges_merged (mr_entries mr')"
    unfolding mr' using I by (auto intro: merge_neighbor_entries_correct)
  show "tag_at (mr_entries mr') a = (if b \<le> a \<and> a \<le> e then Some tag else tag_at (mr_entries mr) a)"
    unfolding mr' using I R(3) by (subst merge_neighbor_entries_correct(3)) auto
qed

section \<open>Page rounding\<close>

text \<open>
  The pages, by number, that a request of \<open>sz\<close> bytes at \<open>base\<close> touches.
\<close>

definition page_in :: "resource_t \<Rightarrow> resource_t \<Rightarrow> resource_t \<Rightarrow> bool" where
  "page_in base sz a \<longleftrightarrow> unat base div 4096 \<le> unat a div 4096 \<and>
     unat a div 4096 \<le> (unat base + unat sz - 1) div 4096"

lemma do_action_bounds:
  fixes base sz a :: resource_t
  assumes "sz \<noteq> 0" and "unat base + unat sz \<le> 2 ^ 64"
  defines "b \<equiv> align_down base 4096" and "e \<equiv> align_up (align_down base 4096 + sz + (base - align_down base 4096)) 4096 - 1"
  shows "b \<le> e" and "b \<le> a \<and> a \<le> e \<longleftrightarrow> page_in base sz a"
proof -
  define s where "s = unat base + unat sz"
  have s: "1 \<le> s" "s \<le> 2 ^ 64" "unat base \<le> s - 1"
    using assms(1,2) unat_gt_0 [of sz] by (auto simp: s_def)
  have ub: "unat b = unat base div 4096 * 4096"
    using unat_align_down [of base 12] by (simp add: b_def minus_mod_eq_div_mult)
  have eq: "base + sz - 1 = base + (sz - 1)" by simp
  have usz: "unat (sz - 1) = unat sz - 1"
    using assms(1) by (rule unat_minus_one)
  have us: "unat (base + sz - 1) = s - 1"
    unfolding eq using s assms(2) unat_gt_0 [of sz] assms(1)
    by (subst unat_add_nowrap) (simp_all add: s_def usz)
  have "align_down base 4096 + sz + (base - align_down base 4096) = base + sz" by simp
  then have "e = align_up (base + sz) 4096 - 1" unfolding e_def by (simp only:)
  then have e: "e = align_down (base + sz - 1) 4096 + 4095"
    using align_up_minus_1 [of "base + sz" 12] by simp
  have ad: "unat (align_down (base + sz - 1) (4096 :: resource_t)) = (s - 1) div 4096 * 4096"
    using unat_align_down [of "base + sz - 1" 12] us by (simp add: minus_mod_eq_div_mult)
  have "(s - 1) div 4096 < 4503599627370496"
    using s(1,2) by (intro less_mult_imp_div_less) simp
  then have "(s - 1) div 4096 * 4096 + 4095 < 2 ^ 64" by simp
  then have ue: "unat e = (s - 1) div 4096 * 4096 + 4095"
    unfolding e by (subst unat_add_nowrap) (simp_all add: ad)
  show "b \<le> e"
    using s(3) by (simp add: word_le_nat_alt ub ue div_le_mono trans_le_add1)
  have lo: "p div 4096 * 4096 \<le> q \<longleftrightarrow> p div 4096 \<le> q div 4096" for p q :: nat
    by (metis less_eq_div_iff_mult_less_eq zero_less_numeral)
  have hi: "q \<le> p div 4096 * 4096 + 4095 \<longleftrightarrow> q div 4096 \<le> p div 4096" for p q :: nat
    by linarith
  show "b \<le> a \<and> a \<le> e \<longleftrightarrow> page_in base sz a"
    unfolding word_le_nat_alt ub ue page_in_def lo hi s_def by simp
qed

section \<open>Filling holes\<close>

text \<open>
  When every range ends below the limit, the walk fills exactly the gaps and the space up to
  the limit.
\<close>

lemma fill_from_correct:
  assumes "ranges_sorted (prev # rest)" and "\<forall>x\<in>set (prev # rest). re_end x < limit"
    and "fill_from True prev rest fr limit tag = (es', fr')"
  shows "ranges_sorted es' \<and> (\<forall>x\<in>set es'. re_begin prev \<le> re_begin x) \<and>
    (\<forall>a. tag_at es' a = (case tag_at (prev # rest) a of Some t \<Rightarrow> Some t
       | None \<Rightarrow> if re_begin prev \<le> a \<and> a < limit then Some tag else None))"
  using assms
proof (induction rest arbitrary: prev fr es' fr')
  case Nil
  have p: "re_begin prev \<le> re_end prev" "re_end prev < limit" using Nil.prems by auto
  have "limit \<noteq> 0" using p(2) by auto
  then have dec: "limit - 1 < limit" "a \<le> limit - 1 \<longleftrightarrow> a < limit" for a
    by (auto simp: less_eq_dec_iff intro: dec_less)
  have inc: "re_end prev + 1 \<le> a \<longleftrightarrow> re_end prev < a" for a
    using p(2) by (auto simp: inc_less_eq_iff)
  show ?case
  proof (cases "range_entry_end prev < limit")
    case True
    then obtain fr1 where "es' = [prev, \<lparr>re_begin = re_end prev + 1, re_end = limit - 1, re_tag = tag\<rparr>]"
      using Nil.prems(3) alloc_range_ok [of True fr] by (auto simp: range_list_add_def range_entry_end_def)
    moreover have lt: "re_end prev < re_end prev + 1" using p(2) by (rule inc_less)
    moreover have "re_begin prev \<le> re_end prev + 1" using p(1) lt by (meson order_trans less_imp_le)
    moreover have "re_end prev + 1 \<le> limit - 1" using True dec by (simp add: range_entry_end_def)
    moreover have "a < limit" if "a \<le> re_end prev" for a using that p(2) by (rule le_less_trans)
    ultimately show ?thesis using p(1) by (auto simp: dec inc not_le)
  next
    case False
    then have "limit = re_end prev + 1"
      using inc_le [OF p(2)] by (simp add: range_entry_end_def)
    then have "a < limit \<longleftrightarrow> a \<le> re_end prev" for a
      using inc [of a] by (auto simp: not_le [symmetric])
    moreover have "es' = [prev]" using Nil.prems(3) False by simp
    ultimately show ?thesis using p by auto
  qed
next
  case (Cons cur rest)
  have p: "re_begin prev \<le> re_end prev" "re_end prev < re_begin cur" "re_begin cur \<le> re_end cur"
    "re_end cur < limit" "\<not> limit \<le> re_begin cur"
    using Cons.prems by auto
  obtain es1 fr1 gap fr2 where
    r: "fill_from True cur rest fr2 limit tag = (es1, fr1)" and
    g: "gap = (if range_entry_end prev \<noteq> re_begin cur
        then [\<lparr>re_begin = re_end prev + 1, re_end = re_begin cur - 1, re_tag = tag\<rparr>] else [])" and
    es': "es' = prev # gap @ es1"
  proof -
    have le: "\<not> limit \<le> re_begin cur - 1"
    proof -
      have "re_begin cur \<noteq> 0" using p(2) by auto
      then have "re_begin cur - 1 < re_begin cur" by (rule dec_less)
      then show ?thesis using p(5) by simp
    qed
    obtain fa where fa: "alloc_range True fr = Some fa" using alloc_range_ok by blast
    define fr2 where "fr2 = (if range_entry_end prev \<noteq> re_begin cur then fa else fr)"
    obtain es1 fr1 where r: "fill_from True cur rest fr2 limit tag = (es1, fr1)" by fastforce
    show ?thesis
      by (rule that [OF r refl])
        (use Cons.prems(3) p le fa r in
          \<open>auto simp: fr2_def range_list_add_def range_entry_end_def Let_def split: if_splits prod.splits\<close>)
  qed
  have IH: "ranges_sorted es1 \<and> (\<forall>x\<in>set es1. re_begin cur \<le> re_begin x) \<and>
    (\<forall>a. tag_at es1 a = (case tag_at (cur # rest) a of Some t \<Rightarrow> Some t
       | None \<Rightarrow> if re_begin cur \<le> a \<and> a < limit then Some tag else None))"
    using Cons.IH [OF _ _ r] Cons.prems(1,2) by simp
  have "re_begin cur \<noteq> 0" using p(2) by auto
  then have dec: "re_begin cur - 1 < re_begin cur" "a \<le> re_begin cur - 1 \<longleftrightarrow> a < re_begin cur" for a
    by (auto simp: less_eq_dec_iff intro: dec_less)
  have inc: "re_end prev + 1 \<le> a \<longleftrightarrow> re_end prev < a" for a
    using p(2) by (auto simp: inc_less_eq_iff)
  have below: "tag_at (cur # rest) a = None" if "a < re_begin cur" for a
    using that Cons.prems(1) by (intro tag_at_below) (auto intro: less_le_trans less_trans le_less_trans)
  have nogap: "re_end prev < a \<longleftrightarrow> re_begin cur \<le> a" if "range_entry_end prev = re_begin cur" for a
    using that inc [of a] by (simp add: range_entry_end_def)
  have tags: "tag_at es' a = (case tag_at (prev # cur # rest) a of Some t \<Rightarrow> Some t
       | None \<Rightarrow> if re_begin prev \<le> a \<and> a < limit then Some tag else None)" for a
  proof (cases "re_begin cur \<le> a")
    case True
    then have "\<not> a \<le> re_end prev" "re_begin prev \<le> a" "\<not> a \<le> re_begin cur - 1" using p dec by auto
    then show ?thesis using True es' g IH by (simp split: option.splits)
  next
    case False
    then have lt: "a < re_begin cur" by simp
    then have n: "tag_at (cur # rest) a = None" by (rule below)
    have n1: "tag_at es1 a = None" using IH n False by (simp del: tag_at.simps)
    have "re_begin cur < limit" using p(3,4) by (rule le_less_trans)
    then have lim: "a < limit" using lt by (rule less_trans[rotated])
    have "tag_at es' a = (if re_begin prev \<le> a \<and> a \<le> re_end prev then Some (re_tag prev)
        else if range_entry_end prev \<noteq> re_begin cur \<and> re_end prev < a then Some tag else None)"
      using es' g n1 inc lt dec(2) by simp
    moreover have "tag_at (prev # cur # rest) a =
        (if re_begin prev \<le> a \<and> a \<le> re_end prev then Some (re_tag prev) else None)"
      using n by (subst tag_at.simps(2)) (simp del: tag_at.simps)
    moreover have "re_begin prev \<le> a" if "re_end prev < a"
      using that p(1) by (meson le_less_trans less_imp_le)
    ultimately show ?thesis
      using False nogap [of a] lim by (auto simp: not_le)
  qed
  have "re_end prev < re_end prev + 1" using p(2) by (rule inc_less)
  moreover have "re_end prev + 1 \<le> re_begin cur - 1" if "range_entry_end prev \<noteq> re_begin cur"
    using that p(2) inc_le [OF p(2)] by (auto simp: dec range_entry_end_def)
  ultimately have "ranges_sorted es'"
    using IH es' g p dec by (auto intro: less_le_trans)
  moreover have "\<forall>x\<in>set es'. re_begin prev \<le> re_begin x"
    using IH es' g p \<open>re_end prev < re_end prev + 1\<close> by (auto intro: order_trans less_imp_le)
  ultimately show ?case using tags by blast
qed

section \<open>The invariant of a map\<close>

text \<open>
  Sorted, merged and, because every operation rounds to pages, with one tag per page.
\<close>

definition page_uniform :: "range_entry list \<Rightarrow> bool" where
  "page_uniform es \<longleftrightarrow> (\<forall>a b. unat a div 4096 = unat b div 4096 \<longrightarrow> tag_at es a = tag_at es b)"

definition memranges_wf :: "memranges \<Rightarrow> bool" where
  "memranges_wf mr \<longleftrightarrow> ranges_sorted (mr_entries mr) \<and> ranges_merged (mr_entries mr) \<and>
     page_uniform (mr_entries mr)"

definition retag :: "resource_t \<Rightarrow> resource_t \<Rightarrow> u32 \<Rightarrow> (resource_t \<Rightarrow> u32 option) \<Rightarrow> resource_t \<Rightarrow> u32 option" where
  "retag base sz tag f a = (if sz \<noteq> 0 \<and> page_in base sz a then Some tag else f a)"

lemma memranges_wf_empty [simp]: "memranges_wf \<lparr>mr_entries = [], mr_free_list = fr\<rparr>"
  by (simp add: memranges_wf_def page_uniform_def)

lemma memranges_insert_retag:
  assumes "memranges_wf mr" and "unat base + unat sz \<le> 2 ^ 64"
  shows "tag_at (mr_entries (memranges_insert True mr base sz tag)) = retag base sz tag (tag_at (mr_entries mr))"
    and "memranges_wf (memranges_insert True mr base sz tag)"
proof -
  have tags: "tag_at (mr_entries (memranges_insert True mr base sz tag)) = retag base sz tag (tag_at (mr_entries mr))
    \<and> ranges_sorted (mr_entries (memranges_insert True mr base sz tag))
    \<and> ranges_merged (mr_entries (memranges_insert True mr base sz tag))"
  proof (cases "sz = 0")
    case True
    then show ?thesis
      using assms(1) by (simp add: memranges_insert_def do_action_def retag_def memranges_wf_def fun_eq_iff)
  next
    case False
    have "ranges_sorted (mr_entries mr)" using assms(1) by (simp add: memranges_wf_def)
    note c = merge_add_memranges_correct [OF this do_action_bounds(1) [OF False assms(2)], of True tag]
    have "tag_at (mr_entries (memranges_insert True mr base sz tag)) a = retag base sz tag (tag_at (mr_entries mr)) a"
      and "ranges_sorted (mr_entries (memranges_insert True mr base sz tag))"
      and "ranges_merged (mr_entries (memranges_insert True mr base sz tag))" for a
      using c do_action_bounds(2) [OF False assms(2), of a] False
      by (simp_all add: memranges_insert_def do_action_def Let_def retag_def)
    then show ?thesis by blast
  qed
  then show "tag_at (mr_entries (memranges_insert True mr base sz tag)) = retag base sz tag (tag_at (mr_entries mr))"
    by simp
  have "page_uniform (mr_entries (memranges_insert True mr base sz tag))"
    unfolding page_uniform_def
  proof (intro allI impI)
    fix a b :: resource_t
    assume "unat a div 4096 = unat b div 4096"
    moreover from this have "tag_at (mr_entries mr) a = tag_at (mr_entries mr) b"
      using assms(1) unfolding memranges_wf_def page_uniform_def by blast
    ultimately show "tag_at (mr_entries (memranges_insert True mr base sz tag)) a =
        tag_at (mr_entries (memranges_insert True mr base sz tag)) b"
      using tags by (simp only: retag_def page_in_def)
  qed
  then show "memranges_wf (memranges_insert True mr base sz tag)"
    using tags by (simp add: memranges_wf_def)
qed

text \<open>A property every callback keeps is a property of the whole search.\<close>

lemma fold_keeps: "(\<And>x s. x \<in> set xs \<Longrightarrow> P s \<Longrightarrow> P (f x s)) \<Longrightarrow> P s \<Longrightarrow> P (fold f xs s)"
  by (induction xs arbitrary: s) auto

lemma search_global_resources_keeps:
  assumes "\<And>dev res s. dev \<in> set devs \<Longrightarrow> res \<in> set (dev_resource_list dev) \<Longrightarrow> P s \<Longrightarrow> P (search dev res s)"
    and "P s"
  shows "P (search_global_resources devs msk type search s)"
  unfolding search_global_resources_def
proof (rule fold_keeps [where P = P, OF _ assms(2)])
  fix dev s
  assume dev: "dev \<in> set devs" and s: "P s"
  have "P (fold (\<lambda>res s. if res_flags res AND msk \<noteq> type then s
      else if res_flags res AND IORESOURCE_SUBTRACTIVE \<noteq> 0 then s else search dev res s) (dev_resource_list dev) s)"
    by (rule fold_keeps [where P = P, OF _ s]) (simp add: assms(1) dev)
  then show "P (if \<not> dev_enabled dev then s
      else fold (\<lambda>res s. if res_flags res AND msk \<noteq> type then s
        else if res_flags res AND IORESOURCE_SUBTRACTIVE \<noteq> 0 then s else search dev res s) (dev_resource_list dev) s)"
    using s by simp
qed

definition resources_ok :: "device list \<Rightarrow> bool" where
  "resources_ok devs \<longleftrightarrow>
     (\<forall>dev\<in>set devs. \<forall>res\<in>set (dev_resource_list dev). unat (res_base res) + unat (res_size res) \<le> 2 ^ 64)"

lemma memranges_add_resources_keeps:
  assumes "resources_ok devs" and "memranges_wf mr" and "\<forall>a t. tag_at (mr_entries mr) a = Some t \<longrightarrow> P t" and "P tag"
  shows "memranges_wf (memranges_add_resources True devs mr msk match tag) \<and>
    (\<forall>a t. tag_at (mr_entries (memranges_add_resources True devs mr msk match tag)) a = Some t \<longrightarrow> P t)"
  unfolding memranges_add_resources_def memranges_add_resources_filter_def
proof (rule search_global_resources_keeps [where P = "\<lambda>mr. memranges_wf mr \<and>
    (\<forall>a t. tag_at (mr_entries mr) a = Some t \<longrightarrow> P t)"])
  fix dev res s
  assume d: "dev \<in> set devs" "res \<in> set (dev_resource_list dev)"
    and P: "memranges_wf s \<and> (\<forall>a t. tag_at (mr_entries s) a = Some t \<longrightarrow> P t)"
  have "unat (res_base res) + unat (res_size res) \<le> 2 ^ 64"
    using assms(1) d unfolding resources_ok_def by blast
  note ins = memranges_insert_retag [OF conjunct1 [OF P] this, of tag]
  have "memranges_wf (memranges_insert True s (res_base res) (res_size res) tag) \<and>
      (\<forall>a t. tag_at (mr_entries (memranges_insert True s (res_base res) (res_size res) tag)) a = Some t \<longrightarrow> P t)"
    unfolding ins(1) retag_def using ins(2) P assms(4) by (metis option.inject)
  with P show "memranges_wf (collect_ranges True tag None dev res s) \<and>
      (\<forall>a t. tag_at (mr_entries (collect_ranges True tag None dev res s)) a = Some t \<longrightarrow> P t)"
    unfolding collect_ranges_def by (cases "res_size res = 0") simp_all
qed (use assms(2,3) in blast)

lemma tag_at_entry:
  "ranges_sorted es \<Longrightarrow> r \<in> set es \<Longrightarrow> re_begin r \<le> a \<Longrightarrow> a \<le> re_end r \<Longrightarrow> tag_at es a = Some (re_tag r)"
  by (induction es) (auto dest: ranges_sorted_begin_end)

text \<open>The merge of a list in two parts, and what its last entry and the others keep.\<close>

lemma merge_from_not_Nil [simp]: "fst (merge_from prev xs fr) \<noteq> []"
  by (induction prev xs fr rule: merge_from.induct) (auto split: prod.splits)

lemma merge_from_append:
  "fst (merge_from prev (xs @ ys) fr) =
     butlast (fst (merge_from prev xs fr)) @ fst (merge_from (last (fst (merge_from prev xs fr))) ys (snd (merge_from prev xs fr)))"
proof (induction prev xs fr rule: merge_from.induct)
  case (2 prev cur rest fr)
  then show ?case using merge_from_not_Nil [of cur rest fr] by (auto simp: split_beta)
qed simp

lemma merge_from_last:
  "re_end (last (fst (merge_from prev xs fr))) = re_end (last (prev # xs)) \<and>
   re_tag (last (fst (merge_from prev xs fr))) = re_tag (last (prev # xs)) \<and>
   (\<forall>x\<in>set (butlast (fst (merge_from prev xs fr))). \<exists>y\<in>set (butlast (prev # xs)). re_end x = re_end y)"
proof (induction prev xs fr rule: merge_from.induct)
  case (2 prev cur rest fr)
  show ?case
  proof (cases "re_end prev + 1 \<ge> re_begin cur \<and> re_tag prev = re_tag cur")
    case True
    then show ?thesis using "2.IH"(1) by (cases rest) auto
  next
    case False
    then show ?thesis using "2.IH"(2) [OF False] merge_from_not_Nil [of cur rest fr] by (auto simp: split_beta) blast+
  qed
qed simp

lemma merge_from_begins: "\<forall>x\<in>set (fst (merge_from prev xs fr)). \<exists>y\<in>set (prev # xs). re_begin x = re_begin y"
proof (induction prev xs fr rule: merge_from.induct)
  case (2 prev cur rest fr)
  show ?case
  proof (cases "re_end prev + 1 \<ge> re_begin cur \<and> re_tag prev = re_tag cur")
    case True
    then show ?thesis using "2.IH"(1) by auto
  next
    case False
    then show ?thesis using "2.IH"(2) [OF False] by (auto simp: split_beta)
  qed
qed simp

text \<open>The loop when the limit lies in or below a range that has a gap behind it.\<close>

lemma fill_from_stops:
  assumes "limit \<noteq> 0" and "limit \<le> re_end p" and "re_end p < re_begin c" and "range_entry_end p \<noteq> re_begin c"
    and "re_begin c \<le> re_end c" and "range_entry_end c \<noteq> 0"
  shows "fst (fill_from True p (c # suf) fr limit tag) =
    p # \<lparr>re_begin = range_entry_end p, re_end = limit - 1, re_tag = tag\<rparr> # c # suf"
proof -
  have "re_begin c \<noteq> 0" using assms(3) by auto
  then have "re_end p \<le> re_begin c - 1" using assms(3) by (simp add: less_eq_dec_iff)
  then have "limit \<le> re_begin c - 1" using assms(2) by (rule order_trans[rotated])
  moreover have "limit \<le> re_begin c" using assms(2,3) by (meson le_less_trans less_imp_le)
  moreover have "\<not> range_entry_end c < limit"
  proof -
    have "\<not> range_entry_end c \<le> re_end c" using assms(6) inc_less_eq_triv_imp [of "re_end c"] by (auto simp: range_entry_end_def)
    then have "re_end c \<le> range_entry_end c" by simp
    then show ?thesis using assms(2,3,5) by (meson le_less_trans leD order_trans less_imp_le)
  qed
  moreover obtain fa where "alloc_range True fr = Some fa" using alloc_range_ok by blast
  ultimately show ?thesis using assms(4) by (simp add: range_list_add_def Let_def)
qed

lemma fill_from_passes:
  assumes "ranges_sorted (prev # rest)" and "prev # rest = pre @ p # c # suf" and "pre = [] \<or> re_begin p < limit"
    and "limit \<le> re_end p" and "limit \<noteq> 0" and "range_entry_end p \<noteq> re_begin c" and "range_entry_end c \<noteq> 0"
  shows "\<exists>as. fst (fill_from True prev rest fr limit tag) =
      as @ p # \<lparr>re_begin = range_entry_end p, re_end = limit - 1, re_tag = tag\<rparr> # c # suf \<and> (\<forall>x\<in>set as. re_end x < re_end p)"
  using assms
proof (induction rest arbitrary: prev pre fr)
  case (Cons cur rest)
  show ?case
  proof (cases pre)
    case Nil
    then have "prev = p" "cur = c" "rest = suf" using Cons.prems(2) by simp_all
    then show ?thesis using fill_from_stops [of limit p c rest fr tag] Cons.prems by auto
  next
    case (Cons a pre')
    then have eq: "a = prev" "cur # rest = pre' @ p # c # suf" using Cons.prems(2) by simp_all
    have s: "ranges_sorted (cur # rest)" "re_end prev < re_begin cur" "re_begin cur \<le> re_end cur" using Cons.prems(1) by simp_all
    have lim: "re_begin p < limit" using Cons.prems(3) Cons by simp
    have p: "re_begin p \<le> re_end p" "re_begin cur \<le> re_begin p"
    proof -
      have "p \<in> set (cur # rest)" using eq(2) by simp
      then show "re_begin p \<le> re_end p" "re_begin cur \<le> re_begin p"
        using s(1) ranges_sorted_begin_end [of "cur # rest" p] by (auto intro: less_imp_le le_less_trans)
    qed
    have cur: "re_begin cur < limit" using p(2) lim by (rule le_less_trans)
    have ends: "re_end prev < re_end p" "re_begin cur - 1 < re_end p"
    proof -
      show "re_end prev < re_end p" using s(2) p by (meson less_le_trans order_trans)
      have "re_begin cur \<noteq> 0" using s(2) by auto
      then have "re_begin cur - 1 < re_begin cur" by (rule dec_less)
      then show "re_begin cur - 1 < re_end p" using p by (meson less_le_trans order_trans)
    qed
    obtain fa where fa: "alloc_range True fr = Some fa" using alloc_range_ok by blast
    define fr2 where "fr2 = (if range_entry_end prev \<noteq> re_begin cur then fa else fr)"
    obtain as where as: "fst (fill_from True cur rest fr2 limit tag) =
        as @ p # \<lparr>re_begin = range_entry_end p, re_end = limit - 1, re_tag = tag\<rparr> # c # suf" "\<forall>x\<in>set as. re_end x < re_end p"
      using Cons.IH [OF s(1) eq(2)] Cons.prems(4-7) lim by blast
    have dec: "re_begin cur - 1 < limit"
    proof -
      have "re_begin cur \<noteq> 0" using s(2) by auto
      then have "re_begin cur - 1 < re_begin cur" by (rule dec_less)
      then show ?thesis using cur by (rule less_trans)
    qed
    have "fst (fill_from True prev (cur # rest) fr limit tag) = prev #
        (if range_entry_end prev \<noteq> re_begin cur then [\<lparr>re_begin = range_entry_end prev, re_end = re_begin cur - 1, re_tag = tag\<rparr>] else []) @
        fst (fill_from True cur rest fr2 limit tag)"
      using cur dec fa by (auto simp: fr2_def range_list_add_def Let_def split_beta not_le)
    then show ?thesis
      using as ends by (intro exI [of _ "prev #
        (if range_entry_end prev \<noteq> re_begin cur then [\<lparr>re_begin = range_entry_end prev, re_end = re_begin cur - 1, re_tag = tag\<rparr>] else []) @ as"]) auto
  qed
qed simp

text \<open>In a merged map a range is maximal: the address after its end has another tag.\<close>

lemma tag_at_SomeD:
  "tag_at es a = Some t \<Longrightarrow> \<exists>r\<in>set es. re_begin r \<le> a \<and> a \<le> re_end r \<and> re_tag r = t"
  by (induction es) (auto split: if_splits)

lemma ranges_merged_maximal:
  "ranges_sorted es \<Longrightarrow> ranges_merged es \<Longrightarrow> r \<in> set es \<Longrightarrow> re_end r + 1 \<noteq> 0 \<Longrightarrow>
    tag_at es (re_end r + 1) \<noteq> Some (re_tag r)"
proof (induction es rule: ranges_merged.induct)
  case (3 x y rs)
  note IH = "3.IH" and prems = "3.prems"
  define a where "a = re_end r + 1"
  have gt: "re_end r < a"
    using dec_less [OF prems(4)] by (simp add: a_def)
  have "tag_at (x # y # rs) a \<noteq> Some (re_tag r)"
  proof (cases "r = x")
    case True
    have le: "re_begin y \<le> a \<longleftrightarrow> re_begin y = a"
      using prems(1) True inc_le [of "re_end x" "re_begin y"] by (auto simp: a_def)
    have "tag_at (y # rs) a = None" if "a < re_begin y"
      using prems(1) that by (intro tag_at_below) (auto intro: less_trans le_less_trans)
    moreover have "tag_at (y # rs) a = Some (re_tag y)" if "re_begin y = a"
      using prems(1) that by simp
    moreover have "re_tag y \<noteq> re_tag x" if "re_begin y = a"
      using prems(2) that True by (auto simp: a_def)
    ultimately have "tag_at (y # rs) a \<noteq> Some (re_tag x)"
      using le by (cases "re_begin y \<le> a") (auto simp: not_le)
    moreover have "\<not> a \<le> re_end x" using gt True by simp
    ultimately show ?thesis using True by (subst tag_at.simps(2)) (simp del: tag_at.simps(2))
  next
    case False
    then have "re_end x < re_begin r" "re_begin r \<le> re_end r" and r: "r \<in> set (y # rs)"
      using prems(1,3) by (auto dest: ranges_sorted_begin_end)
    then have "re_end x < a" using gt by order
    moreover have "tag_at (y # rs) a \<noteq> Some (re_tag r)"
      using IH prems r by (simp add: a_def)
    ultimately show ?thesis by (metis leD tag_at.simps(2))
  qed
  then show ?case unfolding a_def .
next
  case (2 x)
  then have "\<not> re_end x + 1 \<le> re_end x" using dec_less [of "re_end x + 1"] by auto
  then show ?case using 2 by auto
qed auto

section \<open>Properties\<close>

text \<open>
  C7: Inserting a non-empty range that does not run past the top of the address space gives
  every page it touches the new tag, whatever was there, leaves the tag of every other page
  as it was, and returns a sorted list of disjoint ranges in which touching neighbours have
  different tags.
\<close>

theorem memranges_insert_tags:
  assumes "ranges_sorted (mr_entries mr)" and "ram \<or> 2 \<le> length (mr_free_list mr)"
    and "sz \<noteq> 0" and "unat base + unat sz \<le> 2 ^ 64"
  shows "tag_at (mr_entries (memranges_insert ram mr base sz tag)) a =
      (if page_in base sz a then Some tag else tag_at (mr_entries mr) a) \<and>
    ranges_sorted (mr_entries (memranges_insert ram mr base sz tag)) \<and>
    ranges_merged (mr_entries (memranges_insert ram mr base sz tag))"
  using merge_add_memranges_correct [OF assms(1) do_action_bounds(1) [OF assms(3,4)] assms(2)]
    do_action_bounds(2) [OF assms(3,4), of a] assms(3)
  by (simp add: memranges_insert_def do_action_def Let_def)

theorem memranges_insert_tags_witness:
  "ranges_merged (mr_entries (memranges_insert True (memranges_init_empty []) 0x9fc00 0x400 2)) \<and>
   tag_at (mr_entries (memranges_insert True (memranges_init_empty []) 0x9fc00 0x400 2)) 0x9f000 = Some 2"
proof -
  have "ranges_sorted (mr_entries (memranges_init_empty []))" by (simp add: memranges_init_empty_def)
  from memranges_insert_tags [OF this, of True "0x400" "0x9fc00" 2 "0x9f000"] show ?thesis
    by (simp add: page_in_def)
qed

text \<open>
  C23: Creating a hole clears the tag of exactly the pages the hole touches, splitting or
  trimming the ranges around it, and keeps the list sorted and disjoint.
\<close>

theorem memranges_create_hole_tags:
  assumes "ranges_sorted (mr_entries mr)" and "ram \<or> mr_free_list mr \<noteq> []"
    and "sz \<noteq> 0" and "unat base + unat sz \<le> 2 ^ 64"
  shows "tag_at (mr_entries (memranges_create_hole ram mr base sz)) a =
      (if page_in base sz a then None else tag_at (mr_entries mr) a) \<and>
    ranges_sorted (mr_entries (memranges_create_hole ram mr base sz))"
proof -
  define b e where "b = align_down base 4096"
    and "e = align_up (align_down base 4096 + sz + (base - align_down base 4096)) 4096 - 1"
  obtain es fr where r: "remove_loop ram (mr_entries mr) (mr_free_list mr) b e = (es, fr)" by fastforce
  have "b \<le> e" and iff: "b \<le> a \<and> a \<le> e \<longleftrightarrow> page_in base sz a"
    using do_action_bounds [OF assms(3,4)] by (simp_all add: b_def e_def)
  moreover have "mr_entries (memranges_create_hole ram mr base sz) = es"
    using r assms(3) by (simp add: memranges_create_hole_def do_action_def remove_memranges_def b_def e_def Let_def)
  ultimately show ?thesis
    using remove_loop_correct [OF assms(1) disjI1 assms(2) r] by simp
qed

theorem memranges_create_hole_tags_witness:
  "tag_at (mr_entries (memranges_create_hole True
      \<lparr>mr_entries = [\<lparr>re_begin = 0, re_end = 0xffff, re_tag = 1\<rparr>], mr_free_list = []\<rparr> 0x2800 0x1000)) 0x3000 = None \<and>
   ranges_sorted (mr_entries (memranges_create_hole True
      \<lparr>mr_entries = [\<lparr>re_begin = 0, re_end = 0xffff, re_tag = 1\<rparr>], mr_free_list = []\<rparr> 0x2800 0x1000))"
  using memranges_create_hole_tags [of "\<lparr>mr_entries = [\<lparr>re_begin = 0, re_end = 0xffff, re_tag = 1\<rparr>], mr_free_list = []\<rparr>"
      True "0x1000" "0x2800" "0x3000"]
  by (simp add: page_in_def)

text \<open>
  C24: When every range ends below the limit, filling the holes gives the new tag to exactly the
  untagged addresses from the start of the first range up to the limit: the gaps between ranges
  and the space behind the last one. What lies below the first range stays untagged, and a list
  without ranges stays empty, although the header's comment says that all addresses up to the
  limit are filled. The result is sorted and merged.
\<close>

theorem memranges_fill_holes_tags:
  assumes "ranges_sorted (mr_entries mr)" and "\<forall>x\<in>set (mr_entries mr). re_end x < limit"
  shows "tag_at (mr_entries (memranges_fill_holes_up_to True mr limit tag)) a =
      (case tag_at (mr_entries mr) a of Some t \<Rightarrow> Some t
       | None \<Rightarrow> if mr_entries mr \<noteq> [] \<and> re_begin (hd (mr_entries mr)) \<le> a \<and> a < limit then Some tag else None) \<and>
    ranges_sorted (mr_entries (memranges_fill_holes_up_to True mr limit tag)) \<and>
    ranges_merged (mr_entries (memranges_fill_holes_up_to True mr limit tag))"
proof (cases "mr_entries mr")
  case Nil
  then show ?thesis by (simp add: memranges_fill_holes_up_to_def merge_neighbor_entries_def)
next
  case m: (Cons e es)
  obtain es' fr' where r: "fill_from True e es (mr_free_list mr) limit tag = (es', fr')" by fastforce
  have F: "ranges_sorted es' \<and> (\<forall>a. tag_at es' a = (case tag_at (e # es) a of Some t \<Rightarrow> Some t
       | None \<Rightarrow> if re_begin e \<le> a \<and> a < limit then Some tag else None))"
    using fill_from_correct [OF _ _ r] assms m by simp
  have eq: "memranges_fill_holes_up_to True mr limit tag =
      merge_neighbor_entries (mr\<lparr>mr_entries := es', mr_free_list := fr'\<rparr>)"
    by (simp add: memranges_fill_holes_up_to_def m r)
  show ?thesis
    unfolding eq using F merge_neighbor_entries_correct [of "mr\<lparr>mr_entries := es', mr_free_list := fr'\<rparr>"]
    by (auto simp: m)
qed

theorem memranges_fill_holes_tags_witness:
  "tag_at (mr_entries (memranges_fill_holes_up_to True
      \<lparr>mr_entries = [\<lparr>re_begin = 0, re_end = 0xffff, re_tag = 1\<rparr>], mr_free_list = []\<rparr> 0x100000 0)) 0x20000 = Some 0"
  using memranges_fill_holes_tags [of "\<lparr>mr_entries = [\<lparr>re_begin = 0, re_end = 0xffff, re_tag = 1\<rparr>], mr_free_list = []\<rparr>"
      "0x100000" 0 "0x20000"]
  by simp

text \<open>
  C25: When the limit lies in or below a range \<open>p\<close> that another range \<open>c\<close> follows after a gap, and
  the loop gets as far as this gap (\<open>p\<close> begins below the limit, or is the first range, which is
  never compared with it), the gap is filled although it lies above the limit, with an entry that
  ends before it begins. With another tag than that of \<open>p\<close> this entry stays in the list, and its
  size wraps to a huge value; with the same tag the merge that follows cuts \<open>p\<close> down to the limit,
  so that the last address of \<open>p\<close>, which had that tag before, has none.
\<close>

theorem memranges_fill_holes_inside_range:
  assumes "ranges_sorted (mr_entries mr)" and "mr_entries mr = pre @ p # c # suf" and "range_entry_end p \<noteq> re_begin c"
    and "range_entry_end c \<noteq> 0" and "limit \<noteq> 0" and "limit \<le> re_end p" and "pre = [] \<or> re_begin p < limit"
  shows "let es = mr_entries (memranges_fill_holes_up_to True mr limit tag) in
    if tag \<noteq> re_tag p then \<lparr>re_begin = range_entry_end p, re_end = limit - 1, re_tag = tag\<rparr> \<in> set es \<and> limit - 1 < range_entry_end p
    else tag_at (mr_entries mr) (re_end p) = Some tag \<and> tag_at es (re_end p) = None"
proof -
  define es where "es = mr_entries (memranges_fill_holes_up_to True mr limit tag)"
  define n where "n = \<lparr>re_begin = range_entry_end p, re_end = limit - 1, re_tag = tag\<rparr>"
  obtain e rest where e: "mr_entries mr = e # rest" using assms(2) by (cases pre) auto
  obtain as where as: "fst (fill_from True e rest (mr_free_list mr) limit tag) = as @ p # n # c # suf" "\<forall>x\<in>set as. re_end x < re_end p"
    using fill_from_passes [OF assms(1) [unfolded e] assms(2) [unfolded e] assms(7,6,5,3,4)] unfolding n_def by blast
  obtain a xs where a: "as @ [p] = a # xs" by (cases as) auto
  have es: "es = fst (merge_from a (xs @ n # c # suf) fr)" if "snd (fill_from True e rest (mr_free_list mr) limit tag) = fr" for fr
  proof -
    have "fst (fill_from True e rest (mr_free_list mr) limit tag) = a # xs @ n # c # suf"
      using as(1) arg_cong [OF a, of "\<lambda>l. l @ n # c # suf"] by simp
    then show ?thesis
      using that by (simp add: es_def memranges_fill_holes_up_to_def merge_neighbor_entries_def e split_beta)
  qed
  define fr where "fr = snd (fill_from True e rest (mr_free_list mr) limit tag)"
  define E l where "E = fst (merge_from a xs fr)" and "l = last E"
  have l: "re_end l = re_end p" "re_tag l = re_tag p" "\<forall>x\<in>set (butlast E). re_end x < re_end p"
    using merge_from_last [of a xs fr] as(2) by (auto simp: l_def E_def a [symmetric])
  have es: "es = butlast E @ fst (merge_from l (n # c # suf) (snd (merge_from a xs fr)))"
    using es [OF fr_def [symmetric]] by (simp only: merge_from_append E_def l_def)
  have pc: "re_end p < re_begin c" "re_begin p \<le> re_end p" "\<forall>x\<in>set suf. re_end p < re_begin x"
  proof -
    have "ranges_sorted (p # c # suf)"
      using assms(1) unfolding assms(2) by (induction pre) auto
    then show "re_end p < re_begin c" "re_begin p \<le> re_end p" "\<forall>x\<in>set suf. re_end p < re_begin x" by auto
  qed
  have lim: "limit - 1 < limit" using assms(5) by (rule dec_less)
  then have low: "limit - 1 < re_end p" using assms(6) by (rule less_le_trans)
  have apart: "\<not> re_end n + 1 \<ge> re_begin c" using assms(6) pc(1) by (simp add: n_def not_le)
  show ?thesis
  proof (cases "tag = re_tag p")
    case False
    have "re_end p < range_entry_end p" using pc(1) by (simp add: range_entry_end_def inc_less)
    then have "limit - 1 < range_entry_end p" using low by (rule less_trans[rotated])
    moreover have "n \<in> set es" using es l(2) False apart by (auto simp: n_def split_beta)
    ultimately show ?thesis unfolding Let_def es_def [symmetric] using False by (simp add: n_def)
  next
    case True
    have "es = butlast E @ l\<lparr>re_end := limit - 1\<rparr> # fst (merge_from c suf (n # snd (merge_from a xs fr)))"
      using es l True apart by (auto simp: n_def split_beta range_entry_end_def)
    then have "tag_at es (re_end p) = None"
      using l(3) low pc merge_from_begins [of c suf "n # snd (merge_from a xs fr)"] using tag_at_Some_iff [of es "re_end p"] by (force simp: not_le)
    moreover have "tag_at (mr_entries mr) (re_end p) = Some tag"
      using tag_at_entry [OF assms(1), of p] pc(2) True by (simp add: assms(2))
    ultimately show ?thesis unfolding Let_def es_def [symmetric] using True by simp
  qed
qed

theorem memranges_fill_holes_inside_range_witness:
  "\<lparr>re_begin = 0x2000, re_end = 0xfff, re_tag = 0\<rparr> \<in> set (mr_entries (memranges_fill_holes_up_to True
     \<lparr>mr_entries = [\<lparr>re_begin = 0, re_end = 0x1fff, re_tag = 1\<rparr>, \<lparr>re_begin = 0x4000, re_end = 0x4fff, re_tag = 1\<rparr>], mr_free_list = []\<rparr>
     0x1000 0)) \<and>
   tag_at (mr_entries (memranges_fill_holes_up_to True
     \<lparr>mr_entries = [\<lparr>re_begin = 0, re_end = 0x1fff, re_tag = 1\<rparr>, \<lparr>re_begin = 0x4000, re_end = 0x4fff, re_tag = 1\<rparr>], mr_free_list = []\<rparr>
     0x1000 1)) 0x1fff = None"
proof -
  define mr where "mr = \<lparr>mr_entries = [\<lparr>re_begin = 0, re_end = 0x1fff, re_tag = 1\<rparr>, \<lparr>re_begin = 0x4000, re_end = 0x4fff, re_tag = 1\<rparr>],
    mr_free_list = []\<rparr>"
  have "ranges_sorted (mr_entries mr)" and "mr_entries mr = [] @ \<lparr>re_begin = 0, re_end = 0x1fff, re_tag = 1\<rparr> #
      \<lparr>re_begin = 0x4000, re_end = 0x4fff, re_tag = 1\<rparr> # []"
    by (simp_all add: mr_def)
  note inside = memranges_fill_holes_inside_range [OF this, of "0x1000"]
  show ?thesis
    unfolding mr_def [symmetric]
    using inside [of 0] inside [of 1] by (simp add: range_entry_end_def)
qed

end
