(* ===== verification/Bootmem.thy ===== *)
theory Bootmem
  imports Memrange
begin

text \<open>
  The boot memory map, \<^verbatim>\<open>src/lib/bootmem.c\<close>: one tagged map of all memory in use and one
  restricted to what the operating system may see, both \<^verbatim>\<open>memranges\<close>. The static variables
  of the file are the record \<open>bootmem_state\<close>. \<open>fatal\<close> is \<^verbatim>\<open>CONFIG_FATAL_ASSERTS\<close>: a failed
  \<^verbatim>\<open>assert\<close> halts the machine (\<open>None\<close>) when it is set and only prints otherwise.
\<close>

section \<open>Tags\<close>

definition BM_MEM_FIRST :: u32 where "BM_MEM_FIRST = 0x10000"
definition BM_MEM_RAM :: u32 where "BM_MEM_RAM = 0x10001"
definition BM_MEM_RESERVED :: u32 where "BM_MEM_RESERVED = 0x10002"
definition BM_MEM_ACPI :: u32 where "BM_MEM_ACPI = 0x10003"
definition BM_MEM_NVS :: u32 where "BM_MEM_NVS = 0x10004"
definition BM_MEM_UNUSABLE :: u32 where "BM_MEM_UNUSABLE = 0x10005"
definition BM_MEM_VENDOR_RSVD :: u32 where "BM_MEM_VENDOR_RSVD = 0x10006"
definition BM_MEM_TABLE :: u32 where "BM_MEM_TABLE = 0x10007"
definition BM_MEM_OS_CUTOFF :: u32 where "BM_MEM_OS_CUTOFF = BM_MEM_TABLE"
definition BM_MEM_RAMSTAGE :: u32 where "BM_MEM_RAMSTAGE = 0x10008"
definition BM_MEM_PAYLOAD :: u32 where "BM_MEM_PAYLOAD = 0x10009"
definition BM_MEM_LAST :: u32 where "BM_MEM_LAST = 0x1000a"

lemmas bm_tags = BM_MEM_FIRST_def BM_MEM_RAM_def BM_MEM_RESERVED_def BM_MEM_ACPI_def BM_MEM_NVS_def
  BM_MEM_UNUSABLE_def BM_MEM_VENDOR_RSVD_def BM_MEM_TABLE_def BM_MEM_OS_CUTOFF_def
  BM_MEM_RAMSTAGE_def BM_MEM_PAYLOAD_def BM_MEM_LAST_def

definition LB_MEM_RAM :: u32 where "LB_MEM_RAM = 1"
definition LB_MEM_RESERVED :: u32 where "LB_MEM_RESERVED = 2"
definition LB_MEM_ACPI :: u32 where "LB_MEM_ACPI = 3"
definition LB_MEM_NVS :: u32 where "LB_MEM_NVS = 4"
definition LB_MEM_UNUSABLE :: u32 where "LB_MEM_UNUSABLE = 5"
definition LB_MEM_VENDOR_RSVD :: u32 where "LB_MEM_VENDOR_RSVD = 6"
definition LB_MEM_TABLE :: u32 where "LB_MEM_TABLE = 16"

lemmas lb_tags = LB_MEM_RAM_def LB_MEM_RESERVED_def LB_MEM_ACPI_def LB_MEM_NVS_def
  LB_MEM_UNUSABLE_def LB_MEM_VENDOR_RSVD_def LB_MEM_TABLE_def

definition bootmem_to_lb_tag :: "u32 \<Rightarrow> u32" where
  "bootmem_to_lb_tag tag =
     (if tag = BM_MEM_RAM then LB_MEM_RAM
      else if tag = BM_MEM_RESERVED then LB_MEM_RESERVED
      else if tag = BM_MEM_ACPI then LB_MEM_ACPI
      else if tag = BM_MEM_NVS then LB_MEM_NVS
      else if tag = BM_MEM_UNUSABLE then LB_MEM_UNUSABLE
      else if tag = BM_MEM_VENDOR_RSVD then LB_MEM_VENDOR_RSVD
      else if tag = BM_MEM_TABLE then LB_MEM_TABLE
      else LB_MEM_RESERVED)"

section \<open>State and operations\<close>

record bootmem_state =
  bm_initialized :: bool
  bm_table_written :: bool
  bm_bootmem :: memranges
  bm_bootmem_os :: memranges

definition bootmem_start :: bootmem_state where
  "bootmem_start = \<lparr>bm_initialized = False, bm_table_written = False,
     bm_bootmem = \<lparr>mr_entries = [], mr_free_list = []\<rparr>,
     bm_bootmem_os = \<lparr>mr_entries = [], mr_free_list = []\<rparr>\<rparr>"

definition bootmem_add_range :: "bool \<Rightarrow> u64 \<Rightarrow> u64 \<Rightarrow> u32 \<Rightarrow> bootmem_state \<Rightarrow> bootmem_state option" where
  "bootmem_add_range fatal start sz tag s =
     (if fatal \<and> \<not> (tag > BM_MEM_FIRST \<and> tag < BM_MEM_LAST) then None
      else if fatal \<and> \<not> bm_initialized s then None
      else let s1 = s\<lparr>bm_bootmem := memranges_insert True (bm_bootmem s) start sz tag\<rparr> in
        if tag \<le> BM_MEM_OS_CUTOFF
        then if fatal \<and> bm_table_written s1 then None
             else Some (s1\<lparr>bm_bootmem_os := memranges_insert True (bm_bootmem_os s1) start sz tag\<rparr>)
        else Some s1)"

text \<open>A hook is the sequence of ranges it adds.\<close>

fun bootmem_add_ranges :: "bool \<Rightarrow> (u64 \<times> u64 \<times> u32) list \<Rightarrow> bootmem_state \<Rightarrow> bootmem_state option" where
  "bootmem_add_ranges fatal [] s = Some s"
| "bootmem_add_ranges fatal ((start, sz, tag) # rs) s =
     (case bootmem_add_range fatal start sz tag s of None \<Rightarrow> None
      | Some s' \<Rightarrow> bootmem_add_ranges fatal rs s')"

text \<open>
  The linker symbols and hooks \<^verbatim>\<open>bootmem_init\<close> reads: the CBMEM area, the stack and program
  extents of the ramstage and what the architecture and the platform add.
\<close>

record bootmem_env =
  env_devices :: "device list"
  env_cbmem :: "u64 \<times> u64"
  env_stack :: "u64 \<times> u64"
  env_program :: "u64 \<times> u64"
  env_arch :: "(u64 \<times> u64 \<times> u32) list"
  env_platform :: "(u64 \<times> u64 \<times> u32) list"

definition bootmem_init :: "bool \<Rightarrow> bootmem_env \<Rightarrow> bootmem_state \<Rightarrow> bootmem_state option" where
  "bootmem_init fatal env s =
     (let bm = memranges_init True (env_devices env) IORESOURCE_CACHEABLE IORESOURCE_CACHEABLE BM_MEM_RAM;
          bm = memranges_add_resources True (env_devices env) bm IORESOURCE_RESERVE IORESOURCE_RESERVE
                 BM_MEM_RESERVED
      in case memranges_clone True bm of
           None \<Rightarrow> None
         | Some os \<Rightarrow>
             bootmem_add_ranges fatal
               ([(fst (env_cbmem env), snd (env_cbmem env), BM_MEM_TABLE),
                 (fst (env_stack env), snd (env_stack env), BM_MEM_RAMSTAGE),
                 (fst (env_program env), snd (env_program env), BM_MEM_RAMSTAGE)]
                @ env_arch env @ env_platform env)
               (s\<lparr>bm_initialized := True, bm_bootmem := bm, bm_bootmem_os := os\<rparr>))"

record lb_uint64 =
  lb_lo :: u32
  lb_hi :: u32

definition unpack_lb64 :: "lb_uint64 \<Rightarrow> u64" where
  "unpack_lb64 v = push_bit 32 (ucast (lb_hi v)) + ucast (lb_lo v)"

definition pack_lb64 :: "u64 \<Rightarrow> lb_uint64" where
  "pack_lb64 v = \<lparr>lb_lo = ucast (drop_bit 0 v AND 0xffffffff), lb_hi = ucast (drop_bit 32 v AND 0xffffffff)\<rparr>"

record lb_memory_range =
  lbr_start :: lb_uint64
  lbr_size :: lb_uint64
  lbr_type :: u32

text \<open>The record header, with the flexible array of ranges as a list.\<close>

record lb_memory =
  lbm_tag :: u32
  lbm_size :: u32
  lbm_map :: "lb_memory_range list"

definition bootmem_write_memory_table ::
    "bool \<Rightarrow> bootmem_env \<Rightarrow> lb_memory \<Rightarrow> bootmem_state \<Rightarrow> (lb_memory \<times> bootmem_state) option" where
  "bootmem_write_memory_table fatal env mem s =
     (case bootmem_init fatal env s of None \<Rightarrow> None
      | Some s1 \<Rightarrow>
          let lb = map (\<lambda>r. \<lparr>lbr_start = pack_lb64 (range_entry_base r),
                             lbr_size = pack_lb64 (range_entry_size r),
                             lbr_type = bootmem_to_lb_tag (re_tag r)\<rparr>)
                     (mr_entries (bm_bootmem_os s1))
          in Some (mem\<lparr>lbm_size := lbm_size mem + of_nat (20 * length lb),
                       lbm_map := lb @ drop (length lb) (lbm_map mem)\<rparr>,
                   s1\<lparr>bm_table_written := True\<rparr>))"

definition type_strings :: "(u32 \<times> string) list" where
  "type_strings = [(BM_MEM_RAM, ''RAM''), (BM_MEM_RESERVED, ''RESERVED''), (BM_MEM_ACPI, ''ACPI''),
     (BM_MEM_NVS, ''NVS''), (BM_MEM_UNUSABLE, ''UNUSABLE''), (BM_MEM_VENDOR_RSVD, ''VENDOR RESERVED''),
     (BM_MEM_TABLE, ''CONFIGURATION TABLES''), (BM_MEM_RAMSTAGE, ''RAMSTAGE''),
     (BM_MEM_PAYLOAD, ''PAYLOAD'')]"

definition bootmem_range_string :: "u32 \<Rightarrow> string" where
  "bootmem_range_string tag = (case map_of type_strings tag of Some t \<Rightarrow> t | None \<Rightarrow> ''UNKNOWN!'')"

text \<open>One printed line per range: index, first address, last address and name.\<close>

definition bootmem_dump_ranges :: "bootmem_state \<Rightarrow> (nat \<times> u64 \<times> u64 \<times> string) list" where
  "bootmem_dump_ranges s =
     map (\<lambda>(i, r). (i, range_entry_base r, range_entry_end r - 1, bootmem_range_string (re_tag r)))
       (List.enumerate 0 (mr_entries (bm_bootmem s)))"

text \<open>The callback returns whether to go on and its updated argument.\<close>

fun walk_entries :: "(range_entry \<Rightarrow> 'a \<Rightarrow> bool \<times> 'a) \<Rightarrow> range_entry list \<Rightarrow> 'a \<Rightarrow> bool \<times> 'a" where
  "walk_entries action [] arg = (False, arg)"
| "walk_entries action (r # rs) arg =
     (case action r arg of (False, arg') \<Rightarrow> (True, arg') | (True, arg') \<Rightarrow> walk_entries action rs arg')"

definition bootmem_walk_os_mem ::
    "bool \<Rightarrow> (range_entry \<Rightarrow> 'a \<Rightarrow> bool \<times> 'a) \<Rightarrow> 'a \<Rightarrow> bootmem_state \<Rightarrow> (bool \<times> 'a) option" where
  "bootmem_walk_os_mem fatal action arg s =
     (if fatal \<and> \<not> bm_initialized s then None
      else Some (walk_entries action (mr_entries (bm_bootmem_os s)) arg))"

definition bootmem_walk ::
    "bool \<Rightarrow> (range_entry \<Rightarrow> 'a \<Rightarrow> bool \<times> 'a) \<Rightarrow> 'a \<Rightarrow> bootmem_state \<Rightarrow> (bool \<times> 'a) option" where
  "bootmem_walk fatal action arg s =
     (if fatal \<and> \<not> bm_initialized s then None
      else Some (walk_entries action (mr_entries (bm_bootmem s)) arg))"

fun bootmem_region_targets_ram :: "u64 \<Rightarrow> u64 \<Rightarrow> range_entry list \<Rightarrow> bool" where
  "bootmem_region_targets_ram start e [] = False"
| "bootmem_region_targets_ram start e (r # rs) =
     (if e \<le> range_entry_base r then False
      else if start \<ge> range_entry_base r \<and> e \<le> range_entry_end r \<and> re_tag r = BM_MEM_RAM then True
      else bootmem_region_targets_ram start e rs)"

definition bootmem_region_targets_usable_ram :: "u64 \<Rightarrow> u64 \<Rightarrow> bootmem_state \<Rightarrow> bool" where
  "bootmem_region_targets_usable_ram start sz s =
     bootmem_region_targets_ram start (start + sz) (mr_entries (bm_bootmem s))"

text \<open>All buffers lie below 4 GiB.\<close>

definition max_addr :: resource_t where
  "max_addr = 0x100000000"

definition buffer_fits :: "resource_t \<Rightarrow> range_entry \<Rightarrow> bool" where
  "buffer_fits sz r =
     (if range_entry_size r < sz then False
      else if re_tag r \<noteq> BM_MEM_RAM then False
      else if range_entry_base r \<ge> max_addr then False
      else let e = range_entry_end r;
               e = (if e > max_addr then max_addr else e)
           in \<not> (e - range_entry_base r < sz))"

definition find_region :: "resource_t \<Rightarrow> range_entry list \<Rightarrow> range_entry option" where
  "find_region sz rs = fold (\<lambda>r region. if buffer_fits sz r then Some r else region) rs None"

definition bootmem_allocate_buffer ::
    "bool \<Rightarrow> usize \<Rightarrow> bootmem_state \<Rightarrow> (ptr \<times> bootmem_state) option" where
  "bootmem_allocate_buffer fatal sz s =
     (if \<not> bm_initialized s then Some (NULL, s)
      else let sz = align_up sz 4096 in
        case find_region (ucast sz) (mr_entries (bm_bootmem s)) of
          None \<Rightarrow> Some (NULL, s)
        | Some region \<Rightarrow>
            let e = range_entry_end region;
                e = (if e > max_addr then max_addr else e);
                b = e - ucast sz
            in case bootmem_add_range fatal b (ucast sz) BM_MEM_PAYLOAD s of
                 None \<Rightarrow> None
               | Some s' \<Rightarrow> Some (ucast b, s'))"

section \<open>The two views and the invariant\<close>

definition bm_view :: "bootmem_state \<Rightarrow> resource_t \<Rightarrow> u32 option" where
  "bm_view s = tag_at (mr_entries (bm_bootmem s))"

definition os_view :: "bootmem_state \<Rightarrow> resource_t \<Rightarrow> u32 option" where
  "os_view s = tag_at (mr_entries (bm_bootmem_os s))"

text \<open>
  Both maps are well formed, the OS map carries tags up to the cut-off only, and the two
  agree wherever the boot map does not carry a tag above the cut-off.
\<close>

definition bootmem_inv :: "bootmem_state \<Rightarrow> bool" where
  "bootmem_inv s \<longleftrightarrow> memranges_wf (bm_bootmem s) \<and> memranges_wf (bm_bootmem_os s) \<and>
     (\<forall>a t. os_view s a = Some t \<longrightarrow> BM_MEM_FIRST < t \<and> t \<le> BM_MEM_OS_CUTOFF) \<and>
     (\<forall>a. bm_view s a = os_view s a \<or> (\<exists>t>BM_MEM_OS_CUTOFF. bm_view s a = Some t))"

lemma bootmem_add_range_views:
  assumes "bootmem_add_range fatal start sz tag s = Some s'" and "bootmem_inv s"
    and "unat start + unat sz \<le> 2 ^ 64" and "BM_MEM_FIRST < tag"
  shows "bm_view s' = retag start sz tag (bm_view s)"
    and "os_view s' = (if tag \<le> BM_MEM_OS_CUTOFF then retag start sz tag (os_view s) else os_view s)"
    and "bootmem_inv s'" and "bm_initialized s' = bm_initialized s"
    and "bm_table_written s' = bm_table_written s"
proof -
  let ?bm = "memranges_insert True (bm_bootmem s) start sz tag"
  let ?os = "memranges_insert True (bm_bootmem_os s) start sz tag"
  have s': "s' = s\<lparr>bm_bootmem := ?bm, bm_bootmem_os := if tag \<le> BM_MEM_OS_CUTOFF then ?os else bm_bootmem_os s\<rparr>"
    using assms(1) by (auto simp: bootmem_add_range_def Let_def split: if_splits)
  have wf: "memranges_wf (bm_bootmem s)" "memranges_wf (bm_bootmem_os s)"
    using assms(2) by (auto simp: bootmem_inv_def)
  note bm = memranges_insert_retag [OF wf(1) assms(3), of tag]
    and os = memranges_insert_retag [OF wf(2) assms(3), of tag]
  show v: "bm_view s' = retag start sz tag (bm_view s)"
    "os_view s' = (if tag \<le> BM_MEM_OS_CUTOFF then retag start sz tag (os_view s) else os_view s)"
    "bm_initialized s' = bm_initialized s" "bm_table_written s' = bm_table_written s"
    by (simp_all add: s' bm_view_def os_view_def bm(1) os(1))
  have wf': "memranges_wf (bm_bootmem s')" "memranges_wf (bm_bootmem_os s')"
    using bm(2) os(2) wf by (simp_all add: s')
  have "BM_MEM_FIRST < t \<and> t \<le> BM_MEM_OS_CUTOFF" if "os_view s' a = Some t" for a t
    using that assms(2,4) by (auto simp: v retag_def bootmem_inv_def split: if_splits)
  moreover have "bm_view s' a = os_view s' a \<or> (\<exists>t>BM_MEM_OS_CUTOFF. bm_view s' a = Some t)" for a
    using assms(2) by (auto simp: v retag_def bootmem_inv_def not_le)
  ultimately show "bootmem_inv s'"
    using wf' by (simp add: bootmem_inv_def)
qed

lemma bootmem_add_range_Some:
  "BM_MEM_FIRST < tag \<Longrightarrow> tag < BM_MEM_LAST \<Longrightarrow> bm_initialized s \<Longrightarrow>
    \<not> bm_table_written s \<or> BM_MEM_OS_CUTOFF < tag \<Longrightarrow> \<exists>s'. bootmem_add_range fatal start sz tag s = Some s'"
  by (auto simp: bootmem_add_range_def Let_def)

definition ranges_ok :: "(u64 \<times> u64 \<times> u32) list \<Rightarrow> bool" where
  "ranges_ok rs \<longleftrightarrow> (\<forall>(start, sz, tag)\<in>set rs. unat start + unat sz \<le> 2 ^ 64 \<and>
     BM_MEM_FIRST < tag \<and> tag < BM_MEM_LAST)"

lemma bootmem_add_ranges_inv:
  assumes "ranges_ok rs" and "bootmem_inv s" and "bm_initialized s" and "\<not> bm_table_written s"
  shows "\<exists>s'. bootmem_add_ranges fatal rs s = Some s' \<and> bootmem_inv s' \<and> bm_initialized s' \<and> \<not> bm_table_written s'"
  using assms
proof (induction rs arbitrary: s)
  case (Cons r rs)
  obtain start sz tag where r: "r = (start, sz, tag)" by (cases r)
  have ok: "unat start + unat sz \<le> 2 ^ 64" "BM_MEM_FIRST < tag" "tag < BM_MEM_LAST"
    using Cons.prems(1) unfolding ranges_ok_def r by auto
  obtain s1 where s1: "bootmem_add_range fatal start sz tag s = Some s1"
    using bootmem_add_range_Some ok(2,3) Cons.prems(3,4) by blast
  note v = bootmem_add_range_views [OF s1 Cons.prems(2) ok(1,2)]
  have "ranges_ok rs" using Cons.prems(1) unfolding ranges_ok_def by simp
  from Cons.IH [OF this v(3)] show ?case
    using Cons.prems(3,4) v(4,5) by (simp add: r s1)
qed simp

text \<open>The environment the hooks describe: no range wraps around, every tag is a proper one.\<close>

definition hook_ranges :: "bootmem_env \<Rightarrow> (u64 \<times> u64 \<times> u32) list" where
  "hook_ranges env = [(fst (env_cbmem env), snd (env_cbmem env), BM_MEM_TABLE),
     (fst (env_stack env), snd (env_stack env), BM_MEM_RAMSTAGE),
     (fst (env_program env), snd (env_program env), BM_MEM_RAMSTAGE)] @ env_arch env @ env_platform env"

lemma bootmem_init_inv:
  assumes "resources_ok (env_devices env)" and "ranges_ok (hook_ranges env)" and "\<not> bm_table_written s"
  shows "\<exists>s'. bootmem_init fatal env s = Some s' \<and> bootmem_inv s' \<and> bm_initialized s'"
proof -
  let ?P = "\<lambda>t. BM_MEM_FIRST < t \<and> t \<le> BM_MEM_OS_CUTOFF"
  define bm0 where "bm0 = memranges_init True (env_devices env) IORESOURCE_CACHEABLE IORESOURCE_CACHEABLE BM_MEM_RAM"
  define bm where "bm = memranges_add_resources True (env_devices env) bm0 IORESOURCE_RESERVE IORESOURCE_RESERVE
     BM_MEM_RESERVED"
  have tags: "?P BM_MEM_RAM" "?P BM_MEM_RESERVED" by (simp_all add: bm_tags)
  note keeps = memranges_add_resources_keeps [where P = ?P, OF assms(1)]
  have "memranges_wf bm0 \<and> (\<forall>a t. tag_at (mr_entries bm0) a = Some t \<longrightarrow> ?P t)"
    unfolding bm0_def memranges_init_def by (rule keeps [OF _ _ tags(1)]) (simp_all add: memranges_init_empty_def)
  then have "memranges_wf bm \<and> (\<forall>a t. tag_at (mr_entries bm) a = Some t \<longrightarrow> ?P t)"
    unfolding bm_def by (intro keeps [OF _ _ tags(2)]) blast+
  moreover have clone: "memranges_clone True bm = Some \<lparr>mr_entries = mr_entries bm, mr_free_list = []\<rparr>"
    by (simp add: memranges_clone_def map_idI)
  ultimately have inv: "bootmem_inv (s\<lparr>bm_initialized := True, bm_bootmem := bm,
      bm_bootmem_os := \<lparr>mr_entries = mr_entries bm, mr_free_list = []\<rparr>\<rparr>)"
    by (simp add: bootmem_inv_def bm_view_def os_view_def memranges_wf_def)
  have "bootmem_init fatal env s = bootmem_add_ranges fatal (hook_ranges env) (s\<lparr>bm_initialized := True,
      bm_bootmem := bm, bm_bootmem_os := \<lparr>mr_entries = mr_entries bm, mr_free_list = []\<rparr>\<rparr>)"
    unfolding bootmem_init_def Let_def hook_ranges_def bm0_def [symmetric] bm_def [symmetric] clone by simp
  then show ?thesis
    using bootmem_add_ranges_inv [OF assms(2) inv] assms(3) by auto
qed

section \<open>Runs of one tag\<close>

lemma run_in_one_entry:
  assumes "ranges_sorted es" and "ranges_merged es" and "b \<le> e"
    and "\<And>a. b \<le> a \<Longrightarrow> a \<le> e \<Longrightarrow> tag_at es a = Some t"
  shows "\<exists>r\<in>set es. re_begin r \<le> b \<and> e \<le> re_end r \<and> re_tag r = t"
proof -
  obtain r where r: "r \<in> set es" "re_begin r \<le> b" "b \<le> re_end r" "re_tag r = t"
    using tag_at_SomeD [OF assms(4) [OF order_refl assms(3)]] by blast
  have "e \<le> re_end r"
  proof (rule ccontr)
    assume "\<not> e \<le> re_end r"
    then have lt: "re_end r < e" by simp
    then have le: "re_end r + 1 \<le> e" and gt: "re_end r < re_end r + 1"
      using inc_le inc_less by blast+
    then have "re_end r + 1 \<noteq> 0" by auto
    moreover have "b \<le> re_end r + 1" using r(3) gt by order
    ultimately show False
      using ranges_merged_maximal [OF assms(1,2) r(1)] assms(4) [OF _ le] r(4) by blast
  qed
  then show ?thesis using r by blast
qed

lemma bootmem_region_targets_ram_iff:
  assumes "ranges_sorted es" and "start < e"
  shows "bootmem_region_targets_ram start e es \<longleftrightarrow>
    (\<exists>r\<in>set es. re_begin r \<le> start \<and> e \<le> re_end r + 1 \<and> re_tag r = BM_MEM_RAM)"
  using assms(1)
proof (induction es)
  case (Cons r rs)
  have no: "False" if "e \<le> re_begin r" "x \<in> set (r # rs)" "re_begin x \<le> start" for x
  proof -
    have "re_begin r \<le> re_begin x"
      using Cons.prems that(2) by (auto intro: order_trans less_imp_le)
    then show False using that(1,3) assms(2) by order
  qed
  show ?case
  proof (cases "e \<le> re_begin r")
    case True
    then show ?thesis using no by (auto simp: range_entry_base_def)
  next
    case False
    then show ?thesis using Cons by (auto simp: range_entry_base_def range_entry_end_def)
  qed
qed simp

section \<open>The allocator\<close>

lemma find_region_spec:
  "(case find_region sz rs of None \<Rightarrow> \<forall>r\<in>set rs. \<not> buffer_fits sz r
    | Some r \<Rightarrow> r \<in> set rs \<and> buffer_fits sz r)"
  unfolding find_region_def by (induction rs rule: rev_induct) (auto split: option.splits)

lemma unat_inc: "(x :: 'a::len word) + 1 \<noteq> 0 \<Longrightarrow> unat (x + 1) = unat x + 1"
  using unatSuc [of x] by (simp add: add.commute)

lemma le_dec_iff: "(s :: 'a::len word) < e \<Longrightarrow> a \<le> e - 1 \<longleftrightarrow> a < e"
  by (auto simp: less_eq_dec_iff)

text \<open>RAM never reaches the last address, so a range of RAM has an exclusive end.\<close>

lemma ram_range_end:
  assumes "memranges_wf mr" and "r \<in> set (mr_entries mr)" and "tag_at (mr_entries mr) (-1) \<noteq> Some (re_tag r)"
  shows "unat (range_entry_end r) = unat (re_end r) + 1" and "re_end r < range_entry_end r"
    and "unat (range_entry_end r) mod 4096 = 0"
proof -
  have srt: "ranges_sorted (mr_entries mr)" "ranges_merged (mr_entries mr)" "page_uniform (mr_entries mr)"
    using assms(1) by (auto simp: memranges_wf_def)
  have be: "re_begin r \<le> re_end r" using ranges_sorted_begin_end [OF srt(1) assms(2)] .
  have last: "tag_at (mr_entries mr) (re_end r) = Some (re_tag r)"
    by (rule tag_at_entry [OF srt(1) assms(2) be order_refl])
  then have "re_end r \<noteq> -1" using assms(3) by metis
  then have nz: "re_end r + 1 \<noteq> 0" by (metis add_eq_0_iff2)
  show u: "unat (range_entry_end r) = unat (re_end r) + 1"
    unfolding range_entry_end_def by (rule unat_inc [OF nz])
  then show "re_end r < range_entry_end r" by (simp add: word_less_nat_alt)
  have "tag_at (mr_entries mr) (re_end r + 1) \<noteq> tag_at (mr_entries mr) (re_end r)"
    using ranges_merged_maximal [OF srt(1,2) assms(2) nz] last by simp
  then have "unat (re_end r + 1) div 4096 \<noteq> unat (re_end r) div 4096"
    using srt(3) unfolding page_uniform_def by metis
  then have "(unat (re_end r) + 1) div 4096 \<noteq> unat (re_end r) div 4096"
    using u by (simp add: range_entry_end_def)
  then show "unat (range_entry_end r) mod 4096 = 0"
    unfolding u by (simp add: div_Suc split: if_splits)
qed

lemma page_in_aligned:
  assumes "unat b mod 4096 = 0" and "unat sz mod 4096 = 0" and "sz \<noteq> 0"
  shows "page_in b sz a \<longleftrightarrow> unat b \<le> unat a \<and> unat a < unat b + unat sz"
proof -
  obtain k m where b: "unat b = 4096 * k" and m: "unat sz = 4096 * m"
    using assms(1,2) by (metis dvdE mod_eq_0_iff_dvd)
  obtain m' where m': "m = Suc m'"
    using m unat_gt_0 [of sz] assms(3) by (cases m) auto
  have "4096 * k + 4096 * m - 1 = 4095 + 4096 * (k + m')" by (simp add: m')
  then have top: "(4096 * k + 4096 * m - 1) div 4096 = k + m'"
    by simp
  have "k \<le> unat a div 4096 \<longleftrightarrow> 4096 * k \<le> unat a"
    by (simp add: less_eq_div_iff_mult_less_eq mult.commute)
  moreover have eq: "4096 * k + 4096 * m = Suc (k + m') * 4096" by (simp add: m')
  have "unat a div 4096 \<le> k + m' \<longleftrightarrow> unat a < 4096 * k + 4096 * m"
    unfolding eq less_Suc_eq_le [symmetric] by (rule div_less_iff_less_mult) simp
  ultimately show ?thesis
    unfolding page_in_def b m top by simp
qed

text \<open>The address range the allocator takes out of a range that fits.\<close>

definition buffer_base :: "resource_t \<Rightarrow> range_entry \<Rightarrow> resource_t" where
  "buffer_base sz r = (if range_entry_end r > max_addr then max_addr else range_entry_end r) - sz"

lemma buffer_fits_base:
  assumes "memranges_wf mr" and "r \<in> set (mr_entries mr)" and "tag_at (mr_entries mr) (-1) \<noteq> Some BM_MEM_RAM"
    and "buffer_fits sz r" and "unat sz mod 4096 = 0" and "sz \<noteq> 0"
  shows "unat (buffer_base sz r) mod 4096 = 0"
    and "unat (buffer_base sz r) + unat sz \<le> 2 ^ 32"
    and "re_begin r \<le> buffer_base sz r" and "unat (buffer_base sz r) + unat sz \<le> unat (re_end r) + 1"
    and "re_tag r = BM_MEM_RAM"
proof -
  define e where "e = (if range_entry_end r > max_addr then max_addr else range_entry_end r)"
  have fits: "re_tag r = BM_MEM_RAM" "re_begin r < max_addr" "sz \<le> e - re_begin r"
    using assms(4) by (auto simp: buffer_fits_def e_def Let_def range_entry_base_def not_le not_less split: if_splits)
  then show "re_tag r = BM_MEM_RAM" by simp
  note rend = ram_range_end [OF assms(1,2)] fits(1) assms(3)
  have u: "unat (range_entry_end r) = unat (re_end r) + 1" "unat (range_entry_end r) mod 4096 = 0"
    using rend by simp_all
  have "re_begin r \<le> re_end r"
    using assms(1,2) ranges_sorted_begin_end by (auto simp: memranges_wf_def)
  then have "re_begin r < range_entry_end r" using rend by (simp add: order_le_less_trans)
  then have be: "re_begin r < e" using fits(2) by (simp add: e_def)
  have ue: "unat e mod 4096 = 0" "unat e \<le> 2 ^ 32" "unat e \<le> unat (re_end r) + 1"
    using u by (auto simp: e_def max_addr_def word_less_nat_alt)
  have "unat sz \<le> unat (e - re_begin r)" using fits(3) by (simp add: word_le_nat_alt)
  also have "\<dots> = unat e - unat (re_begin r)" using be by (intro unat_sub) simp
  finally have le: "unat sz \<le> unat e - unat (re_begin r)" .
  moreover have lt: "unat (re_begin r) < unat e" using be by (simp add: word_less_nat_alt)
  ultimately have b: "unat (buffer_base sz r) = unat e - unat sz" "unat sz \<le> unat e"
    unfolding buffer_base_def e_def [symmetric] by (auto intro!: unat_sub simp: word_le_nat_alt)
  show "unat (buffer_base sz r) mod 4096 = 0"
    unfolding b using ue(1) assms(5) b(2) by (metis dvd_diff_nat mod_0_imp_dvd mod_eq_0_iff_dvd)
  show "unat (buffer_base sz r) + unat sz \<le> 2 ^ 32" "unat (buffer_base sz r) + unat sz \<le> unat (re_end r) + 1"
    using b ue by simp_all
  show "re_begin r \<le> buffer_base sz r"
    unfolding word_le_nat_alt b using le lt by linarith
qed

lemma run_fits:
  fixes b sz :: resource_t
  assumes "memranges_wf mr" and "tag_at (mr_entries mr) (-1) \<noteq> Some BM_MEM_RAM" and "sz \<noteq> 0"
    and "unat b + unat sz \<le> 2 ^ 32"
    and "\<And>a. unat b \<le> unat a \<Longrightarrow> unat a < unat b + unat sz \<Longrightarrow> tag_at (mr_entries mr) a = Some BM_MEM_RAM"
  shows "\<exists>r\<in>set (mr_entries mr). buffer_fits sz r"
proof -
  have srt: "ranges_sorted (mr_entries mr)" "ranges_merged (mr_entries mr)"
    using assms(1) by (auto simp: memranges_wf_def)
  have sz: "0 < unat sz" using assms(3) by (simp add: unat_gt_0)
  have "unat (b + sz) = unat b + unat sz"
    using assms(4) by (intro unat_add_nowrap) simp
  moreover from this have "unat (b + sz - 1) = unat b + unat sz - 1"
    using sz by (subst unat_minus_one) auto
  ultimately have last: "unat (b + sz - 1) = unat b + unat sz - 1" by simp
  have le: "b \<le> b + sz - 1" using sz by (simp add: word_le_nat_alt last)
  obtain r where r: "r \<in> set (mr_entries mr)" "re_begin r \<le> b" "b + sz - 1 \<le> re_end r" "re_tag r = BM_MEM_RAM"
    using run_in_one_entry [OF srt le, of BM_MEM_RAM] assms(5) sz by (fastforce simp: word_le_nat_alt last)
  note rend = ram_range_end [OF assms(1) r(1)]
  have u: "unat (range_entry_end r) = unat (re_end r) + 1" using rend(1) r(4) assms(2) by simp
  define e where "e = (if range_entry_end r > max_addr then max_addr else range_entry_end r)"
  have ge: "unat b + unat sz \<le> unat (re_end r) + 1"
    using r(3) sz by (simp add: word_le_nat_alt last)
  then have ue: "unat b + unat sz \<le> unat e" using u assms(4) by (simp add: e_def max_addr_def)
  have rb: "unat (re_begin r) \<le> unat b" using r(2) by (simp add: word_le_nat_alt)
  have size: "range_entry_size r = range_entry_end r - re_begin r"
    by (simp add: range_entry_size_def range_entry_end_def)
  have "unat (range_entry_size r) = unat (range_entry_end r) - unat (re_begin r)"
    unfolding size using u ge rb by (intro unat_sub) (simp add: word_le_nat_alt)
  then have 1: "\<not> range_entry_size r < sz" using u ge rb by (simp add: word_less_nat_alt)
  have "unat (e - re_begin r) = unat e - unat (re_begin r)"
    using ue rb by (intro unat_sub) (simp add: word_le_nat_alt)
  then have 2: "\<not> e - re_begin r < sz" using ue rb by (simp add: word_less_nat_alt)
  have 3: "\<not> re_begin r \<ge> max_addr"
    using rb assms(4) sz by (simp add: word_le_nat_alt max_addr_def)
  have "buffer_fits sz r"
    using 1 2 3 r(4) by (simp add: buffer_fits_def range_entry_base_def e_def Let_def)
  then show ?thesis using r(1) by blast
qed

section \<open>The coreboot table\<close>

lemma unpack_pack_lb64: "unpack_lb64 (pack_lb64 v) = v"
proof -
  have m: "(0xffffffff :: u64) = mask 32" by (simp add: mask_eq_exp_minus_1)
  have "ucast (ucast (drop_bit 32 v AND 0xffffffff) :: u32) = drop_bit 32 v"
    unfolding m by (rule bit_word_eqI) (auto simp: bit_simps dest: bit_imp_le_length)
  moreover have "ucast (ucast (drop_bit 0 v AND 0xffffffff) :: u32) = take_bit 32 v"
    unfolding m by (rule bit_word_eqI) (auto simp: bit_simps)
  ultimately show ?thesis
    by (simp only: unpack_lb64_def pack_lb64_def lb_uint64.simps bits_ident)
qed

lemma resource_end: "re_begin r + range_entry_size r - 1 = re_end r"
  by (simp add: range_entry_size_def)

text \<open>The addresses a table entry describes, its last address computed modulo the word size.\<close>

definition lb_covers :: "lb_memory_range \<Rightarrow> u64 \<Rightarrow> bool" where
  "lb_covers e a \<longleftrightarrow> unpack_lb64 (lbr_start e) \<le> a \<and>
     a \<le> unpack_lb64 (lbr_start e) + unpack_lb64 (lbr_size e) - 1"

section \<open>Properties\<close>

text \<open>
  C14: Writing the memory table from a fresh state always succeeds, even with fatal
  assertions. The table's new entries describe exactly the OS view of memory: an address is
  covered by an entry of some type if and only if the OS map gives it a tag of that type; the
  record grows by the size of the entries, and the invariant relating the boot map to the OS
  map holds.
\<close>

theorem bootmem_table_describes_os_view:
  assumes "resources_ok (env_devices env)" and "ranges_ok (hook_ranges env)" and "\<not> bm_table_written s"
  shows "\<exists>mem' s'. bootmem_write_memory_table fatal env mem s = Some (mem', s') \<and> bootmem_inv s' \<and>
    bm_table_written s' \<and>
    (\<exists>es. lbm_map mem' = es @ drop (length es) (lbm_map mem) \<and>
       lbm_size mem' = lbm_size mem + of_nat (20 * length es) \<and>
       (\<forall>a ty. (\<exists>e\<in>set es. lb_covers e a \<and> lbr_type e = ty) \<longleftrightarrow>
          map_option bootmem_to_lb_tag (os_view s' a) = Some ty))"
proof -
  obtain s1 where s1: "bootmem_init fatal env s = Some s1" and inv: "bootmem_inv s1"
    using bootmem_init_inv [OF assms] by blast
  let ?lb = "\<lambda>r. \<lparr>lbr_start = pack_lb64 (range_entry_base r), lbr_size = pack_lb64 (range_entry_size r),
     lbr_type = bootmem_to_lb_tag (re_tag r)\<rparr>"
  let ?s' = "s1\<lparr>bm_table_written := True\<rparr>"
  let ?es = "map ?lb (mr_entries (bm_bootmem_os s1))"
  have cov: "lb_covers (?lb r) a \<longleftrightarrow> re_begin r \<le> a \<and> a \<le> re_end r" for r a
    by (simp add: lb_covers_def unpack_pack_lb64 resource_end [unfolded range_entry_base_def] range_entry_base_def)
  have "ranges_sorted (mr_entries (bm_bootmem_os s1))"
    using inv by (simp add: bootmem_inv_def memranges_wf_def)
  then have "(\<exists>e\<in>set ?es. lb_covers e a \<and> lbr_type e = ty) \<longleftrightarrow>
      map_option bootmem_to_lb_tag (os_view ?s' a) = Some ty" for a ty
    using tag_at_entry [of "mr_entries (bm_bootmem_os s1)" _ a] tag_at_SomeD [of "mr_entries (bm_bootmem_os s1)" a]
    by (auto simp: os_view_def cov)
  moreover have "bootmem_inv ?s'" using inv by (simp add: bootmem_inv_def bm_view_def os_view_def)
  moreover let ?mem' = "mem\<lparr>lbm_size := lbm_size mem + of_nat (20 * length ?es),
        lbm_map := ?es @ drop (length ?es) (lbm_map mem)\<rparr>"
  have "bootmem_write_memory_table fatal env mem s = Some (?mem', ?s')"
    by (simp add: bootmem_write_memory_table_def s1 Let_def)
  ultimately show ?thesis
    by (intro exI [of _ ?mem'] exI [of _ ?s'] conjI exI [of _ ?es] allI) simp_all
qed

definition example_env :: bootmem_env where
  "example_env = \<lparr>env_devices = [\<lparr>dev_enabled = True, dev_path_type = 2, dev_class = 0, dev_resource_list =
       [\<lparr>res_base = 0, res_size = 0x8000000, res_limit = 0x7ffffff, res_flags = 0x4200, res_index = 10,
         res_align = 0, res_gran = 0\<rparr>]\<rparr>],
     env_cbmem = (0x7ff0000, 0x10000), env_stack = (0x110000, 0x1000), env_program = (0x100000, 0x10000),
     env_arch = [(0, 0x1000, BM_MEM_TABLE)], env_platform = []\<rparr>"

lemma example_env_ok: "resources_ok (env_devices example_env)" "ranges_ok (hook_ranges example_env)"
  by (simp_all add: example_env_def resources_ok_def ranges_ok_def hook_ranges_def bm_tags)

theorem bootmem_table_describes_os_view_witness:
  "\<exists>mem' s'. bootmem_write_memory_table True example_env \<lparr>lbm_tag = 1, lbm_size = 8, lbm_map = []\<rparr> bootmem_start
     = Some (mem', s') \<and> bootmem_inv s'"
  using bootmem_table_describes_os_view [OF example_env_ok, of bootmem_start True "\<lparr>lbm_tag = 1, lbm_size = 8, lbm_map = []\<rparr>"]
  by (auto simp: bootmem_start_def)

text \<open>
  A region that does not wrap is reported as usable RAM exactly when every one of its
  addresses is tagged RAM in the boot map, provided RAM does not reach the last address of
  the address space.
\<close>

theorem bootmem_region_targets_usable_ram_correct:
  assumes "bootmem_inv s" and "bm_view s (-1) \<noteq> Some BM_MEM_RAM" and "sz \<noteq> 0" and "unat start + unat sz < 2 ^ 64"
  shows "bootmem_region_targets_usable_ram start sz s \<longleftrightarrow>
    (\<forall>a. start \<le> a \<and> a < start + sz \<longrightarrow> bm_view s a = Some BM_MEM_RAM)"
proof -
  let ?es = "mr_entries (bm_bootmem s)"
  have wf: "memranges_wf (bm_bootmem s)" using assms(1) by (simp add: bootmem_inv_def)
  then have srt: "ranges_sorted ?es" "ranges_merged ?es" by (simp_all add: memranges_wf_def)
  have lt: "start < start + sz"
    using assms(3,4) unat_gt_0 [of sz] by (simp add: word_less_nat_alt unat_add_nowrap)
  then have nz: "start + sz \<noteq> 0" by auto
  have e1: "start + sz - 1 < start + sz" "start \<le> start + sz - 1"
    "a \<le> start + sz - 1 \<longleftrightarrow> a < start + sz" for a
    using le_dec_iff [OF lt] dec_less [of "start + sz"] lt by (blast, blast, blast)
  have iff: "bootmem_region_targets_usable_ram start sz s \<longleftrightarrow>
      (\<exists>r\<in>set ?es. re_begin r \<le> start \<and> start + sz \<le> re_end r + 1 \<and> re_tag r = BM_MEM_RAM)"
    unfolding bootmem_region_targets_usable_ram_def
    by (rule bootmem_region_targets_ram_iff [OF srt(1) lt])
  have rend: "start + sz \<le> re_end r + 1 \<longleftrightarrow> start + sz - 1 \<le> re_end r"
    if "r \<in> set ?es" "re_tag r = BM_MEM_RAM" for r
    using ram_range_end(1) [OF wf that(1)] that(2) assms(2) unat_minus_one [OF nz] nz unat_gt_0 [of "start + sz"]
    by (auto simp: bm_view_def word_le_nat_alt range_entry_end_def)
  show ?thesis
  proof
    assume "bootmem_region_targets_usable_ram start sz s"
    then obtain r where r: "r \<in> set ?es" "re_begin r \<le> start" "start + sz - 1 \<le> re_end r" "re_tag r = BM_MEM_RAM"
      using iff rend by blast
    show "\<forall>a. start \<le> a \<and> a < start + sz \<longrightarrow> bm_view s a = Some BM_MEM_RAM"
    proof (intro allI impI)
      fix a assume a: "start \<le> a \<and> a < start + sz"
      then have "re_begin r \<le> a" "a \<le> re_end r" using r(2,3) e1(3) [of a] by (auto intro: order_trans)
      then show "bm_view s a = Some BM_MEM_RAM"
        using tag_at_entry [OF srt(1) r(1)] r(4) by (simp add: bm_view_def)
    qed
  next
    assume all: "\<forall>a. start \<le> a \<and> a < start + sz \<longrightarrow> bm_view s a = Some BM_MEM_RAM"
    have "\<exists>r\<in>set ?es. re_begin r \<le> start \<and> start + sz - 1 \<le> re_end r \<and> re_tag r = BM_MEM_RAM"
      by (rule run_in_one_entry [OF srt e1(2)]) (use all e1(3) in \<open>simp add: bm_view_def\<close>)
    then show "bootmem_region_targets_usable_ram start sz s" using iff rend by blast
  qed
qed


definition example_state :: bootmem_state where
  "example_state = (let mr = memranges_insert True (memranges_init_empty []) 0 0x8000 BM_MEM_RAM in
     \<lparr>bm_initialized = True, bm_table_written = False, bm_bootmem = mr, bm_bootmem_os = mr\<rparr>)"

lemma example_state_ok:
  "bootmem_inv example_state" "bm_initialized example_state"
  "bm_view example_state a = (if unat a div 4096 \<le> 7 then Some BM_MEM_RAM else None)"
  "bm_view example_state (-1) \<noteq> Some BM_MEM_RAM"
proof -
  let ?mr = "memranges_insert True (memranges_init_empty []) 0 0x8000 BM_MEM_RAM"
  have "memranges_wf (memranges_init_empty [])" by (simp add: memranges_init_empty_def)
  note ins = memranges_insert_retag [OF this, of 0 "0x8000" BM_MEM_RAM]
  have tags: "tag_at (mr_entries ?mr) a = (if page_in 0 0x8000 a then Some BM_MEM_RAM else None)" for a
    using ins(1) by (simp add: retag_def memranges_init_empty_def)
  show "bootmem_inv example_state"
    using ins(2) tags by (auto simp: example_state_def Let_def bootmem_inv_def bm_view_def os_view_def bm_tags split: if_splits)
  show view: "bm_view example_state a = (if unat a div 4096 \<le> 7 then Some BM_MEM_RAM else None)" for a
    using tags [of a] by (simp add: example_state_def Let_def bm_view_def page_in_def)
  show "bm_view example_state (-1) \<noteq> Some BM_MEM_RAM"
    by (simp add: view unsigned_minus_1_eq_mask mask_eq_exp_minus_1)
  show "bm_initialized example_state" by (simp add: example_state_def Let_def)
qed

theorem bootmem_region_targets_usable_ram_correct_witness:
  "bootmem_region_targets_usable_ram 0x1000 0x2000 example_state"
proof -
  have "bm_view example_state a = Some BM_MEM_RAM" if "a < 0x3000" for a
  proof -
    have "unat a < 0x3000" using that by (simp add: word_less_nat_alt)
    then show ?thesis by (simp add: example_state_ok(3))
  qed
  then show ?thesis
    using bootmem_region_targets_usable_ram_correct [OF example_state_ok(1,4), of "0x2000" "0x1000"] by simp
qed

text \<open>
  C26: A buffer allocation either leaves the state alone and returns the null pointer, or it
  returns the page-aligned address of a block below 4 GiB that was all RAM, of the requested
  size rounded up to pages; afterwards exactly that block is tagged as payload memory, the
  OS view has not changed and the invariant still holds. It fails only when no page-aligned
  block of that size below 4 GiB is all RAM.
\<close>

theorem bootmem_allocate_buffer_correct:
  assumes "bootmem_inv s" and "bm_initialized s" and "bm_view s (-1) \<noteq> Some BM_MEM_RAM"
    and "sz \<noteq> 0" and "unat sz \<le> 2 ^ 32 - 4096"
  shows "\<exists>p s'. bootmem_allocate_buffer fatal sz s = Some (p, s') \<and>
    (if s' = s then p = NULL \<and> (\<forall>b :: resource_t. unat b + unat (align_up sz 4096) \<le> 2 ^ 32 \<longrightarrow>
         (\<exists>a. unat b \<le> unat a \<and> unat a < unat b + unat (align_up sz 4096) \<and> bm_view s a \<noteq> Some BM_MEM_RAM))
     else unat p mod 4096 = 0 \<and> unat p + unat (align_up sz 4096) \<le> 2 ^ 32 \<and>
       (\<forall>a. bm_view s' a = (if unat p \<le> unat a \<and> unat a < unat p + unat (align_up sz 4096)
                            then Some BM_MEM_PAYLOAD else bm_view s a)) \<and>
       (\<forall>a. unat p \<le> unat a \<and> unat a < unat p + unat (align_up sz 4096) \<longrightarrow> bm_view s a = Some BM_MEM_RAM) \<and>
       os_view s' = os_view s \<and> bootmem_inv s')"
proof -
  let ?n = "unat (align_up sz 4096)" and ?A = "ucast (align_up sz 4096) :: resource_t"
  have "?n = (unat sz + 4095) div 4096 * 4096"
    using unat_align_up [of 12 sz] assms(5) by simp
  then have n: "?n mod 4096 = 0" "0 < ?n"
    using assms(4) unat_gt_0 [of sz] align_up_ge_nat [of "unat sz" 12] by simp_all
  have A: "unat ?A = ?n" by (simp add: unat_ucast_up)
  then have A0: "?A \<noteq> 0" and Am: "unat ?A mod 4096 = 0" using n by auto
  have wf: "memranges_wf (bm_bootmem s)" using assms(1) by (simp add: bootmem_inv_def)
  have top: "tag_at (mr_entries (bm_bootmem s)) (-1) \<noteq> Some BM_MEM_RAM"
    using assms(3) by (simp add: bm_view_def)
  show ?thesis
  proof (cases "find_region ?A (mr_entries (bm_bootmem s))")
    case None
    then have "\<forall>r\<in>set (mr_entries (bm_bootmem s)). \<not> buffer_fits ?A r"
      using find_region_spec [of "mr_entries (bm_bootmem s)" ?A] by simp
    then have "\<exists>a. unat b \<le> unat a \<and> unat a < unat b + ?n \<and> bm_view s a \<noteq> Some BM_MEM_RAM"
      if "unat b + ?n \<le> 2 ^ 32" for b :: resource_t
      using run_fits [OF wf top A0, where b = b] that unfolding A bm_view_def by blast
    moreover have "bootmem_allocate_buffer fatal sz s = Some (NULL, s)"
      using None assms(2) by (simp add: bootmem_allocate_buffer_def Let_def)
    ultimately show ?thesis by auto
  next
    case (Some r)
    then have r: "r \<in> set (mr_entries (bm_bootmem s))" "buffer_fits ?A r"
      using find_region_spec [of "mr_entries (bm_bootmem s)" ?A] by simp_all
    define b where "b = buffer_base ?A r"
    note fb = buffer_fits_base [OF wf r(1) top r(2) Am A0, folded b_def, unfolded A]
    obtain s' where s': "bootmem_add_range fatal b ?A BM_MEM_PAYLOAD s = Some s'"
      using bootmem_add_range_Some [of BM_MEM_PAYLOAD s fatal b ?A] assms(2) by (auto simp: bm_tags)
    have "unat b + unat ?A \<le> 2 ^ 64" using fb(2) by (simp add: A)
    note v = bootmem_add_range_views [OF s' assms(1) this]
    have v: "bm_view s' = retag b ?A BM_MEM_PAYLOAD (bm_view s)" "os_view s' = os_view s" "bootmem_inv s'"
      using v by (simp_all add: bm_tags)
    have up: "unat (ucast b :: ptr) = unat b"
      using fb(2) n(2) by (intro unat_ucast_small) simp
    have "bootmem_allocate_buffer fatal sz s = Some (ucast b, s')"
      using assms(2) Some s' by (simp add: bootmem_allocate_buffer_def Let_def b_def buffer_base_def)
    moreover have view': "bm_view s' a = (if unat b \<le> unat a \<and> unat a < unat b + ?n
        then Some BM_MEM_PAYLOAD else bm_view s a)" for a
      by (simp add: v(1) retag_def A0 page_in_aligned [OF fb(1) Am A0] A)
    moreover have ram: "bm_view s a = Some BM_MEM_RAM" if "unat b \<le> unat a \<and> unat a < unat b + ?n" for a
      using tag_at_entry [OF _ r(1)] wf fb(3,4,5) that
      by (fastforce simp: bm_view_def memranges_wf_def word_le_nat_alt)
    moreover have "s' \<noteq> s"
      using view' [of b] ram [of b] n(2) by (auto simp: bm_tags)
    ultimately show ?thesis
      using v fb(1,2) by (simp add: up)
  qed
qed

theorem bootmem_allocate_buffer_correct_witness:
  "\<exists>p s'. bootmem_allocate_buffer True 0x100 example_state = Some (p, s') \<and>
     s' \<noteq> example_state \<and> bm_view s' (ucast p) = Some BM_MEM_PAYLOAD"
proof -
  have "bm_view example_state a = Some BM_MEM_RAM" if "unat a < 4096" for a
    using that by (simp add: example_state_ok(3))
  moreover have "unat (align_up (0x100 :: usize) 4096) = 4096" by (simp add: align_up_def)
  ultimately show ?thesis
    using bootmem_allocate_buffer_correct [OF example_state_ok(1,2,4), of "0x100" True]
    by (auto simp: unat_ucast_up split: if_splits dest: spec [of _ "0 :: resource_t"])
qed

end
