(* ===== verification/Timer_Queue.thy ===== *)
theory Timer_Queue
  imports Prelude "HOL-Library.Multiset"
begin

text \<open>
  Timers, \<^verbatim>\<open>src/lib/timer_queue.c\<close> and the time structure of \<^verbatim>\<open>src/include/timer.h\<close>: a
  binary min-heap of pointers to timeout callbacks in a fixed array. The expiration fields
  live in the callbacks, so the operations read them through a store \<open>ex\<close> from pointers to
  times. A priority queue locale states what the callers rely on; the array heap is its
  interpretation.
\<close>

section \<open>Times\<close>

record mono_time =
  microseconds :: u32   \<comment> \<open>a signed \<^verbatim>\<open>long\<close>\<close>

definition mono_time_add_usecs :: "mono_time \<Rightarrow> u32 \<Rightarrow> mono_time" where
  "mono_time_add_usecs mt us = \<lparr>microseconds = microseconds mt + us\<rparr>"

definition mono_time_cmp :: "mono_time \<Rightarrow> mono_time \<Rightarrow> int" where
  "mono_time_cmp t1 t2 =
     (if microseconds t1 = microseconds t2 then 0
      else if sint (microseconds t1) < sint (microseconds t2) then -1 else 1)"

definition mono_time_before :: "mono_time \<Rightarrow> mono_time \<Rightarrow> bool" where
  "mono_time_before t1 t2 \<longleftrightarrow> mono_time_cmp t1 t2 < 0"

abbreviation usecs :: "mono_time \<Rightarrow> int" where
  "usecs t \<equiv> sint (microseconds t)"

lemma mono_time_cmp_iff [simp]:
  "mono_time_cmp t1 t2 \<le> 0 \<longleftrightarrow> usecs t1 \<le> usecs t2"
  "mono_time_cmp t1 t2 < 0 \<longleftrightarrow> usecs t1 < usecs t2"
  "mono_time_before t1 t2 \<longleftrightarrow> usecs t1 < usecs t2"
  by (auto simp: mono_time_cmp_def mono_time_before_def dest: signed_word_eqI)

section \<open>The heap\<close>

record timer_queue =
  num_entries :: nat
  max_entries :: nat
  queue :: "ptr list"

definition MAX_TIMER_QUEUE_ENTRIES :: nat where "MAX_TIMER_QUEUE_ENTRIES = 64"

definition global_timer_queue :: timer_queue where
  "global_timer_queue = \<lparr>num_entries = 0, max_entries = MAX_TIMER_QUEUE_ENTRIES,
     queue = replicate MAX_TIMER_QUEUE_ENTRIES NULL\<rparr>"

definition timer_queue_empty :: "timer_queue \<Rightarrow> bool" where
  "timer_queue_empty tq \<longleftrightarrow> num_entries tq = 0"

definition timer_queue_full :: "timer_queue \<Rightarrow> bool" where
  "timer_queue_full tq \<longleftrightarrow> num_entries tq = max_entries tq"

text \<open>A null head is \<open>None\<close>.\<close>

definition timer_queue_head :: "timer_queue \<Rightarrow> ptr option" where
  "timer_queue_head tq = (if timer_queue_empty tq then None else Some (queue tq ! 0))"

text \<open>The loop of \<^verbatim>\<open>timer_queue_insert\<close>: the new entry sits at \<open>index\<close>.\<close>

fun sift_up :: "(ptr \<Rightarrow> mono_time) \<Rightarrow> ptr list \<Rightarrow> nat \<Rightarrow> ptr \<Rightarrow> ptr list" where
  "sift_up ex q index tocb =
     (if index = 0 then q
      else let parent_index = (index - 1) div 2; parent = q ! parent_index in
        if mono_time_cmp (ex parent) (ex tocb) \<le> 0 then q
        else sift_up ex (q[parent_index := tocb, index := parent]) parent_index tocb)"

declare sift_up.simps [simp del]

definition timer_queue_insert :: "(ptr \<Rightarrow> mono_time) \<Rightarrow> timer_queue \<Rightarrow> ptr \<Rightarrow> timer_queue \<times> int" where
  "timer_queue_insert ex tq tocb =
     (if timer_queue_full tq then (tq, -1)
      else let index = num_entries tq in
        (tq\<lparr>num_entries := num_entries tq + 1,
            queue := sift_up ex ((queue tq)[index := tocb]) index tocb\<rparr>, 0))"

definition timer_queue_min_child_index :: "(ptr \<Rightarrow> mono_time) \<Rightarrow> nat \<Rightarrow> ptr list \<Rightarrow> nat \<Rightarrow> int" where
  "timer_queue_min_child_index ex n q index =
     (let left_child_index = 2 * index + 1 in
      if left_child_index \<ge> n then -1
      else let right_child_index = left_child_index + 1 in
        if right_child_index \<ge> n then int left_child_index
        else if mono_time_cmp (ex (q ! left_child_index)) (ex (q ! right_child_index)) < 0
             then int left_child_index
        else int right_child_index)"

lemma min_child_bounds:
  assumes "timer_queue_min_child_index ex n q index = c" and "\<not> c < 0"
  shows "nat c < n" and "index < nat c" and "(nat c - 1) div 2 = index"
    and "\<And>i. i < n \<Longrightarrow> 0 < i \<Longrightarrow> (i - 1) div 2 = index \<Longrightarrow> usecs (ex (q ! nat c)) \<le> usecs (ex (q ! i))"
proof -
  have c: "c = int (2 * index + 1) \<or> c = int (2 * index + 2)"
    using assms by (auto simp: timer_queue_min_child_index_def Let_def split: if_splits)
  show "nat c < n" "index < nat c" "(nat c - 1) div 2 = index"
    using assms c by (auto simp: timer_queue_min_child_index_def Let_def split: if_splits)
  fix i assume i: "i < n" "0 < i" "(i - 1) div 2 = index"
  then have "i = 2 * index + 1 \<or> i = 2 * index + 2" by arith
  then show "usecs (ex (q ! nat c)) \<le> usecs (ex (q ! i))"
    using assms i(1) by (auto simp: timer_queue_min_child_index_def Let_def nat_add_distrib nat_mult_distrib split: if_splits)
qed

text \<open>The loop of \<^verbatim>\<open>timer_queue_remove_head\<close>.\<close>

function sift_down :: "(ptr \<Rightarrow> mono_time) \<Rightarrow> nat \<Rightarrow> ptr list \<Rightarrow> nat \<Rightarrow> ptr \<Rightarrow> ptr list" where
  "sift_down ex n q index tocb =
     (let min_child_index = timer_queue_min_child_index ex n q index in
      if min_child_index < 0 then q
      else let child = q ! nat min_child_index in
        if mono_time_cmp (ex tocb) (ex child) \<le> 0 then q
        else sift_down ex n (q[nat min_child_index := tocb, index := child]) (nat min_child_index) tocb)"
  by pat_completeness auto
termination
proof (relation "measure (\<lambda>(ex, n, q, index, tocb). n - index)", goal_cases)
  case (2 ex n q index tocb c child)
  then have "index < nat c" "nat c < n" using min_child_bounds(1,2) [of ex n q index c] by simp_all
  then show ?case by simp
qed simp

declare sift_down.simps [simp del]

definition timer_queue_remove_head :: "(ptr \<Rightarrow> mono_time) \<Rightarrow> timer_queue \<Rightarrow> timer_queue" where
  "timer_queue_remove_head ex tq =
     (let n = num_entries tq - 1; tocb = queue tq ! n in
      tq\<lparr>num_entries := n, queue := sift_down ex n ((queue tq)[0 := tocb]) 0 tocb\<rparr>)"

definition timer_queue_expired :: "(ptr \<Rightarrow> mono_time) \<Rightarrow> timer_queue \<Rightarrow> mono_time \<Rightarrow> ptr option \<times> timer_queue" where
  "timer_queue_expired ex tq current_time =
     (case timer_queue_head tq of
        None \<Rightarrow> (None, tq)
      | Some tocb \<Rightarrow>
          if mono_time_before current_time (ex tocb) then (None, tq)
          else (Some tocb, timer_queue_remove_head ex tq))"

section \<open>Scheduling and running\<close>

text \<open>The global queue and the expiration field of every callback structure.\<close>

record timer_state =
  ts_queue :: timer_queue
  ts_expiration :: "ptr \<Rightarrow> mono_time"

definition timer_sched_callback :: "mono_time \<Rightarrow> ptr \<Rightarrow> u32 \<Rightarrow> timer_state \<Rightarrow> timer_state \<times> int" where
  "timer_sched_callback current_time tocb us s =
     (if sint us < 0 then (s, -1)
      else let s = s\<lparr>ts_expiration := (ts_expiration s)(tocb := mono_time_add_usecs current_time us)\<rparr> in
        if us \<noteq> 0 \<and> \<not> mono_time_before current_time (ts_expiration s tocb) then (s, -1)
        else let (tq, ret) = timer_queue_insert (ts_expiration s) (ts_queue s) tocb
             in (s\<lparr>ts_queue := tq\<rparr>, ret))"

text \<open>\<open>call p\<close> is the function the callback structure at \<open>p\<close> points to.\<close>

definition timers_run :: "(ptr \<Rightarrow> timer_state \<Rightarrow> timer_state) \<Rightarrow> mono_time \<Rightarrow> timer_state \<Rightarrow> timer_state \<times> bool" where
  "timers_run call current_time s =
     (let (tocb, tq) = timer_queue_expired (ts_expiration s) (ts_queue s) current_time;
          s = s\<lparr>ts_queue := tq\<rparr>;
          s = (case tocb of None \<Rightarrow> s | Some p \<Rightarrow> call p s)
      in (s, \<not> timer_queue_empty (ts_queue s)))"

section \<open>Heap order\<close>

definition heap_ok :: "(ptr \<Rightarrow> mono_time) \<Rightarrow> nat \<Rightarrow> ptr list \<Rightarrow> bool" where
  "heap_ok ex n q \<longleftrightarrow> (\<forall>i<n. 0 < i \<longrightarrow> usecs (ex (q ! ((i - 1) div 2))) \<le> usecs (ex (q ! i)))"

text \<open>
  The two loop invariants: the order may fail only above, respectively below, the current
  index, and the current index's parent is below its children.
\<close>

definition heap_but :: "(nat \<Rightarrow> bool) \<Rightarrow> (ptr \<Rightarrow> mono_time) \<Rightarrow> nat \<Rightarrow> ptr list \<Rightarrow> nat \<Rightarrow> bool" where
  "heap_but bad ex n q k \<longleftrightarrow>
     (\<forall>i<n. 0 < i \<longrightarrow> \<not> bad i \<longrightarrow> usecs (ex (q ! ((i - 1) div 2))) \<le> usecs (ex (q ! i))) \<and>
     (\<forall>i<n. 0 < i \<longrightarrow> (i - 1) div 2 = k \<longrightarrow> 0 < k \<longrightarrow> usecs (ex (q ! ((k - 1) div 2))) \<le> usecs (ex (q ! i)))"

lemma heap_head_min:
  "heap_ok ex n q \<Longrightarrow> i < n \<Longrightarrow> usecs (ex (q ! 0)) \<le> usecs (ex (q ! i))"
proof (induction i rule: less_induct)
  case (less i)
  show ?case
  proof (cases "i = 0")
    case False
    then have lt: "(i - 1) div 2 < i" by simp
    then have "usecs (ex (q ! 0)) \<le> usecs (ex (q ! ((i - 1) div 2)))"
      using less.prems by (intro less.IH) simp_all
    also have "\<dots> \<le> usecs (ex (q ! i))"
      using less.prems False by (simp add: heap_ok_def)
    finally show ?thesis .
  qed simp
qed

lemma mset_swap_prefix:
  assumes "i < n" and "j < n" and "n \<le> length q"
  shows "mset (take n (q[i := q ! j, j := q ! i])) = mset (take n q)"
proof -
  have "take n (q[i := q ! j, j := q ! i]) = (take n q)[i := take n q ! j, j := take n q ! i]"
    using assms by (simp add: take_update_swap)
  then show ?thesis using assms mset_swap [of j "take n q" i] by simp
qed

lemma sift_up_correct:
  assumes "heap_but (\<lambda>i. i = index) ex n q index" and "index < n" and "n \<le> length q" and "q ! index = tocb"
  shows "heap_ok ex n (sift_up ex q index tocb) \<and> mset (take n (sift_up ex q index tocb)) = mset (take n q) \<and>
    length (sift_up ex q index tocb) = length q"
  using assms
proof (induction ex q index tocb rule: sift_up.induct)
  case (1 ex q index tocb)
  let ?p = "(index - 1) div 2"
  show ?case
  proof (cases "index = 0 \<or> mono_time_cmp (ex (q ! ?p)) (ex tocb) \<le> 0")
    case True
    then have "sift_up ex q index tocb = q"
      by (subst sift_up.simps) (auto simp: Let_def)
    moreover have "heap_ok ex n q"
      using "1.prems" True by (auto simp: heap_ok_def heap_but_def)
    ultimately show ?thesis by simp
  next
    case False
    then have "0 < index" by simp
    then have "?p < index" by linarith
    with False have i: "0 < index" "usecs (ex tocb) < usecs (ex (q ! ?p))" "?p < index" by simp_all
    let ?q = "q[?p := tocb, index := q ! ?p]"
    have len: "index < length q" "?p < length q" using "1.prems"(2,3) i(3) by linarith+
    have nth: "?q ! k = (if k = index then q ! ?p else if k = ?p then tocb else q ! k)" for k
      using len by (simp add: nth_list_update)
    have up: "usecs (ex (q ! ((k - 1) div 2))) \<le> usecs (ex (q ! k))" if "k < n" "0 < k" "k \<noteq> index" for k
      using "1.prems"(1) that by (simp add: heap_but_def)
    have ch: "usecs (ex (q ! ?p)) \<le> usecs (ex (q ! k))" if "k < n" "0 < k" "(k - 1) div 2 = index" for k
      using "1.prems"(1) that i(1) by (simp add: heap_but_def)
    have "heap_but (\<lambda>i. i = ?p) ex n ?q ?p"
      unfolding heap_but_def
    proof (intro conjI allI impI)
      fix k assume k: "k < n" "0 < k" "k \<noteq> ?p"
      consider "k = index" | "k \<noteq> index" "(k - 1) div 2 = index" | "k \<noteq> index" "(k - 1) div 2 = ?p"
        | "k \<noteq> index" "(k - 1) div 2 \<noteq> index" "(k - 1) div 2 \<noteq> ?p" by blast
      then show "usecs (ex (?q ! ((k - 1) div 2))) \<le> usecs (ex (?q ! k))"
        unfolding nth using k i up [OF k(1,2)] ch [OF k(1,2)] by cases simp_all
    next
      fix k assume k: "k < n" "0 < k" "(k - 1) div 2 = ?p" "0 < ?p"
      have "usecs (ex (q ! ((?p - 1) div 2))) \<le> usecs (ex (q ! ?p))"
        using up [of ?p] k(4) i(3) "1.prems"(2) by simp
      moreover have "usecs (ex (q ! ?p)) \<le> usecs (ex (q ! k))" if "k \<noteq> index"
        using up [OF k(1,2) that] k(3) by simp
      moreover have "(?p - 1) div 2 \<noteq> ?p" "(?p - 1) div 2 \<noteq> index" "k \<noteq> ?p"
        using k(4) k(2,3) i(3) by linarith+
      ultimately show "usecs (ex (?q ! ((?p - 1) div 2))) \<le> usecs (ex (?q ! k))"
        unfolding nth by (auto intro: order_trans)
    qed
    moreover have "?q ! ?p = tocb" using nth i(3) by simp
    ultimately have "heap_ok ex n (sift_up ex ?q ?p tocb) \<and> mset (take n (sift_up ex ?q ?p tocb)) = mset (take n ?q) \<and>
        length (sift_up ex ?q ?p tocb) = length ?q"
      using "1.IH" False "1.prems"(2,3) i(3) by simp
    moreover have "mset (take n ?q) = mset (take n q)"
      using mset_swap_prefix [of ?p n index q] "1.prems"(2-4) i(3) by simp
    moreover have "sift_up ex q index tocb = sift_up ex ?q ?p tocb"
      using False by (subst sift_up.simps) (simp add: Let_def)
    ultimately show ?thesis by simp
  qed
qed

lemma sift_down_correct:
  assumes "heap_but (\<lambda>i. (i - 1) div 2 = index) ex n q index" and "index < n \<or> n = 0" and "n \<le> length q"
    and "index < length q" and "q ! index = tocb"
  shows "heap_ok ex n (sift_down ex n q index tocb) \<and> mset (take n (sift_down ex n q index tocb)) = mset (take n q) \<and>
    length (sift_down ex n q index tocb) = length q"
  using assms
proof (induction ex n q index tocb rule: sift_down.induct)
  case (1 ex n q index tocb)
  define c where "c = timer_queue_min_child_index ex n q index"
  have up: "usecs (ex (q ! ((k - 1) div 2))) \<le> usecs (ex (q ! k))"
    if "k < n" "0 < k" "(k - 1) div 2 \<noteq> index" for k
    using "1.prems"(1) that by (simp add: heap_but_def)
  show ?case
  proof (cases "c < 0 \<or> mono_time_cmp (ex tocb) (ex (q ! nat c)) \<le> 0")
    case True
    have "usecs (ex (q ! index)) \<le> usecs (ex (q ! k))" if "k < n" "0 < k" "(k - 1) div 2 = index" for k
    proof (cases "c < 0")
      case True
      then have "n \<le> 2 * index + 1"
        by (auto simp: c_def timer_queue_min_child_index_def Let_def split: if_splits)
      then show ?thesis using that by arith
    next
      case False
      then show ?thesis
        using min_child_bounds(4) [OF c_def [symmetric] False that] True "1.prems"(5) by simp
    qed
    then have "heap_ok ex n q" using up by (auto simp: heap_ok_def)
    moreover have "sift_down ex n q index tocb = q"
      using True by (subst sift_down.simps) (auto simp: Let_def c_def)
    ultimately show ?thesis by simp
  next
    case False
    let ?c = "nat c"
    let ?q = "q[?c := tocb, index := q ! ?c]"
    have c: "?c < n" "index < ?c" "(?c - 1) div 2 = index"
      using min_child_bounds(1-3) [OF c_def [symmetric]] False by blast+
    have least: "usecs (ex (q ! ?c)) \<le> usecs (ex (q ! k))" if "k < n" "0 < k" "(k - 1) div 2 = index" for k
      using min_child_bounds(4) [OF c_def [symmetric] _ that] False by blast
    have lt: "usecs (ex (q ! ?c)) < usecs (ex tocb)" using False by simp
    have nth: "?q ! k = (if k = index then q ! ?c else if k = ?c then tocb else q ! k)" for k
      using c(1) "1.prems"(3,4) by (simp add: nth_list_update)
    have ch: "usecs (ex (q ! ((index - 1) div 2))) \<le> usecs (ex (q ! k))"
      if "k < n" "0 < k" "(k - 1) div 2 = index" "0 < index" for k
      using "1.prems"(1) that by (simp add: heap_but_def)
    have "heap_but (\<lambda>i. (i - 1) div 2 = ?c) ex n ?q ?c"
      unfolding heap_but_def
    proof (intro conjI allI impI)
      fix k assume k: "k < n" "0 < k" "(k - 1) div 2 \<noteq> ?c"
      consider "k = index" | "k = ?c" | "k \<noteq> index" "k \<noteq> ?c" by blast
      then show "usecs (ex (?q ! ((k - 1) div 2))) \<le> usecs (ex (?q ! k))"
      proof cases
        case 1
        have "(k - 1) div 2 \<noteq> index" using 1 k(2) by arith
        moreover have "usecs (ex (q ! ((index - 1) div 2))) \<le> usecs (ex (q ! ?c))"
          using ch [OF c(1) _ c(3)] c(2) 1 k(2) by linarith
        ultimately show ?thesis unfolding nth using 1 k(3) by simp
      next
        case 2
        then show ?thesis unfolding nth using c lt by simp
      next
        case 3
        then show ?thesis unfolding nth using k(3) up [OF k(1,2)] least [OF k(1,2)] by simp
      qed
    next
      fix k assume k: "k < n" "0 < k" "(k - 1) div 2 = ?c" "0 < ?c"
      have "k \<noteq> index" "k \<noteq> ?c" "?c \<noteq> index" using k c(2) by arith+
      then show "usecs (ex (?q ! ((?c - 1) div 2))) \<le> usecs (ex (?q ! k))"
        unfolding nth using up [OF k(1,2)] k(3) c(3) by simp
    qed
    moreover have "?q ! ?c = tocb" using nth c(2) by simp
    ultimately have "heap_ok ex n (sift_down ex n ?q ?c tocb) \<and> mset (take n (sift_down ex n ?q ?c tocb)) = mset (take n ?q) \<and>
        length (sift_down ex n ?q ?c tocb) = length ?q"
      using "1.IH" [OF c_def _ refl] False "1.prems"(3) c(1) by simp
    moreover have "mset (take n ?q) = mset (take n q)"
      using mset_swap_prefix [of ?c n index q] "1.prems"(2,3,5) c(1) by simp
    moreover have "sift_down ex n q index tocb = sift_down ex n ?q ?c tocb"
      using False by (subst sift_down.simps) (simp add: Let_def c_def)
    ultimately show ?thesis by simp
  qed
qed

section \<open>The priority queue interface\<close>

text \<open>What a caller relies on: a bounded multiset of keyed elements with a least element.\<close>

locale prio_queue =
  fixes ins :: "'q \<Rightarrow> 'a \<Rightarrow> 'q \<times> int"
    and front :: "'q \<Rightarrow> 'a option"
    and del :: "'q \<Rightarrow> 'q"
    and inv :: "'q \<Rightarrow> bool"
    and elems :: "'q \<Rightarrow> 'a multiset"
    and capacity :: "'q \<Rightarrow> nat"
    and key :: "'a \<Rightarrow> int"
  assumes ins_room: "inv q \<Longrightarrow> size (elems q) < capacity q \<Longrightarrow>
      \<exists>q'. ins q x = (q', 0) \<and> inv q' \<and> elems q' = add_mset x (elems q) \<and> capacity q' = capacity q"
    and ins_full: "inv q \<Longrightarrow> \<not> size (elems q) < capacity q \<Longrightarrow> ins q x = (q, -1)"
    and front_None: "inv q \<Longrightarrow> front q = None \<longleftrightarrow> elems q = {#}"
    and front_Some: "inv q \<Longrightarrow> front q = Some x \<Longrightarrow> x \<in># elems q \<and> (\<forall>y\<in>#elems q. key x \<le> key y)"
    and del_front: "inv q \<Longrightarrow> front q = Some x \<Longrightarrow> inv (del q) \<and> elems (del q) = elems q - {#x#}"

text \<open>One attempt to take the front element out once its key is due, and repeated attempts.\<close>

definition take_due :: "('q \<Rightarrow> 'a option) \<Rightarrow> ('q \<Rightarrow> 'q) \<Rightarrow> ('a \<Rightarrow> int) \<Rightarrow> int \<Rightarrow> 'q \<Rightarrow> 'a option \<times> 'q" where
  "take_due front del key now q = (case front q of None \<Rightarrow> (None, q)
     | Some x \<Rightarrow> if now < key x then (None, q) else (Some x, del q))"

fun take_all :: "('q \<Rightarrow> 'a option \<times> 'q) \<Rightarrow> nat \<Rightarrow> 'q \<Rightarrow> 'a list \<times> 'q" where
  "take_all f 0 q = ([], q)"
| "take_all f (Suc k) q = (case f q of (None, q') \<Rightarrow> ([], q')
     | (Some x, q') \<Rightarrow> let (xs, q'') = take_all f k q' in (x # xs, q''))"

context prio_queue
begin

lemma take_all_due:
  assumes "inv q" and "size (elems q) \<le> k" and "take_all (take_due front del key now) k q = (xs, q')"
  shows "inv q' \<and> mset xs = filter_mset (\<lambda>x. key x \<le> now) (elems q) \<and>
    elems q' = filter_mset (\<lambda>x. now < key x) (elems q) \<and> sorted (map key xs)"
  using assms
proof (induction k arbitrary: q xs q')
  case 0
  then show ?case by simp
next
  case (Suc k)
  show ?case
  proof (cases "front q")
    case None
    then show ?thesis using Suc.prems front_None [OF Suc.prems(1)] by (simp add: take_due_def)
  next
    case (Some x)
    note min = front_Some [OF Suc.prems(1) Some] and del = del_front [OF Suc.prems(1) Some]
    show ?thesis
    proof (cases "now < key x")
      case True
      then have "\<forall>y\<in>#elems q. now < key y" using min by (meson less_le_trans)
      then have "filter_mset (\<lambda>x. key x \<le> now) (elems q) = {#}"
        and "filter_mset (\<lambda>x. now < key x) (elems q) = elems q"
        using filter_mset_cong [OF refl, of "elems q" "\<lambda>x. key x \<le> now" "\<lambda>_. False"]
          filter_mset_cong [OF refl, of "elems q" "\<lambda>x. now < key x" "\<lambda>_. True"] by auto
      then show ?thesis using Suc.prems Some True by (simp add: take_due_def)
    next
      case False
      have "take_due front del key now q = (Some x, del q)" by (simp add: take_due_def Some False)
      then obtain ys where ys: "take_all (take_due front del key now) k (del q) = (ys, q')" "xs = x # ys"
        using Suc.prems(3) by (auto split: prod.splits)
      obtain M where M: "elems q = add_mset x M" using min by (meson mset_add)
      then have "elems (del q) = M" using del by simp
      then have IH: "inv q' \<and> mset ys = filter_mset (\<lambda>x. key x \<le> now) M \<and>
          elems q' = filter_mset (\<lambda>x. now < key x) M \<and> sorted (map key ys)"
        using Suc.IH [OF conjunct1 [OF del] _ ys(1)] Suc.prems(2) M by simp
      then have "set_mset (mset ys) \<subseteq> set_mset M" by (subst IH [THEN conjunct2, THEN conjunct1]) auto
      then have "\<forall>y\<in>set ys. key x \<le> key y" using min M by auto
      then show ?thesis using IH M ys(2) False by simp
    qed
  qed
qed

lemma ins_result:
  assumes "inv q" and "ins q x = (q', r)"
  shows "r = (if size (elems q) < capacity q then 0 else -1)" and "inv q'"
    and "elems q' = (if r = 0 then add_mset x (elems q) else elems q)"
  using ins_room [OF assms(1), of x] ins_full [OF assms(1), of x] assms
  by (cases "size (elems q) < capacity q"; auto)+

end

section \<open>The array heap provides it\<close>

definition tq_elems :: "timer_queue \<Rightarrow> ptr multiset" where
  "tq_elems tq = mset (take (num_entries tq) (queue tq))"

definition tq_wf :: "(ptr \<Rightarrow> mono_time) \<Rightarrow> timer_queue \<Rightarrow> bool" where
  "tq_wf ex tq \<longleftrightarrow> num_entries tq \<le> max_entries tq \<and> max_entries tq = length (queue tq) \<and>
     heap_ok ex (num_entries tq) (queue tq)"

lemma size_tq_elems: "tq_wf ex tq \<Longrightarrow> size (tq_elems tq) = num_entries tq"
  by (simp add: tq_wf_def tq_elems_def)

lemma timer_queue_insert_wf:
  assumes "tq_wf ex tq" and "num_entries tq < max_entries tq"
  shows "\<exists>tq'. timer_queue_insert ex tq tocb = (tq', 0) \<and> tq_wf ex tq' \<and>
    tq_elems tq' = add_mset tocb (tq_elems tq) \<and> max_entries tq' = max_entries tq"
proof -
  let ?n = "num_entries tq" and ?q = "(queue tq)[num_entries tq := tocb]"
  have len: "?n < length (queue tq)" using assms by (simp add: tq_wf_def)
  have h: "heap_ok ex ?n (queue tq)" using assms(1) by (simp add: tq_wf_def)
  have "heap_but (\<lambda>i. i = ?n) ex (Suc ?n) ?q ?n"
    unfolding heap_but_def
  proof (intro conjI allI impI)
    fix i assume i: "i < Suc ?n" "0 < i" "i \<noteq> ?n"
    then have "(i - 1) div 2 < ?n" by linarith
    then show "usecs (ex (?q ! ((i - 1) div 2))) \<le> usecs (ex (?q ! i))"
      using i h by (simp add: heap_ok_def)
  qed linarith
  from sift_up_correct [OF this, of tocb]
  have s: "heap_ok ex (Suc ?n) (sift_up ex ?q ?n tocb)" "mset (take (Suc ?n) (sift_up ex ?q ?n tocb)) = mset (take (Suc ?n) ?q)"
    "length (sift_up ex ?q ?n tocb) = length (queue tq)"
    using len by simp_all
  have "mset (take (Suc ?n) ?q) = add_mset tocb (tq_elems tq)"
    using len by (simp add: take_Suc_conv_app_nth tq_elems_def)
  then show ?thesis
    using s assms by (simp add: timer_queue_insert_def timer_queue_full_def Let_def tq_wf_def tq_elems_def)
qed

lemma timer_queue_remove_head_wf:
  assumes "tq_wf ex tq" and "timer_queue_head tq = Some x"
  shows "tq_wf ex (timer_queue_remove_head ex tq)"
    and "tq_elems (timer_queue_remove_head ex tq) = tq_elems tq - {#x#}"
proof -
  obtain n where n: "num_entries tq = Suc n" and x: "x = queue tq ! 0"
    using assms(2) by (cases "num_entries tq") (auto simp: timer_queue_head_def timer_queue_empty_def)
  let ?t = "queue tq ! n" and ?q = "(queue tq)[0 := queue tq ! n]"
  have len: "n < length (queue tq)" "0 < length (queue tq)" using assms(1) n by (auto simp: tq_wf_def)
  have h: "heap_ok ex (Suc n) (queue tq)" using assms(1) n by (simp add: tq_wf_def)
  have "heap_but (\<lambda>i. (i - 1) div 2 = 0) ex n ?q 0"
    using h by (auto simp: heap_but_def heap_ok_def nth_list_update)
  from sift_down_correct [OF this, of ?t]
  have s: "heap_ok ex n (sift_down ex n ?q 0 ?t)" "mset (take n (sift_down ex n ?q 0 ?t)) = mset (take n ?q)"
    "length (sift_down ex n ?q 0 ?t) = length (queue tq)"
    using len by auto
  show "tq_wf ex (timer_queue_remove_head ex tq)"
    using s assms(1) n by (simp add: timer_queue_remove_head_def Let_def tq_wf_def)
  obtain y ys where q: "queue tq = y # ys" using len(2) by (cases "queue tq") auto
  have "mset (take n ?q) = mset (take (Suc n) (queue tq)) - {#x#}"
  proof (cases n)
    case (Suc m)
    then have m: "m < length ys" using len(1) q by simp
    then show ?thesis
      using Suc q x by (simp add: take_Suc_conv_app_nth)
  qed (simp add: q x)
  then show "tq_elems (timer_queue_remove_head ex tq) = tq_elems tq - {#x#}"
    using s n by (simp add: timer_queue_remove_head_def Let_def tq_elems_def)
qed

interpretation tq: prio_queue "timer_queue_insert ex" timer_queue_head "timer_queue_remove_head ex"
  "tq_wf ex" tq_elems max_entries "\<lambda>p. usecs (ex p)" for ex
proof (unfold_locales, goal_cases)
  case (1 q x)
  then show ?case using timer_queue_insert_wf by (simp add: size_tq_elems)
next
  case (2 q x)
  then show ?case
    using size_tq_elems [OF 2(1)] by (simp add: timer_queue_insert_def timer_queue_full_def tq_wf_def)
next
  case (3 q)
  then show ?case
    by (auto simp: timer_queue_head_def timer_queue_empty_def tq_elems_def tq_wf_def)
next
  case (4 q x)
  then have n: "0 < num_entries q" "x = queue q ! 0"
    by (auto simp: timer_queue_head_def timer_queue_empty_def split: if_splits)
  then have "x \<in> set (take (num_entries q) (queue q))"
    using 4 by (auto simp: tq_wf_def in_set_conv_nth intro!: exI [of _ 0])
  moreover have "usecs (ex x) \<le> usecs (ex y)" if "y \<in> set (take (num_entries q) (queue q))" for y
    using that 4 heap_head_min [of ex "num_entries q" "queue q"] n(2)
    by (auto simp: tq_wf_def in_set_conv_nth)
  ultimately show ?case by (simp add: tq_elems_def)
next
  case (5 q x)
  then show ?case using timer_queue_remove_head_wf by blast
qed

lemma timer_queue_expired_take_due:
  "timer_queue_expired ex tq now = take_due timer_queue_head (timer_queue_remove_head ex) (\<lambda>p. usecs (ex p)) (usecs now) tq"
  by (simp add: timer_queue_expired_def take_due_def split: option.splits)

section \<open>Signed time arithmetic\<close>

lemma sint_range32: "- (2 ^ 31) \<le> sint (a :: 32 word)" "sint (a :: 32 word) < 2 ^ 31"
  using sint_greater_eq [of a] sint_less [of a] by simp_all

lemma sint_add_nonneg:
  fixes a b :: "32 word"
  assumes "0 \<le> sint b"
  shows "sint (a + b) = (if sint a + sint b < 2 ^ 31 then sint a + sint b else sint a + sint b - 2 ^ 32)"
proof -
  have "sint (a + b) = signed_take_bit 31 (sint a + sint b)"
    by (simp add: sint_word_ariths)
  also have "\<dots> = (sint a + sint b + 2 ^ 31) mod 2 ^ 32 - 2 ^ 31"
    by (simp add: signed_take_bit_eq_take_bit_shift take_bit_eq_mod)
  also have "\<dots> = (if sint a + sint b < 2 ^ 31 then sint a + sint b else sint a + sint b - 2 ^ 32)"
  proof (cases "sint a + sint b < 2 ^ 31")
    case True
    then have "(sint a + sint b + 2 ^ 31) mod 2 ^ 32 = sint a + sint b + 2 ^ 31"
      using sint_range32 [of a] assms by (intro mod_pos_pos_trivial) simp_all
    then show ?thesis using True by simp
  next
    case False
    have "(sint a + sint b + 2 ^ 31) mod 2 ^ 32 = (sint a + sint b + 2 ^ 31 - 2 ^ 32) mod 2 ^ 32"
      by (metis mod_add_self2 diff_add_cancel)
    also have "\<dots> = sint a + sint b + 2 ^ 31 - 2 ^ 32"
      using False sint_range32 [of a] sint_range32 [of b] by (intro mod_pos_pos_trivial) simp_all
    finally show ?thesis using False by simp
  qed
  finally show ?thesis .
qed

section \<open>Properties\<close>

definition timers_wf :: "timer_state \<Rightarrow> bool" where
  "timers_wf s \<longleftrightarrow> tq_wf (ts_expiration s) (ts_queue s)"

lemma tq_wf_cong:
  assumes "tq_wf ex tq" and "\<And>p. p \<in># tq_elems tq \<Longrightarrow> ex' p = ex p"
  shows "tq_wf ex' tq"
proof -
  have "ex' (queue tq ! i) = ex (queue tq ! i)" if "i < num_entries tq" for i
  proof -
    have "take (num_entries tq) (queue tq) ! i \<in> set (take (num_entries tq) (queue tq))"
      using that assms(1) by (intro nth_mem) (simp add: tq_wf_def)
    then show ?thesis using that assms(2) by (simp add: tq_elems_def)
  qed
  moreover have "(i - 1) div 2 < num_entries tq" if "i < num_entries tq" for i using that by linarith
  ultimately have "heap_ok ex' (num_entries tq) (queue tq) = heap_ok ex (num_entries tq) (queue tq)"
    by (simp add: heap_ok_def)
  then show ?thesis using assms(1) by (simp add: tq_wf_def)
qed

text \<open>
  C27: Scheduling a callback that is not already queued succeeds exactly when the delay is not
  negative as a signed number, the expiration does not pass the end of the signed range and
  the queue has room; then the callback is added, due after the delay. Otherwise the call
  returns -1 and the queue holds the same callbacks. The heap stays well formed either way.
\<close>

theorem timer_sched_callback_correct:
  assumes "timers_wf s" and "tocb \<notin># tq_elems (ts_queue s)" and "timer_sched_callback now tocb us s = (s', r)"
  shows "r = (if 0 \<le> sint us \<and> usecs now + sint us < 2 ^ 31 \<and> size (tq_elems (ts_queue s)) < max_entries (ts_queue s)
              then 0 else -1) \<and>
    timers_wf s' \<and>
    tq_elems (ts_queue s') = (if r = 0 then add_mset tocb (tq_elems (ts_queue s)) else tq_elems (ts_queue s)) \<and>
    (r = 0 \<longrightarrow> usecs (ts_expiration s' tocb) = usecs now + sint us)"
proof (cases "sint us < 0")
  case True
  then have "s' = s" "r = -1" using assms(3) by (simp_all add: timer_sched_callback_def)
  then show ?thesis using assms(1) True by simp
next
  case False
  define ex where "ex = (ts_expiration s)(tocb := mono_time_add_usecs now us)"
  have sum: "usecs (ex tocb) = (if usecs now + sint us < 2 ^ 31 then usecs now + sint us else usecs now + sint us - 2 ^ 32)"
    using sint_add_nonneg [of us "microseconds now"] False by (simp add: ex_def mono_time_add_usecs_def)
  have wf: "tq_wf ex (ts_queue s)"
    by (rule tq_wf_cong [of "ts_expiration s"]) (use assms(1,2) in \<open>auto simp: timers_wf_def ex_def\<close>)
  have over: "us \<noteq> 0 \<and> \<not> mono_time_before now (ex tocb) \<longleftrightarrow> \<not> usecs now + sint us < 2 ^ 31"
  proof (cases "us = 0")
    case True
    then show ?thesis using sint_range32 [of "microseconds now"] by simp
  next
    case nz: False
    then have "sint us \<noteq> 0" using signed_word_eqI [of us 0] by auto
    then have "0 < sint us" using False by linarith
    then show ?thesis
      unfolding mono_time_cmp_iff sum using nz sint_range32 [of us] by auto
  qed
  have sched: "(s', r) = (if \<not> usecs now + sint us < 2 ^ 31 then (s\<lparr>ts_expiration := ex\<rparr>, -1)
      else let (tq, r) = timer_queue_insert ex (ts_queue s) tocb in (s\<lparr>ts_expiration := ex, ts_queue := tq\<rparr>, r))"
    unfolding assms(3) [symmetric] timer_sched_callback_def Let_def ex_def [symmetric] over [symmetric]
    using False by simp
  show ?thesis
  proof (cases "usecs now + sint us < 2 ^ 31")
    case True
    obtain tq r' where ins: "timer_queue_insert ex (ts_queue s) tocb = (tq, r')" by fastforce
    then have s': "s' = s\<lparr>ts_expiration := ex, ts_queue := tq\<rparr>" "r = r'"
      using sched True by simp_all
    note res = tq.ins_result [OF wf ins]
    show ?thesis
      unfolding s' timers_wf_def using res sum True False by simp
  next
    case over': False
    then have "s' = s\<lparr>ts_expiration := ex\<rparr>" "r = -1" using sched by simp_all
    then show ?thesis using wf over' by (simp add: timers_wf_def)
  qed
qed

theorem timer_sched_callback_correct_witness:
  "tq_elems (ts_queue (fst (timer_sched_callback \<lparr>microseconds = 5\<rparr> 0x1000 100
     \<lparr>ts_queue = global_timer_queue, ts_expiration = (\<lambda>_. \<lparr>microseconds = 0\<rparr>)\<rparr>))) = {#0x1000#}"
proof -
  let ?s = "\<lparr>ts_queue = global_timer_queue, ts_expiration = (\<lambda>_. \<lparr>microseconds = 0\<rparr>)\<rparr>"
  obtain s' r where "timer_sched_callback \<lparr>microseconds = 5\<rparr> 0x1000 100 ?s = (s', r)" by fastforce
  moreover have "timers_wf ?s" "(0x1000 :: ptr) \<notin># tq_elems (ts_queue ?s)" "tq_elems (ts_queue ?s) = {#}"
    by (simp_all add: timers_wf_def tq_wf_def heap_ok_def global_timer_queue_def tq_elems_def)
  ultimately show ?thesis
    using timer_sched_callback_correct [of ?s "0x1000" "\<lparr>microseconds = 5\<rparr>" 100 s' r]
    by (simp add: global_timer_queue_def MAX_TIMER_QUEUE_ENTRIES_def)
qed

text \<open>
  C13: Taking expired callbacks from the heap until there are no more yields exactly the
  callbacks whose time has come, in order of expiration, and leaves the others queued.
\<close>

theorem timer_queue_drain_in_order:
  assumes "tq_wf ex tq" and "num_entries tq \<le> k"
    and "take_all (\<lambda>q. timer_queue_expired ex q now) k tq = (xs, tq')"
  shows "mset xs = filter_mset (\<lambda>p. usecs (ex p) \<le> usecs now) (tq_elems tq) \<and>
    tq_elems tq' = filter_mset (\<lambda>p. usecs now < usecs (ex p)) (tq_elems tq) \<and>
    sorted (map (\<lambda>p. usecs (ex p)) xs) \<and> tq_wf ex tq'"
  using tq.take_all_due [OF assms(1), of k "usecs now"] assms(2,3)
  by (simp add: size_tq_elems [OF assms(1)] timer_queue_expired_take_due)

theorem timer_queue_drain_in_order_witness:
  "fst (take_all (\<lambda>q. timer_queue_expired (\<lambda>p. \<lparr>microseconds = p\<rparr>) q \<lparr>microseconds = 15\<rparr>) 2
     \<lparr>num_entries = 2, max_entries = 2, queue = [10, 20]\<rparr>) = [10]"
proof -
  let ?ex = "\<lambda>p. \<lparr>microseconds = p\<rparr>" and ?tq = "\<lparr>num_entries = 2, max_entries = 2, queue = [10, 20]\<rparr>"
  obtain xs tq' where t: "take_all (\<lambda>q. timer_queue_expired ?ex q \<lparr>microseconds = 15\<rparr>) 2 ?tq = (xs, tq')" by fastforce
  have "i = 1" if "i < 2" "0 < i" for i :: nat using that by linarith
  then have "tq_wf ?ex ?tq" by (auto simp: tq_wf_def heap_ok_def)
  then have "mset xs = {#10#}"
    using timer_queue_drain_in_order [OF _ _ t] by (simp add: tq_elems_def numeral_2_eq_2)
  then show ?thesis using t by simp
qed

end
