(* ===== verification/Region_File.thy ===== *)
theory Region_File
  imports Region
begin

text \<open>
  Region files, \<^verbatim>\<open>src/lib/region_file.c\<close>: an append-only log of data updates inside a
  region device, with a table of 16-bit block offsets at its start. The device's driver is
  not part of the file, so its three operations are a parameter, the record \<open>driver\<close> over
  the driver's state \<open>'s\<close>; the window checks in front of them are those of \<^verbatim>\<open>region.c\<close>.
  The locale \<open>byte_store\<close> states what a driver promises; memory-mapped devices provide it.
\<close>

section \<open>Windows over a driver\<close>

record 's driver =
  drv_readat :: "'s \<Rightarrow> usize \<Rightarrow> usize \<Rightarrow> u8 list \<times> ssize"
  drv_writeat :: "'s \<Rightarrow> u8 list \<Rightarrow> usize \<Rightarrow> usize \<Rightarrow> 's \<times> ssize"
  drv_eraseat :: "'s \<Rightarrow> usize \<Rightarrow> usize \<Rightarrow> 's \<times> ssize"

definition win_chain :: "region \<Rightarrow> usize \<Rightarrow> usize \<Rightarrow> region option" where
  "win_chain w offset sz =
     (let (req, ok) = normalize_and_ok w \<lparr>r_offset = offset, r_size = sz\<rparr>
      in if ok then Some req else None)"

definition win_readat :: "'s driver \<Rightarrow> 's \<Rightarrow> region \<Rightarrow> usize \<Rightarrow> usize \<Rightarrow> u8 list \<times> ssize" where
  "win_readat d s w offset sz =
     (let (req, ok) = normalize_and_ok w \<lparr>r_offset = offset, r_size = sz\<rparr>
      in if \<not> ok then ([], -1) else drv_readat d s (r_offset req) (r_size req))"

definition win_writeat :: "'s driver \<Rightarrow> 's \<Rightarrow> region \<Rightarrow> u8 list \<Rightarrow> usize \<Rightarrow> usize \<Rightarrow> 's \<times> ssize" where
  "win_writeat d s w b offset sz =
     (let (req, ok) = normalize_and_ok w \<lparr>r_offset = offset, r_size = sz\<rparr>
      in if \<not> ok then (s, -1) else drv_writeat d s b (r_offset req) (r_size req))"

definition win_eraseat :: "'s driver \<Rightarrow> 's \<Rightarrow> region \<Rightarrow> usize \<Rightarrow> usize \<Rightarrow> 's \<times> ssize" where
  "win_eraseat d s w offset sz =
     (let (req, ok) = normalize_and_ok w \<lparr>r_offset = offset, r_size = sz\<rparr>
      in if \<not> ok then (s, -1) else drv_eraseat d s (r_offset req) (r_size req))"

section \<open>Data\<close>

definition REGF_UPDATES_PER_METADATA_BLOCK :: nat where "REGF_UPDATES_PER_METADATA_BLOCK = 8"
definition REGF_UNALLOCATED_BLOCK :: u16 where "REGF_UNALLOCATED_BLOCK = 0xffff"

definition RF_ONLY_METADATA :: int where "RF_ONLY_METADATA = 0"
definition RF_EMPTY :: int where "RF_EMPTY = -1"
definition RF_NEED_TO_EMPTY :: int where "RF_NEED_TO_EMPTY = -2"
definition RF_FATAL :: int where "RF_FATAL = -3"

lemmas rf_slots = RF_ONLY_METADATA_def RF_EMPTY_def RF_NEED_TO_EMPTY_def RF_FATAL_def

record region_file =
  rf_rdev :: region
  rf_metadata :: region
  rf_data_blocks :: "u16 \<times> u16"
  rf_slot :: int

definition block_to_bytes :: "u16 \<Rightarrow> usize" where
  "block_to_bytes offset = push_bit 4 (ucast offset)"

definition bytes_to_block :: "usize \<Rightarrow> usize" where
  "bytes_to_block bytes = drop_bit 4 bytes"

definition block_offset_unallocated :: "u16 \<Rightarrow> bool" where
  "block_offset_unallocated offset \<longleftrightarrow> offset = REGF_UNALLOCATED_BLOCK"

definition region_file_data_begin :: "region_file \<Rightarrow> usize" where
  "region_file_data_begin f = ucast (fst (rf_data_blocks f))"

definition region_file_data_end :: "region_file \<Rightarrow> usize" where
  "region_file_data_end f = ucast (snd (rf_data_blocks f))"

section \<open>Reading the metadata\<close>

text \<open>A buffer of bytes read as 16-bit little-endian values.\<close>

fun u16_list :: "u8 list \<Rightarrow> u16 list" where
  "u16_list (lo # hi # bs) = (ucast lo OR push_bit 8 (ucast hi)) # u16_list bs"
| "u16_list _ = []"

definition u16_bytes :: "u16 \<Rightarrow> u8 list" where
  "u16_bytes w = [ucast w, ucast (drop_bit 8 w)]"

definition all_block_offsets_unallocated :: "u16 list \<Rightarrow> bool" where
  "all_block_offsets_unallocated mb \<longleftrightarrow> list_all block_offset_unallocated mb"

definition read_mb :: "'s driver \<Rightarrow> 's \<Rightarrow> region_file \<Rightarrow> nat \<Rightarrow> u16 list option" where
  "read_mb d s f i =
     (let offset = block_to_bytes (of_nat i); (bs, n) = win_readat d s (rf_metadata f) offset 16
      in if n <s 0 then None else Some (u16_list bs))"

text \<open>The binary search; \<open>None\<close> when a read fails.\<close>

function search_mb :: "'s driver \<Rightarrow> 's \<Rightarrow> region_file \<Rightarrow> nat \<Rightarrow> nat \<Rightarrow> nat option" where
  "search_mb d s f l r =
     (if l + 1 < r then
        let mid = (l + r) div 2 in
        case read_mb d s f mid of
          None \<Rightarrow> None
        | Some mb \<Rightarrow> if all_block_offsets_unallocated mb then search_mb d s f l mid
                     else search_mb d s f mid r
      else Some l)"
  by pat_completeness auto
termination
  by (relation "measure (\<lambda>(d, s, f, l, r). r - l)") auto

declare search_mb.simps [simp del]

definition find_latest_mb :: "'s driver \<Rightarrow> 's \<Rightarrow> nat \<Rightarrow> region_file \<Rightarrow> (u16 list \<times> region_file) option" where
  "find_latest_mb d s num_mb_blocks f =
     (case search_mb d s f 0 num_mb_blocks of
        None \<Rightarrow> None
      | Some l \<Rightarrow>
          let f = f\<lparr>rf_slot := int (l * REGF_UPDATES_PER_METADATA_BLOCK)\<rparr> in
          case read_mb d s f l of None \<Rightarrow> None | Some mb \<Rightarrow> Some (mb, f))"

fun latest_slot_from :: "u16 list \<Rightarrow> nat \<Rightarrow> nat" where
  "latest_slot_from mb 0 = 0"
| "latest_slot_from mb (Suc i) =
     (if \<not> block_offset_unallocated (mb ! Suc i) then Suc i else latest_slot_from mb i)"

definition find_latest_slot :: "u16 list \<Rightarrow> region_file \<Rightarrow> region_file" where
  "find_latest_slot mb f =
     f\<lparr>rf_slot := rf_slot f + int (latest_slot_from mb (REGF_UPDATES_PER_METADATA_BLOCK - 1))\<rparr>"

definition fill_data_boundaries :: "'s driver \<Rightarrow> 's \<Rightarrow> region_file \<Rightarrow> region_file option" where
  "fill_data_boundaries d s f =
     (if rf_slot f = RF_ONLY_METADATA then
        let start = bytes_to_block (r_size (rf_metadata f))
        in Some (f\<lparr>rf_data_blocks := (ucast start, ucast start)\<rparr>)
      else
        case win_chain (rf_metadata f) (of_int (rf_slot f - 1) * 2) 4 of
          None \<Rightarrow> Some (f\<lparr>rf_slot := RF_NEED_TO_EMPTY\<rparr>)
        | Some slots \<Rightarrow>
            let (bs, n) = win_readat d s slots 0 4 in
            if n <s 0 then None
            else let mb = u16_list bs; f = f\<lparr>rf_data_blocks := (mb ! 0, mb ! 1)\<rparr> in
              if region_file_data_begin f \<ge> region_file_data_end f
              then Some (f\<lparr>rf_slot := RF_NEED_TO_EMPTY\<rparr>)
              else if region_file_data_end f > bytes_to_block (r_size (rf_rdev f))
              then Some (f\<lparr>rf_slot := RF_NEED_TO_EMPTY\<rparr>)
              else Some f)"

definition region_file_init :: "'s driver \<Rightarrow> 's \<Rightarrow> region \<Rightarrow> region_file \<times> int" where
  "region_file_init d s p =
     (let f = \<lparr>rf_rdev = \<lparr>r_offset = 0, r_size = 0\<rparr>, rf_metadata = \<lparr>r_offset = 0, r_size = 0\<rparr>,
               rf_data_blocks = (0, 0), rf_slot = RF_FATAL\<rparr> in
      case win_chain p 0 (r_size p) of None \<Rightarrow> (f, -1)
      | Some rd \<Rightarrow>
        let f = f\<lparr>rf_rdev := rd\<rparr>; (bs, n) = win_readat d s p 0 16 in
        if n <s 0 then (f, -1)
        else let mb = u16_list bs in
          if block_offset_unallocated (mb ! 0) then (f\<lparr>rf_slot := RF_EMPTY\<rparr>, 0)
          else if mb ! 0 = 0 then (f\<lparr>rf_slot := RF_NEED_TO_EMPTY\<rparr>, 0)
          else case win_chain p 0 (block_to_bytes (mb ! 0)) of
            None \<Rightarrow> (f\<lparr>rf_slot := RF_NEED_TO_EMPTY\<rparr>, 0)
          | Some md \<Rightarrow>
            let f = f\<lparr>rf_metadata := md\<rparr> in
            case find_latest_mb d s (unat (mb ! 0)) f of
              None \<Rightarrow> (f\<lparr>rf_slot := RF_FATAL\<rparr>, -1)
            | Some (mb, f) \<Rightarrow>
              let f = find_latest_slot mb f in
              case fill_data_boundaries d s f of
                None \<Rightarrow> (f\<lparr>rf_slot := RF_FATAL\<rparr>, -1)
              | Some f \<Rightarrow> (f, 0))"

definition region_file_data :: "region_file \<Rightarrow> region option" where
  "region_file_data f =
     (if rf_slot f \<le> RF_ONLY_METADATA then None
      else let offset = block_to_bytes (fst (rf_data_blocks f));
               sz = block_to_bytes (snd (rf_data_blocks f)) - offset
           in win_chain (rf_rdev f) offset sz)"

section \<open>Updating\<close>

definition allocate_metadata :: "'s driver \<Rightarrow> 's \<Rightarrow> region_file \<Rightarrow> usize \<Rightarrow> 's \<times> region_file \<times> int" where
  "allocate_metadata d s f data_blks =
     (let t = bytes_to_block (align_down (r_size (rf_rdev f)) 16);
          m = bytes_to_block (align_up 16 16);
          a = of_nat REGF_UPDATES_PER_METADATA_BLOCK
      in if data_blks > t - m then (s, f, -1)
         else let x = align_up (t * a div (data_blks * a + m)) a;
                  x = (if x = 0 then 1 else x);
                  y = align_up x a div a;
                  tot_metadata = ucast (m * y);
                  (s, n) = win_writeat d s (rf_rdev f) (u16_bytes tot_metadata) 0 2
              in if n <s 0 then (s, f, -1)
                 else case win_chain (rf_rdev f) 0 (block_to_bytes tot_metadata) of
                   None \<Rightarrow> (s, f, -1)
                 | Some md \<Rightarrow> (s, f\<lparr>rf_metadata := md, rf_data_blocks := (tot_metadata, tot_metadata)\<rparr>, 0))"

definition update_can_fit :: "region_file \<Rightarrow> usize \<Rightarrow> bool" where
  "update_can_fit f data_blks =
     (let metadata_slots = r_size (rf_metadata f) div 2 in
      if of_int (rf_slot f) + 1 \<ge> metadata_slots then False
      else let end_blk = data_blks + region_file_data_end f in
        if end_blk \<ge> ucast REGF_UNALLOCATED_BLOCK then False
        else if end_blk > bytes_to_block (r_size (rf_rdev f)) then False
        else True)"

definition commit_data_allocation :: "'s driver \<Rightarrow> 's \<Rightarrow> region_file \<Rightarrow> usize \<Rightarrow> 's \<times> region_file \<times> int" where
  "commit_data_allocation d s f data_blks =
     (let slot = rf_slot f + 1; offset = of_int slot * 2;
          b = snd (rf_data_blocks f); e = ucast (ucast b + data_blks);
          f = f\<lparr>rf_slot := slot, rf_data_blocks := (b, e)\<rparr>;
          (s, n) = win_writeat d s (rf_metadata f) (u16_bytes e) offset 2
      in if n <s 0 then (s, f, -1) else (s, f, 0))"

definition commit_data :: "'s driver \<Rightarrow> 's \<Rightarrow> region_file \<Rightarrow> u8 list \<Rightarrow> usize \<Rightarrow> 's \<times> int" where
  "commit_data d s f buf sz =
     (let offset = block_to_bytes (fst (rf_data_blocks f));
          (s, n) = win_writeat d s (rf_rdev f) buf offset sz
      in if n <s 0 then (s, -1) else (s, 0))"

definition handle_empty :: "'s driver \<Rightarrow> 's \<Rightarrow> region_file \<Rightarrow> usize \<Rightarrow> 's \<times> region_file \<times> int" where
  "handle_empty d s f data_blks =
     (let (s, f, ret) = allocate_metadata d s f data_blks in
      if ret \<noteq> 0 then (s, f, -1) else (s, f\<lparr>rf_slot := RF_ONLY_METADATA\<rparr>, 0))"

definition handle_need_to_empty :: "'s driver \<Rightarrow> 's \<Rightarrow> region_file \<Rightarrow> 's \<times> region_file \<times> int" where
  "handle_need_to_empty d s f =
     (let (s, n) = win_eraseat d s (rf_rdev f) 0 (r_size (rf_rdev f)) in
      if n <s 0 then (s, f, -1) else (s, f\<lparr>rf_slot := RF_EMPTY\<rparr>, 0))"

definition handle_update :: "'s driver \<Rightarrow> 's \<Rightarrow> region_file \<Rightarrow> usize \<Rightarrow> u8 list \<Rightarrow> usize \<Rightarrow> 's \<times> region_file \<times> int" where
  "handle_update d s f blocks buf sz =
     (if \<not> update_can_fit f blocks then (s, f\<lparr>rf_slot := RF_NEED_TO_EMPTY\<rparr>, 0)
      else let (s, f, ret) = commit_data_allocation d s f blocks in
        if ret \<noteq> 0 then (s, f, -1)
        else let (s, ret) = commit_data d s f buf sz in
          if ret \<noteq> 0 then (s, f, -1) else (s, f, 0))"

text \<open>
  The loop of \<^verbatim>\<open>region_file_update_data\<close>, with fuel: nothing in the code bounds it, \<open>None\<close>
  is a run that has not come to an end yet.
\<close>

fun update_loop :: "nat \<Rightarrow> 's driver \<Rightarrow> 's \<Rightarrow> region_file \<Rightarrow> usize \<Rightarrow> u8 list \<Rightarrow> usize
    \<Rightarrow> ('s \<times> region_file \<times> int) option" where
  "update_loop 0 d s f blocks buf sz = None"
| "update_loop (Suc fuel) d s f blocks buf sz =
     (let prev_slot = rf_slot f;
          (s, f, ret) =
            (if rf_slot f = RF_EMPTY then handle_empty d s f blocks
             else if rf_slot f = RF_NEED_TO_EMPTY then handle_need_to_empty d s f
             else if rf_slot f = RF_FATAL then (s, f, -1)
             else handle_update d s f blocks buf sz)
      in if ret \<noteq> 0 then Some (s, f\<lparr>rf_slot := RF_FATAL\<rparr>, ret)
         else if rf_slot f > RF_ONLY_METADATA \<and> prev_slot \<noteq> rf_slot f then Some (s, f, ret)
         else update_loop fuel d s f blocks buf sz)"

definition region_file_update_data ::
    "nat \<Rightarrow> 's driver \<Rightarrow> 's \<Rightarrow> region_file \<Rightarrow> u8 list \<Rightarrow> usize \<Rightarrow> ('s \<times> region_file \<times> int) option" where
  "region_file_update_data fuel d s f buf sz =
     (let blocks = bytes_to_block (align_up sz 16) in update_loop fuel d s f blocks buf sz)"

section \<open>The driver interface\<close>

text \<open>
  \<open>view\<close> is what the device holds. A write leaves the rest of the device alone and stores
  the data where the device was erased; an erase sets every byte of its range to \<open>ev\<close>.
\<close>

definition overwrite :: "'a list \<Rightarrow> nat \<Rightarrow> 'a list \<Rightarrow> 'a list" where
  "overwrite v o' b = take o' v @ b @ drop (o' + length b) v"

definition erased :: "u8 \<Rightarrow> u8 list \<Rightarrow> nat \<Rightarrow> nat \<Rightarrow> bool" where
  "erased ev v i j \<longleftrightarrow> (\<forall>k<j. i \<le> k \<longrightarrow> v ! k = ev)"

lemma length_overwrite [simp]: "o' + length b \<le> length v \<Longrightarrow> length (overwrite v o' b) = length v"
  by (simp add: overwrite_def)

lemma nth_overwrite:
  "o' + length b \<le> length v \<Longrightarrow> i < length v \<Longrightarrow>
    overwrite v o' b ! i = (if o' \<le> i \<and> i < o' + length b then b ! (i - o') else v ! i)"
  by (auto simp: overwrite_def nth_append)

locale byte_store =
  fixes drv :: "'s driver" and view :: "'s \<Rightarrow> u8 list" and ev :: u8 and ok :: "'s \<Rightarrow> bool"
  assumes small: "ok s \<Longrightarrow> length (view s) < 2 ^ 31"
    and readat: "ok s \<Longrightarrow> unat o' + unat n \<le> length (view s) \<Longrightarrow>
      drv_readat drv s o' n = (take (unat n) (drop (unat o') (view s)), n)"
    and writeat: "ok s \<Longrightarrow> unat o' + unat n \<le> length (view s) \<Longrightarrow> unat n \<le> length b \<Longrightarrow>
      \<exists>s' b'. drv_writeat drv s b o' n = (s', n) \<and> ok s' \<and> view s' = overwrite (view s) (unat o') b' \<and>
        length b' = unat n \<and> (erased ev (view s) (unat o') (unat o' + unat n) \<longrightarrow> b' = take (unat n) b)"
    and eraseat: "ok s \<Longrightarrow> unat o' + unat n \<le> length (view s) \<Longrightarrow>
      \<exists>s'. drv_eraseat drv s o' n = (s', n) \<and> ok s' \<and>
        view s' = overwrite (view s) (unat o') (replicate (unat n) ev)"

lemma not_sless_0: "unat (n :: ssize) < 2 ^ 31 \<Longrightarrow> \<not> n <s 0"
proof -
  assume "unat n < 2 ^ 31"
  then have "int (unat n) < int (2 ^ 31)" by (simp only: of_nat_less_iff)
  then have lt: "uint n < 2 ^ 31" by simp
  have "signed_take_bit 31 (uint n) = uint n"
    using lt by (intro signed_take_bit_int_eq_self) (auto intro: order_trans [of _ 0])
  then have "sint n = uint n" by (simp add: sint_uint)
  then show ?thesis by (simp add: word_sless_alt)
qed

context byte_store
begin

lemma win_readat:
  assumes "ok s" and "region_ok w" and "in_window w o' n" and "unat (r_offset w) + unat (r_size w) \<le> length (view s)"
  shows "win_readat drv s w o' n = (take (unat n) (drop (unat (r_offset w) + unat o') (view s)), n)" and "\<not> n <s 0"
proof -
  have sum: "unat (o' + r_offset w) = unat o' + unat (r_offset w)"
    using assms by (intro unat_add_nowrap) (simp add: region_ok_def in_window_def)
  then show "win_readat drv s w o' n = (take (unat n) (drop (unat (r_offset w) + unat o') (view s)), n)"
    using assms readat [of s "o' + r_offset w" n]
    by (simp add: win_readat_def normalize_and_ok_in_window in_window_def add.commute)
  show "\<not> n <s 0"
    using assms small [of s] by (intro not_sless_0) (simp add: in_window_def)
qed

lemma win_writeat:
  assumes "ok s" and "region_ok w" and "in_window w o' n" and "unat (r_offset w) + unat (r_size w) \<le> length (view s)"
    and "unat n \<le> length b" and "erased ev (view s) (unat (r_offset w) + unat o') (unat (r_offset w) + unat o' + unat n)"
  shows "\<exists>s'. win_writeat drv s w b o' n = (s', n) \<and> \<not> n <s 0 \<and> ok s' \<and>
    view s' = overwrite (view s) (unat (r_offset w) + unat o') (take (unat n) b)"
proof -
  have sum: "unat (o' + r_offset w) = unat (r_offset w) + unat o'"
    using assms by (subst unat_add_nowrap) (simp_all add: region_ok_def in_window_def)
  obtain s' b' where "drv_writeat drv s b (o' + r_offset w) n = (s', n)" "ok s'"
    "view s' = overwrite (view s) (unat (r_offset w) + unat o') b'"
    "erased ev (view s) (unat (r_offset w) + unat o') (unat (r_offset w) + unat o' + unat n) \<longrightarrow> b' = take (unat n) b"
    using writeat [OF assms(1), of "o' + r_offset w" n b] assms(3-5) unfolding sum in_window_def by fastforce
  moreover have "\<not> n <s 0"
    using assms small [of s] by (intro not_sless_0) (simp add: in_window_def)
  ultimately show ?thesis
    using assms by (simp add: win_writeat_def normalize_and_ok_in_window)
qed

lemma win_eraseat_all:
  assumes "ok s" and "w = \<lparr>r_offset = 0, r_size = of_nat (length (view s))\<rparr>"
  shows "\<exists>s'. win_eraseat drv s w 0 (r_size w) = (s', r_size w) \<and> \<not> r_size w <s 0 \<and> ok s' \<and>
    view s' = replicate (length (view s)) ev"
proof -
  have len: "unat (of_nat (length (view s)) :: usize) = length (view s)"
    using small [OF assms(1)] by (intro unat_of_nat_id) simp
  then have "region_ok w" "in_window w 0 (r_size w)"
    using small [OF assms(1)] assms(2) by (simp_all add: region_ok_def in_window_def)
  moreover obtain s' where "drv_eraseat drv s 0 (r_size w) = (s', r_size w)" "ok s'"
    "view s' = overwrite (view s) 0 (replicate (length (view s)) ev)"
    using eraseat [OF assms(1), of 0 "r_size w"] assms(2) len by auto
  moreover have "\<not> r_size w <s 0"
    using small [OF assms(1)] assms(2) len by (intro not_sless_0) simp
  ultimately show ?thesis
    using assms(2) by (simp add: win_eraseat_def normalize_and_ok_in_window overwrite_def)
qed

end

section \<open>The layout on the device\<close>

definition u16_at :: "u8 list \<Rightarrow> nat \<Rightarrow> u16" where
  "u16_at v i = ucast (v ! (2 * i)) OR push_bit 8 (ucast (v ! (2 * i + 1)))"

lemma u16_list_take:
  "2 * (i + n) \<le> length v \<Longrightarrow> u16_list (take (2 * n) (drop (2 * i) v)) = map (\<lambda>j. u16_at v (i + j)) [0..<n]"
proof (induction n arbitrary: i)
  case (Suc n)
  have "take (2 * Suc n) (drop (2 * i) v) = v ! (2 * i) # v ! (2 * i + 1) # take (2 * n) (drop (2 * Suc i) v)"
    using Suc.prems by (simp add: Cons_nth_drop_Suc [symmetric])
  moreover have "map (\<lambda>j. u16_at v (i + j)) [0..<Suc n] = u16_at v i # map (\<lambda>j. u16_at v (Suc i + j)) [0..<n]"
    by (simp add: upt_rec [of 0 "Suc n"] map_Suc_upt [symmetric] del: upt_Suc)
  ultimately show ?case using Suc.IH [of "Suc i"] Suc.prems by (simp add: u16_at_def)
qed simp

lemma u16_bytes_join: "ucast (ucast (w :: u16) :: u8) OR push_bit 8 (ucast (ucast (drop_bit 8 w) :: u8)) = w"
  by (rule bit_word_eqI) (auto simp: bit_simps)

lemma length_u16_bytes [simp]: "length (u16_bytes w) = 2"
  by (simp add: u16_bytes_def)

lemma u16_at_overwrite:
  assumes "2 * j + 2 \<le> length v" and "i < length v div 2"
  shows "u16_at (overwrite v (2 * j) (u16_bytes w)) i = (if i = j then w else u16_at v i)"
proof -
  have "overwrite v (2 * j) (u16_bytes w) ! k =
      (if k = 2 * j then ucast w else if k = 2 * j + 1 then ucast (drop_bit 8 w) else v ! k)" if "k < length v" for k
    using assms(1) that by (auto simp: nth_overwrite u16_bytes_def nth_Cons' Suc_diff_le)
  moreover have "2 * i + 1 < length v" using assms(2) by linarith
  moreover have "2 * i \<noteq> 2 * j + 1" "2 * i + 1 \<noteq> 2 * j" by presburger+
  ultimately show ?thesis using u16_bytes_join [of w] by (auto simp: u16_at_def)
qed

lemma u16_at_overwrite_above:
  "2 * i + 2 \<le> o' \<Longrightarrow> o' + length b \<le> length v \<Longrightarrow> u16_at (overwrite v o' b) i = u16_at v i"
  by (simp add: u16_at_def nth_overwrite)

lemma erased_overwrite:
  "o' + length b \<le> length v \<Longrightarrow> j \<le> length v \<Longrightarrow> erased ev v i j \<Longrightarrow> o' + length b \<le> i \<or> j \<le> o' \<Longrightarrow>
    erased ev (overwrite v o' b) i j"
  by (auto simp: erased_def nth_overwrite)

lemma erased_mono: "erased ev v i j \<Longrightarrow> i \<le> i' \<Longrightarrow> j' \<le> j \<Longrightarrow> erased ev v i' j'"
  by (auto simp: erased_def)

text \<open>
  \<open>layout ev v tot k\<close>: \<open>tot\<close> metadata blocks; the offsets in slots 0 to \<open>k\<close> increase; the
  rest of the metadata and everything after the last offset is erased.
\<close>

definition layout :: "u8 \<Rightarrow> u8 list \<Rightarrow> nat \<Rightarrow> nat \<Rightarrow> bool" where
  "layout ev v tot k \<longleftrightarrow> 1 \<le> tot \<and> 16 * tot \<le> length v \<and> k < 8 * tot \<and> unat (u16_at v 0) = tot \<and>
     (\<forall>i<k. u16_at v i < u16_at v (i + 1)) \<and> u16_at v k < 0xffff \<and> 16 * unat (u16_at v k) \<le> length v \<and>
     erased ev v (2 * (k + 1)) (16 * tot) \<and> erased ev v (16 * unat (u16_at v k)) (length v)"

text \<open>The file structure matches the device.\<close>

definition rf_inv :: "u8 \<Rightarrow> u8 list \<Rightarrow> region_file \<Rightarrow> bool" where
  "rf_inv ev v f \<longleftrightarrow> length v < 16 * 0xffff \<and> rf_rdev f = \<lparr>r_offset = 0, r_size = of_nat (length v)\<rparr> \<and>
     (if rf_slot f = RF_EMPTY then erased ev v 0 (length v)
      else if rf_slot f = RF_NEED_TO_EMPTY then True
      else 0 \<le> rf_slot f \<and>
        (\<exists>tot. layout ev v tot (nat (rf_slot f)) \<and> rf_metadata f = \<lparr>r_offset = 0, r_size = of_nat (16 * tot)\<rparr> \<and>
           rf_data_blocks f = (if rf_slot f = 0 then (u16_at v 0, u16_at v 0)
             else (u16_at v (nat (rf_slot f) - 1), u16_at v (nat (rf_slot f))))))"

lemma layout_mono: "layout ev v tot k \<Longrightarrow> i \<le> j \<Longrightarrow> j \<le> k \<Longrightarrow> u16_at v i \<le> u16_at v j"
proof (induction j)
  case (Suc j)
  show ?case
  proof (cases "i = Suc j")
    case False
    then have "u16_at v i \<le> u16_at v j" using Suc by simp
    also have "u16_at v j < u16_at v (Suc j)" using Suc.prems by (simp add: layout_def)
    finally show ?thesis by simp
  qed simp
qed simp

lemma rf_invD:
  assumes "rf_inv ev v f" and "0 \<le> rf_slot f"
  obtains tot where "layout ev v tot (nat (rf_slot f))" and "length v < 16 * 0xffff"
    and "rf_rdev f = \<lparr>r_offset = 0, r_size = of_nat (length v)\<rparr>"
    and "rf_metadata f = \<lparr>r_offset = 0, r_size = of_nat (16 * tot)\<rparr>"
    and "snd (rf_data_blocks f) = u16_at v (nat (rf_slot f))"
  using assms by (auto simp: rf_inv_def rf_slots split: if_splits)

lemma unat_push_bit4: "unat (push_bit 4 (ucast (x :: u16) :: usize)) = 16 * unat x"
proof -
  have "unat x < 2 ^ 16" using unat_lt_exp [of x] by simp
  then have "unat (ucast x :: usize) * 2 ^ 4 < 2 ^ 32" by (simp add: unat_ucast_up)
  then have "unat (push_bit 4 (ucast x :: usize)) = unat (ucast x :: usize) * 2 ^ 4"
    by (simp add: push_bit_eq_mult unat_word_ariths)
  then show ?thesis by (simp add: unat_ucast_up)
qed

lemma unat_block_to_bytes: "unat (block_to_bytes x) = 16 * unat x"
  by (simp add: block_to_bytes_def unat_push_bit4)

lemma unat_bytes_to_block: "unat (bytes_to_block x) = unat x div 16"
  by (simp add: bytes_to_block_def drop_bit_eq_div unat_div)

lemma update_can_fit_iff:
  assumes "rf_inv ev v f" and "0 \<le> rf_slot f" and "unat d < 2 ^ 28"
  shows "update_can_fit f d \<longleftrightarrow> 2 * nat (rf_slot f) + 4 \<le> unat (r_size (rf_metadata f)) \<and>
    unat d + unat (snd (rf_data_blocks f)) < 0xffff \<and> 16 * (unat d + unat (snd (rf_data_blocks f))) \<le> length v"
proof -
  obtain tot where lay: "layout ev v tot (nat (rf_slot f))" and len: "length v < 16 * 0xffff"
    and rd: "rf_rdev f = \<lparr>r_offset = 0, r_size = of_nat (length v)\<rparr>"
    and md: "rf_metadata f = \<lparr>r_offset = 0, r_size = of_nat (16 * tot)\<rparr>"
    using rf_invD [OF assms(1,2)] by blast
  let ?k = "nat (rf_slot f)" and ?e = "snd (rf_data_blocks f)"
  have tot: "16 * tot \<le> length v" "?k < 8 * tot" using lay by (simp_all add: layout_def)
  have um: "unat (of_nat (16 * tot) :: usize) = 16 * tot" using tot len by (intro unat_of_nat_id) simp
  have ul: "unat (of_nat (length v) :: usize) = length v" using len by (intro unat_of_nat_id) simp
  have "(of_int (rf_slot f) + 1 :: usize) = of_nat (?k + 1)"
    using assms(2) by (metis add.commute nat_0_le of_int_of_nat_eq of_nat_Suc Suc_eq_plus1)
  moreover have "unat (of_nat (?k + 1) :: usize) = ?k + 1"
    using tot len by (intro unat_of_nat_id) simp
  ultimately have uk: "unat (of_int (rf_slot f) + 1 :: usize) = ?k + 1" by (simp only:)
  have slots: "unat (r_size (rf_metadata f) div 2) = 8 * tot"
    by (simp add: md unat_div um del: of_nat_mult)
  have ue: "unat (region_file_data_end f) = unat ?e" by (simp add: region_file_data_end_def unat_ucast_up)
  have le: "unat ?e < 2 ^ 16" using unat_lt_exp [of ?e] by simp
  have "unat (d + region_file_data_end f) = unat d + unat ?e"
    using assms(3) le by (subst unat_add_nowrap) (simp_all add: ue)
  moreover have "unat (ucast REGF_UNALLOCATED_BLOCK :: usize) = 0xffff"
    by (simp add: REGF_UNALLOCATED_BLOCK_def)
  moreover have "unat (bytes_to_block (r_size (rf_rdev f))) = length v div 16"
    by (simp add: unat_bytes_to_block rd ul)
  ultimately have "update_can_fit f d \<longleftrightarrow> \<not> 8 * tot \<le> ?k + 1 \<and> \<not> 0xffff \<le> unat d + unat ?e \<and>
      \<not> length v div 16 < unat d + unat ?e"
    unfolding update_can_fit_def Let_def word_le_nat_alt word_less_nat_alt slots uk by simp
  moreover have "\<not> length v div 16 < x \<longleftrightarrow> 16 * x \<le> length v" for x by linarith
  moreover have "\<not> 8 * tot \<le> ?k + 1 \<longleftrightarrow> 2 * ?k + 4 \<le> 16 * tot" by linarith
  ultimately show ?thesis by (simp add: md um not_le del: of_nat_mult)
qed

lemma commit_data_allocation_ok:
  "win_writeat d s (rf_metadata f) (u16_bytes (ucast (ucast (snd (rf_data_blocks f)) + n))) (of_int (rf_slot f + 1) * 2) 2
     = (s1, 2) \<Longrightarrow> \<not> (2 :: ssize) <s 0 \<Longrightarrow>
   commit_data_allocation d s f n = (s1, f\<lparr>rf_slot := rf_slot f + 1,
     rf_data_blocks := (snd (rf_data_blocks f), ucast (ucast (snd (rf_data_blocks f)) + n))\<rparr>, 0)"
  by (simp add: commit_data_allocation_def Let_def)

context byte_store
begin

lemma handle_update_ok:
  assumes "ok s" and "rf_inv ev (view s) f" and "0 \<le> rf_slot f" and "update_can_fit f d"
    and "unat d < 2 ^ 28" and "d \<noteq> 0" and "unat sz \<le> 16 * unat d" and "unat sz \<le> length buf"
  shows "\<exists>s' f'. handle_update drv s f d buf sz = (s', f', 0) \<and> ok s' \<and> rf_inv ev (view s') f' \<and>
    length (view s') = length (view s) \<and> rf_slot f' = rf_slot f + 1 \<and>
    unat (snd (rf_data_blocks f')) = unat (fst (rf_data_blocks f')) + unat d \<and>
    take (unat sz) (drop (16 * unat (fst (rf_data_blocks f'))) (view s')) = take (unat sz) buf"
proof -
  obtain tot where lay: "layout ev (view s) tot (nat (rf_slot f))" and len: "length (view s) < 16 * 0xffff"
    and rd: "rf_rdev f = \<lparr>r_offset = 0, r_size = of_nat (length (view s))\<rparr>"
    and md: "rf_metadata f = \<lparr>r_offset = 0, r_size = of_nat (16 * tot)\<rparr>"
    and e: "snd (rf_data_blocks f) = u16_at (view s) (nat (rf_slot f))"
    using rf_invD [OF assms(2,3)] by blast
  define k where "k = nat (rf_slot f)"
  define v where "v = view s"
  define e1 where "e1 = snd (rf_data_blocks f)"
  define e2 :: u16 where "e2 = ucast (ucast e1 + d)"
  have e1v: "e1 = u16_at v k" using e by (simp add: e1_def v_def k_def)
  have lay: "layout ev v tot k" and len: "length v < 16 * 0xffff" and slot: "rf_slot f = int k"
    using lay len assms(3) by (simp_all add: k_def v_def)
  have tot: "1 \<le> tot" "16 * tot \<le> length v" "k < 8 * tot" using lay by (simp_all add: layout_def)
  have um: "unat (of_nat (16 * tot) :: usize) = 16 * tot" using tot len by (intro unat_of_nat_id) simp
  have ul: "unat (of_nat (length v) :: usize) = length v" using len by (intro unat_of_nat_id) simp
  have fit: "2 * k + 4 \<le> 16 * tot" "unat d + unat e1 < 0xffff" "16 * (unat d + unat e1) \<le> length v"
    using assms(4) unfolding update_can_fit_iff [OF assms(2,3,5)]
    by (simp_all add: md um k_def [symmetric] v_def [symmetric] e1_def del: of_nat_mult)
  have "unat (ucast e1 + d) = unat e1 + unat d"
    using fit(2) by (subst unat_add_nowrap) (simp_all add: unat_ucast_up)
  then have e2: "unat e2 = unat e1 + unat d"
    unfolding e2_def using fit(2) by (subst unat_ucast_small) simp_all
  have e1: "tot \<le> unat e1"
    using layout_mono [OF lay le0 order_refl] lay by (simp add: e1v layout_def word_le_nat_alt)
  define f1 where "f1 = f\<lparr>rf_slot := rf_slot f + 1, rf_data_blocks := (e1, e2)\<rparr>"
  define offs :: usize where "offs = of_int (rf_slot f + 1) * 2"
  have "offs = of_nat (2 * (k + 1))" by (simp add: offs_def slot)
  moreover have "unat (of_nat (2 * (k + 1)) :: usize) = 2 * (k + 1)"
    using fit(1) tot len by (intro unat_of_nat_id) simp
  ultimately have uoff: "unat offs = 2 * (k + 1)" by (simp only:)
  have mdw: "region_ok (rf_metadata f)" "in_window (rf_metadata f) offs 2"
    using um uoff fit(1) tot len by (simp_all add: md region_ok_def in_window_def del: of_nat_mult)
  have er1: "erased ev v (2 * (k + 1)) (2 * (k + 1) + 2)"
    using lay fit(1) by (auto simp: layout_def intro: erased_mono)
  have "\<exists>s1. win_writeat drv s (rf_metadata f) (u16_bytes e2) offs 2 = (s1, 2) \<and> \<not> (2 :: ssize) <s 0 \<and>
      ok s1 \<and> view s1 = overwrite v (2 * (k + 1)) (u16_bytes e2)"
    using win_writeat [OF assms(1) mdw, of "u16_bytes e2"] um uoff tot er1
    by (simp add: md v_def [symmetric] del: of_nat_mult)
  then obtain s1 where s1: "win_writeat drv s (rf_metadata f) (u16_bytes e2) offs 2 = (s1, 2)"
    "\<not> (2 :: ssize) <s 0" "ok s1" "view s1 = overwrite v (2 * (k + 1)) (u16_bytes e2)" by blast
  have commit: "commit_data_allocation drv s f d = (s1, f1, 0)"
    using commit_data_allocation_ok [OF s1(1) [unfolded offs_def e2_def e1_def] s1(2)]
    by (simp only: f1_def e1_def e2_def)
  have len1: "length (view s1) = length v" using s1(4) fit(1) tot by simp
  have er2: "erased ev (view s1) (16 * unat e1) (length v)"
    unfolding s1(4) using lay fit(1) tot e1 by (intro erased_overwrite) (simp_all add: layout_def e1v)
  have rdw: "region_ok (rf_rdev f1)" "in_window (rf_rdev f1) (block_to_bytes e1) sz"
    using ul len fit(3) assms(7)
    by (simp_all add: f1_def rd v_def [symmetric] region_ok_def in_window_def unat_block_to_bytes)
  have "\<exists>s2. win_writeat drv s1 (rf_rdev f1) buf (block_to_bytes e1) sz = (s2, sz) \<and> \<not> sz <s 0 \<and>
      ok s2 \<and> view s2 = overwrite (view s1) (16 * unat e1) (take (unat sz) buf)"
    using win_writeat [OF s1(3) rdw _ assms(8)] ul len1 er2 fit(3) assms(7)
    by (simp add: f1_def rd v_def [symmetric] unat_block_to_bytes erased_mono)
  then obtain s2 where s2: "win_writeat drv s1 (rf_rdev f1) buf (block_to_bytes e1) sz = (s2, sz)" "\<not> sz <s 0"
    "ok s2" "view s2 = overwrite (view s1) (16 * unat e1) (take (unat sz) buf)" by blast
  have handle: "handle_update drv s f d buf sz = (s2, f1, 0)"
    using assms(4) s2 by (simp add: handle_update_def commit commit_data_def f1_def Let_def)
  have fits: "16 * unat e1 + length (take (unat sz) buf) \<le> length (view s1)"
    using fit(3) assms(7,8) len1 by simp
  have len2: "length (view s2) = length v" using s2(4) fits len1 by simp
  have at: "u16_at (view s2) i = (if i = k + 1 then e2 else u16_at v i)" if "i < 8 * tot" for i
  proof -
    have "u16_at (view s2) i = u16_at (view s1) i"
      unfolding s2(4) using fits e1 that by (intro u16_at_overwrite_above) simp_all
    also have "\<dots> = (if i = k + 1 then e2 else u16_at v i)"
      unfolding s1(4)
    proof (rule u16_at_overwrite)
      show "2 * (k + 1) + 2 \<le> length v" using fit(1) tot by simp
      have "2 * i + 2 \<le> length v" using tot(2) that by simp
      then show "i < length v div 2" by simp
    qed
    finally show ?thesis .
  qed
  have "erased ev (view s2) (2 * (k + 2)) (16 * tot)"
    unfolding s2(4) s1(4) using lay fit(1) tot e1 fits len1
    by (intro erased_overwrite) (auto simp: layout_def s1(4) intro: erased_mono)
  moreover have "erased ev (view s2) (16 * unat e2) (length v)"
    unfolding s2(4) using er2 fits e2 assms(7,8) len1 by (intro erased_overwrite) (auto intro: erased_mono)
  moreover have "\<forall>i<k + 1. u16_at (view s2) i < u16_at (view s2) (i + 1)"
    using lay fit(1) at e2 assms(6) unat_gt_0 [of d]
    by (auto simp: layout_def less_Suc_eq e1v [symmetric] word_less_nat_alt)
  ultimately have "layout ev (view s2) tot (k + 1)"
    using lay fit e2 len2 at [of 0] at [of "k + 1"] tot by (simp add: layout_def word_less_nat_alt)
  then have "rf_inv ev (view s2) f1"
    using len len2 rd md at [of k] at [of "k + 1"] fit(1) slot
    by (auto simp: rf_inv_def f1_def rf_slots v_def [symmetric] nat_add_distrib e1v)
  moreover have "take (unat sz) (drop (16 * unat e1) (view s2)) = take (unat sz) buf"
    unfolding s2(4) using fits assms(8) by (simp add: overwrite_def)
  ultimately show ?thesis
    using handle s2(3) len2 e2 slot by (intro exI [of _ s2] exI [of _ f1]) (simp add: f1_def v_def)
qed

end

section \<open>Allocating the metadata\<close>

lemma allocate_nat:
  fixes t d :: nat
  assumes "1 \<le> d" and "d + 1 \<le> t"
  defines "y \<equiv> (8 * t div (8 * d + 1) + 7) div 8"
  shows "1 \<le> 8 * t div (8 * d + 1)" and "1 \<le> y" and "y + d \<le> t"
proof -
  define x where "x = 8 * t div (8 * d + 1)"
  have "8 * d + 1 \<le> 8 * t" using assms(2) by simp
  then show x: "1 \<le> 8 * t div (8 * d + 1)" by (simp add: less_eq_div_iff_mult_less_eq)
  then show "1 \<le> y" unfolding y_def by (simp add: less_eq_div_iff_mult_less_eq)
  have "x * (8 * d + 1) \<le> 8 * t" unfolding x_def by (rule div_times_less_eq_dividend)
  moreover have "8 * d * 1 \<le> 8 * d * x" using x by (intro mult_le_mono2) (simp add: x_def)
  moreover have "x * (8 * d + 1) = 8 * d * x + x" by (simp add: algebra_simps)
  ultimately have "x + 8 * d \<le> 8 * t" by linarith
  moreover have "8 * y \<le> x + 7" unfolding y_def x_def by (simp add: mult.commute)
  ultimately show "y + d \<le> t" by linarith
qed

lemma allocate_words:
  fixes t d :: usize
  assumes "unat t \<le> 0xfffe" and "1 \<le> unat d" and "unat d + 1 \<le> unat t"
  defines "x \<equiv> align_up (t * 8 div (d * 8 + 1)) 8"
  shows "x \<noteq> 0" and "unat (align_up x 8 div 8) = (8 * unat t div (8 * unat d + 1) + 7) div 8"
proof -
  let ?x = "8 * unat t div (8 * unat d + 1)"
  have t8: "unat (t * 8) = 8 * unat t" and d8: "unat (d * 8) = 8 * unat d"
    using assms(1,3) by (simp_all add: unat_word_ariths)
  then have "unat (d * 8 + 1) = 8 * unat d + 1"
    using assms(1,3) by (subst unat_add_nowrap) simp_all
  then have u: "unat (t * 8 div (d * 8 + 1)) = ?x" by (simp add: unat_div t8)
  have le: "?x \<le> 8 * unat t" by (rule div_le_dividend)
  then have ux: "unat x = (?x + 7) div 8 * 8"
    unfolding x_def using unat_align_up [of 3 "t * 8 div (d * 8 + 1)"] u assms(1) order_trans [OF le, of "8 * 0xfffe"]
    by simp
  have x1: "1 \<le> (?x + 7) div 8" using allocate_nat(2) [OF assms(2,3)] .
  then show "x \<noteq> 0" using ux by auto
  have "unat x \<le> 8 * unat t + 7" unfolding ux using le by (metis add_le_mono1 div_times_less_eq_dividend order_trans)
  then have "unat (align_up x 8) = (unat x + 7) div 8 * 8"
    using unat_align_up [of 3 x] assms(1) by simp
  moreover have "(unat x + 7) div 8 * 8 = unat x" unfolding ux by simp
  ultimately show "unat (align_up x 8 div 8) = (?x + 7) div 8"
    by (simp add: unat_div ux)
qed

context byte_store
begin

lemma handle_empty_ok:
  assumes "ok s" and "rf_inv ev (view s) f" and "rf_slot f = RF_EMPTY" and "1 \<le> unat d"
    and "unat d + 1 \<le> length (view s) div 16"
  shows "\<exists>s' f'. handle_empty drv s f d = (s', f', 0) \<and> ok s' \<and> rf_inv ev (view s') f' \<and>
    length (view s') = length (view s) \<and> rf_slot f' = 0 \<and> update_can_fit f' d"
proof -
  define v where "v = view s"
  have len: "length v < 16 * 0xffff" and rd: "rf_rdev f = \<lparr>r_offset = 0, r_size = of_nat (length v)\<rparr>"
    and er: "erased ev v 0 (length v)"
    using assms(2,3) by (auto simp: rf_inv_def v_def)
  have ul: "unat (of_nat (length v) :: usize) = length v" using len by (intro unat_of_nat_id) simp
  define t where "t = bytes_to_block (align_down (r_size (rf_rdev f)) 16)"
  define x where "x = align_up (t * 8 div (d * 8 + 1)) 8"
  define tot :: u16 where "tot = ucast (align_up x 8 div 8)"
  define n where "n = unat tot"
  have "unat (align_down (of_nat (length v) :: usize) 16) = length v - length v mod 16"
    using unat_align_down [of "of_nat (length v) :: usize" 4] by (simp add: ul)
  then have ut: "unat t = length v div 16"
    by (simp add: t_def rd unat_bytes_to_block minus_mod_eq_div_mult)
  have bnd: "unat t \<le> 0xfffe" "1 \<le> unat d" "unat d + 1 \<le> unat t"
    using len assms(4,5) ut by (simp_all add: v_def [symmetric])
  note al = allocate_words [OF bnd, folded x_def] and na = allocate_nat [OF bnd(2,3)]
  have n: "n = (8 * unat t div (8 * unat d + 1) + 7) div 8"
    unfolding n_def tot_def using al(2) na(3) bnd(1) by (subst unat_ucast_small) simp_all
  then have n1: "1 \<le> n" and n2: "n + unat d \<le> unat t" using na by simp_all
  have n16: "16 * n + 16 * unat d \<le> length v" using n2 ut by linarith
  have rdw: "region_ok (rf_rdev f)" "in_window (rf_rdev f) 0 2" "in_window (rf_rdev f) 0 (block_to_bytes tot)"
    using ul len n16 n1 by (simp_all add: rd region_ok_def in_window_def unat_block_to_bytes n_def)
  have "\<exists>s1. win_writeat drv s (rf_rdev f) (u16_bytes tot) 0 2 = (s1, 2) \<and> \<not> (2 :: ssize) <s 0 \<and>
      ok s1 \<and> view s1 = overwrite v (2 * 0) (u16_bytes tot)"
    using win_writeat [OF assms(1) rdw(1,2), of "u16_bytes tot"] ul er n16 n1
    by (simp add: rd v_def [symmetric] erased_mono)
  then obtain s1 where s1: "win_writeat drv s (rf_rdev f) (u16_bytes tot) 0 2 = (s1, 2)" "\<not> (2 :: ssize) <s 0"
    "ok s1" "view s1 = overwrite v (2 * 0) (u16_bytes tot)" by blast
  have chain: "win_chain (rf_rdev f) 0 (block_to_bytes tot) = Some \<lparr>r_offset = 0, r_size = block_to_bytes tot\<rparr>"
    by (simp add: win_chain_def normalize_and_ok_in_window [OF rdw(1,3)]) (simp add: rd)
  have "unat (of_nat (16 * n) :: usize) = 16 * n" using n16 len by (intro unat_of_nat_id) simp
  then have "block_to_bytes tot = of_nat (16 * n)"
    by (simp add: word_unat_eq_iff unat_block_to_bytes n_def del: of_nat_mult)
  define f1 where "f1 = f\<lparr>rf_metadata := \<lparr>r_offset = 0, r_size = block_to_bytes tot\<rparr>, rf_data_blocks := (tot, tot),
     rf_slot := RF_ONLY_METADATA\<rparr>"
  have one: "bytes_to_block (align_up 16 16) = 1" by (simp add: bytes_to_block_def align_up_def)
  have "\<not> d > t - 1"
  proof -
    have "t \<noteq> 0" using bnd(3) by auto
    then have "unat (t - 1) = unat t - 1" by (rule unat_minus_one)
    then show ?thesis using bnd(3) by (simp add: word_less_nat_alt)
  qed
  then have "allocate_metadata drv s f d =
      (s1, f\<lparr>rf_metadata := \<lparr>r_offset = 0, r_size = block_to_bytes tot\<rparr>, rf_data_blocks := (tot, tot)\<rparr>, 0)"
    using al(1) s1(1,2) chain
    by (simp add: allocate_metadata_def one REGF_UPDATES_PER_METADATA_BLOCK_def Let_def t_def [symmetric]
        x_def [symmetric] tot_def [symmetric])
  then have h: "handle_empty drv s f d = (s1, f1, 0)" by (simp add: handle_empty_def f1_def)
  have len1: "length (view s1) = length v" using s1(4) n16 n1 by simp
  have at: "u16_at (view s1) 0 = tot" unfolding s1(4) using n16 n1 by (subst u16_at_overwrite) simp_all
  have er1: "erased ev (view s1) 2 (length v)"
    unfolding s1(4) using er n16 n1 by (intro erased_overwrite) (auto intro: erased_mono)
  have "layout ev (view s1) n 0"
    using n1 n16 len1 at n_def er1 n2 bnd(1) by (auto simp: layout_def word_less_nat_alt intro: erased_mono)
  moreover have "block_to_bytes tot = of_nat (16 * n)" by fact
  ultimately have inv: "rf_inv ev (view s1) f1"
    using len len1 rd at by (auto simp: rf_inv_def f1_def rf_slots)
  have "update_can_fit f1 d"
    using n1 n2 n16 bnd len1 unat_block_to_bytes [of tot]
    by (subst update_can_fit_iff [OF inv]) (simp_all add: f1_def rf_slots n_def)
  then show ?thesis
    using h s1(3) inv len1 by (intro exI [of _ s1] exI [of _ f1]) (simp add: f1_def rf_slots v_def)
qed

lemma handle_need_to_empty_ok:
  assumes "ok s" and "rf_inv ev (view s) f"
  shows "\<exists>s' f'. handle_need_to_empty drv s f = (s', f', 0) \<and> ok s' \<and> rf_inv ev (view s') f' \<and>
    length (view s') = length (view s) \<and> rf_slot f' = RF_EMPTY"
proof -
  have rd: "rf_rdev f = \<lparr>r_offset = 0, r_size = of_nat (length (view s))\<rparr>" and len: "length (view s) < 16 * 0xffff"
    using assms(2) by (simp_all add: rf_inv_def)
  obtain s' where s': "win_eraseat drv s (rf_rdev f) 0 (r_size (rf_rdev f)) = (s', r_size (rf_rdev f))"
    "\<not> r_size (rf_rdev f) <s 0" "ok s'" "view s' = replicate (length (view s)) ev"
    using win_eraseat_all [OF assms(1) rd] by blast
  then have "handle_need_to_empty drv s f = (s', f\<lparr>rf_slot := RF_EMPTY\<rparr>, 0)"
    by (simp add: handle_need_to_empty_def)
  moreover have "rf_inv ev (view s') (f\<lparr>rf_slot := RF_EMPTY\<rparr>)"
    using rd len s'(4) by (simp add: rf_inv_def erased_def)
  ultimately show ?thesis
    using s' by (intro exI [of _ s'] exI [of _ "f\<lparr>rf_slot := RF_EMPTY\<rparr>"]) simp
qed

end

section \<open>Updates\<close>

lemma update_step_update:
  "handle_update drv s f d buf sz = (s', f', 0) \<Longrightarrow> 0 \<le> rf_slot f \<Longrightarrow> 0 < rf_slot f' \<Longrightarrow> rf_slot f' \<noteq> rf_slot f \<Longrightarrow>
    update_loop (Suc n) drv s f d buf sz = Some (s', f', 0)"
  by (simp add: rf_slots)

lemma update_step_full:
  "\<not> update_can_fit f d \<Longrightarrow> 0 \<le> rf_slot f \<Longrightarrow>
    update_loop (Suc n) drv s f d buf sz = update_loop n drv s (f\<lparr>rf_slot := RF_NEED_TO_EMPTY\<rparr>) d buf sz"
  by (simp add: rf_slots handle_update_def)

lemma update_step_need_to_empty:
  "handle_need_to_empty drv s f = (s', f', 0) \<Longrightarrow> rf_slot f = RF_NEED_TO_EMPTY \<Longrightarrow> rf_slot f' = RF_EMPTY \<Longrightarrow>
    update_loop (Suc n) drv s f d buf sz = update_loop n drv s' f' d buf sz"
  by (simp add: rf_slots)

lemma update_step_empty:
  "handle_empty drv s f d = (s', f', 0) \<Longrightarrow> rf_slot f = RF_EMPTY \<Longrightarrow> rf_slot f' = 0 \<Longrightarrow>
    update_loop (Suc n) drv s f d buf sz = update_loop n drv s' f' d buf sz"
  by (simp add: rf_slots)

context byte_store
begin

text \<open>What a completed update leaves behind.\<close>

definition updated :: "'s \<Rightarrow> u8 list \<Rightarrow> usize \<Rightarrow> usize \<Rightarrow> 's \<Rightarrow> region_file \<Rightarrow> bool" where
  "updated s buf sz d s' f' \<longleftrightarrow> ok s' \<and> rf_inv ev (view s') f' \<and> length (view s') = length (view s) \<and>
     0 < rf_slot f' \<and> unat (snd (rf_data_blocks f')) = unat (fst (rf_data_blocks f')) + unat d \<and>
     take (unat sz) (drop (16 * unat (fst (rf_data_blocks f'))) (view s')) = take (unat sz) buf"

lemma update_loop_correct:
  assumes "ok s" and "rf_inv ev (view s) f" and "1 \<le> unat d" and "unat d + 1 \<le> length (view s) div 16"
    and "unat sz \<le> 16 * unat d" and "unat sz \<le> length buf"
  shows "\<exists>s' f'. update_loop 4 drv s f d buf sz = Some (s', f', 0) \<and> updated s buf sz d s' f'"
proof -
  have len: "length (view s) < 16 * 0xffff" using assms(2) by (simp add: rf_inv_def)
  have d: "unat d < 2 ^ 28" "d \<noteq> 0" using assms(3,4) len by auto
  have fits: "\<exists>s' f'. update_loop (Suc n) drv s0 f0 d buf sz = Some (s', f', 0) \<and> updated s buf sz d s' f'"
    if asm: "ok s0" "rf_inv ev (view s0) f0" "0 \<le> rf_slot f0" "update_can_fit f0 d" "length (view s0) = length (view s)" for s0 f0 n
  proof -
    obtain s' f' where r: "handle_update drv s0 f0 d buf sz = (s', f', 0)" "ok s'" "rf_inv ev (view s') f'"
      "length (view s') = length (view s0)" "rf_slot f' = rf_slot f0 + 1"
      "unat (snd (rf_data_blocks f')) = unat (fst (rf_data_blocks f')) + unat d"
      "take (unat sz) (drop (16 * unat (fst (rf_data_blocks f'))) (view s')) = take (unat sz) buf"
      using handle_update_ok [OF asm(1-4) d assms(5,6)] by blast
    then show ?thesis
      using update_step_update [OF r(1) asm(3)] asm(3,5) by (auto simp: updated_def)
  qed
  have empty: "\<exists>s' f'. update_loop (Suc (Suc n)) drv s0 f0 d buf sz = Some (s', f', 0) \<and> updated s buf sz d s' f'"
    if asm: "ok s0" "rf_inv ev (view s0) f0" "rf_slot f0 = RF_EMPTY" "length (view s0) = length (view s)" for s0 f0 n
  proof -
    obtain s' f' where r: "handle_empty drv s0 f0 d = (s', f', 0)" "ok s'" "rf_inv ev (view s') f'"
      "length (view s') = length (view s0)" "rf_slot f' = 0" "update_can_fit f' d"
      using handle_empty_ok [OF asm(1-3) assms(3)] asm(4) assms(4) by auto
    then show ?thesis
      using update_step_empty [OF r(1) asm(3) r(5)] fits [of s' f'] asm(4) by simp
  qed
  have need: "\<exists>s' f'. update_loop (Suc (Suc (Suc n))) drv s0 f0 d buf sz = Some (s', f', 0) \<and> updated s buf sz d s' f'"
    if asm: "ok s0" "rf_inv ev (view s0) f0" "rf_slot f0 = RF_NEED_TO_EMPTY" "length (view s0) = length (view s)" for s0 f0 n
  proof -
    obtain s' f' where r: "handle_need_to_empty drv s0 f0 = (s', f', 0)" "ok s'" "rf_inv ev (view s') f'"
      "length (view s') = length (view s0)" "rf_slot f' = RF_EMPTY"
      using handle_need_to_empty_ok [OF asm(1,2)] by blast
    then show ?thesis
      using update_step_need_to_empty [OF r(1) asm(3) r(5)] empty [of s' f'] asm(4) by simp
  qed
  have four: "(4 :: nat) = Suc (Suc (Suc (Suc 0)))" by simp
  consider "rf_slot f = RF_EMPTY" | "rf_slot f = RF_NEED_TO_EMPTY" | "0 \<le> rf_slot f"
    using assms(2) by (auto simp: rf_inv_def split: if_splits)
  then show ?thesis
  proof cases
    case 1
    then show ?thesis using empty assms(1,2) unfolding four by blast
  next
    case 2
    then show ?thesis using need assms(1,2) unfolding four by blast
  next
    case 3
    show ?thesis
    proof (cases "update_can_fit f d")
      case True
      then show ?thesis using fits assms(1,2) 3 unfolding four by blast
    next
      case False
      have "rf_inv ev (view s) (f\<lparr>rf_slot := RF_NEED_TO_EMPTY\<rparr>)"
        using assms(2) by (simp add: rf_inv_def rf_slots)
      then show ?thesis
        using need [of s "f\<lparr>rf_slot := RF_NEED_TO_EMPTY\<rparr>" 0] assms(1)
        unfolding four update_step_full [OF False 3] by simp
    qed
  qed
qed

lemma updated_data:
  assumes "updated s buf sz d s' f'" and "unat sz \<le> 16 * unat d"
  shows "\<exists>w. region_file_data f' = Some w \<and> unat (r_size w) = 16 * unat d \<and>
    win_readat drv s' w 0 sz = (take (unat sz) buf, sz)"
proof -
  let ?b = "fst (rf_data_blocks f')" and ?e = "snd (rf_data_blocks f')"
  have u: "ok s'" "rf_inv ev (view s') f'" "0 < rf_slot f'" "unat ?e = unat ?b + unat d"
    "take (unat sz) (drop (16 * unat ?b) (view s')) = take (unat sz) buf"
    using assms(1) by (auto simp: updated_def)
  obtain tot where lay: "layout ev (view s') tot (nat (rf_slot f'))" and len: "length (view s') < 16 * 0xffff"
    and rd: "rf_rdev f' = \<lparr>r_offset = 0, r_size = of_nat (length (view s'))\<rparr>"
    and e: "?e = u16_at (view s') (nat (rf_slot f'))"
    using rf_invD [OF u(2)] u(3) by auto
  have ul: "unat (of_nat (length (view s')) :: usize) = length (view s')" using len by (intro unat_of_nat_id) simp
  have le: "16 * unat ?e \<le> length (view s')" using lay e by (simp add: layout_def)
  have uo: "unat (block_to_bytes ?b) = 16 * unat ?b" and ue: "unat (block_to_bytes ?e) = 16 * unat ?e"
    by (simp_all add: unat_block_to_bytes)
  then have us: "unat (block_to_bytes ?e - block_to_bytes ?b) = 16 * unat d"
    using u(4) by (subst unat_sub) (simp_all add: word_le_nat_alt)
  let ?w = "\<lparr>r_offset = block_to_bytes ?b, r_size = block_to_bytes ?e - block_to_bytes ?b\<rparr>"
  have rdw: "region_ok (rf_rdev f')" "in_window (rf_rdev f') (block_to_bytes ?b) (block_to_bytes ?e - block_to_bytes ?b)"
    using ul le len u(4) by (simp_all add: rd region_ok_def in_window_def uo us)
  have data: "region_file_data f' = Some ?w"
    using u(3) by (simp add: region_file_data_def rf_slots win_chain_def Let_def normalize_and_ok_in_window [OF rdw])
      (simp add: rd)
  have "win_readat drv s' ?w 0 sz = (take (unat sz) buf, sz)"
    using win_readat(1) [OF u(1), of ?w 0 sz] le len u(4,5) assms(2)
    by (simp add: region_ok_def in_window_def uo us)
  then show ?thesis using data us by simp
qed

end

section \<open>Opening a region file again\<close>

lemma latest_slot_from_eq:
  "m \<le> i \<Longrightarrow> \<forall>j\<le>i. m < j \<longrightarrow> block_offset_unallocated (mb ! j) \<Longrightarrow> \<not> block_offset_unallocated (mb ! m) \<Longrightarrow>
    latest_slot_from mb i = m"
  by (induction i) (auto simp: le_Suc_eq)

lemma layout_unallocated:
  assumes "layout 0xff v tot k" and "i < 8 * tot"
  shows "block_offset_unallocated (u16_at v i) \<longleftrightarrow> k < i"
proof (cases "k < i")
  case True
  then have "v ! (2 * i) = 0xff" "v ! (2 * i + 1) = 0xff"
    using assms by (simp_all add: layout_def erased_def)
  then show ?thesis
    using True by (simp add: block_offset_unallocated_def REGF_UNALLOCATED_BLOCK_def u16_at_def)
next
  case False
  then have "u16_at v i \<le> u16_at v k" using layout_mono [OF assms(1)] by simp
  also have "\<dots> < 0xffff" using assms(1) by (simp add: layout_def)
  finally show ?thesis using False by (auto simp: block_offset_unallocated_def REGF_UNALLOCATED_BLOCK_def)
qed

lemma fill_data_boundaries_Some:
  assumes "rf_slot f \<noteq> 0" and "win_chain (rf_metadata f) (of_int (rf_slot f - 1) * 2) 4 = Some slots"
    and "win_readat d s slots 0 4 = (bs, 4)" and "\<not> (4 :: ssize) <s 0" and "u16_list bs = [b, e]"
    and "\<not> (ucast b :: usize) \<ge> ucast e" and "\<not> ucast e > bytes_to_block (r_size (rf_rdev f))"
  shows "fill_data_boundaries d s f = Some (f\<lparr>rf_data_blocks := (b, e)\<rparr>)"
  using assms by (simp add: fill_data_boundaries_def rf_slots region_file_data_begin_def region_file_data_end_def Let_def)

lemma region_file_init_found:
  assumes "win_chain p 0 (r_size p) = Some rd" and "win_readat d s p 0 16 = (bs, 16)" and "\<not> (16 :: ssize) <s 0"
    and "u16_list bs ! 0 = t" and "\<not> block_offset_unallocated t" and "t \<noteq> 0"
    and "win_chain p 0 (block_to_bytes t) = Some md"
    and "find_latest_mb d s (unat t) \<lparr>rf_rdev = rd, rf_metadata = md, rf_data_blocks = (0, 0), rf_slot = RF_FATAL\<rparr> = Some (mb, f1)"
    and "fill_data_boundaries d s (find_latest_slot mb f1) = Some f"
  shows "region_file_init d s p = (f, 0)"
  using assms by (simp add: region_file_init_def Let_def)

context byte_store
begin

lemma read_mb_layout:
  assumes "ok s" and "layout ev (view s) tot k" and "length (view s) < 16 * 0xffff"
    and "rf_metadata f = \<lparr>r_offset = 0, r_size = of_nat (16 * tot)\<rparr>" and "i < tot"
  shows "read_mb drv s f i = Some (map (\<lambda>j. u16_at (view s) (8 * i + j)) [0..<8])"
proof -
  have tot: "16 * tot \<le> length (view s)" using assms(2) by (simp add: layout_def)
  have um: "unat (of_nat (16 * tot) :: usize) = 16 * tot" using tot assms(3) by (intro unat_of_nat_id) simp
  have "unat (of_nat i :: u16) = i" using tot assms(3,5) by (intro unat_of_nat_id) simp
  then have ui: "unat (block_to_bytes (of_nat i)) = 16 * i" by (simp add: unat_block_to_bytes)
  have w: "region_ok (rf_metadata f)" "in_window (rf_metadata f) (block_to_bytes (of_nat i)) 16"
    using assms(3,5) tot um ui by (simp_all add: assms(4) region_ok_def in_window_def del: of_nat_mult)
  have "win_readat drv s (rf_metadata f) (block_to_bytes (of_nat i)) 16 = (take 16 (drop (16 * i) (view s)), 16)"
    "\<not> (16 :: ssize) <s 0"
    using win_readat [OF assms(1) w] tot um ui by (simp_all add: assms(4) del: of_nat_mult)
  moreover have "u16_list (take 16 (drop (16 * i) (view s))) = map (\<lambda>j. u16_at (view s) (8 * i + j)) [0..<8]"
    using u16_list_take [of "8 * i" 8 "view s"] tot assms(5) by simp
  ultimately show ?thesis by (simp add: read_mb_def Let_def)
qed

lemma search_mb_layout:
  assumes "ok s" and "layout 0xff (view s) tot k" and "length (view s) < 16 * 0xffff" and "ev = 0xff"
    and "rf_metadata f = \<lparr>r_offset = 0, r_size = of_nat (16 * tot)\<rparr>"
    and "8 * l \<le> k" and "k < 8 * r" and "r \<le> tot"
  shows "search_mb drv s f l r = Some (k div 8)"
  using assms(6-8)
proof (induction "r - l" arbitrary: l r rule: less_induct)
  case less
  show ?case
  proof (cases "l + 1 < r")
    case True
    define mid where "mid = (l + r) div 2"
    have mid: "l < mid" "mid < r" using True by (simp_all add: mid_def)
    then have read: "read_mb drv s f mid = Some (map (\<lambda>j. u16_at (view s) (8 * mid + j)) [0..<8])"
      using less.prems assms(2,4) by (intro read_mb_layout [OF assms(1) _ assms(3,5)]) simp_all
    have un: "all_block_offsets_unallocated (map (\<lambda>j. u16_at (view s) (8 * mid + j)) [0..<8]) \<longleftrightarrow> k < 8 * mid"
    proof -
      have "block_offset_unallocated (u16_at (view s) (8 * mid + j)) \<longleftrightarrow> k < 8 * mid + j" if "j < 8" for j
        using that mid less.prems by (intro layout_unallocated [OF assms(2)]) simp
      then show ?thesis
        by (auto simp: all_block_offsets_unallocated_def list_all_iff dest: bspec [of _ _ 0])
    qed
    have "search_mb drv s f l r = (if k < 8 * mid then search_mb drv s f l mid else search_mb drv s f mid r)"
      using True read un by (subst search_mb.simps) (simp add: mid_def Let_def)
    also have "\<dots> = Some (k div 8)"
      using less.hyps [of mid l] less.hyps [of r mid] less.prems mid by (simp add: not_less)
    finally show ?thesis .
  next
    case False
    then have "l = k div 8" using less.prems by linarith
    then show ?thesis using False by (subst search_mb.simps) simp
  qed
qed

lemma region_file_init_layout:
  assumes "ok s" and "ev = 0xff" and "rf_inv ev (view s) f" and "0 \<le> rf_slot f"
  shows "region_file_init drv s \<lparr>r_offset = 0, r_size = of_nat (length (view s))\<rparr> = (f, 0)"
proof -
  define v where "v = view s"
  define k where "k = nat (rf_slot f)"
  obtain tot where lay: "layout 0xff v tot k" and len: "length v < 16 * 0xffff"
    and rd: "rf_rdev f = \<lparr>r_offset = 0, r_size = of_nat (length v)\<rparr>"
    and md: "rf_metadata f = \<lparr>r_offset = 0, r_size = of_nat (16 * tot)\<rparr>"
    and e: "snd (rf_data_blocks f) = u16_at v k"
    using rf_invD [OF assms(3,4)] assms(2) unfolding v_def k_def by metis
  have tot: "1 \<le> tot" "16 * tot \<le> length v" "k < 8 * tot" "unat (u16_at v 0) = tot"
    and top: "16 * unat (u16_at v k) \<le> length v"
    using lay by (simp_all add: layout_def)
  have slot: "rf_slot f = int k" using assms(4) by (simp add: k_def)
  have blocks: "rf_data_blocks f = (if k = 0 then (u16_at v 0, u16_at v 0) else (u16_at v (k - 1), u16_at v k))"
    using assms(3,4) slot by (auto simp: rf_inv_def rf_slots v_def split: if_splits)
  have ul: "unat (of_nat (length v) :: usize) = length v" using len by (intro unat_of_nat_id) simp
  have um: "unat (of_nat (16 * tot) :: usize) = 16 * tot" using tot len by (intro unat_of_nat_id) simp
  let ?p = "\<lparr>r_offset = 0, r_size = of_nat (length v)\<rparr> :: region"
  have btb: "block_to_bytes (u16_at v 0) = of_nat (16 * tot)"
    by (simp add: word_unat_eq_iff unat_block_to_bytes tot(4) um del: of_nat_mult)
  have pw: "region_ok ?p" "in_window ?p 0 (of_nat (length v))" "in_window ?p 0 16" "in_window ?p 0 (of_nat (16 * tot))"
    using ul um len tot(2) order_trans [OF mult_le_mono2 [OF tot(1), of 16] tot(2)]
    by (simp_all add: region_ok_def in_window_def del: of_nat_mult)
  have chains: "win_chain ?p 0 (of_nat (length v)) = Some (rf_rdev f)" "win_chain ?p 0 (of_nat (16 * tot)) = Some (rf_metadata f)"
    by (simp_all add: win_chain_def normalize_and_ok_in_window [OF pw(1,2)] normalize_and_ok_in_window [OF pw(1,4)] rd md
        del: of_nat_mult)
  have read: "win_readat drv s ?p 0 16 = (take 16 (drop 0 v), 16)" "\<not> (16 :: ssize) <s 0"
    using win_readat [OF assms(1) pw(1,3)] ul by (simp_all add: v_def)
  have "u16_list (take 16 (drop 0 v)) = map (u16_at v) [0..<8]"
    using u16_list_take [of 0 8 v] tot by simp
  then have mb0: "u16_list (take 16 (drop 0 v)) ! 0 = u16_at v 0" by simp
  have nz: "u16_at v 0 \<noteq> 0" using tot(1,4) by auto
  have al: "\<not> block_offset_unallocated (u16_at v 0)" using layout_unallocated [OF lay, of 0] tot by simp
  define f0 where "f0 = \<lparr>rf_rdev = rf_rdev f, rf_metadata = rf_metadata f, rf_data_blocks = (0, 0), rf_slot = RF_FATAL\<rparr>"
  define f1 where "f1 = f0\<lparr>rf_slot := int (k div 8 * 8)\<rparr>"
  let ?mb = "map (\<lambda>j. u16_at v (8 * (k div 8) + j)) [0..<8]"
  have "search_mb drv s f0 0 tot = Some (k div 8)"
    using tot(3) by (intro search_mb_layout [OF assms(1) lay [unfolded v_def] len [unfolded v_def] assms(2)])
      (simp_all add: f0_def md)
  moreover have "read_mb drv s f1 (k div 8) = Some ?mb"
    unfolding v_def using lay len tot(3) assms(2)
    by (intro read_mb_layout [OF assms(1)]) (simp_all add: v_def f1_def f0_def md div_less_iff_less_mult mult.commute)
  ultimately have find: "find_latest_mb drv s tot f0 = Some (?mb, f1)"
    by (simp add: find_latest_mb_def REGF_UPDATES_PER_METADATA_BLOCK_def f1_def)
  have "latest_slot_from ?mb 7 = k mod 8"
  proof (rule latest_slot_from_eq)
    have "block_offset_unallocated (u16_at v (8 * (k div 8) + j)) \<longleftrightarrow> k < 8 * (k div 8) + j" if "j < 8" for j
    proof (rule layout_unallocated [OF lay])
      have "k div 8 < tot" using tot(3) by (simp add: div_less_iff_less_mult mult.commute)
      then show "8 * (k div 8) + j < 8 * tot" using that by linarith
    qed
    then have at: "block_offset_unallocated (?mb ! j) \<longleftrightarrow> k < 8 * (k div 8) + j" if "j < 8" for j
      using that by simp
    show "k mod 8 \<le> 7" by simp
    show "\<forall>j\<le>7. k mod 8 < j \<longrightarrow> block_offset_unallocated (?mb ! j)"
    proof (intro allI impI)
      fix j assume j: "j \<le> (7::nat)" "k mod 8 < j"
      then have "k < 8 * (k div 8) + j" using mult_div_mod_eq [of 8 k] by linarith
      then show "block_offset_unallocated (?mb ! j)" using at j(1) by simp
    qed
    show "\<not> block_offset_unallocated (?mb ! (k mod 8))" using at [of "k mod 8"] by simp
  qed
  then have slotk: "find_latest_slot ?mb f1 = f0\<lparr>rf_slot := int k\<rparr>"
    by (simp add: find_latest_slot_def REGF_UPDATES_PER_METADATA_BLOCK_def f1_def of_nat_add [symmetric] del: of_nat_add of_nat_mult)
  have "fill_data_boundaries drv s (f0\<lparr>rf_slot := int k\<rparr>) = Some f"
  proof (cases "k = 0")
    case True
    have "ucast (bytes_to_block (of_nat (16 * tot))) = u16_at v 0"
      using tot(2) len um by (subst word_unat_eq_iff, subst unat_ucast_small) (simp_all add: unat_bytes_to_block tot(4) del: of_nat_mult)
    then show ?thesis
      using True blocks slot md
      by (cases f) (simp add: fill_data_boundaries_def rf_slots f0_def Let_def del: of_nat_mult)
  next
    case False
    define offs :: usize where "offs = of_int (int k - 1) * 2"
    have "offs = of_nat (2 * (k - 1))" using False by (simp add: offs_def of_nat_diff)
    moreover have "unat (of_nat (2 * (k - 1)) :: usize) = 2 * (k - 1)"
      using tot len by (intro unat_of_nat_id) simp
    ultimately have uo: "unat offs = 2 * (k - 1)" by (simp only:)
    have w: "region_ok (rf_metadata f)" "in_window (rf_metadata f) offs 4"
      using um uo tot len False by (simp_all add: md region_ok_def in_window_def del: of_nat_mult)
    have chain: "win_chain (rf_metadata f) offs 4 = Some \<lparr>r_offset = offs, r_size = 4\<rparr>"
      by (simp add: win_chain_def normalize_and_ok_in_window [OF w]) (simp add: md)
    have rs: "win_readat drv s \<lparr>r_offset = offs, r_size = 4\<rparr> 0 4 = (take (2 * 2) (drop (2 * (k - 1)) v), 4)" "\<not> (4 :: ssize) <s 0"
      using win_readat [OF assms(1), of "\<lparr>r_offset = offs, r_size = 4\<rparr>" 0 4] uo tot len False
      by (simp_all add: region_ok_def in_window_def v_def)
    have us: "u16_list (take (2 * 2) (drop (2 * (k - 1)) v)) = [u16_at v (k - 1), u16_at v k]"
      using u16_list_take [of "k - 1" 2 v] tot False by (simp add: numeral_2_eq_2)
    have inc: "u16_at v (k - 1) < u16_at v k" using lay False by (cases k) (auto simp: layout_def)
    have le: "\<not> ucast (u16_at v k) > bytes_to_block (of_nat (length v) :: usize)"
    proof -
      have "unat (u16_at v k) \<le> length v div 16" using top by linarith
      then show ?thesis by (simp add: word_less_nat_alt unat_bytes_to_block ul unat_ucast_up)
    qed
    have lt: "\<not> (ucast (u16_at v (k - 1)) :: usize) \<ge> ucast (u16_at v k)"
      using inc by (simp add: word_le_nat_alt word_less_nat_alt unat_ucast_up)
    have f0: "rf_metadata (f0\<lparr>rf_slot := int k\<rparr>) = rf_metadata f" "r_size (rf_rdev (f0\<lparr>rf_slot := int k\<rparr>)) = of_nat (length v)"
      "rf_slot (f0\<lparr>rf_slot := int k\<rparr>) = int k"
      by (simp_all add: f0_def rd)
    have "fill_data_boundaries drv s (f0\<lparr>rf_slot := int k\<rparr>) =
        Some (f0\<lparr>rf_slot := int k, rf_data_blocks := (u16_at v (k - 1), u16_at v k)\<rparr>)"
      by (rule fill_data_boundaries_Some [OF _ _ rs us lt]) (use False in \<open>simp_all only: f0 chain offs_def [symmetric] le of_nat_eq_0_iff not_False_eq_True\<close>)
    moreover have "f0\<lparr>rf_slot := int k, rf_data_blocks := (u16_at v (k - 1), u16_at v k)\<rparr> = f"
      using False slot blocks by (cases f) (simp add: f0_def)
    ultimately show ?thesis by simp
  qed
  then have fill: "fill_data_boundaries drv s (find_latest_slot ?mb f1) = Some f" by (simp only: slotk)
  have p: "r_size ?p = of_nat (length v)" by simp
  show ?thesis
    unfolding v_def [symmetric]
  proof (rule region_file_init_found [OF _ read mb0 al nz _ _ fill])
    show "win_chain ?p 0 (r_size ?p) = Some (rf_rdev f)" by (simp only: p chains)
    show "win_chain ?p 0 (block_to_bytes (u16_at v 0)) = Some (rf_metadata f)" by (simp only: btb chains)
    show "find_latest_mb drv s (unat (u16_at v 0))
        \<lparr>rf_rdev = rf_rdev f, rf_metadata = rf_metadata f, rf_data_blocks = (0, 0), rf_slot = RF_FATAL\<rparr> = Some (?mb, f1)"
      using find unfolding tot(4) f0_def .
  qed
qed

end

section \<open>Memory-mapped devices provide the interface\<close>

definition mem_driver :: "ptr \<Rightarrow> mem driver" where
  "mem_driver base = \<lparr>drv_readat = (\<lambda>m. mdev_readat m base), drv_writeat = (\<lambda>m. mdev_writeat m base),
     drv_eraseat = (\<lambda>m. mdev_eraseat m base)\<rparr>"

text \<open>The operations of a device of \<^verbatim>\<open>region.c\<close> with that table are those over this driver.\<close>

lemma rdev_ops_win:
  assumes "root_ops (rdev_root rd) = Mem_ops True base"
  shows "rdev_readat m rd o' n = win_readat (mem_driver base) m (rdev_region rd) o' n"
    and "rdev_writeat m rd b o' n = win_writeat (mem_driver base) m (rdev_region rd) b o' n"
    and "rdev_eraseat m rd o' n = win_eraseat (mem_driver base) m (rdev_region rd) o' n"
    and "rdev_chain rd o' n = map_option (Child (rdev_root rd)) (win_chain (rdev_region rd) o' n)"
  using assms
  by (simp_all add: rdev_readat.simps(1) rdev_writeat.simps(1) rdev_eraseat.simps(1) rdev_chain_def win_readat_def
      win_writeat_def win_eraseat_def win_chain_def mem_driver_def split: prod.splits)

lemma mem_read_write_overwrite:
  assumes "unat o' + length b \<le> n" and "n \<le> 2 ^ 32"
  shows "mem_read (mem_write m (base + o') b) base n = overwrite (mem_read m base n) (unat o') b"
  using assms by (intro nth_equalityI) (simp_all add: nth_overwrite nth_mem_write_window)

interpretation mem_dev: byte_store "mem_driver base" "\<lambda>m. mem_read m base sz" 0 "\<lambda>_. sz < 2 ^ 31" for base sz
proof (unfold_locales, goal_cases)
  case (2 s o' n)
  then show ?case
    by (simp add: mem_driver_def mdev_readat_def) (intro nth_equalityI; simp add: add.assoc)
next
  case (3 s o' n b)
  then have "mem_read (mem_write s (base + o') (take (unat n) b)) base sz = overwrite (mem_read s base sz) (unat o') (take (unat n) b)"
    by (intro mem_read_write_overwrite) simp_all
  then show ?case
    using 3 by (intro exI [of _ "mem_write s (base + o') (take (unat n) b)"] exI [of _ "take (unat n) b"])
      (simp add: mem_driver_def mdev_writeat_def)
next
  case (4 s o' n)
  then have "mem_read (mem_write s (base + o') (replicate (unat n) 0)) base sz = overwrite (mem_read s base sz) (unat o') (replicate (unat n) 0)"
    by (intro mem_read_write_overwrite) simp_all
  then show ?case using 4 by (simp add: mem_driver_def mdev_eraseat_def)
qed simp

section \<open>Flash\<close>

text \<open>
  A driver of the kind the file is meant for, over a list of bytes: programming can only
  clear bits, erasing sets them. It shows that the interface can hold with 0xff.
\<close>

definition flash_driver :: "u8 list driver" where
  "flash_driver = \<lparr>
     drv_readat = (\<lambda>v o' n. if unat o' + unat n \<le> length v then (take (unat n) (drop (unat o') v), n) else ([], -1)),
     drv_writeat = (\<lambda>v b o' n. if unat o' + unat n \<le> length v
       then (overwrite v (unat o') (map2 (AND) (take (unat n) (drop (unat o') v)) (take (unat n) b)), n) else (v, -1)),
     drv_eraseat = (\<lambda>v o' n. if unat o' + unat n \<le> length v
       then (overwrite v (unat o') (replicate (unat n) 0xff), n) else (v, -1))\<rparr>"

interpretation flash: byte_store flash_driver "\<lambda>v. v" "0xff" "\<lambda>v. length v < 2 ^ 31"
proof (unfold_locales, goal_cases)
  case (3 v o' n b)
  let ?b = "map2 (AND) (take (unat n) (drop (unat o') v)) (take (unat n) b)"
  have "?b = take (unat n) b" if "erased 0xff v (unat o') (unat o' + unat n)"
  proof (rule nth_equalityI)
    fix i assume "i < length ?b"
    then have i: "i < unat n" by simp
    then have "v ! (unat o' + i) = -1" using that by (simp add: erased_def)
    then show "?b ! i = take (unat n) b ! i" using i 3 by simp
  qed (use 3 in simp)
  then show ?case
    using 3 by (intro exI [of _ "overwrite v (unat o') ?b"] exI [of _ ?b]) (simp add: flash_driver_def)
qed (simp_all add: flash_driver_def)

section \<open>Properties\<close>

lemma update_blocks:
  fixes sz :: usize
  assumes "sz \<noteq> 0" and "(unat sz + 15) div 16 + 1 \<le> n" and "n < 65536"
  defines "d \<equiv> bytes_to_block (align_up sz 16)"
  shows "unat d = (unat sz + 15) div 16" and "1 \<le> unat d" and "unat d + 1 \<le> n" and "unat sz \<le> 16 * unat d"
proof -
  have "unat sz + 15 < 4294967296" using assms(2,3) by linarith
  then have "unat (align_up sz 16) = (unat sz + 15) div 16 * 16"
    using unat_align_up [of 4 sz] by simp
  then show d: "unat d = (unat sz + 15) div 16" by (simp add: d_def unat_bytes_to_block)
  show "1 \<le> unat d" using d assms(1) unat_gt_0 [of sz] by linarith
  show "unat d + 1 \<le> n" using d assms(2) by simp
  show "unat sz \<le> 16 * unat d" unfolding d by linarith
qed

text \<open>
  C4: On any driver that keeps the byte store promises, an update of a consistent file with
  data that fits the region beside one metadata block returns success after at most four
  rounds of the loop, erasing and re-allocating if it must; the file is consistent again and
  the latest data read through \<^verbatim>\<open>region_file_data\<close> begins with the bytes of the update.
\<close>

theorem region_file_update_then_read:
  assumes "byte_store drv view ev ok" and "ok s" and "rf_inv ev (view s) f" and "sz \<noteq> 0"
    and "unat sz \<le> length buf" and "(unat sz + 15) div 16 + 1 \<le> length (view s) div 16"
  shows "\<exists>s' f' w. region_file_update_data 4 drv s f buf sz = Some (s', f', 0) \<and> ok s' \<and>
    rf_inv ev (view s') f' \<and> 0 < rf_slot f' \<and> length (view s') = length (view s) \<and>
    region_file_data f' = Some w \<and> win_readat drv s' w 0 sz = (take (unat sz) buf, sz)"
proof -
  have "length (view s) < 1048560" using assms(3) by (simp add: rf_inv_def)
  then have "length (view s) div 16 < 65536" by linarith
  note d = update_blocks [OF assms(4,6) this]
  obtain s' f' where u: "update_loop 4 drv s f (bytes_to_block (align_up sz 16)) buf sz = Some (s', f', 0)"
    "byte_store.updated view ev ok s buf sz (bytes_to_block (align_up sz 16)) s' f'"
    using byte_store.update_loop_correct [OF assms(1-3) d(2-4) assms(5)] by blast
  then show ?thesis
    using byte_store.updated_data [OF assms(1) u(2) d(4)]
    by (auto simp: region_file_update_data_def Let_def byte_store.updated_def [OF assms(1)])
qed

definition blank_flash :: "u8 list" where
  "blank_flash = replicate 0x1000 0xff"

definition blank_file :: region_file where
  "blank_file = \<lparr>rf_rdev = \<lparr>r_offset = 0, r_size = 0x1000\<rparr>, rf_metadata = \<lparr>r_offset = 0, r_size = 0\<rparr>,
     rf_data_blocks = (0, 0), rf_slot = RF_EMPTY\<rparr>"

lemma blank_inv: "rf_inv 0xff blank_flash blank_file"
  by (simp add: rf_inv_def blank_flash_def blank_file_def erased_def)

theorem region_file_update_then_read_witness:
  "\<exists>s' f' w. region_file_update_data 4 flash_driver blank_flash blank_file [1, 2, 3] 3 = Some (s', f', 0) \<and>
     region_file_data f' = Some w \<and> win_readat flash_driver s' w 0 3 = ([1, 2, 3], 3)"
  using region_file_update_then_read [OF flash.byte_store_axioms _ blank_inv, of 3 "[1, 2, 3]"]
  by (auto simp: blank_flash_def)

text \<open>
  C18: On a device that erases to 0xff, opening a region anew finds exactly the file that was
  last in use: the binary search over the metadata blocks and the checks of the data
  boundaries rebuild the same slot, boundaries and windows.
\<close>

theorem region_file_reopen:
  assumes "byte_store drv view 0xff ok" and "ok s" and "rf_inv 0xff (view s) f" and "0 \<le> rf_slot f"
  shows "region_file_init drv s \<lparr>r_offset = 0, r_size = of_nat (length (view s))\<rparr> = (f, 0)"
  by (rule byte_store.region_file_init_layout [OF assms(1,2) refl assms(3,4)])

theorem region_file_reopen_witness:
  "\<exists>s' f'. region_file_update_data 4 flash_driver blank_flash blank_file [1, 2, 3] 3 = Some (s', f', 0) \<and>
     region_file_init flash_driver s' \<lparr>r_offset = 0, r_size = of_nat (length s')\<rparr> = (f', 0)"
proof -
  have "length blank_flash < 2 ^ 31" "(unat (3 :: usize) + 15) div 16 + 1 \<le> length blank_flash div 16"
    by (simp_all add: blank_flash_def)
  then obtain s' f' where u: "update_loop 4 flash_driver blank_flash blank_file (bytes_to_block (align_up 3 16)) [1, 2, 3] 3 = Some (s', f', 0)"
    "flash.updated blank_flash [1, 2, 3] 3 (bytes_to_block (align_up 3 16)) s' f'"
    using flash.update_loop_correct [OF _ blank_inv, of "bytes_to_block (align_up 3 16)" 3 "[1, 2, 3]"]
    by (auto simp: blank_flash_def bytes_to_block_def align_up_def)
  have "length s' < 2 ^ 31" "rf_inv 0xff s' f'" "0 \<le> rf_slot f'"
    using u(2) unfolding byte_store.updated_def [OF flash.byte_store_axioms] by simp_all
  then show ?thesis
    using region_file_reopen [OF flash.byte_store_axioms, of s' f'] u(1)
    by (auto simp: region_file_update_data_def Let_def)
qed

text \<open>
  On a region of 1 MiB an update of 65535 blocks passes the check of the metadata
  allocation, but its end can never be addressed: every round ends in another erase.
\<close>

definition too_big :: "('s \<Rightarrow> u8 list) \<Rightarrow> ('s \<Rightarrow> bool) \<Rightarrow> 's \<Rightarrow> region_file \<Rightarrow> bool" where
  "too_big view ok s f \<longleftrightarrow> ok s \<and> length (view s) = 2 ^ 20 \<and> rf_rdev f = \<lparr>r_offset = 0, r_size = 0x100000\<rparr> \<and>
     (rf_slot f = RF_EMPTY \<or> rf_slot f = RF_NEED_TO_EMPTY \<or>
      (rf_slot f = 0 \<and> rf_metadata f = \<lparr>r_offset = 0, r_size = 16\<rparr> \<and> rf_data_blocks f = (1, 1)))"

context byte_store
begin

lemma too_big_step:
  assumes "too_big view ok s f"
  shows "\<exists>s' f'. update_loop (Suc n) drv s f 0xffff buf sz = update_loop n drv s' f' 0xffff buf sz \<and> too_big view ok s' f'"
proof -
  let ?w = "\<lparr>r_offset = 0, r_size = 0x100000\<rparr> :: region"
  have s: "ok s" "length (view s) = 2 ^ 20" "rf_rdev f = ?w" using assms by (auto simp: too_big_def)
  have norm: "normalize_and_ok ?w \<lparr>r_offset = 0, r_size = n\<rparr> = (\<lparr>r_offset = 0, r_size = n\<rparr>, True)" if "unat n \<le> 0x100000" for n
    using normalize_and_ok_in_window [of ?w 0 n] that by (simp add: region_ok_def in_window_def)
  consider "rf_slot f = RF_EMPTY" | "rf_slot f = RF_NEED_TO_EMPTY"
    | "rf_slot f = 0" "rf_metadata f = \<lparr>r_offset = 0, r_size = 16\<rparr>" "rf_data_blocks f = (1, 1)"
    using assms by (auto simp: too_big_def)
  then show ?thesis
  proof cases
    case 1
    obtain s' b' where w: "drv_writeat drv s (u16_bytes 1) 0 2 = (s', 2)" "ok s'" "view s' = overwrite (view s) 0 b'" "length b' = 2"
      using writeat [OF s(1), of 0 2 "u16_bytes 1"] s(2) by auto
    have "allocate_metadata drv s f 0xffff = (s', f\<lparr>rf_metadata := \<lparr>r_offset = 0, r_size = 16\<rparr>, rf_data_blocks := (1, 1)\<rparr>, 0)"
      using w(1) not_sless_0 [of 2] by (simp add: allocate_metadata_def Let_def s(3) bytes_to_block_def align_up_def align_down_def
          REGF_UPDATES_PER_METADATA_BLOCK_def win_writeat_def win_chain_def norm block_to_bytes_def)
    then have "update_loop (Suc n) drv s f 0xffff buf sz =
        update_loop n drv s' (f\<lparr>rf_metadata := \<lparr>r_offset = 0, r_size = 16\<rparr>, rf_data_blocks := (1, 1), rf_slot := 0\<rparr>) 0xffff buf sz"
      using 1 by (simp add: rf_slots handle_empty_def)
    moreover have "too_big view ok s' (f\<lparr>rf_metadata := \<lparr>r_offset = 0, r_size = 16\<rparr>, rf_data_blocks := (1, 1), rf_slot := 0\<rparr>)"
      using s w by (simp add: too_big_def)
    ultimately show ?thesis by blast
  next
    case 2
    have rf: "rf_rdev f = \<lparr>r_offset = 0, r_size = of_nat (length (view s))\<rparr>" using s by simp
    obtain s' where "win_eraseat drv s (rf_rdev f) 0 (r_size (rf_rdev f)) = (s', r_size (rf_rdev f))"
      "\<not> r_size (rf_rdev f) <s 0" "ok s'" "view s' = replicate (length (view s)) ev"
      using win_eraseat_all [OF s(1) rf] by blast
    then have "update_loop (Suc n) drv s f 0xffff buf sz = update_loop n drv s' (f\<lparr>rf_slot := RF_EMPTY\<rparr>) 0xffff buf sz"
      and "too_big view ok s' (f\<lparr>rf_slot := RF_EMPTY\<rparr>)"
      using 2 s by (simp_all add: rf_slots handle_need_to_empty_def too_big_def)
    then show ?thesis by blast
  next
    case 3
    then have "\<not> update_can_fit f 0xffff"
      by (simp add: update_can_fit_def region_file_data_end_def REGF_UNALLOCATED_BLOCK_def)
    then have "update_loop (Suc n) drv s f 0xffff buf sz = update_loop n drv s (f\<lparr>rf_slot := RF_NEED_TO_EMPTY\<rparr>) 0xffff buf sz"
      using 3 by (simp add: rf_slots handle_update_def)
    moreover have "too_big view ok s (f\<lparr>rf_slot := RF_NEED_TO_EMPTY\<rparr>)" using s by (simp add: too_big_def)
    ultimately show ?thesis by blast
  qed
qed

lemma too_big_loop: "too_big view ok s f \<Longrightarrow> update_loop n drv s f 0xffff buf sz = None"
proof (induction n arbitrary: s f)
  case (Suc n)
  then show ?case using too_big_step [OF Suc.prems] by metis
qed simp

end

text \<open>
  C28: On an empty region of exactly 1 MiB, an update whose data takes 65535 blocks never
  returns, whatever the fuel: the loop allocates the metadata, finds that the update does not
  fit and erases the device, for ever.
\<close>

theorem region_file_update_never_returns:
  assumes "byte_store drv view ev ok" and "ok s" and "length (view s) = 2 ^ 20"
    and "rf_rdev f = \<lparr>r_offset = 0, r_size = 0x100000\<rparr>" and "rf_slot f = RF_EMPTY"
    and "0xfffe0 < sz" and "sz \<le> 0xffff0"
  shows "region_file_update_data fuel drv s f buf sz = None"
proof -
  have "unat sz \<le> 0xffff0" "0xfffe0 < unat sz" using assms(6,7) by (simp_all add: word_le_nat_alt word_less_nat_alt)
  then have "unat (align_up sz 16) = (unat sz + 15) div 16 * 16" "(unat sz + 15) div 16 = 0xffff"
    using unat_align_up [of 4 sz] by (simp, linarith)
  then have "bytes_to_block (align_up sz 16) = 0xffff"
    by (simp add: word_unat_eq_iff unat_bytes_to_block)
  moreover have "too_big view ok s f" using assms(2-5) by (simp add: too_big_def)
  ultimately show ?thesis
    using byte_store.too_big_loop [OF assms(1)] by (simp add: region_file_update_data_def Let_def)
qed

theorem region_file_update_never_returns_witness:
  "region_file_update_data 1000 flash_driver (replicate (2 ^ 20) 0xff)
     \<lparr>rf_rdev = \<lparr>r_offset = 0, r_size = 0x100000\<rparr>, rf_metadata = \<lparr>r_offset = 0, r_size = 0\<rparr>,
      rf_data_blocks = (0, 0), rf_slot = RF_EMPTY\<rparr> [] 0xfffe8 = None"
  by (rule region_file_update_never_returns [OF flash.byte_store_axioms]) simp_all

end
