(* ===== verification/Cbmem_Id.thy ===== *)
theory Cbmem_Id
  imports Prelude
begin

text \<open>
  The identifiers of the in-memory directory's entries that the modelled code uses,
  \<^verbatim>\<open>src/commonlib/include/commonlib/cbmem_id.h\<close>.
\<close>

definition CBMEM_ID_TIMESTAMP :: u32 where "CBMEM_ID_TIMESTAMP = 0x54494d45"
definition CBMEM_ID_CONSOLE :: u32 where "CBMEM_ID_CONSOLE = 0x434f4e53"
definition CBMEM_ID_ACPI_GNVS :: u32 where "CBMEM_ID_ACPI_GNVS = 0x474e5653"
definition CBMEM_ID_VPD :: u32 where "CBMEM_ID_VPD = 0x56504420"
definition CBMEM_ID_WIFI_CALIBRATION :: u32 where "CBMEM_ID_WIFI_CALIBRATION = 0x57494649"
definition CBMEM_ID_TCPA_LOG :: u32 where "CBMEM_ID_TCPA_LOG = 0x54435041"
definition CBMEM_ID_RAM_OOPS :: u32 where "CBMEM_ID_RAM_OOPS = 0x05430095"
definition CBMEM_ID_IMD_ROOT :: u32 where "CBMEM_ID_IMD_ROOT = 0xff4017ff"
definition CBMEM_ID_IMD_SMALL :: u32 where "CBMEM_ID_IMD_SMALL = 0x53a11439"

end
