(* ===== verification/Imd.thy ===== *)
theory Imd
  imports Memory Cbmem_Id
begin

text \<open>
  The in-memory directory, \<^verbatim>\<open>src/lib/imd.c\<close> (CBMEM lives in one). All of its state is in
  memory: a root pointer just below the upper limit, a root block with a table of entries,
  and the regions the entries describe, allocated downwards. The operations are written over
  the flat memory of \<^verbatim>\<open>Memory\<close>, field by field as the packed structures lay them out;
  pointers are addresses, 0 is the null pointer, and the signed fields are 32-bit words.
  \<open>fatal\<close> is \<^verbatim>\<open>CONFIG_FATAL_ASSERTS\<close>: \<open>None\<close> is a machine halted by an assertion.
\<close>

section \<open>Structures\<close>

definition IMD_ROOT_PTR_MAGIC :: u32 where "IMD_ROOT_PTR_MAGIC = 0xc0389481"
definition IMD_ENTRY_MAGIC :: u32 where "IMD_ENTRY_MAGIC = NOT 0xc0389481"
definition SMALL_REGION_ID :: u32 where "SMALL_REGION_ID = 0x53a11439"
definition LIMIT_ALIGN :: u32 where "LIMIT_ALIGN = 4096"
definition IMD_FLAG_LOCKED :: u32 where "IMD_FLAG_LOCKED = 1"

record imdr =
  imdr_limit :: ptr
  imdr_root :: ptr

record imd =
  lg :: imdr
  sm :: imdr

text \<open>\<^verbatim>\<open>struct imd_root\<close> (20 bytes before the entries) and \<^verbatim>\<open>struct imd_entry\<close> (16 bytes).\<close>

definition max_entries :: "mem \<Rightarrow> ptr \<Rightarrow> u32" where "max_entries m r = load32 m r"
definition num_entries :: "mem \<Rightarrow> ptr \<Rightarrow> u32" where "num_entries m r = load32 m (r + 4)"
definition flags :: "mem \<Rightarrow> ptr \<Rightarrow> u32" where "flags m r = load32 m (r + 8)"
definition entry_align :: "mem \<Rightarrow> ptr \<Rightarrow> u32" where "entry_align m r = load32 m (r + 12)"
definition max_offset :: "mem \<Rightarrow> ptr \<Rightarrow> u32" where "max_offset m r = load32 m (r + 16)"

definition entry_ptr :: "ptr \<Rightarrow> u32 \<Rightarrow> ptr" where "entry_ptr r i = r + 20 + 16 * i"

definition e_magic :: "mem \<Rightarrow> ptr \<Rightarrow> u32" where "e_magic m e = load32 m e"
definition start_offset :: "mem \<Rightarrow> ptr \<Rightarrow> u32" where "start_offset m e = load32 m (e + 4)"
definition e_size :: "mem \<Rightarrow> ptr \<Rightarrow> u32" where "e_size m e = load32 m (e + 8)"
definition e_id :: "mem \<Rightarrow> ptr \<Rightarrow> u32" where "e_id m e = load32 m (e + 12)"

definition relative_pointer :: "ptr \<Rightarrow> u32 \<Rightarrow> ptr" where
  "relative_pointer base offset = base + offset"

definition imd_root_pointer_valid :: "mem \<Rightarrow> ptr \<Rightarrow> bool" where
  "imd_root_pointer_valid m rp \<longleftrightarrow> load32 m rp = IMD_ROOT_PTR_MAGIC"

definition imdr_get_root_pointer :: "imdr \<Rightarrow> ptr" where
  "imdr_get_root_pointer ir = relative_pointer (imdr_limit ir) (- 8)"

definition root_offset :: "mem \<Rightarrow> ptr \<Rightarrow> u32" where "root_offset m rp = load32 m (rp + 4)"

definition imd_link_root :: "mem \<Rightarrow> ptr \<Rightarrow> ptr \<Rightarrow> mem" where
  "imd_link_root m rp r = store32 (store32 m rp IMD_ROOT_PTR_MAGIC) (rp + 4) (r - rp)"

definition root_last_entry :: "mem \<Rightarrow> ptr \<Rightarrow> ptr" where
  "root_last_entry m r = entry_ptr r (num_entries m r - 1)"

definition root_num_entries :: "usize \<Rightarrow> usize" where
  "root_num_entries root_size = (root_size - 8 - 20) div 16"

definition imd_root_data_left :: "mem \<Rightarrow> ptr \<Rightarrow> usize" where
  "imd_root_data_left m r =
     (let last_entry = root_last_entry m r in
      if max_offset m r \<noteq> 0 then start_offset m last_entry - max_offset m r else NOT 0)"

definition root_is_locked :: "mem \<Rightarrow> ptr \<Rightarrow> bool" where
  "root_is_locked m r \<longleftrightarrow> flags m r AND IMD_FLAG_LOCKED \<noteq> 0"

definition imd_entry_assign :: "mem \<Rightarrow> ptr \<Rightarrow> u32 \<Rightarrow> u32 \<Rightarrow> usize \<Rightarrow> mem" where
  "imd_entry_assign m e eid offset sz =
     store32 (store32 (store32 (store32 m e IMD_ENTRY_MAGIC) (e + 4) offset) (e + 8) sz) (e + 12) eid"

section \<open>One directory\<close>

definition imdr_init :: "ptr \<Rightarrow> imdr" where
  "imdr_init upper_limit = \<lparr>imdr_limit = align_down upper_limit LIMIT_ALIGN, imdr_root = NULL\<rparr>"

definition imdr_create_empty :: "bool \<Rightarrow> mem \<Rightarrow> imdr \<Rightarrow> usize \<Rightarrow> usize \<Rightarrow> (mem \<times> imdr \<times> int) option" where
  "imdr_create_empty fatal m ir root_size align =
     (if imdr_limit ir = 0 then Some (m, ir, -1)
      else if fatal \<and> \<not> (is_power_of_2 root_size \<and> is_power_of_2 align) then None
      else if root_size < 8 + 20 then Some (m, ir, -1)
      else if root_size > LIMIT_ALIGN \<or> align > LIMIT_ALIGN then Some (m, ir, -1)
      else if align > root_size then Some (m, ir, -1)
      else let rp = imdr_get_root_pointer ir;
               r = relative_pointer (imdr_limit ir) (- root_size);
               ir = ir\<lparr>imdr_root := r\<rparr>;
               m = imd_link_root m rp r;
               m = mem_write m r (replicate 20 0);
               m = store32 m (r + 12) align;
               m = store32 m r (root_num_entries root_size);
               m = store32 m (r + 4) 1;
               m = imd_entry_assign m (entry_ptr r 0) CBMEM_ID_IMD_ROOT 0 root_size
           in Some (m, ir, 0))"

definition entry_recoverable :: "mem \<Rightarrow> ptr \<Rightarrow> ptr \<Rightarrow> ptr \<Rightarrow> ptr \<Rightarrow> bool" where
  "entry_recoverable m limit low_limit r e \<longleftrightarrow>
     e_magic m e = IMD_ENTRY_MAGIC \<and>
     (let start_addr = relative_pointer r (start_offset m e) in
      \<not> start_addr < low_limit \<and> \<not> (start_addr \<ge> limit \<or> start_addr + e_size m e > limit))"

definition imdr_recover :: "mem \<Rightarrow> imdr \<Rightarrow> imdr \<times> int" where
  "imdr_recover m ir =
     (if imdr_limit ir = 0 then (ir, -1)
      else let rp = imdr_get_root_pointer ir in
        if \<not> imd_root_pointer_valid m rp then (ir, -1)
        else let r = relative_pointer rp (root_offset m rp) in
          if align_up (entry_ptr r (max_entries m r)) LIMIT_ALIGN \<noteq> imdr_limit ir then (ir, -1)
          else if num_entries m r > max_entries m r then (ir, -1)
          else if \<not> is_power_of_2 (entry_align m r) then (ir, -1)
          else let low_limit = relative_pointer r (max_offset m r);
                   low_limit = (if low_limit = r then 0 else low_limit)
               in if list_all (\<lambda>i. entry_recoverable m (imdr_limit ir) low_limit r (entry_ptr r (of_nat i)))
                       [0..<unat (num_entries m r)]
                  then (ir\<lparr>imdr_root := r\<rparr>, 0) else (ir, -1))"

definition imdr_entry_find :: "mem \<Rightarrow> imdr \<Rightarrow> u32 \<Rightarrow> ptr" where
  "imdr_entry_find m ir eid =
     (let r = imdr_root ir in
      if r = NULL then NULL
      else case find (\<lambda>i. e_id m (entry_ptr r (of_nat i)) = eid) [1..<unat (num_entries m r)] of
        None \<Rightarrow> NULL | Some i \<Rightarrow> entry_ptr r (of_nat i))"

definition imdr_limit_size :: "mem \<Rightarrow> imdr \<Rightarrow> usize \<Rightarrow> mem \<times> int" where
  "imdr_limit_size m ir max_size =
     (let r = imdr_root ir in
      if r = NULL then (m, -1)
      else let root_size = imdr_limit ir - r in
        if max_size < root_size then (m, -1)
        else (store32 m (r + 16) (- (max_size - root_size)), 0))"

definition imdr_entry_at :: "mem \<Rightarrow> imdr \<Rightarrow> ptr \<Rightarrow> ptr" where
  "imdr_entry_at m ir e = relative_pointer (imdr_root ir) (start_offset m e)"

definition imd_entry_add_to_root :: "mem \<Rightarrow> ptr \<Rightarrow> u32 \<Rightarrow> usize \<Rightarrow> mem \<times> ptr" where
  "imd_entry_add_to_root m r eid sz =
     (if num_entries m r = max_entries m r then (m, NULL)
      else let used_size = align_up sz (entry_align m r) in
        if used_size > imd_root_data_left m r then (m, NULL)
        else let last_entry = root_last_entry m r;
                 e_offset = start_offset m last_entry - used_size
             in if start_offset m last_entry <s e_offset then (m, NULL)
                else let entry = root_last_entry m r + 16;
                         m = store32 m (r + 4) (num_entries m r + 1);
                         m = imd_entry_assign m entry eid e_offset sz
                     in (m, entry))"

definition imdr_entry_add :: "mem \<Rightarrow> imdr \<Rightarrow> u32 \<Rightarrow> usize \<Rightarrow> mem \<times> ptr" where
  "imdr_entry_add m ir eid sz =
     (let r = imdr_root ir in
      if r = NULL then (m, NULL)
      else if root_is_locked m r then (m, NULL)
      else imd_entry_add_to_root m r eid sz)"

text \<open>A pointer difference over 16-byte entries; a negative one is a large \<^verbatim>\<open>size_t\<close>.\<close>

definition imdr_has_entry :: "mem \<Rightarrow> imdr \<Rightarrow> ptr \<Rightarrow> bool" where
  "imdr_has_entry m ir e =
     (let r = imdr_root ir in
      if r = NULL then False
      else let idx = signed_drop_bit 4 (e - entry_ptr r 0)
           in \<not> idx \<ge> num_entries m r)"

section \<open>The two-tiered directory\<close>

definition imd_entry_to_imdr :: "mem \<Rightarrow> imd \<Rightarrow> ptr \<Rightarrow> imdr option" where
  "imd_entry_to_imdr m i entry =
     (if imdr_has_entry m (lg i) entry then Some (lg i)
      else if imdr_has_entry m (sm i) entry then Some (sm i)
      else None)"

definition imd_handle_init :: "ptr \<Rightarrow> imd" where
  "imd_handle_init upper_limit = \<lparr>lg = imdr_init upper_limit, sm = imdr_init NULL\<rparr>"

definition imd_handle_init_partial_recovery :: "mem \<Rightarrow> imd \<Rightarrow> imd" where
  "imd_handle_init_partial_recovery m i =
     (if imdr_limit (lg i) = 0 then i
      else let i = imd_handle_init (imdr_limit (lg i));
               rp = imdr_get_root_pointer (lg i);
               l = (lg i)\<lparr>imdr_root := relative_pointer rp (root_offset m rp)\<rparr>;
               i = i\<lparr>lg := l\<rparr>;
               e = imdr_entry_find m l SMALL_REGION_ID
           in if e = NULL then i
              else let s = (sm i)\<lparr>imdr_limit := imdr_entry_at m l e + e_size m e\<rparr>;
                       rp = imdr_get_root_pointer s
                   in i\<lparr>sm := s\<lparr>imdr_root := relative_pointer rp (root_offset m rp)\<rparr>\<rparr>)"

definition imd_create_empty :: "bool \<Rightarrow> mem \<Rightarrow> imd \<Rightarrow> usize \<Rightarrow> usize \<Rightarrow> (mem \<times> imd \<times> int) option" where
  "imd_create_empty fatal m i root_size align =
     map_option (\<lambda>(m, l, ret). (m, i\<lparr>lg := l\<rparr>, ret)) (imdr_create_empty fatal m (lg i) root_size align)"

definition imd_create_tiered_empty ::
    "bool \<Rightarrow> mem \<Rightarrow> imd \<Rightarrow> usize \<Rightarrow> usize \<Rightarrow> usize \<Rightarrow> usize \<Rightarrow> (mem \<times> imd \<times> int) option" where
  "imd_create_tiered_empty fatal m i lg_root_size lg_entry_align sm_root_size sm_entry_align =
     (case imdr_create_empty fatal m (lg i) lg_root_size lg_entry_align of
        None \<Rightarrow> None
      | Some (m, l, ret) \<Rightarrow>
          if ret \<noteq> 0 then Some (m, i\<lparr>lg := l\<rparr>, -1)
          else
            let sm_region_size = root_num_entries sm_root_size * sm_entry_align;
                sm_region_size = sm_region_size + sm_root_size;
                sm_region_size = align_up sm_region_size lg_entry_align;
                (m, e) = imdr_entry_add m l SMALL_REGION_ID sm_region_size
            in if e = NULL then Some (m, imd_handle_init (imdr_limit l), -1)
               else let s = (sm i)\<lparr>imdr_limit := imdr_entry_at m l e + sm_region_size\<rparr> in
                 case imdr_create_empty fatal m s sm_root_size sm_entry_align of
                   None \<Rightarrow> None
                 | Some (m, s, ret) \<Rightarrow>
                     if ret \<noteq> 0 then Some (m, imd_handle_init (imdr_limit l), -1)
                     else let (m, ret) = imdr_limit_size m s sm_region_size in
                       if ret \<noteq> 0 then Some (m, imd_handle_init (imdr_limit l), -1)
                       else Some (m, \<lparr>lg = l, sm = s\<rparr>, 0))"

definition imd_recover :: "mem \<Rightarrow> imd \<Rightarrow> imd \<times> int" where
  "imd_recover m i =
     (let (l, ret) = imdr_recover m (lg i) in
      if ret \<noteq> 0 then (i\<lparr>lg := l\<rparr>, -1)
      else let i = i\<lparr>lg := l\<rparr>; e = imdr_entry_find m l SMALL_REGION_ID in
        if e = NULL then (i, 0)
        else let small_upper_limit = imdr_entry_at m l e + e_size m e;
                 (s, ret) = imdr_recover m ((sm i)\<lparr>imdr_limit := small_upper_limit\<rparr>)
             in if ret \<noteq> 0 then (imd_handle_init (imdr_limit l), -1) else (i\<lparr>sm := s\<rparr>, 0))"

definition imd_limit_size :: "mem \<Rightarrow> imd \<Rightarrow> usize \<Rightarrow> mem \<times> int" where
  "imd_limit_size m i max_size = imdr_limit_size m (lg i) max_size"

definition imd_lockdown :: "mem \<Rightarrow> imd \<Rightarrow> mem \<times> int" where
  "imd_lockdown m i =
     (let r = imdr_root (lg i) in
      if r = NULL then (m, -1)
      else let m = store32 m (r + 8) (flags m r OR IMD_FLAG_LOCKED); r = imdr_root (sm i)
           in if r \<noteq> NULL then (store32 m (r + 8) (flags m r OR IMD_FLAG_LOCKED), 0) else (m, 0))"

text \<open>The base and size of what is in use.\<close>

definition imd_region_used :: "mem \<Rightarrow> imd \<Rightarrow> (ptr \<times> usize) option" where
  "imd_region_used m i =
     (if imdr_limit (lg i) = 0 then None
      else let r = imdr_root (lg i) in
        if r = NULL then None
        else let e = root_last_entry m r; low_addr = relative_pointer r (start_offset m e)
             in Some (low_addr, imdr_limit (lg i) - low_addr))"

definition imd_entry_add :: "mem \<Rightarrow> imd \<Rightarrow> u32 \<Rightarrow> usize \<Rightarrow> mem \<times> ptr" where
  "imd_entry_add m i eid sz =
     (let r = imdr_root (sm i) in
      if r = NULL then imdr_entry_add m (lg i) eid sz
      else let (m, e) = (if sz \<le> entry_align m r \<or> sz \<le> imd_root_data_left m r div 4
                         then imdr_entry_add m (sm i) eid sz else (m, NULL))
           in if e = NULL then imdr_entry_add m (lg i) eid sz else (m, e))"

definition imd_entry_find :: "mem \<Rightarrow> imd \<Rightarrow> u32 \<Rightarrow> ptr" where
  "imd_entry_find m i eid =
     (let e = imdr_entry_find m (sm i) eid in
      if e = NULL then imdr_entry_find m (lg i) eid else e)"

definition imd_entry_find_or_add :: "mem \<Rightarrow> imd \<Rightarrow> u32 \<Rightarrow> usize \<Rightarrow> mem \<times> ptr" where
  "imd_entry_find_or_add m i eid sz =
     (let e = imd_entry_find m i eid in if e \<noteq> NULL then (m, e) else imd_entry_add m i eid sz)"

definition imd_entry_at :: "mem \<Rightarrow> imd \<Rightarrow> ptr \<Rightarrow> ptr" where
  "imd_entry_at m i entry =
     (case imd_entry_to_imdr m i entry of None \<Rightarrow> NULL | Some ir \<Rightarrow> imdr_entry_at m ir entry)"

definition imd_entry_remove :: "mem \<Rightarrow> imd \<Rightarrow> ptr \<Rightarrow> mem \<times> int" where
  "imd_entry_remove m i entry =
     (case imd_entry_to_imdr m i entry of None \<Rightarrow> (m, -1)
      | Some ir \<Rightarrow>
          let r = imdr_root ir in
          if r = NULL then (m, -1)
          else if root_is_locked m r then (m, -1)
          else if entry \<noteq> root_last_entry m r then (m, -1)
          else (store32 m (r + 4) (num_entries m r - 1), 0))"

text \<open>One printed line: indent, name or id, index, address and size.\<close>

definition imdr_print_entries ::
    "mem \<Rightarrow> imdr \<Rightarrow> string \<Rightarrow> (u32 \<times> string) list \<Rightarrow> (string \<times> (u32 + string) \<times> nat \<times> ptr \<times> usize) list" where
  "imdr_print_entries m ir indent lookup =
     map (\<lambda>i. let e = entry_ptr (imdr_root ir) (of_nat i) in
        (indent, (case map_of lookup (e_id m e) of None \<Rightarrow> Inl (e_id m e) | Some name \<Rightarrow> Inr name),
         i, imdr_entry_at m ir e, e_size m e))
       [0..<unat (num_entries m (imdr_root ir))]"

definition imd_print_entries ::
    "mem \<Rightarrow> imd \<Rightarrow> (u32 \<times> string) list \<Rightarrow> (string \<times> (u32 + string) \<times> nat \<times> ptr \<times> usize) list \<times> int" where
  "imd_print_entries m i lookup =
     (if imdr_root (lg i) = NULL then ([], -1)
      else (imdr_print_entries m (lg i) '''' lookup @
            (if imdr_root (sm i) \<noteq> NULL then imdr_print_entries m (sm i) ''  '' lookup else []), 0))"

record imd_cursor =
  current_imdr :: nat
  current_entry :: usize
  cursor_imdr :: "imdr list"

definition imd_cursor_init :: "imd \<Rightarrow> imd_cursor" where
  "imd_cursor_init i = \<lparr>current_imdr = 0, current_entry = 0, cursor_imdr = [lg i, sm i]\<rparr>"

function imd_cursor_next :: "mem \<Rightarrow> imd_cursor \<Rightarrow> imd_cursor \<times> ptr" where
  "imd_cursor_next m c =
     (if current_imdr c \<ge> length (cursor_imdr c) then (c, NULL)
      else let r = imdr_root (cursor_imdr c ! current_imdr c) in
        if r = NULL then (c, NULL)
        else if current_entry c \<ge> num_entries m r
        then imd_cursor_next m (c\<lparr>current_imdr := current_imdr c + 1, current_entry := 0\<rparr>)
        else (c\<lparr>current_entry := current_entry c + 1\<rparr>, entry_ptr r (current_entry c)))"
  by pat_completeness auto
termination
  by (relation "measure (\<lambda>(m, c). length (cursor_imdr c) - current_imdr c)") auto

declare imd_cursor_next.simps [simp del]

section \<open>The root block as an array of words\<close>

definition rw :: "mem \<Rightarrow> ptr \<Rightarrow> nat \<Rightarrow> u32" where
  "rw m r k = load32 m (r + of_nat (4 * k))"

definition ww :: "mem \<Rightarrow> ptr \<Rightarrow> nat \<Rightarrow> u32 \<Rightarrow> mem" where
  "ww m r k v = store32 m (r + of_nat (4 * k)) v"

lemma rw_ww:
  "i < 2 ^ 29 \<Longrightarrow> k < 2 ^ 29 \<Longrightarrow> rw (ww m r i v) r k = (if i = k then v else rw m r k)"
proof (cases "i = k")
  case False
  assume "i < 2 ^ 29" "k < 2 ^ 29"
  then have "load32 (store32 m (r + of_nat (4 * i)) v) (r + of_nat (4 * k)) = load32 m (r + of_nat (4 * k))"
    using False by (intro load32_store32_off) auto
  then show ?thesis using False by (simp only: rw_def ww_def if_False)
qed (simp add: rw_def ww_def)

lemma rw_memset:
  assumes "k < 2 ^ 29"
  shows "rw (mem_write m r (replicate 20 0)) r k = (if k < 5 then 0 else rw m r k)"
proof (cases "k < 5")
  case True
  have "mem_read (mem_write m r (replicate 20 0)) (r + of_nat (4 * k)) 4 = replicate 4 0"
  proof (rule nth_equalityI)
    fix i assume "i < length (mem_read (mem_write m r (replicate 20 0)) (r + of_nat (4 * k)) 4)"
    then have i: "i < 4" by simp
    have "r + of_nat (4 * k) + of_nat i = r + of_nat (4 * k + i)" by simp
    then have "mem_read (mem_write m r (replicate 20 0)) (r + of_nat (4 * k)) 4 ! i = mem_write m r (replicate 20 0) (r + of_nat (4 * k + i))"
      using i by (simp only: nth_mem_read)
    also have "\<dots> = 0" using mem_write_same [of "replicate 20 0" "4 * k + i" m r] i True by simp
    finally show "mem_read (mem_write m r (replicate 20 0)) (r + of_nat (4 * k)) 4 ! i = replicate 4 0 ! i" using i by simp
  qed simp
  then show ?thesis using True by (simp add: rw_def load32_def eval_nat_numeral)
next
  case False
  have "disjoint_ranges (r + of_nat 0) 20 (r + of_nat (4 * k)) 4"
    using assms False by (intro disjoint_offsets) auto
  then show ?thesis using False by (simp add: rw_def load32_def mem_read_write_other)
qed

lemma root_fields:
  "max_entries m r = rw m r 0" "num_entries m r = rw m r 1" "flags m r = rw m r 2"
  "entry_align m r = rw m r 3" "max_offset m r = rw m r 4"
  by (simp_all add: max_entries_def num_entries_def flags_def entry_align_def max_offset_def rw_def)

lemma entry_fields:
  "e_magic m (entry_ptr r (of_nat i)) = rw m r (5 + 4 * i)"
  "start_offset m (entry_ptr r (of_nat i)) = rw m r (6 + 4 * i)"
  "e_size m (entry_ptr r (of_nat i)) = rw m r (7 + 4 * i)"
  "e_id m (entry_ptr r (of_nat i)) = rw m r (8 + 4 * i)"
  by (simp_all add: e_magic_def start_offset_def e_size_def e_id_def entry_ptr_def rw_def algebra_simps)

lemma root_store_0: "store32 m r v = ww m r 0 v"
  by (simp add: ww_def)

lemma root_stores:
  "store32 m (r + 4) v = ww m r 1 v" "store32 m (r + 8) v = ww m r 2 v"
  "store32 m (r + 12) v = ww m r 3 v" "store32 m (r + 16) v = ww m r 4 v"
  by (simp_all add: ww_def)

lemma imd_entry_assign_words:
  "imd_entry_assign m (entry_ptr r (of_nat i)) eid offset sz =
     ww (ww (ww (ww m r (5 + 4 * i) IMD_ENTRY_MAGIC) r (6 + 4 * i) offset) r (7 + 4 * i) sz) r (8 + 4 * i) eid"
  by (simp add: imd_entry_assign_def entry_ptr_def ww_def algebra_simps)

text \<open>How far below the root an entry starts, and its size.\<close>

definition depth :: "mem \<Rightarrow> ptr \<Rightarrow> nat \<Rightarrow> nat" where
  "depth m r i = unat (- rw m r (6 + 4 * i))"

definition entry_sz :: "mem \<Rightarrow> ptr \<Rightarrow> nat \<Rightarrow> nat" where
  "entry_sz m r i = unat (rw m r (7 + 4 * i))"

text \<open>A directory with \<open>n\<close> entries: the root block and pointer are intact and the entries are stacked downwards without overlap.\<close>

definition imdr_inv :: "mem \<Rightarrow> imdr \<Rightarrow> nat \<Rightarrow> bool" where
  "imdr_inv m ir n \<longleftrightarrow> (let r = imdr_root ir; rs = unat (imdr_limit ir - r); d = depth m r (n - 1) in
     r \<noteq> 0 \<and> r < imdr_limit ir \<and> unat (imdr_limit ir) mod 4096 = 0 \<and> 64 \<le> rs \<and> rs \<le> 4096 \<and> 4 dvd rs \<and>
     unat (rw m r 0) = (rs - 28) div 16 \<and> unat (rw m r 1) = n \<and> 1 \<le> n \<and> n \<le> (rs - 28) div 16 \<and>
     is_power_of_2 (rw m r 3) \<and>
     rw m r ((rs - 8) div 4) = IMD_ROOT_PTR_MAGIC \<and> rw m r ((rs - 4) div 4) = - (imdr_limit ir - 8 - r) \<and>
     (\<forall>i<n. rw m r (5 + 4 * i) = IMD_ENTRY_MAGIC) \<and> depth m r 0 = 0 \<and> entry_sz m r 0 = rs \<and>
     (\<forall>i. i + 1 < n \<longrightarrow> depth m r i + entry_sz m r (i + 1) \<le> depth m r (i + 1)) \<and>
     d < 2 ^ 31 \<and> d < unat r \<and> (rw m r 4 = 0 \<or>
        d \<le> unat (- rw m r 4) \<and> unat (- rw m r 4) < unat r \<and> unat (- rw m r 4) < 2 ^ 31))"

lemma depth_mono:
  assumes "imdr_inv m ir n" and "i \<le> k" and "k < n"
  shows "depth m (imdr_root ir) i \<le> depth m (imdr_root ir) k"
  using assms(2,3)
proof (induction k)
  case (Suc k)
  have "depth m (imdr_root ir) k + entry_sz m (imdr_root ir) (k + 1) \<le> depth m (imdr_root ir) (k + 1)"
    using assms(1) Suc.prems by (simp add: imdr_inv_def Let_def)
  then show ?case using Suc by (cases "i = Suc k") auto
qed simp

text \<open>A non-zero entry: the base of the \<open>i\<close>-th region, and where it ends.\<close>

lemma entry_start:
  assumes "imdr_inv m ir n" and "i < n"
  defines "r \<equiv> imdr_root ir"
  shows "unat (r + rw m r (6 + 4 * i)) = unat r - depth m r i" and "depth m r i < unat r" and "depth m r i < 2 ^ 31"
proof -
  have "depth m r i \<le> depth m r (n - 1)"
    using depth_mono [OF assms(1), of i "n - 1"] assms(2) by (simp add: r_def)
  then show d: "depth m r i < unat r" "depth m r i < 2 ^ 31"
    using assms(1) by (simp_all add: imdr_inv_def Let_def r_def)
  have "r + rw m r (6 + 4 * i) = r - (- rw m r (6 + 4 * i))" by simp
  moreover have "unat (r - (- rw m r (6 + 4 * i))) = unat r - depth m r i"
    using d unfolding depth_def by (intro unat_sub) (simp add: word_le_nat_alt)
  ultimately show "unat (r + rw m r (6 + 4 * i)) = unat r - depth m r i" by (simp only:)
qed

text \<open>The region of every entry lies between the lowest base and the limit.\<close>

lemma entry_end:
  assumes "imdr_inv m ir n" and "i < n"
  defines "r \<equiv> imdr_root ir"
  shows "unat r - depth m r i + entry_sz m r i \<le> unat (imdr_limit ir)"
proof (cases i)
  case 0
  have "r < imdr_limit ir" using assms(1) by (simp add: imdr_inv_def Let_def r_def)
  then have "unat (imdr_limit ir - r) = unat (imdr_limit ir) - unat r" "unat r < unat (imdr_limit ir)"
    by (auto intro!: unat_sub_nowrap simp: word_less_nat_alt)
  then show ?thesis using assms(1) 0 by (simp add: imdr_inv_def Let_def r_def)
next
  case (Suc k)
  have "depth m r k + entry_sz m r i \<le> depth m r i"
    using assms(1,2) Suc by (simp add: imdr_inv_def Let_def r_def)
  moreover have "depth m r i < unat r" using entry_start(2) [OF assms(1,2)] by (simp add: r_def)
  moreover have "unat r < unat (imdr_limit ir)"
    using assms(1) by (simp add: imdr_inv_def Let_def r_def word_less_nat_alt)
  ultimately show ?thesis by linarith
qed

section \<open>Recovery\<close>

lemma align_up_limit:
  fixes L :: ptr
  assumes "unat L mod 4096 = 0" and "unat x \<le> unat L" and "unat L < unat x + 4096" and "0 < unat x"
  shows "align_up x 4096 = L"
proof -
  obtain k where k: "unat L = 4096 * k" using assms(1) by (metis dvdE mod_eq_0_iff_dvd)
  have "unat L < 4294967296" using unat_lt_exp [of L] by simp
  then have "unat x + 4095 < 2 ^ 32" using assms(2) k by simp
  then have "unat (align_up x 4096) = (unat x + 4095) div 4096 * 4096"
    using unat_align_up [of 12 x] by simp
  moreover have "(unat x + 4095) div 4096 = k" using assms(2,3,4) k by linarith
  ultimately show ?thesis using k by (simp add: word_unat_eq_iff mult.commute)
qed

lemma imdr_recover_inv:
  assumes "imdr_inv m ir n"
  shows "imdr_recover m \<lparr>imdr_limit = imdr_limit ir, imdr_root = any\<rparr> = (ir, 0)"
proof -
  define r L rs where "r = imdr_root ir" and "L = imdr_limit ir" and "rs = unat (L - r)"
  have inv: "r \<noteq> 0" "r < L" "unat L mod 4096 = 0" "64 \<le> rs" "rs \<le> 4096" "4 dvd rs"
    "unat (rw m r 0) = (rs - 28) div 16" "unat (rw m r 1) = n" "1 \<le> n" "n \<le> (rs - 28) div 16"
    "is_power_of_2 (rw m r 3)" "rw m r ((rs - 8) div 4) = IMD_ROOT_PTR_MAGIC"
    "rw m r ((rs - 4) div 4) = - (L - 8 - r)" "\<forall>i<n. rw m r (5 + 4 * i) = IMD_ENTRY_MAGIC"
    using assms by (simp_all add: imdr_inv_def Let_def r_def L_def rs_def)
  have mo: "rw m r 4 = 0 \<or> depth m r (n - 1) \<le> unat (- rw m r 4) \<and> unat (- rw m r 4) < unat r"
    using assms unfolding imdr_inv_def Let_def r_def by blast
  have uL: "unat L = unat r + rs" using inv(2) unat_sub_nowrap [of r L] by (simp add: rs_def word_less_nat_alt)
  have ors: "r + of_nat rs = L" by (simp add: rs_def)
  have "4 * ((rs - 8) div 4) = rs - 8" "4 * ((rs - 4) div 4) = rs - 4" using inv(4,6) by auto
  moreover have "of_nat (rs - 8) = (of_nat rs - 8 :: ptr)" "of_nat (rs - 4) = (of_nat rs - 4 :: ptr)"
    using inv(4) by (simp_all add: of_nat_diff)
  ultimately have a: "r + of_nat (4 * ((rs - 8) div 4)) = L - 8" "r + of_nat (4 * ((rs - 4) div 4)) = L - 4"
    using ors by (simp_all add: algebra_simps)
  have rp: "imdr_get_root_pointer \<lparr>imdr_limit = L, imdr_root = any\<rparr> = L - 8"
    by (simp add: imdr_get_root_pointer_def relative_pointer_def)
  have valid: "imd_root_pointer_valid m (L - 8)"
    using inv(12) unfolding rw_def a by (simp add: imd_root_pointer_valid_def)
  have "L - 8 + 4 = L - 4" by simp
  then have off: "root_offset m (L - 8) = - (L - 8 - r)"
    using inv(13) unfolding rw_def a by (simp only: root_offset_def)
  then have root: "relative_pointer (L - 8) (root_offset m (L - 8)) = r"
    by (simp add: relative_pointer_def)
  define M where "M = (rs - 28) div 16"
  have "rw m r 0 = of_nat (unat (rw m r 0))" by simp
  then have max: "rw m r 0 = of_nat M" unfolding M_def inv(7) .
  have M: "16 * M + 28 \<le> rs" "rs < 16 * M + 44" using inv(4) unfolding M_def by linarith+
  have "unat (of_nat (20 + 16 * M) :: ptr) = 20 + 16 * M" using M inv(5) by (intro unat_of_nat_id) simp
  moreover have "entry_ptr r (rw m r 0) = r + of_nat (20 + 16 * M)"
    by (simp add: entry_ptr_def max)
  moreover have "unat r + (20 + 16 * M) < 2 ^ LENGTH(32)" using M uL unat_lt32 [of L] by simp
  ultimately have top: "unat (entry_ptr r (rw m r 0)) = unat r + (20 + 16 * M)"
    by (simp only: unat_add_nowrap)
  have al: "align_up (entry_ptr r (rw m r 0)) 4096 = L"
    using M uL inv(3) by (intro align_up_limit) (simp_all add: top)
  define low where "low = (if relative_pointer r (rw m r 4) = r then 0 else relative_pointer r (rw m r 4))"
  have low: "unat low \<le> unat r - depth m r (n - 1)"
  proof (cases "rw m r 4 = 0")
    case False
    have "relative_pointer r (rw m r 4) = r - (- rw m r 4)" by (simp add: relative_pointer_def)
    moreover have "unat (r - (- rw m r 4)) = unat r - unat (- rw m r 4)"
      using mo False by (intro unat_sub) (simp add: word_le_nat_alt)
    ultimately have "unat (relative_pointer r (rw m r 4)) = unat r - unat (- rw m r 4)" by (simp only:)
    then show ?thesis using mo False by (simp add: low_def relative_pointer_def diff_le_mono2)
  qed (simp add: low_def relative_pointer_def)
  have "entry_recoverable m L low r (entry_ptr r (of_nat i))" if "i < n" for i
  proof -
    have st: "unat (r + rw m r (6 + 4 * i)) = unat r - depth m r i"
      using entry_start(1) [OF assms that] by (simp add: r_def)
    have le: "unat r - depth m r i + entry_sz m r i \<le> unat L"
      using entry_end [OF assms that] by (simp add: r_def L_def)
    then have "unat (r + rw m r (6 + 4 * i) + rw m r (7 + 4 * i)) = unat r - depth m r i + entry_sz m r i"
      using unat_lt32 [of L] by (subst unat_add_nowrap) (simp_all add: st entry_sz_def)
    moreover have "unat low \<le> unat r - depth m r i"
      using order_trans [OF low diff_le_mono2] depth_mono [OF assms, of i "n - 1"] that by (simp add: r_def)
    moreover have "unat r - depth m r i < unat L" using uL inv(4) by linarith
    ultimately show ?thesis
      using inv(14) that st le
      by (simp add: entry_recoverable_def entry_fields relative_pointer_def word_less_nat_alt word_le_nat_alt not_less not_le)
  qed
  then have all: "list_all (\<lambda>i. entry_recoverable m L low r (entry_ptr r (of_nat i))) [0..<n]"
    by (simp add: list_all_iff)
  have num: "\<not> rw m r 1 > rw m r 0" using inv(7,8,10) by (simp add: word_less_nat_alt)
  have L0: "L \<noteq> 0" using inv(2) by auto
  have "ir = \<lparr>imdr_limit = L, imdr_root = r\<rparr>" by (simp add: L_def r_def)
  moreover have "imdr_recover m \<lparr>imdr_limit = L, imdr_root = any\<rparr> = (\<lparr>imdr_limit = L, imdr_root = r\<rparr>, 0)"
    using L0 valid al num inv(11) all
    by (simp add: imdr_recover_def rp root root_fields LIMIT_ALIGN_def Let_def low_def inv(8) del: One_nat_def)
  ultimately show ?thesis by (simp add: L_def)
qed

section \<open>Operations keep the invariant\<close>

lemma dvd_4096_root:
  assumes "unat L mod 4096 = 0" and "L \<noteq> 0" and "unat rs \<le> 4096" and "0 < unat rs"
  shows "unat (L - rs) = unat L - unat rs" and "4096 \<le> unat L" and "L - (L - rs) = rs"
proof -
  show "4096 \<le> unat L" using assms(1,2) unat_gt_0 [of L] by (metis dvd_imp_le mod_eq_0_iff_dvd)
  then show "unat (L - rs) = unat L - unat rs" using assms(3) by (intro unat_sub_nowrap) simp
qed simp

lemma imdr_create_empty_inv:
  assumes "unat L mod 4096 = 0" and "4096 < unat L" and "is_power_of_2 root_size" and "is_power_of_2 align"
    and "64 \<le> unat root_size" and "unat root_size \<le> 4096" and "align \<le> root_size" and "4 dvd unat root_size"
  shows "\<exists>m'. imdr_create_empty fatal m \<lparr>imdr_limit = L, imdr_root = any\<rparr> root_size align =
      Some (m', \<lparr>imdr_limit = L, imdr_root = L - root_size\<rparr>, 0) \<and>
    imdr_inv m' \<lparr>imdr_limit = L, imdr_root = L - root_size\<rparr> 1 \<and>
    entry_align m' (L - root_size) = align \<and> flags m' (L - root_size) = 0 \<and> max_offset m' (L - root_size) = 0"
proof -
  define r rs where "r = L - root_size" and "rs = unat root_size"
  have L0: "L \<noteq> 0" using assms(2) by auto
  have sub: "unat r = unat L - rs" "L - r = root_size"
    using dvd_4096_root [OF assms(1) L0, of root_size] assms(5,6) by (simp_all add: r_def rs_def)
  have rs: "64 \<le> rs" "rs \<le> 4096" "4 dvd rs" using assms(5,6,8) by (simp_all add: rs_def)
  then have r0: "0 < unat r" using sub(1) assms(2) by simp
  have words: "4 * ((rs - 8) div 4) = rs - 8" "4 * ((rs - 4) div 4) = rs - 4" using rs by auto
  have "of_nat rs = root_size" by (simp add: rs_def)
  then have "of_nat (rs - 8) = (root_size - 8 :: ptr)" "of_nat (rs - 4) = (root_size - 4 :: ptr)"
    using rs by (simp_all add: of_nat_diff)
  then have at: "r + of_nat (4 * ((rs - 8) div 4)) = L - 8" "r + of_nat (4 * ((rs - 4) div 4)) = L - 8 + 4"
    unfolding words by (simp_all add: r_def)
  have link: "imd_link_root m (L - 8) r = ww (ww m r ((rs - 8) div 4) IMD_ROOT_PTR_MAGIC) r ((rs - 4) div 4) (r - (L - 8))"
    unfolding imd_link_root_def ww_def at by simp
  define m' where "m' = imd_entry_assign (store32 (store32 (store32 (mem_write (imd_link_root m (L - 8) r) r (replicate 20 0))
     (r + 12) align) r (root_num_entries root_size)) (r + 4) 1) (entry_ptr r 0) CBMEM_ID_IMD_ROOT 0 root_size"
  have big: "8 + 1 < (rs - 8) div 4" "(rs - 8) div 4 < (rs - 4) div 4" "(rs - 4) div 4 < 2 ^ 29"
    using rs by (auto simp: less_eq_div_iff_mult_less_eq)
  have rd: "rw m' r k = (if k = 8 then CBMEM_ID_IMD_ROOT else if k = 7 then root_size else if k = 6 then 0
      else if k = 5 then IMD_ENTRY_MAGIC else if k = 1 then 1 else if k = 0 then root_num_entries root_size
      else if k = 3 then align else if k < 5 then 0
      else if k = (rs - 4) div 4 then r - (L - 8) else if k = (rs - 8) div 4 then IMD_ROOT_PTR_MAGIC else rw m r k)"
    if "k < 2 ^ 29" for k
    using that big unfolding m'_def imd_entry_assign_words [of _ r 0, simplified] root_stores root_store_0 [of _ r] link
    by (simp add: rw_ww rw_memset del: One_nat_def)
  have n: "unat (root_num_entries root_size) = (rs - 28) div 16"
  proof -
    have "unat (root_size - 8) = rs - 8" using rs by (subst unat_sub_nowrap) (simp_all add: rs_def)
    then have "unat (root_size - 8 - 20) = rs - 8 - 20" using rs by (subst unat_sub_nowrap) simp_all
    then show ?thesis by (simp add: root_num_entries_def unat_div)
  qed
  have n1: "1 \<le> (rs - 28) div 16" using rs by (simp add: less_eq_div_iff_mult_less_eq)
  have lt: "r < L" using sub(1) rs r0 by (simp add: word_less_nat_alt)
  have "imdr_inv m' \<lparr>imdr_limit = L, imdr_root = r\<rparr> 1"
    using r0 lt assms(1,4) rs n n1 big rd [of "(rs - 8) div 4"] rd [of "(rs - 4) div 4"]
    by (auto simp: imdr_inv_def Let_def sub(2) rs_def [symmetric] rd depth_def entry_sz_def)
  moreover have "imdr_create_empty fatal m \<lparr>imdr_limit = L, imdr_root = any\<rparr> root_size align =
      Some (m', \<lparr>imdr_limit = L, imdr_root = r\<rparr>, 0)"
    using L0 assms(3-7) by (auto simp: imdr_create_empty_def Let_def imdr_get_root_pointer_def relative_pointer_def
        r_def [symmetric] m'_def LIMIT_ALIGN_def word_less_nat_alt word_le_nat_alt)
  ultimately show ?thesis
    by (intro exI [of _ m']) (simp add: r_def [symmetric] root_fields rd)
qed

lemma sint_neg:
  fixes w :: "32 word"
  assumes "unat (- w) < 2 ^ 31"
  shows "sint w = - int (unat (- w))"
proof -
  have "w = word_of_int (- int (unat (- w)))" by simp
  then have "sint w = sint (word_of_int (- int (unat (- w))) :: 32 word)" by (simp only:)
  also have "\<dots> = signed_take_bit 31 (- int (unat (- w)))" by (simp only: signed_of_int) simp
  also have "\<dots> = - int (unat (- w))"
  proof (rule signed_take_bit_int_eq_self)
    have "int (unat (- w)) < int (2 ^ 31)" using assms by (simp only: of_nat_less_iff)
    then show "- (2 ^ 31) \<le> - int (unat (- w))" by simp
    show "- int (unat (- w)) < 2 ^ 31" by (rule order.strict_trans1 [of _ 0]) simp_all
  qed
  finally show ?thesis .
qed

definition entry_room :: "mem \<Rightarrow> imdr \<Rightarrow> nat \<Rightarrow> usize \<Rightarrow> bool" where
  "entry_room m ir n sz \<longleftrightarrow> (let r = imdr_root ir; d = depth m r (n - 1) + unat (align_up sz (entry_align m r)) in
     n < unat (max_entries m r) \<and> (max_offset m r = 0 \<or> d \<le> unat (- max_offset m r)))"

text \<open>
  What the caller owes: the size does not wrap around when it is rounded up and, when the
  directory has no size limit, the memory below the root reaches far enough.
\<close>

definition size_ok :: "mem \<Rightarrow> imdr \<Rightarrow> nat \<Rightarrow> usize \<Rightarrow> bool" where
  "size_ok m ir n sz \<longleftrightarrow> (let r = imdr_root ir; d = depth m r (n - 1) + unat (align_up sz (entry_align m r)) in
     unat sz \<le> unat (align_up sz (entry_align m r)) \<and> (max_offset m r = 0 \<longrightarrow> d < unat r \<and> d < 2 ^ 31))"

lemma imdr_entry_add_full:
  assumes "imdr_inv m ir n" and "\<not> entry_room m ir n sz" 
  shows "imdr_entry_add m ir eid sz = (m, NULL)"
proof -
  define r where "r = imdr_root ir"
  have inv: "r \<noteq> 0" "unat (rw m r 1) = n" "1 \<le> n" "n \<le> unat (rw m r 0)"
    and mo: "rw m r 4 = 0 \<or> depth m r (n - 1) \<le> unat (- rw m r 4)"
    using assms(1) by (auto simp: imdr_inv_def Let_def r_def)
  have last: "root_last_entry m r = entry_ptr r (of_nat (n - 1))"
  proof -
    have "rw m r 1 - 1 = of_nat (n - 1)" using inv(2,3) by (simp add: of_nat_diff flip: inv(2))
    then show ?thesis by (simp add: root_last_entry_def root_fields)
  qed
  show ?thesis
  proof (cases "n < unat (rw m r 0)")
    case False
    then have "rw m r 1 = rw m r 0" using inv(2,4) by (simp add: word_unat_eq_iff)
    then show ?thesis
      using inv(1) by (simp add: imdr_entry_add_def imd_entry_add_to_root_def root_fields r_def [symmetric] Let_def)
  next
    case True
    then have mo': "rw m r 4 \<noteq> 0" "unat (- rw m r 4) < depth m r (n - 1) + unat (align_up sz (entry_align m r))"
      using assms(2) by (auto simp: entry_room_def Let_def root_fields r_def)
    have "imd_root_data_left m r = (- rw m r 4) - (- rw m r (6 + 4 * (n - 1)))"
      using mo' by (simp add: imd_root_data_left_def last entry_fields root_fields)
    then have "unat (imd_root_data_left m r) = unat (- rw m r 4) - depth m r (n - 1)"
      using mo mo' by (simp only: depth_def) (subst unat_sub_nowrap; simp)
    then have "align_up sz (entry_align m r) > imd_root_data_left m r"
      using mo mo' by (simp add: word_less_nat_alt)
    then show ?thesis
      using inv(1) by (simp add: imdr_entry_add_def imd_entry_add_to_root_def r_def [symmetric] Let_def)
  qed
qed

lemma imdr_last_entry:
  assumes "imdr_inv m ir n"
  shows "root_last_entry m (imdr_root ir) = entry_ptr (imdr_root ir) (of_nat (n - 1))"
    and "num_entries m (imdr_root ir) = of_nat n"
proof -
  have inv: "unat (rw m (imdr_root ir) 1) = n" "1 \<le> n" using assms by (auto simp: imdr_inv_def Let_def)
  then show n: "num_entries m (imdr_root ir) = of_nat n" by (simp add: root_fields flip: inv(1))
  then show "root_last_entry m (imdr_root ir) = entry_ptr (imdr_root ir) (of_nat (n - 1))"
    using inv(2) by (simp add: root_last_entry_def of_nat_diff)
qed

text \<open>The memory after a successful add.\<close>

definition added :: "mem \<Rightarrow> imdr \<Rightarrow> nat \<Rightarrow> u32 \<Rightarrow> usize \<Rightarrow> mem" where
  "added m ir n eid sz = imd_entry_assign (store32 m (imdr_root ir + 4) (of_nat n + 1))
     (entry_ptr (imdr_root ir) (of_nat n)) eid
     (rw m (imdr_root ir) (6 + 4 * (n - 1)) - align_up sz (entry_align m (imdr_root ir))) sz"

lemma rw_added:
  fixes ir :: imdr
  assumes "n < 2 ^ 20" and "k < 2 ^ 29"
  defines "r \<equiv> imdr_root ir"
  shows "rw (added m ir n eid sz) r k = (if k = 8 + 4 * n then eid else if k = 7 + 4 * n then sz
     else if k = 6 + 4 * n then rw m r (6 + 4 * (n - 1)) - align_up sz (entry_align m r)
     else if k = 5 + 4 * n then IMD_ENTRY_MAGIC else if k = 1 then of_nat n + 1 else rw m r k)"
  using assms(1,2) unfolding added_def r_def imd_entry_assign_words root_stores by (simp add: rw_ww del: One_nat_def)

lemma imdr_inv_small: "imdr_inv m ir n \<Longrightarrow> n < 256 \<and> unat (imdr_limit ir - imdr_root ir) \<le> 4096"
  by (auto simp: imdr_inv_def Let_def)

lemma slots_fit: "n < (k - 28) div 16 \<Longrightarrow> 64 \<le> k \<Longrightarrow> 16 * (n + 1) + 28 \<le> (k :: nat)"
proof -
  assume n: "n < (k - 28) div 16" and k: "64 \<le> k"
  have "(n + 1) * 16 \<le> (k - 28) div 16 * 16"
    using n by (intro mult_le_mono1) simp
  also have "\<dots> \<le> k - 28"
    by (rule div_times_less_eq_dividend)
  finally show ?thesis
    using k by linarith
qed

lemma imdr_entry_add_room:
  fixes eid :: u32
  assumes "imdr_inv m ir n" and "entry_room m ir n sz" and "size_ok m ir n sz" and "\<not> root_is_locked m (imdr_root ir)"
  defines "r \<equiv> imdr_root ir" and "m' \<equiv> added m ir n eid sz"
  shows "imdr_entry_add m ir eid sz = (m', entry_ptr r (of_nat n))"
    and "depth m' r n = depth m r (n - 1) + unat (align_up sz (entry_align m r))"
    and "imdr_inv m' ir (n + 1)"
proof -
  define used where "used = align_up sz (entry_align m r)"
  define d where "d = depth m r (n - 1)"
  define st where "st = rw m r (6 + 4 * (n - 1))"
  have inv: "r \<noteq> 0" "r < imdr_limit ir" "unat (rw m r 1) = n" "1 \<le> n" "is_power_of_2 (rw m r 3)" "d < unat r" "d < 2 ^ 31"
    "unat (rw m r 0) = (unat (imdr_limit ir - r) - 28) div 16"
    using assms(1) by (auto simp: imdr_inv_def Let_def r_def d_def)
  have mo: "rw m r 4 = 0 \<or> d \<le> unat (- rw m r 4) \<and> unat (- rw m r 4) < unat r \<and> unat (- rw m r 4) < 2 ^ 31"
    using assms(1) unfolding imdr_inv_def Let_def r_def d_def by blast
  have room: "n < unat (rw m r 0)" "rw m r 4 = 0 \<or> d + unat used \<le> unat (- rw m r 4)"
    using assms(2) by (auto simp: entry_room_def Let_def root_fields r_def d_def used_def)
  have sz: "unat sz \<le> unat used" "d + unat used < unat r" "d + unat used < 2 ^ 31"
    using assms(3) room(2) mo by (auto simp: size_ok_def Let_def root_fields r_def d_def used_def)
  have last: "root_last_entry m r = entry_ptr r (of_nat (n - 1))" and num: "num_entries m r = of_nat n"
    using imdr_last_entry [OF assms(1)] by (simp_all add: r_def)
  have e16: "entry_ptr r (of_nat (n - 1)) + 16 = entry_ptr r (of_nat n)"
    using inv(4) by (simp add: entry_ptr_def of_nat_diff algebra_simps)
  have ust: "unat (- st) = d" by (simp add: st_def d_def depth_def)
  have neg: "- (st - used) = (- st) + used" by simp
  have une: "unat (- (st - used)) = d + unat used"
    unfolding neg using sz(3) ust by (subst unat_add_nowrap) simp_all
  have "sint st = - int d" using sint_neg [of st] ust inv(7) by simp
  moreover have "sint (st - used) = - int (d + unat used)" using sint_neg [of "st - used", unfolded une] sz(3) by simp
  ultimately have nl: "\<not> st <s st - used" unfolding word_sless_alt by simp
  have left: "\<not> used > imd_root_data_left m r"
  proof (cases "rw m r 4 = 0")
    case True
    then show ?thesis by (simp add: imd_root_data_left_def root_fields Let_def)
  next
    case False
    have "imd_root_data_left m r = (- rw m r 4) - (- st)"
      using False by (simp add: imd_root_data_left_def last entry_fields root_fields st_def)
    then have "unat (imd_root_data_left m r) = unat (- rw m r 4) - d"
      using mo False ust by (simp only:) (subst unat_sub_nowrap; simp)
    then show ?thesis using room(2) False by (simp add: word_less_nat_alt)
  qed
  have ne: "num_entries m r \<noteq> max_entries m r"
    using room(1) inv(3) by (auto simp: root_fields)
  show add: "imdr_entry_add m ir eid sz = (m', entry_ptr r (of_nat n))"
    using inv(1) assms(4) ne left nl
    by (simp add: imdr_entry_add_def imd_entry_add_to_root_def r_def [symmetric] Let_def used_def [symmetric] last e16
        entry_fields st_def [symmetric] m'_def added_def num del: One_nat_def)
  have n: "n < 2 ^ 20" using imdr_inv_small [OF assms(1)] by simp
  note rd = rw_added [OF n, of _ m ir eid sz, folded r_def m'_def, folded used_def st_def]
  have rs: "64 \<le> unat (imdr_limit ir - r)" "unat (imdr_limit ir - r) \<le> 4096" "4 dvd unat (imdr_limit ir - r)"
    using assms(1) by (auto simp: imdr_inv_def Let_def r_def)
  have same: "rw m' r k = rw m r k" if "k < 2 ^ 29" "k \<noteq> 1" "k < 5 + 4 * n \<or> 8 + 4 * n < k" for k
    using that by (auto simp: rd)
  show dep: "depth m' r n = depth m r (n - 1) + unat (align_up sz (entry_align m r))"
  proof -
    have "rw m' r (6 + 4 * n) = st - used" using n by (simp add: rd)
    then have "depth m' r n = unat (- (st - used))" by (simp only: depth_def)
    then show ?thesis unfolding une by (simp only: d_def used_def)
  qed
  have depth: "depth m' r i = depth m r i" "entry_sz m' r i = entry_sz m r i" if "i < n" for i
    using that n by (simp_all add: depth_def entry_sz_def same)
  have esz: "entry_sz m' r n = unat sz" using n by (simp add: entry_sz_def rd)
  have top: "16 * (n + 1) + 28 \<le> unat (imdr_limit ir - r)"
    using room(1) rs(1) unfolding inv(8) by (rule slots_fit)
  have rp: "rw m' r ((unat (imdr_limit ir - r) - 8) div 4) = rw m r ((unat (imdr_limit ir - r) - 8) div 4)"
    "rw m' r ((unat (imdr_limit ir - r) - 4) div 4) = rw m r ((unat (imdr_limit ir - r) - 4) div 4)"
    using top rs by (auto intro!: same)
  show "imdr_inv m' ir (n + 1)"
  proof -
    have old: "\<forall>i<n. rw m r (5 + 4 * i) = IMD_ENTRY_MAGIC"
      "\<forall>i. i + 1 < n \<longrightarrow> depth m r i + entry_sz m r (i + 1) \<le> depth m r (i + 1)"
      using assms(1) unfolding imdr_inv_def Let_def r_def by blast+
    have num': "unat (rw m' r 1) = n + 1"
    proof -
      have "unat (of_nat n :: u32) = n" using n by (intro unat_of_nat_id) simp
      then have "unat (of_nat n + 1 :: u32) = n + 1" using n by (subst unat_add_nowrap) simp_all
      then show ?thesis by (simp add: rd del: One_nat_def)
    qed
    have magic: "\<forall>i<n + 1. rw m' r (5 + 4 * i) = IMD_ENTRY_MAGIC"
    proof (intro allI impI)
      fix i assume "i < n + 1"
      then consider "i = n" | "i < n" by linarith
      then show "rw m' r (5 + 4 * i) = IMD_ENTRY_MAGIC"
        using old(1) n by cases (simp_all add: rd)
    qed
    have steps: "\<forall>i. i + 1 < n + 1 \<longrightarrow> depth m' r i + entry_sz m' r (i + 1) \<le> depth m' r (i + 1)"
    proof (intro allI impI)
      fix i assume i: "i + 1 < n + 1"
      show "depth m' r i + entry_sz m' r (i + 1) \<le> depth m' r (i + 1)"
      proof (cases "i + 1 = n")
        case True
        then have "i = n - 1" by simp
        then show ?thesis using True depth(1) [of i] dep esz sz(1) i by (simp add: used_def)
      next
        case False
        then have "i + 1 < n" using i by simp
        moreover from this have "depth m r i + entry_sz m r (i + 1) \<le> depth m r (i + 1)"
          using old(2) by blast
        ultimately show ?thesis using depth by simp
      qed
    qed
    have d': "depth m' r n = d + unat used" using dep by (simp add: d_def used_def)
    have f: "rw m' r 0 = rw m r 0" "rw m' r 3 = rw m r 3" "rw m' r 4 = rw m r 4" using n by (simp_all add: same)
    have zero: "depth m' r 0 = 0" "entry_sz m' r 0 = unat (imdr_limit ir - r)"
      using assms(1) inv(4) depth [of 0] by (simp_all add: imdr_inv_def Let_def r_def)
    have base: "unat (imdr_limit ir) mod 4096 = 0" "rw m r ((unat (imdr_limit ir - r) - 8) div 4) = IMD_ROOT_PTR_MAGIC"
      "rw m r ((unat (imdr_limit ir - r) - 4) div 4) = - (imdr_limit ir - 8 - r)"
      using assms(1) by (simp_all add: imdr_inv_def Let_def r_def)
    have last': "depth m' r (n + 1 - 1) = d + unat used" using d' by simp
    have room': "1 \<le> n + 1" "n + 1 \<le> (unat (imdr_limit ir - r) - 28) div 16" using room(1) inv(8) by simp_all
    have mo': "rw m r 4 = 0 \<or> d + unat used \<le> unat (- rw m r 4) \<and> unat (- rw m r 4) < unat r \<and> unat (- rw m r 4) < 2 ^ 31"
      using mo room(2) by blast
    show ?thesis
      unfolding imdr_inv_def Let_def r_def [symmetric] f rp num' last'
      using inv(1,2,5,8) rs base zero magic steps sz(2,3) room' mo' by (intro conjI) (assumption | rule refl)+
  qed
qed

end
