(* ===== verification/Imd_Life.thy ===== *)
theory Imd_Life
  imports Imd
begin

text \<open>
  The life of a single-tiered directory of \<^verbatim>\<open>src/lib/imd.c\<close>: a step relation over the
  operations its owner may call and the writes its clients make into their regions, the
  invariant every reachable directory satisfies, and what recovery, adding and finding
  then return.
\<close>

section \<open>What the operations leave alone\<close>

text \<open>The invariant is about the words of the root block; flags and the offset limit may change.\<close>

lemma imdr_inv_words:
  assumes inv: "imdr_inv m ir n"
    and same: "\<And>k. 4 * k < unat (imdr_limit ir - imdr_root ir) \<Longrightarrow> k \<noteq> 2 \<Longrightarrow> k \<noteq> 4 \<Longrightarrow> rw m' (imdr_root ir) k = rw m (imdr_root ir) k"
    and mo: "rw m' (imdr_root ir) 4 = 0 \<or> depth m (imdr_root ir) (n - 1) \<le> unat (- rw m' (imdr_root ir) 4) \<and>
      unat (- rw m' (imdr_root ir) 4) < unat (imdr_root ir) \<and> unat (- rw m' (imdr_root ir) 4) < 2 ^ 31"
  shows "imdr_inv m' ir n"
proof -
  define r rs where "r = imdr_root ir" and "rs = unat (imdr_limit ir - r)"
  have rs: "64 \<le> rs" "1 \<le> n" "n \<le> (rs - 28) div 16"
    using inv by (auto simp: imdr_inv_def Let_def r_def rs_def)
  then have "16 * n \<le> 16 * ((rs - 28) div 16)" by (intro mult_le_mono2)
  also have "\<dots> \<le> rs - 28" by (rule times_div_less_eq_dividend)
  finally have fit: "16 * n + 28 \<le> rs" using rs(1) by linarith
  have w: "rw m' r k = rw m r k" if "4 * k < rs" "k \<noteq> 2" "k \<noteq> 4" for k
    using same that by (simp add: r_def rs_def)
  have e: "rw m' r (5 + 4 * i) = rw m r (5 + 4 * i)" "depth m' r i = depth m r i" "entry_sz m' r i = entry_sz m r i"
    if "i < n" for i
    using that fit by (simp_all add: depth_def entry_sz_def w)
  have d: "depth m' r (n - 1) = depth m r (n - 1)" "depth m' r 0 = depth m r 0" "entry_sz m' r 0 = entry_sz m r 0"
    using rs(2) by (simp_all add: e)
  have f: "rw m' r 0 = rw m r 0" "rw m' r 1 = rw m r 1" "rw m' r 3 = rw m r 3"
    "rw m' r ((rs - 8) div 4) = rw m r ((rs - 8) div 4)" "rw m' r ((rs - 4) div 4) = rw m r ((rs - 4) div 4)"
    using rs(1) by (auto intro!: w)
  show ?thesis
    using inv mo unfolding imdr_inv_def Let_def r_def [symmetric] rs_def [symmetric] f d
    by (auto simp: e)
qed

lemma imdr_inv_remove:
  assumes "imdr_inv m ir (n + 1)" and "1 \<le> n"
  shows "imdr_inv (ww m (imdr_root ir) 1 (of_nat n)) ir n"
proof -
  define r rs where "r = imdr_root ir" and "rs = unat (imdr_limit ir - r)"
  define m2 where "m2 = ww m r 1 (of_nat n)"
  have rs: "64 \<le> rs" "rs \<le> 4096" "n < 256"
    using assms(1) imdr_inv_small [OF assms(1)] by (auto simp: imdr_inv_def Let_def r_def rs_def)
  have w: "rw m2 r k = rw m r k" if "k < 2 ^ 29" "k \<noteq> 1" for k using that by (simp add: rw_ww m2_def del: One_nat_def)
  have e: "rw m2 r (5 + 4 * i) = rw m r (5 + 4 * i)" "depth m2 r i = depth m r i" "entry_sz m2 r i = entry_sz m r i"
    if "i < n" for i
    using that rs(3) by (simp_all add: depth_def entry_sz_def w del: One_nat_def)
  have d: "depth m2 r (n - 1) = depth m r (n - 1)" "depth m2 r 0 = depth m r 0" "entry_sz m2 r 0 = entry_sz m r 0"
    using assms(2) by (auto intro!: e)
  have f: "rw m2 r 0 = rw m r 0" "rw m2 r 3 = rw m r 3" "rw m2 r 4 = rw m r 4"
    "rw m2 r ((rs - 8) div 4) = rw m r ((rs - 8) div 4)" "rw m2 r ((rs - 4) div 4) = rw m r ((rs - 4) div 4)"
    using rs by (auto intro!: w simp del: One_nat_def)
  have num: "unat (rw m2 r 1) = n" using rs(3) by (simp add: rw_ww m2_def unat_of_nat_id del: One_nat_def)
  have le: "depth m r (n - 1) \<le> depth m r (n + 1 - 1)"
    using depth_mono [OF assms(1), of "n - 1" n] by (simp add: r_def)
  show ?thesis
    using assms(1,2) le num unfolding imdr_inv_def Let_def r_def [symmetric] m2_def [symmetric] rs_def [symmetric] f d
    by (auto simp: e del: One_nat_def)
qed

section \<open>The life of a directory\<close>

text \<open>
  The handle has no small tier. \<open>add\<close> needs a size that can be rounded up and memory below
  the root, \<open>remove\<close> an entry other than the root's own, \<open>limit\<close> a limit that leaves room for
  what is there, and a client writes below the root block.
\<close>

definition single_tier :: "imd \<Rightarrow> bool" where
  "single_tier i \<longleftrightarrow> imdr_root (sm i) = NULL"

definition limit_fits :: "mem \<Rightarrow> imdr \<Rightarrow> usize \<Rightarrow> bool" where
  "limit_fits m ir max_size \<longleftrightarrow>
     (let r = imdr_root ir; n = unat (num_entries m r); room = unat (max_size - (imdr_limit ir - r)) in
      depth m r (n - 1) \<le> room \<and> room < unat r \<and> room < 2 ^ 31)"

inductive imd_reach :: "mem \<Rightarrow> imd \<Rightarrow> bool" where
  create: "imd_create_empty fatal m (imd_handle_init upper_limit) root_size align = Some (m', i, 0) \<Longrightarrow>
     4096 < unat (align_down upper_limit LIMIT_ALIGN) \<Longrightarrow> is_power_of_2 root_size \<Longrightarrow> is_power_of_2 align \<Longrightarrow>
     64 \<le> unat root_size \<Longrightarrow> imd_reach m' i"
| add: "imd_reach m i \<Longrightarrow> eid \<noteq> SMALL_REGION_ID \<Longrightarrow>
     size_ok m (lg i) (unat (num_entries m (imdr_root (lg i)))) sz \<Longrightarrow>
     imd_entry_add m i eid sz = (m', e) \<Longrightarrow> imd_reach m' i"
| remove: "imd_reach m i \<Longrightarrow> e \<noteq> entry_ptr (imdr_root (lg i)) 0 \<Longrightarrow>
     imd_entry_remove m i e = (m', ret) \<Longrightarrow> imd_reach m' i"
| limit: "imd_reach m i \<Longrightarrow> limit_fits m (lg i) max_size \<Longrightarrow>
     imd_limit_size m i max_size = (m', ret) \<Longrightarrow> imd_reach m' i"
| lockdown: "imd_reach m i \<Longrightarrow> imd_lockdown m i = (m', ret) \<Longrightarrow> imd_reach m' i"
| client: "imd_reach m i \<Longrightarrow> unat a + length bytes \<le> unat (imdr_root (lg i)) \<Longrightarrow>
     imd_reach (mem_write m a bytes) i"

definition imd_ok :: "mem \<Rightarrow> imd \<Rightarrow> nat \<Rightarrow> bool" where
  "imd_ok m i n \<longleftrightarrow> imdr_inv m (lg i) n \<and> sm i = imdr_init NULL \<and>
     (\<forall>k. 1 \<le> k \<and> k < n \<longrightarrow> rw m (imdr_root (lg i)) (8 + 4 * k) \<noteq> SMALL_REGION_ID)"

lemma imd_ok_num: "imd_ok m i n \<Longrightarrow> unat (num_entries m (imdr_root (lg i))) = n"
  by (simp add: imd_ok_def imdr_inv_def Let_def root_fields)

lemma imdr_init_null [simp]: "imdr_init NULL = \<lparr>imdr_limit = 0, imdr_root = NULL\<rparr>"
  by (simp add: imdr_init_def align_down_def)

lemma imd_ok_words:
  assumes "imd_ok m i n"
    and "\<And>k. 4 * k < unat (imdr_limit (lg i) - imdr_root (lg i)) \<Longrightarrow> k \<noteq> 2 \<Longrightarrow> k \<noteq> 4 \<Longrightarrow>
      rw m' (imdr_root (lg i)) k = rw m (imdr_root (lg i)) k"
    and "imdr_inv m' (lg i) n"
  shows "imd_ok m' i n"
proof -
  have "64 \<le> unat (imdr_limit (lg i) - imdr_root (lg i))" "n \<le> (unat (imdr_limit (lg i) - imdr_root (lg i)) - 28) div 16"
    using assms(1) by (simp_all add: imd_ok_def imdr_inv_def Let_def)
  then have fit: "16 * n + 28 \<le> unat (imdr_limit (lg i) - imdr_root (lg i))" by linarith
  have "rw m' (imdr_root (lg i)) (8 + 4 * k) = rw m (imdr_root (lg i)) (8 + 4 * k)" if "k < n" for k
    using that fit by (intro assms(2)) auto
  then show ?thesis using assms(1,3) by (simp add: imd_ok_def)
qed

lemma rw_client_write:
  assumes "unat a + length bytes \<le> unat r" and "unat r + 4 * k + 4 \<le> 4294967296"
  shows "rw (mem_write m a bytes) r k = rw m r k"
proof -
  show ?thesis
  proof (cases "bytes = []")
    case False
    then have "disjoint_ranges (0 + of_nat (unat a)) (length bytes) (0 + of_nat (unat r + 4 * k)) 4"
      using assms by (intro disjoint_offsets) auto
    then show ?thesis by (simp add: rw_def load32_def mem_read_write_other)
  qed simp
qed

section \<open>Every reachable directory is intact\<close>

lemma imd_ok_create:
  assumes "imd_create_empty fatal m (imd_handle_init upper_limit) root_size align = Some (m', i, 0)"
    and "4096 < unat (align_down upper_limit LIMIT_ALIGN)" and "is_power_of_2 root_size" and "is_power_of_2 align"
    and "64 \<le> unat root_size"
  shows "imd_ok m' i 1"
proof -
  define L where "L = align_down upper_limit LIMIT_ALIGN"
  have h: "imd_handle_init upper_limit = \<lparr>lg = \<lparr>imdr_limit = L, imdr_root = NULL\<rparr>, sm = imdr_init NULL\<rparr>"
    unfolding imd_handle_init_def L_def imdr_init_def ..
  obtain k where k: "root_size = 2 ^ k" "k < 32" using is_power_of_2D [OF assms(3)] assms(5) by force
  have u: "unat root_size = 2 ^ k"
    using unat_of_nat_id [of "2 ^ k", where 'a = 32] k power_strict_increasing [of k 32 "2 :: nat"] by simp
  then have "(2::nat) ^ 6 \<le> 2 ^ k" using assms(5) by simp
  then have "2 \<le> k" by (simp only: power_increasing_iff)
  then have dvd: "4 dvd unat root_size"
    using u le_imp_power_dvd [of 2 k "2 :: nat"] by simp
  have "unat L = unat upper_limit div 4096 * 4096"
    using unat_align_down [of upper_limit 12] by (simp add: L_def LIMIT_ALIGN_def minus_mod_eq_div_mult)
  then have L: "unat L mod 4096 = 0" by simp
  have c: "imd_create_empty fatal m (imd_handle_init upper_limit) root_size align =
      map_option (\<lambda>(m, l, ret). (m, (imd_handle_init upper_limit)\<lparr>lg := l\<rparr>, ret))
        (imdr_create_empty fatal m \<lparr>imdr_limit = L, imdr_root = NULL\<rparr> root_size align)"
    by (simp add: imd_create_empty_def h)
  have le: "unat root_size \<le> 4096" "align \<le> root_size"
    using assms(1) unfolding c imdr_create_empty_def
    by (auto simp: Let_def LIMIT_ALIGN_def word_le_nat_alt word_less_nat_alt not_less split: if_splits)
  obtain m1 where m1: "imdr_create_empty fatal m \<lparr>imdr_limit = L, imdr_root = NULL\<rparr> root_size align =
      Some (m1, \<lparr>imdr_limit = L, imdr_root = L - root_size\<rparr>, 0)"
    "imdr_inv m1 \<lparr>imdr_limit = L, imdr_root = L - root_size\<rparr> 1"
    using imdr_create_empty_inv [OF L _ assms(3,4,5) le dvd] assms(2) unfolding L_def by blast
  show ?thesis
    using assms(1) m1 unfolding c by (auto simp: imd_ok_def h)
qed

lemma single_add: "imdr_root (sm i) = NULL \<Longrightarrow> imd_entry_add m i eid sz = imdr_entry_add m (lg i) eid sz"
  by (simp add: imd_entry_add_def)

lemma imdr_entry_add_locked: "root_is_locked m (imdr_root ir) \<Longrightarrow> imdr_entry_add m ir eid sz = (m, NULL)"
  by (simp add: imdr_entry_add_def Let_def)

lemma imd_ok_add:
  assumes ok: "imd_ok m i n" and eid: "eid \<noteq> SMALL_REGION_ID" and sz: "size_ok m (lg i) n sz"
  shows "\<exists>k. imd_ok (fst (imd_entry_add m i eid sz)) i k"
proof -
  have i: "imdr_inv m (lg i) n" "imdr_root (sm i) = NULL" using ok by (simp_all add: imd_ok_def)
  consider "\<not> entry_room m (lg i) n sz \<or> root_is_locked m (imdr_root (lg i))" |
    "entry_room m (lg i) n sz" "\<not> root_is_locked m (imdr_root (lg i))" by blast
  then show ?thesis
  proof cases
    case 1
    then have "imdr_entry_add m (lg i) eid sz = (m, NULL)"
      using imdr_entry_add_full [OF i(1)] imdr_entry_add_locked by blast
    then show ?thesis using ok by (auto simp: single_add i(2))
  next
    case 2
    note a = imdr_entry_add_room [OF i(1) 2(1) sz 2(2), of eid]
    have "rw (added m (lg i) n eid sz) (imdr_root (lg i)) (8 + 4 * k) =
        (if k = n then eid else rw m (imdr_root (lg i)) (8 + 4 * k))" if "k \<le> n" for k
      using that imdr_inv_small [OF i(1)] by (subst rw_added) auto
    then have "imd_ok (added m (lg i) n eid sz) i (n + 1)"
      using ok eid a(3) by (simp add: imd_ok_def)
    then show ?thesis using a(1) by (auto simp: single_add i(2))
  qed
qed

lemma signed_drop_16:
  fixes w :: "32 word"
  assumes "n < 2 ^ 20"
  shows "signed_drop_bit 4 (16 * (of_nat n :: 32 word)) = of_nat n"
proof -
  have "16 * of_nat n = (of_nat (16 * n) :: 32 word)" by simp
  moreover have "signed_drop_bit 4 (of_nat (16 * n) :: 32 word) = of_nat n"
  proof (rule signed_word_eqI)
    have "sint (of_nat (16 * n) :: 32 word) = int (16 * n)"
      using assms by (subst signed_of_nat) (simp add: signed_take_bit_int_eq_self)
    then show "sint (signed_drop_bit 4 (of_nat (16 * n) :: 32 word)) = sint (of_nat n :: 32 word)"
      using assms by (simp add: sint_signed_drop_bit_eq drop_bit_eq_div signed_of_nat signed_take_bit_int_eq_self)
  qed
  ultimately show ?thesis by (simp only:)
qed

lemma has_entry:
  assumes "imdr_inv m ir n" and "i < n"
  shows "imdr_has_entry m ir (entry_ptr (imdr_root ir) (of_nat i))"
proof -
  have "entry_ptr (imdr_root ir) (of_nat i) - entry_ptr (imdr_root ir) 0 = 16 * of_nat i"
    by (simp add: entry_ptr_def)
  moreover have "signed_drop_bit 4 (16 * (of_nat i :: u32)) = of_nat i"
    using imdr_inv_small [OF assms(1)] assms(2) by (intro signed_drop_16) simp
  moreover have "imdr_root ir \<noteq> NULL" using assms(1) by (simp add: imdr_inv_def Let_def)
  moreover have "(of_nat i :: u32) < of_nat n"
    using imdr_inv_small [OF assms(1)] assms(2) by (simp add: word_less_nat_alt unat_of_nat_id)
  ultimately show ?thesis
    using imdr_last_entry(2) [OF assms(1)] by (simp add: imdr_has_entry_def Let_def not_le)
qed

lemma imd_ok_remove:
  assumes ok: "imd_ok m i n" and e: "e \<noteq> entry_ptr (imdr_root (lg i)) 0"
  shows "\<exists>k. imd_ok (fst (imd_entry_remove m i e)) i k"
proof (cases "fst (imd_entry_remove m i e) = m")
  case False
  define r where "r = imdr_root (lg i)"
  have inv: "imdr_inv m (lg i) n" and s: "sm i = imdr_init NULL" using ok by (simp_all add: imd_ok_def)
  have small: "\<not> imdr_has_entry m (sm i) e" by (simp add: s imdr_has_entry_def)
  have last: "root_last_entry m r = entry_ptr r (of_nat (n - 1))" "num_entries m r = of_nat n"
    using imdr_last_entry [OF inv] by (simp_all add: r_def)
  have eq: "e = entry_ptr r (of_nat (n - 1))" "fst (imd_entry_remove m i e) = store32 m (r + 4) (num_entries m r - 1)"
    using False small by (auto simp: imd_entry_remove_def imd_entry_to_imdr_def r_def last [unfolded r_def] Let_def split: if_splits)
  have n: "1 \<le> n" using inv by (simp add: imdr_inv_def Let_def)
  moreover have "n \<noteq> 1" using eq(1) e by (auto simp: r_def)
  ultimately obtain k where k: "n = k + 1" "1 \<le> k" by (metis add.commute le_Suc_ex le_antisym not_less_eq_eq plus_1_eq_Suc)
  have st: "fst (imd_entry_remove m i e) = ww m r 1 (of_nat k)"
    unfolding eq(2) last(2) k(1) root_stores by simp
  have "imdr_inv (ww m r 1 (of_nat k)) (lg i) k"
    using imdr_inv_remove inv k unfolding r_def by blast
  moreover have "rw (ww m r 1 (of_nat k)) r (8 + 4 * j) = rw m r (8 + 4 * j)" if "j < k" for j
    using that imdr_inv_small [OF inv] k(1) by (subst rw_ww) auto
  ultimately have "imd_ok (fst (imd_entry_remove m i e)) i k"
    using ok k(1) unfolding st by (simp add: imd_ok_def r_def)
  then show ?thesis ..
qed (use ok in auto)

lemma imd_ok_set_word:
  assumes ok: "imd_ok m i n" and k: "k = 2 \<or> k = 4 \<and> depth m (imdr_root (lg i)) (n - 1) \<le> unat (- v) \<and>
      unat (- v) < unat (imdr_root (lg i)) \<and> unat (- v) < 2 ^ 31"
  shows "imd_ok (ww m (imdr_root (lg i)) k v) i n"
proof -
  define r where "r = imdr_root (lg i)"
  have inv: "imdr_inv m (lg i) n" using ok by (simp add: imd_ok_def)
  have same: "rw (ww m r k v) r j = rw m r j" if "4 * j < unat (imdr_limit (lg i) - r)" "j \<noteq> 2" "j \<noteq> 4" for j
    using that k imdr_inv_small [OF inv] by (subst rw_ww) (auto simp: r_def)
  have "rw (ww m r k v) r 4 = (if k = 4 then v else rw m r 4)" using k by (subst rw_ww) auto
  moreover have "rw m r 4 = 0 \<or> depth m r (n - 1) \<le> unat (- rw m r 4) \<and> unat (- rw m r 4) < unat r \<and> unat (- rw m r 4) < 2 ^ 31"
    using inv unfolding imdr_inv_def Let_def r_def by blast
  ultimately have "imdr_inv (ww m r k v) (lg i) n"
    using k by (intro imdr_inv_words [OF inv]) (auto simp: same r_def [symmetric])
  then show ?thesis using same by (intro imd_ok_words [OF ok]) (simp_all add: r_def)
qed

lemma imd_ok_limit:
  assumes ok: "imd_ok m i n" and fits: "limit_fits m (lg i) max_size"
  shows "imd_ok (fst (imd_limit_size m i max_size)) i n"
proof -
  define r where "r = imdr_root (lg i)"
  have st: "fst (imd_limit_size m i max_size) = m \<or>
      fst (imd_limit_size m i max_size) = ww m r 4 (- (max_size - (imdr_limit (lg i) - r)))"
    by (simp add: imd_limit_size_def imdr_limit_size_def r_def [symmetric] Let_def root_stores)
  have "imd_ok (ww m (imdr_root (lg i)) 4 (- (max_size - (imdr_limit (lg i) - r)))) i n"
    using fits imd_ok_num [OF ok] by (intro imd_ok_set_word [OF ok]) (simp add: limit_fits_def Let_def r_def)
  then show ?thesis using st ok unfolding r_def by auto
qed

lemma imd_ok_lockdown:
  assumes ok: "imd_ok m i n"
  shows "imd_ok (fst (imd_lockdown m i)) i n"
proof -
  define r where "r = imdr_root (lg i)"
  have "fst (imd_lockdown m i) = m \<or> fst (imd_lockdown m i) = ww m r 2 (flags m r OR IMD_FLAG_LOCKED)"
    using ok by (simp add: imd_lockdown_def imd_ok_def r_def [symmetric] Let_def root_stores)
  then show ?thesis using ok imd_ok_set_word [OF ok] unfolding r_def by auto
qed

lemma imd_ok_client:
  assumes ok: "imd_ok m i n" and w: "unat a + length bytes \<le> unat (imdr_root (lg i))"
  shows "imd_ok (mem_write m a bytes) i n"
proof -
  define r where "r = imdr_root (lg i)"
  have inv: "imdr_inv m (lg i) n" using ok by (simp add: imd_ok_def)
  have lt: "unat r + unat (imdr_limit (lg i) - r) = unat (imdr_limit (lg i))" "4 dvd unat (imdr_limit (lg i) - r)"
    "64 \<le> unat (imdr_limit (lg i) - r)"
    using inv unat_sub_nowrap [of r "imdr_limit (lg i)"]
    by (auto simp: imdr_inv_def Let_def r_def word_less_nat_alt)
  have same: "rw (mem_write m a bytes) r j = rw m r j" if j: "4 * j < unat (imdr_limit (lg i) - r)" for j
  proof (rule rw_client_write)
    have "4 * j + 4 \<le> unat (imdr_limit (lg i) - r)" using j lt(2) by auto
    then show "unat r + 4 * j + 4 \<le> 4294967296" using lt(1) unat_lt32 [of "imdr_limit (lg i)"] by linarith
  qed (use w in \<open>simp add: r_def\<close>)
  have "rw m r 4 = 0 \<or> depth m r (n - 1) \<le> unat (- rw m r 4) \<and> unat (- rw m r 4) < unat r \<and> unat (- rw m r 4) < 2 ^ 31"
    using inv unfolding imdr_inv_def Let_def r_def by blast
  then have "imdr_inv (mem_write m a bytes) (lg i) n"
    using same lt(3) by (intro imdr_inv_words [OF inv]) (auto simp: r_def)
  then show ?thesis using same by (intro imd_ok_words [OF ok]) (simp_all add: r_def)
qed

lemma imd_reach_ok: "imd_reach m i \<Longrightarrow> \<exists>n. imd_ok m i n"
proof (induction rule: imd_reach.induct)
  case create
  then show ?case using imd_ok_create by blast
next
  case (add m i eid sz m' e)
  then obtain n where n: "imd_ok m i n" by blast
  then obtain k where "imd_ok (fst (imd_entry_add m i eid sz)) i k"
    using imd_ok_add [OF n add(2)] add(3) imd_ok_num [OF n] by blast
  then show ?case using add(4) by auto
next
  case (remove m i e m' ret)
  then show ?case using imd_ok_remove [of m i _ e] by fastforce
next
  case (limit m i max_size m' ret)
  then show ?case using imd_ok_limit [of m i _ max_size] by fastforce
next
  case (lockdown m i m' ret)
  then show ?case using imd_ok_lockdown [of m i] by fastforce
next
  case client
  then show ?case using imd_ok_client by blast
qed

section \<open>Recovery, finding and adding\<close>

lemma entry_ptr_above:
  assumes "imdr_inv m ir n" and "i \<le> n"
  shows "entry_ptr (imdr_root ir) (of_nat i) \<noteq> NULL"
proof -
  define r where "r = imdr_root ir"
  have b: "n \<le> (unat (imdr_limit ir - r) - 28) div 16" "64 \<le> unat (imdr_limit ir - r)" "r < imdr_limit ir"
    using assms(1) by (simp_all add: imdr_inv_def Let_def r_def)
  then have "16 * i + 28 \<le> unat (imdr_limit ir - r)" using assms(2) by linarith
  moreover have "unat (imdr_limit ir - r) = unat (imdr_limit ir) - unat r"
    using b(3) by (intro unat_sub_nowrap) (simp add: word_less_nat_alt)
  ultimately have lt: "unat r + (20 + 16 * i) < 4294967296" "20 + 16 * i < 4294967296"
    using unat_lt32 [of "imdr_limit ir"] b(2) by linarith+
  have "entry_ptr r (of_nat i) = r + of_nat (20 + 16 * i)" by (simp add: entry_ptr_def)
  moreover have "unat (r + of_nat (20 + 16 * i)) = unat r + (20 + 16 * i)"
    using lt by (subst unat_add_nowrap) (simp_all add: unat_of_nat_id del: of_nat_add of_nat_mult)
  ultimately have "unat (entry_ptr r (of_nat i)) = unat r + (20 + 16 * i)" by (simp only:)
  then have "unat (entry_ptr r (of_nat i)) \<noteq> 0" by linarith
  then show ?thesis unfolding r_def by (metis unat_0)
qed

lemma find_in_words:
  assumes "imdr_inv m ir n"
  shows "imdr_entry_find m ir eid = (case find (\<lambda>k. rw m (imdr_root ir) (8 + 4 * k) = eid) [1..<n] of
     None \<Rightarrow> NULL | Some k \<Rightarrow> entry_ptr (imdr_root ir) (of_nat k))"
proof -
  have "imdr_root ir \<noteq> NULL" "unat (rw m (imdr_root ir) 1) = n" using assms by (simp_all add: imdr_inv_def Let_def)
  then show ?thesis by (simp add: imdr_entry_find_def Let_def entry_fields root_fields del: One_nat_def)
qed

lemma find_append: "find P (xs @ ys) = (case find P xs of None \<Rightarrow> find P ys | Some x \<Rightarrow> Some x)"
  by (induction xs) simp_all

lemma single_find: "imd_ok m i n \<Longrightarrow> imd_entry_find m i eid = imdr_entry_find m (lg i) eid"
  by (simp add: imd_ok_def imd_entry_find_def imdr_entry_find_def [of _ "\<lparr>imdr_limit = 0, imdr_root = NULL\<rparr>"])

lemma single_at:
  assumes "imd_ok m i n" and "k < n"
  shows "imd_entry_at m i (entry_ptr (imdr_root (lg i)) (of_nat k)) =
    imdr_root (lg i) + rw m (imdr_root (lg i)) (6 + 4 * k)"
  using has_entry [OF _ assms(2), of m "lg i"] assms(1)
  by (simp add: imd_ok_def imd_entry_at_def imd_entry_to_imdr_def imdr_entry_at_def relative_pointer_def entry_fields)

text \<open>
  C5: A directory in any state its operations and its clients' writes can reach is
  recovered exactly by a fresh handle on the same limit.
\<close>

theorem imd_recover_reachable:
  assumes "imd_reach m i"
  shows "imd_recover m (imd_handle_init (imdr_limit (lg i))) = (i, 0)"
proof -
  obtain n where ok: "imd_ok m i n" using imd_reach_ok [OF assms] ..
  have inv: "imdr_inv m (lg i) n" and sm: "sm i = imdr_init NULL" using ok by (simp_all add: imd_ok_def)
  have "unat (imdr_limit (lg i)) mod 2 ^ 12 = 0" using inv by (simp add: imdr_inv_def Let_def)
  then have "align_down (imdr_limit (lg i)) LIMIT_ALIGN = imdr_limit (lg i)"
    using unat_align_down [of "imdr_limit (lg i)" 12] by (simp add: LIMIT_ALIGN_def word_unat_eq_iff)
  then have "imdr_init (imdr_limit (lg i)) = \<lparr>imdr_limit = imdr_limit (lg i), imdr_root = NULL\<rparr>"
    by (simp add: imdr_init_def)
  then have rec: "imdr_recover m (imdr_init (imdr_limit (lg i))) = (lg i, 0)"
    using imdr_recover_inv [OF inv] by simp
  have "find (\<lambda>k. rw m (imdr_root (lg i)) (8 + 4 * k) = SMALL_REGION_ID) [1..<n] = None"
    using ok by (auto simp: find_None_iff imd_ok_def)
  then have "imdr_entry_find m (lg i) SMALL_REGION_ID = NULL" by (simp add: find_in_words [OF inv])
  moreover have "\<lparr>lg = lg i, sm = imdr_init NULL\<rparr> = i" unfolding sm [symmetric] by simp
  ultimately show ?thesis
    unfolding imd_recover_def imd_handle_init_def imd.simps rec by (simp del: imdr_init_null)
qed

text \<open>
  C17: In every reachable state the regions are stacked below the root: each lies strictly
  above address 0 and ends at or below the start of every earlier one, so no two overlap.
\<close>

theorem imd_regions_disjoint:
  assumes "imd_reach m i" and "a < b" and "b < unat (num_entries m (imdr_root (lg i)))"
  defines "e \<equiv> (\<lambda>k. entry_ptr (imdr_root (lg i)) (of_nat k))"
  shows "0 < unat (imd_entry_at m i (e b)) \<and>
    unat (imd_entry_at m i (e b)) + unat (e_size m (e b)) \<le> unat (imd_entry_at m i (e a)) \<and>
    unat (imd_entry_at m i (e a)) \<le> unat (imdr_root (lg i))"
proof -
  obtain n where ok: "imd_ok m i n" using imd_reach_ok [OF assms(1)] ..
  define r where "r = imdr_root (lg i)"
  have inv: "imdr_inv m (lg i) n" and n: "b < n"
    using ok assms(3) imd_ok_num [OF ok] by (simp_all add: imd_ok_def)
  have st: "unat (imd_entry_at m i (e k)) = unat r - depth m r k" "depth m r k < unat r" if "k < n" for k
    using entry_start [OF inv that] single_at [OF ok that] by (simp_all add: e_def r_def)
  obtain p where p: "b = p + 1" "a \<le> p" using assms(2) by (metis Suc_eq_plus1 less_eq_Suc_le Suc_le_D Suc_le_mono)
  have "depth m r p + entry_sz m r (p + 1) \<le> depth m r (p + 1)"
    using inv n p(1) unfolding imdr_inv_def Let_def r_def by blast
  moreover have "depth m r a \<le> depth m r p"
    using depth_mono [OF inv p(2)] n p(1) by (simp add: r_def)
  ultimately have "depth m r a + entry_sz m r b \<le> depth m r b" unfolding p(1) by linarith
  moreover have "unat (e_size m (e b)) = entry_sz m r b" by (simp add: e_def r_def entry_fields entry_sz_def)
  moreover have "a < n" using assms(2) n by simp
  ultimately show ?thesis
    unfolding r_def [symmetric] using st [OF n] st [OF \<open>a < n\<close>] by (intro conjI) linarith+
qed

lemma single_add_fails:
  assumes "imd_ok m i n" and "root_is_locked m (imdr_root (lg i)) \<or> \<not> entry_room m (lg i) n sz"
  shows "imd_entry_add m i eid sz = (m, NULL)"
proof -
  have "imdr_inv m (lg i) n" and "imdr_root (sm i) = NULL" using assms(1) by (simp_all add: imd_ok_def)
  then show ?thesis
    using assms(2) imdr_entry_add_full imdr_entry_add_locked by (simp add: single_add) blast
qed

text \<open>What finds see of an added entry.\<close>

lemma find_added:
  assumes "imd_ok m i n" and "imdr_inv (added m (lg i) n eid sz) (lg i) (n + 1)"
  shows "imd_entry_find (added m (lg i) n eid sz) i other =
    (if imd_entry_find m i other = NULL \<and> other = eid then entry_ptr (imdr_root (lg i)) (of_nat n) else imd_entry_find m i other)"
proof -
  define r m' where "r = imdr_root (lg i)" and "m' = added m (lg i) n eid sz"
  have inv: "imdr_inv m (lg i) n" and sm: "imdr_root (sm i) = NULL" using assms(1) by (simp_all add: imd_ok_def)
  have n: "n < 2 ^ 20" "1 \<le> n" using imdr_inv_small [OF inv] inv by (simp_all add: imdr_inv_def Let_def)
  have ids: "rw m' r (8 + 4 * j) = (if j = n then eid else rw m r (8 + 4 * j))" if "j \<le> n" for j
    using that n by (subst rw_added [OF n(1), of _ m "lg i" eid sz, folded r_def m'_def]) auto
  have "find (\<lambda>k. rw m' r (8 + 4 * k) = other) [1..<n] = find (\<lambda>k. rw m r (8 + 4 * k) = other) [1..<n]"
    by (rule find_cong) (simp_all add: ids)
  moreover have "[1..<n + 1] = [1..<n] @ [n]" using n(2) by simp
  ultimately have f: "find (\<lambda>k. rw m' r (8 + 4 * k) = other) [1..<n + 1] =
      (case find (\<lambda>k. rw m r (8 + 4 * k) = other) [1..<n] of None \<Rightarrow> if other = eid then Some n else None | Some x \<Rightarrow> Some x)"
    by (simp add: find_append ids split: option.split)
  have "entry_ptr r (of_nat k) \<noteq> NULL" if "k < n" for k
    using entry_ptr_above [OF inv, of k] that by (simp add: r_def)
  moreover have "k < n" if "find (\<lambda>k. rw m r (8 + 4 * k) = other) [1..<n] = Some k" for k
    using that by (auto simp: find_Some_iff simp del: One_nat_def)
  ultimately show ?thesis
    unfolding imd_entry_find_def sm imdr_entry_find_def [of _ "sm i"] m'_def [symmetric]
    by (auto simp: sm find_in_words [OF inv] find_in_words [OF assms(2), folded m'_def] f r_def [symmetric] simp del: One_nat_def split: option.splits)
qed

text \<open>
  C29: Adding to a reachable directory. When the directory is locked or has no slot or room, the
  add fails and changes nothing. Otherwise, provided that the size does not wrap when it is
  rounded up and the memory below the root reaches far enough (\<open>size_ok\<close>), the add succeeds,
  whether or not the id exists already, against the comment in \<^verbatim>\<open>imd.h\<close>: the new entry takes the
  next slot, has the given id and size, and starts the rounded-up size below the last region. A
  find of its id returns it only if no entry had this id before, and the older entry otherwise;
  finds of other ids are not affected.
\<close>

theorem imd_entry_add_correct:
  assumes "imd_reach m i" and "n = unat (num_entries m (imdr_root (lg i)))"
  defines "r \<equiv> imdr_root (lg i)"
  shows "if root_is_locked m r \<or> \<not> entry_room m (lg i) n sz then imd_entry_add m i eid sz = (m, NULL)
    else size_ok m (lg i) n sz \<longrightarrow> (\<exists>m'. let e = entry_ptr r (of_nat n) in
      imd_entry_add m i eid sz = (m', e) \<and> e \<noteq> NULL \<and> unat (num_entries m' r) = n + 1 \<and>
      e_id m' e = eid \<and> e_size m' e = sz \<and>
      unat (imd_entry_at m' i e) + unat (align_up sz (entry_align m r)) = unat (imd_entry_at m i (root_last_entry m r)) \<and>
      imd_entry_find m' i eid = (if imd_entry_find m i eid = NULL then e else imd_entry_find m i eid) \<and>
      (\<forall>other. other \<noteq> eid \<longrightarrow> imd_entry_find m' i other = imd_entry_find m i other))"
proof -
  obtain k where "imd_ok m i k" using imd_reach_ok [OF assms(1)] ..
  then have ok: "imd_ok m i n" using imd_ok_num assms(2) by blast
  have inv: "imdr_inv m (lg i) n" and sm: "imdr_root (sm i) = NULL" using ok by (simp_all add: imd_ok_def)
  show ?thesis
  proof (cases "root_is_locked m r \<or> \<not> entry_room m (lg i) n sz \<or> \<not> size_ok m (lg i) n sz")
    case True
    show ?thesis
    proof (cases "root_is_locked m r \<or> \<not> entry_room m (lg i) n sz")
      case full: True
      then show ?thesis using single_add_fails [OF ok] by (simp only: if_True r_def)
    next
      case False
      then have "\<not> size_ok m (lg i) n sz" using True by blast
      then show ?thesis using False by (simp only: if_False) blast
    qed
  next
    case False
    define m' e where "m' = added m (lg i) n eid sz" and "e = entry_ptr r (of_nat n)"
    have room: "entry_room m (lg i) n sz" and fits: "size_ok m (lg i) n sz" and unl: "\<not> root_is_locked m (imdr_root (lg i))"
      using False by (simp_all add: r_def)
    note a = imdr_entry_add_room [OF inv room fits unl, of eid, folded m'_def r_def]
    have n: "n < 2 ^ 20" "1 \<le> n" using imdr_inv_small [OF inv] inv by (simp_all add: imdr_inv_def Let_def)
    note rd = rw_added [OF n(1), of _ m "lg i" eid sz, folded r_def m'_def]
    have id_sz: "e_id m' e = eid" "e_size m' e = sz" using n by (simp_all add: e_def entry_fields rd)
    have add: "imd_entry_add m i eid sz = (m', e)" using a(1) by (simp add: single_add sm e_def)
    have num: "unat (num_entries m' r) = n + 1" using a(3) by (simp add: imdr_inv_def Let_def root_fields r_def)
    have "r + rw m' r (6 + 4 * n) = imd_entry_at m' i e"
      using has_entry [OF a(3), of n]
      by (simp add: e_def r_def imd_entry_at_def imd_entry_to_imdr_def imdr_entry_at_def relative_pointer_def entry_fields)
    then have at: "unat (imd_entry_at m' i e) = unat r - depth m' r n" "depth m' r n < unat r"
      using entry_start [OF a(3), of n] by (simp_all add: r_def)
    have last: "unat (imd_entry_at m i (root_last_entry m r)) = unat r - depth m r (n - 1)"
      using entry_start(1) [OF inv, of "n - 1"] single_at [OF ok, of "n - 1"] imdr_last_entry(1) [OF inv] n(2) by (simp add: r_def)
    note find' = find_added [OF ok a(3) [unfolded m'_def], folded m'_def r_def e_def]
    have "unat (imd_entry_at m' i e) + unat (align_up sz (entry_align m r)) = unat (imd_entry_at m i (root_last_entry m r))"
      using at last a(2) by linarith
    moreover have "e \<noteq> NULL" using entry_ptr_above [OF inv, of n] by (simp add: e_def r_def)
    ultimately show ?thesis
      using False add num id_sz find' by (auto simp: Let_def e_def [symmetric])
  qed
qed

text \<open>
  C30: After a lockdown of a reachable directory every add and every removal is refused and
  leaves the memory alone, and finds answer as before.
\<close>

theorem imd_lockdown_refuses:
  assumes "imd_reach m i" and "imd_lockdown m i = (m', ret)"
  shows "ret = 0 \<and> imd_entry_add m' i eid sz = (m', NULL) \<and> imd_entry_remove m' i e = (m', -1) \<and>
    imd_entry_find m' i eid = imd_entry_find m i eid"
proof -
  obtain n where ok: "imd_ok m i n" using imd_reach_ok [OF assms(1)] ..
  define r where "r = imdr_root (lg i)"
  have inv: "imdr_inv m (lg i) n" and sm: "sm i = \<lparr>imdr_limit = 0, imdr_root = NULL\<rparr>" and r0: "r \<noteq> NULL"
    using ok by (simp_all add: imd_ok_def imdr_inv_def Let_def r_def)
  have m': "m' = ww m r 2 (flags m r OR IMD_FLAG_LOCKED)" and ret: "ret = 0"
    using assms(2) r0 by (simp_all add: imd_lockdown_def r_def [symmetric] Let_def root_stores sm)
  have "flags m' r = flags m r OR IMD_FLAG_LOCKED" unfolding m' root_fields by (simp add: rw_ww)
  then have "bit (flags m' r AND IMD_FLAG_LOCKED) 0" by (simp add: bit_simps IMD_FLAG_LOCKED_def)
  then have locked: "root_is_locked m' r" unfolding root_is_locked_def by (metis bit_0_eq bot_apply bot_bool_def)
  have "imd_ok m' i n" unfolding m' r_def by (rule imd_ok_set_word [OF ok]) simp
  then have inv': "imdr_inv m' (lg i) n" by (simp add: imd_ok_def)
  have n: "n < 256" using imdr_inv_small [OF inv] by simp
  have "find (\<lambda>k. rw m' r (8 + 4 * k) = eid) [1..<n] = find (\<lambda>k. rw m r (8 + 4 * k) = eid) [1..<n]"
    by (rule find_cong) (use n in \<open>auto simp: m' rw_ww\<close>)
  then have "imdr_entry_find m' (lg i) eid = imdr_entry_find m (lg i) eid"
    by (simp add: find_in_words [OF inv] find_in_words [OF inv'] r_def del: One_nat_def)
  moreover have "imdr_entry_add m' (lg i) eid sz = (m', NULL)"
    using locked imdr_entry_add_locked unfolding r_def by blast
  moreover have "imd_entry_remove m' i e = (m', -1)"
    using locked by (simp add: imd_entry_remove_def imd_entry_to_imdr_def imdr_has_entry_def [of _ "sm i"] sm Let_def r_def)
  ultimately show ?thesis
    using ret by (simp add: single_add sm imd_entry_find_def imdr_entry_find_def [of _ "\<lparr>imdr_limit = 0, imdr_root = NULL\<rparr>"])
qed

lemma align_up_max:
  fixes a :: "32 word"
  assumes "is_power_of_2 a" and "a \<noteq> 1"
  shows "align_up 0xffffffff a = 0"
proof (cases "a = 0")
  case True
  then show ?thesis by (simp add: align_up_def)
next
  case False
  then obtain k where k: "a = 2 ^ k" "k < 32" using is_power_of_2D [OF assms(1)] by auto
  then have "0 < k" using assms(2) by (cases k) auto
  have "0xffffffff + (a - 1) = a - 2" by simp
  then have "align_up 0xffffffff a = align_down (a - 2) a"
    by (simp only: align_up_def align_down_def)
  moreover have "unat (a - 2) < 2 ^ k"
  proof -
    have u: "unat a = 2 ^ k"
      using unat_of_nat_id [of "2 ^ k", where 'a = 32] k power_strict_increasing [of k 32 "2 :: nat"] by simp
    have "(2::nat) ^ 1 \<le> 2 ^ k" using \<open>0 < k\<close> by (intro power_increasing) simp_all
    then have "unat (a - 2) = 2 ^ k - 2" using u by (subst unat_sub_nowrap) simp_all
    moreover have "(2::nat) ^ k - 2 < 2 ^ k" by simp
    ultimately show ?thesis by (simp only:)
  qed
  ultimately have "unat (align_up 0xffffffff a) = 0"
    using unat_align_down [of "a - 2" k] k(1) by simp
  then show ?thesis by (simp only: unat_eq_zero)
qed

text \<open>
  C31: A size within an alignment of the top of the address range wraps to 0 when it is
  rounded up: the add succeeds in every reachable unlocked directory with a free slot, takes
  no space, and records the huge size for a region that starts where the last one does.
\<close>

theorem imd_entry_add_size_wraps:
  assumes "imd_reach m i" and "n = unat (num_entries m (imdr_root (lg i)))" and "n < unat (max_entries m (imdr_root (lg i)))"
    and "\<not> root_is_locked m (imdr_root (lg i))" and "entry_align m (imdr_root (lg i)) \<noteq> 1"
  defines "r \<equiv> imdr_root (lg i)"
  shows "\<exists>m'. imd_entry_add m i eid 0xffffffff = (m', entry_ptr r (of_nat n)) \<and> entry_ptr r (of_nat n) \<noteq> NULL \<and>
    e_size m' (entry_ptr r (of_nat n)) = 0xffffffff \<and>
    imdr_entry_at m' (lg i) (entry_ptr r (of_nat n)) = imdr_entry_at m (lg i) (root_last_entry m r)"
proof -
  obtain k where "imd_ok m i k" using imd_reach_ok [OF assms(1)] ..
  then have ok: "imd_ok m i n" using imd_ok_num assms(2) by blast
  have inv: "imdr_inv m (lg i) n" and sm: "imdr_root (sm i) = NULL" using ok by (simp_all add: imd_ok_def)
  have r0: "r \<noteq> NULL" and al: "is_power_of_2 (entry_align m r)" and n1: "1 \<le> n"
    using inv by (simp_all add: imdr_inv_def Let_def r_def root_fields)
  have n: "n < 2 ^ 20" using imdr_inv_small [OF inv] by simp
  have used: "align_up 0xffffffff (entry_align m r) = 0"
    using al assms(5) by (intro align_up_max) (simp_all add: r_def)
  have last: "root_last_entry m r = entry_ptr r (of_nat (n - 1))" and num: "num_entries m r = of_nat n"
    using imdr_last_entry [OF inv] by (simp_all add: r_def)
  have e16: "entry_ptr r (of_nat (n - 1)) + 16 = entry_ptr r (of_nat n)"
    using n1 by (simp add: entry_ptr_def of_nat_diff algebra_simps)
  have ne: "num_entries m r \<noteq> max_entries m r" using assms(2,3) by (auto simp: r_def)
  define m' where "m' = added m (lg i) n eid 0xffffffff"
  have "imdr_entry_add m (lg i) eid 0xffffffff = (m', entry_ptr r (of_nat n))"
    using r0 assms(4) ne by (simp add: imdr_entry_add_def imd_entry_add_to_root_def r_def [symmetric] Let_def used
        last e16 entry_fields m'_def added_def num del: One_nat_def)
  moreover note rd = rw_added [OF n, of _ m "lg i" eid "0xffffffff", folded r_def m'_def]
  have "rw m' r (6 + 4 * n) = rw m r (6 + 4 * (n - 1))" "rw m' r (7 + 4 * n) = 0xffffffff" using n used by (simp_all add: rd)
  moreover have "entry_ptr r (of_nat n) \<noteq> NULL" using entry_ptr_above [OF inv, of n] by (simp add: r_def)
  ultimately show ?thesis
    by (intro exI [of _ m']) (simp add: single_add sm imdr_entry_at_def r_def [symmetric] last entry_fields del: One_nat_def)
qed

section \<open>Witnesses\<close>

definition ex_imd :: imd where
  "ex_imd = \<lparr>lg = \<lparr>imdr_limit = 0x10000, imdr_root = 0xff00\<rparr>, sm = imdr_init NULL\<rparr>"

lemma ex_created:
  "\<exists>m. imd_reach m ex_imd \<and> imdr_inv m (lg ex_imd) 1 \<and> entry_align m 0xff00 = 16 \<and> flags m 0xff00 = 0 \<and> max_offset m 0xff00 = 0"
proof -
  have "is_power_of_2 (256 :: 32 word)" "is_power_of_2 (16 :: 32 word)" by (simp_all add: is_power_of_2_def)
  then obtain m where m: "imdr_create_empty True (\<lambda>_. 0) \<lparr>imdr_limit = 0x10000, imdr_root = NULL\<rparr> 256 16 =
      Some (m, \<lparr>imdr_limit = 0x10000, imdr_root = 0xff00\<rparr>, 0)"
    "imdr_inv m \<lparr>imdr_limit = 0x10000, imdr_root = 0xff00\<rparr> 1"
    "entry_align m 0xff00 = 16" "flags m 0xff00 = 0" "max_offset m 0xff00 = 0"
    using imdr_create_empty_inv [of "0x10000" 256 16 True "\<lambda>_. 0" NULL] by auto
  have "align_down 0x10000 LIMIT_ALIGN = 0x10000" by (simp add: align_down_def LIMIT_ALIGN_def)
  then have h: "imd_handle_init 0x10000 = \<lparr>lg = \<lparr>imdr_limit = 0x10000, imdr_root = NULL\<rparr>, sm = imdr_init NULL\<rparr>"
    by (simp add: imd_handle_init_def imdr_init_def)
  have "imd_reach m ex_imd"
    using m(1) by (intro imd_reach.create [of True "\<lambda>_. 0" "0x10000" 256 16])
      (simp_all add: imd_create_empty_def h ex_imd_def is_power_of_2_def align_down_def LIMIT_ALIGN_def)
  then show ?thesis using m(2-5) by (auto simp: ex_imd_def)
qed

lemma ex_room:
  assumes "imdr_inv m (lg ex_imd) 1" and "entry_align m 0xff00 = 16" and "flags m 0xff00 = 0" and "max_offset m 0xff00 = 0"
  shows "num_entries m 0xff00 = 1" and "size_ok m (lg ex_imd) 1 100" and "entry_room m (lg ex_imd) 1 100"
    and "\<not> root_is_locked m 0xff00" and "max_entries m 0xff00 = 14"
proof -
  have d: "depth m 0xff00 0 = 0" "unat (rw m 0xff00 0) = 14" "unat (rw m 0xff00 1) = 1"
    using assms(1) by (simp_all add: imdr_inv_def ex_imd_def Let_def)
  then show "num_entries m 0xff00 = 1" "max_entries m 0xff00 = 14" by (simp_all add: root_fields word_unat_eq_iff del: One_nat_def)
  show "size_ok m (lg ex_imd) 1 100" "entry_room m (lg ex_imd) 1 100" "\<not> root_is_locked m 0xff00"
    using assms d by (simp_all add: size_ok_def entry_room_def root_is_locked_def ex_imd_def Let_def align_up_def root_fields del: One_nat_def)
qed

lemma ex_added: "\<exists>m. imd_reach m ex_imd \<and> unat (num_entries m 0xff00) = 2"
proof -
  obtain m where m: "imd_reach m ex_imd" "imdr_inv m (lg ex_imd) 1" "entry_align m 0xff00 = 16" "flags m 0xff00 = 0" "max_offset m 0xff00 = 0"
    using ex_created by blast
  note room = ex_room [OF m(2-5)]
  have "imdr_root (lg ex_imd) = 0xff00" "imdr_root (sm ex_imd) = NULL" by (simp_all add: ex_imd_def)
  note r = this
  have unl: "\<not> root_is_locked m (imdr_root (lg ex_imd))" unfolding r by (rule room(4))
  note a = imdr_entry_add_room(1,3) [OF m(2) room(3,2) unl, of 7, unfolded r]
  have num: "unat (num_entries m (imdr_root (lg ex_imd))) = 1" unfolding r room(1) by simp
  have "imd_reach (added m (lg ex_imd) 1 7 100) ex_imd"
  proof (rule imd_reach.add [OF m(1)])
    show "size_ok m (lg ex_imd) (unat (num_entries m (imdr_root (lg ex_imd)))) 100" unfolding num by (rule room(2))
    show "imd_entry_add m ex_imd 7 100 = (added m (lg ex_imd) 1 7 100, entry_ptr 0xff00 (of_nat 1))"
      by (simp only: single_add r a(1))
  qed (simp add: SMALL_REGION_ID_def)
  moreover have "unat (num_entries (added m (lg ex_imd) 1 7 100) 0xff00) = 2"
    using a(2) by (simp add: imdr_inv_def Let_def root_fields r)
  ultimately show ?thesis by blast
qed

theorem imd_recover_reachable_witness: "\<exists>m. imd_recover m (imd_handle_init 0x10000) = (ex_imd, 0)"
  using ex_created imd_recover_reachable [of _ ex_imd] by (auto simp: ex_imd_def)

theorem imd_regions_disjoint_witness:
  "\<exists>m. unat (num_entries m 0xff00) = 2 \<and>
    unat (imd_entry_at m ex_imd (entry_ptr 0xff00 1)) + unat (e_size m (entry_ptr 0xff00 1)) \<le> unat (imd_entry_at m ex_imd (entry_ptr 0xff00 0))"
proof -
  obtain m where m: "imd_reach m ex_imd" "unat (num_entries m 0xff00) = 2" using ex_added by blast
  then show ?thesis using imd_regions_disjoint [OF m(1), of 0 1] by (auto simp: ex_imd_def)
qed

theorem imd_entry_add_correct_witness:
  "\<exists>m m'. imd_entry_add m ex_imd 7 100 = (m', entry_ptr 0xff00 1) \<and> e_size m' (entry_ptr 0xff00 1) = 100"
proof -
  obtain m where m: "imd_reach m ex_imd" "imdr_inv m (lg ex_imd) 1" "entry_align m 0xff00 = 16" "flags m 0xff00 = 0" "max_offset m 0xff00 = 0"
    using ex_created by blast
  note room = ex_room [OF m(2-5)]
  have r: "imdr_root (lg ex_imd) = 0xff00" by (simp add: ex_imd_def)
  show ?thesis
    using imd_entry_add_correct [of m ex_imd 1 100 7] m(1) room by (auto simp: r Let_def)
qed

theorem imd_lockdown_refuses_witness: "\<exists>m m'. imd_lockdown m ex_imd = (m', 0) \<and> imd_entry_add m' ex_imd 7 100 = (m', NULL)"
proof -
  obtain m m' ret where m: "imd_reach m ex_imd" "imd_lockdown m ex_imd = (m', ret)" using ex_created by fastforce
  then show ?thesis using imd_lockdown_refuses [OF m, of 7 100 0] by auto
qed

theorem imd_entry_add_size_wraps_witness:
  "\<exists>m m'. imd_entry_add m ex_imd 7 0xffffffff = (m', entry_ptr 0xff00 1) \<and> e_size m' (entry_ptr 0xff00 1) = 0xffffffff"
proof -
  obtain m where m: "imd_reach m ex_imd" "imdr_inv m (lg ex_imd) 1" "entry_align m 0xff00 = 16" "flags m 0xff00 = 0" "max_offset m 0xff00 = 0"
    using ex_created by blast
  note room = ex_room [OF m(2-5)]
  have r: "imdr_root (lg ex_imd) = 0xff00" by (simp add: ex_imd_def)
  show ?thesis
    using imd_entry_add_size_wraps [of m ex_imd 1 7] m room by (auto simp: r)
qed

end
