(* ===== verification/Boot_State.thy ===== *)
theory Boot_State
  imports Prelude "HOL-Library.Sublist"
begin

text \<open>
  The ramstage boot state machine, \<^verbatim>\<open>src/lib/hardwaremain.c\<close>. The walk is a step function over an
  explicit program counter; what callbacks, timers, the device code and cooperative threads do to
  the machine is a sequence of calls of its interface (schedule, block, unblock) between any two
  of its steps. The calls out of the machine are recorded, in order, in a trace. A callback
  structure is its address; it may be scheduled only while it is in no list.
  The configuration is the one with a monotonic timer and a timer queue.
\<close>

section \<open>States and phases\<close>

datatype boot_state_t = BS_PRE_DEVICE | BS_DEV_INIT_CHIPS | BS_DEV_ENUMERATE | BS_DEV_RESOURCES
  | BS_DEV_ENABLE | BS_DEV_INIT | BS_POST_DEVICE | BS_OS_RESUME_CHECK | BS_OS_RESUME
  | BS_WRITE_TABLES | BS_PAYLOAD_LOAD | BS_PAYLOAD_BOOT

datatype boot_state_sequence_t = BS_ON_ENTRY | BS_ON_EXIT

text \<open>The enumerators are numbered in order, and the code compares them by number.\<close>

fun bs_num :: "boot_state_t \<Rightarrow> nat" where
  "bs_num BS_PRE_DEVICE = 0"
| "bs_num BS_DEV_INIT_CHIPS = 1"
| "bs_num BS_DEV_ENUMERATE = 2"
| "bs_num BS_DEV_RESOURCES = 3"
| "bs_num BS_DEV_ENABLE = 4"
| "bs_num BS_DEV_INIT = 5"
| "bs_num BS_POST_DEVICE = 6"
| "bs_num BS_OS_RESUME_CHECK = 7"
| "bs_num BS_OS_RESUME = 8"
| "bs_num BS_WRITE_TABLES = 9"
| "bs_num BS_PAYLOAD_LOAD = 10"
| "bs_num BS_PAYLOAD_BOOT = 11"

lemma bs_num_inject: "bs_num s = bs_num t \<longleftrightarrow> s = t"
  by (cases s; cases t) simp_all

instantiation boot_state_t :: linorder
begin

definition less_eq_boot_state_t :: "boot_state_t \<Rightarrow> boot_state_t \<Rightarrow> bool" where
  "s \<le> t \<longleftrightarrow> bs_num s \<le> bs_num t"

definition less_boot_state_t :: "boot_state_t \<Rightarrow> boot_state_t \<Rightarrow> bool" where
  "s < t \<longleftrightarrow> bs_num s < bs_num t"

instance
  by standard (auto simp: less_eq_boot_state_t_def less_boot_state_t_def bs_num_inject)

end

instantiation boot_state_sequence_t :: linorder
begin

definition less_eq_boot_state_sequence_t :: "boot_state_sequence_t \<Rightarrow> boot_state_sequence_t \<Rightarrow> bool" where
  "p \<le> q \<longleftrightarrow> p = BS_ON_ENTRY \<or> q = BS_ON_EXIT"

definition less_boot_state_sequence_t :: "boot_state_sequence_t \<Rightarrow> boot_state_sequence_t \<Rightarrow> bool" where
  "p < q \<longleftrightarrow> p = BS_ON_ENTRY \<and> q = BS_ON_EXIT"

instance
  by standard (auto simp: less_eq_boot_state_sequence_t_def less_boot_state_sequence_t_def
      intro: boot_state_sequence_t.exhaust)

end

section \<open>The machine\<close>

type_synonym bscb = ptr

datatype bs_call = Ramstage_adainit | Init_timer | Console_init | Post_code_console_ready | Cbmem_initialize
  | Timestamp_init | Timestamp_add_now string | Post_code_entry_ramstage | Acpi_is_wakeup | Exception_init | Threads_initialize
  | Dev_initialize_chips | Dev_enumerate | Dev_configure | Dev_enable | Dev_initialize | Dev_finalize
  | Acpi_find_wakeup_vector | Acpi_prepare_resume_backup | Arch_bootstate_coreboot_exit | Acpi_resume ptr
  | Write_tables | Dev_finalize_chips | Payload_load | Payload_run | Die

datatype event = Call bs_call | Callback bscb boot_state_t boot_state_sequence_t | Timers_run
  | Post_code boot_state_t | Report boot_state_t int int int

record boot_phase =
  callbacks :: "bscb list"
  blockers :: int

record boot_state_times =
  num_samples :: nat
  samples :: "int list"

definition MAX_TIME_SAMPLES :: nat where "MAX_TIME_SAMPLES = 4"

record boot_state =
  phases :: "boot_state_sequence_t \<Rightarrow> boot_phase"
  bs_arg :: ptr
  complete :: bool
  times :: boot_state_times

datatype walk_pc = Loop | On_entry | Run_state | On_exit boot_state_t | Stopped | Handed_off

text \<open>\<open>boot_states\<close>, \<open>current_phase\<close>, where the walk is, and the calls made so far.\<close>

record machine =
  boot_states :: "boot_state_t \<Rightarrow> boot_state"
  state_id :: boot_state_t
  seq :: boot_state_sequence_t
  pc :: walk_pc
  trace :: "event list"

definition BS_INIT :: boot_state where
  "BS_INIT = \<lparr>phases = (\<lambda>_. \<lparr>callbacks = [], blockers = 0\<rparr>), bs_arg = NULL, complete = False,
     times = \<lparr>num_samples = 0, samples = replicate MAX_TIME_SAMPLES 0\<rparr>\<rparr>"

definition initial :: machine where
  "initial = \<lparr>boot_states = (\<lambda>_. BS_INIT), state_id = BS_PRE_DEVICE, seq = BS_ON_ENTRY, pc = Loop, trace = []\<rparr>"

definition upd_state :: "boot_state_t \<Rightarrow> (boot_state \<Rightarrow> boot_state) \<Rightarrow> machine \<Rightarrow> machine" where
  "upd_state s f m = m\<lparr>boot_states := (boot_states m)(s := f (boot_states m s))\<rparr>"

definition upd_phase :: "boot_state_t \<Rightarrow> boot_state_sequence_t \<Rightarrow> (boot_phase \<Rightarrow> boot_phase) \<Rightarrow> machine \<Rightarrow> machine" where
  "upd_phase s q f = upd_state s (\<lambda>b. b\<lparr>phases := (phases b)(q := f (phases b q))\<rparr>)"

definition log :: "event \<Rightarrow> machine \<Rightarrow> machine" where
  "log e m = m\<lparr>trace := trace m @ [e]\<rparr>"

abbreviation phase_of :: "machine \<Rightarrow> boot_state_t \<Rightarrow> boot_state_sequence_t \<Rightarrow> boot_phase" where
  "phase_of m s q \<equiv> phases (boot_states m s) q"

section \<open>The state functions\<close>

text \<open>
  What the platform answers: whether ACPI resume is compiled in, the wake vector found, whether
  the resume and the payload come back, and the time of the sample taken in this step.
  A state function returns the next state, or \<open>None\<close> when it does not return.
\<close>

record env =
  have_acpi_resume :: bool
  wakeup_vector :: ptr
  resume_returns :: bool
  payload_returns :: bool
  now :: int

type_synonym run_state = "env \<Rightarrow> ptr \<Rightarrow> machine \<Rightarrow> machine \<times> boot_state_t option"

definition bs_pre_device :: run_state where
  "bs_pre_device env arg m = (m, Some BS_DEV_INIT_CHIPS)"

definition bs_dev_init_chips :: run_state where
  "bs_dev_init_chips env arg m =
     (log (Call Dev_initialize_chips) (log (Call (Timestamp_add_now ''TS_DEVICE_ENUMERATE'')) m), Some BS_DEV_ENUMERATE)"

definition bs_dev_enumerate :: run_state where
  "bs_dev_enumerate env arg m = (log (Call Dev_enumerate) m, Some BS_DEV_RESOURCES)"

definition bs_dev_resources :: run_state where
  "bs_dev_resources env arg m =
     (log (Call Dev_configure) (log (Call (Timestamp_add_now ''TS_DEVICE_CONFIGURE'')) m), Some BS_DEV_ENABLE)"

definition bs_dev_enable :: run_state where
  "bs_dev_enable env arg m =
     (log (Call Dev_enable) (log (Call (Timestamp_add_now ''TS_DEVICE_ENABLE'')) m), Some BS_DEV_INIT)"

definition bs_dev_init :: run_state where
  "bs_dev_init env arg m =
     (log (Call Dev_initialize) (log (Call (Timestamp_add_now ''TS_DEVICE_INITIALIZE'')) m), Some BS_POST_DEVICE)"

definition bs_post_device :: run_state where
  "bs_post_device env arg m =
     (log (Call (Timestamp_add_now ''TS_DEVICE_DONE'')) (log (Call Dev_finalize) m), Some BS_OS_RESUME_CHECK)"

definition bs_os_resume_check :: run_state where
  "bs_os_resume_check env arg m =
     (let m = (if have_acpi_resume env then log (Call Acpi_find_wakeup_vector) m else m) in
      if have_acpi_resume env \<and> wakeup_vector env \<noteq> NULL
      then (upd_state BS_OS_RESUME (\<lambda>b. b\<lparr>bs_arg := wakeup_vector env\<rparr>) m, Some BS_OS_RESUME)
      else let m = (if have_acpi_resume env then log (Call Acpi_prepare_resume_backup) m else m)
           in (log (Call (Timestamp_add_now ''TS_CBMEM_POST'')) m, Some BS_WRITE_TABLES))"

definition bs_os_resume :: run_state where
  "bs_os_resume env wake_vector m =
     (if have_acpi_resume env
      then (log (Call (Acpi_resume wake_vector)) (log (Call Arch_bootstate_coreboot_exit) m),
            if resume_returns env then Some BS_WRITE_TABLES else None)
      else (m, Some BS_WRITE_TABLES))"

definition bs_write_tables :: run_state where
  "bs_write_tables env arg m =
     (log (Call Dev_finalize_chips) (log (Call (Timestamp_add_now ''TS_FINALIZE_CHIPS''))
       (log (Call Write_tables) (log (Call (Timestamp_add_now ''TS_WRITE_TABLES'')) m))), Some BS_PAYLOAD_LOAD)"

definition bs_payload_load :: run_state where
  "bs_payload_load env arg m = (log (Call Payload_load) m, Some BS_PAYLOAD_BOOT)"

definition bs_payload_boot :: run_state where
  "bs_payload_boot env arg m =
     (log (Call Payload_run) (log (Call Arch_bootstate_coreboot_exit) m),
      if payload_returns env then Some BS_PAYLOAD_BOOT else None)"

fun run_state :: "boot_state_t \<Rightarrow> run_state" where
  "run_state BS_PRE_DEVICE = bs_pre_device"
| "run_state BS_DEV_INIT_CHIPS = bs_dev_init_chips"
| "run_state BS_DEV_ENUMERATE = bs_dev_enumerate"
| "run_state BS_DEV_RESOURCES = bs_dev_resources"
| "run_state BS_DEV_ENABLE = bs_dev_enable"
| "run_state BS_DEV_INIT = bs_dev_init"
| "run_state BS_POST_DEVICE = bs_post_device"
| "run_state BS_OS_RESUME_CHECK = bs_os_resume_check"
| "run_state BS_OS_RESUME = bs_os_resume"
| "run_state BS_WRITE_TABLES = bs_write_tables"
| "run_state BS_PAYLOAD_LOAD = bs_payload_load"
| "run_state BS_PAYLOAD_BOOT = bs_payload_boot"

section \<open>The walk\<close>

definition bs_sample_time :: "int \<Rightarrow> boot_state_t \<Rightarrow> machine \<Rightarrow> machine" where
  "bs_sample_time t s = upd_state s (\<lambda>b. b\<lparr>times := \<lparr>num_samples = num_samples (times b) + 1,
     samples = (samples (times b))[num_samples (times b) := t]\<rparr>\<rparr>)"

definition bs_report_time :: "boot_state_t \<Rightarrow> machine \<Rightarrow> machine" where
  "bs_report_time s m =
     (let t = samples (times (boot_states m s)) in
      log (Report s (t ! 1 - t ! 0) (t ! 2 - t ! 1) (t ! 3 - t ! 2)) m)"

definition bs_run_timers :: "machine \<Rightarrow> machine" where
  "bs_run_timers = log Timers_run"

text \<open>One round of the loop of \<^verbatim>\<open>bs_call_callbacks\<close>; \<open>True\<close> when it breaks.\<close>

definition bs_call_callbacks :: "boot_state_t \<Rightarrow> boot_state_sequence_t \<Rightarrow> machine \<Rightarrow> machine \<times> bool" where
  "bs_call_callbacks s q m =
     (case callbacks (phase_of m s q) of
        c # cs \<Rightarrow> (log (Callback c s q) (upd_phase s q (\<lambda>p. p\<lparr>callbacks := cs\<rparr>) m), False)
      | [] \<Rightarrow> if blockers (phase_of m s q) = 0 then (m, True) else (bs_run_timers m, False))"

text \<open>One step of \<^verbatim>\<open>bs_walk_state_machine\<close>.\<close>

definition bs_walk_step :: "env \<Rightarrow> machine \<Rightarrow> machine" where
  "bs_walk_step env m =
     (let s = state_id m in
      case pc m of
        Loop \<Rightarrow>
          if complete (boot_states m s) then (log (Call Die) m)\<lparr>pc := Stopped\<rparr>
          else (bs_sample_time (now env) s (bs_run_timers m))\<lparr>pc := On_entry\<rparr>
      | On_entry \<Rightarrow>
          (case bs_call_callbacks s (seq m) m of
             (m, False) \<Rightarrow> m
           | (m, True) \<Rightarrow> (log (Post_code s) (bs_sample_time (now env) s (m\<lparr>seq := BS_ON_EXIT\<rparr>)))\<lparr>pc := Run_state\<rparr>)
      | Run_state \<Rightarrow>
          (case run_state s env (bs_arg (boot_states m s)) m of
             (m, None) \<Rightarrow> m\<lparr>pc := Handed_off\<rparr>
           | (m, Some next_id) \<Rightarrow> (bs_sample_time (now env) s m)\<lparr>pc := On_exit next_id\<rparr>)
      | On_exit next_id \<Rightarrow>
          (case bs_call_callbacks s (seq m) m of
             (m, False) \<Rightarrow> m
           | (m, True) \<Rightarrow>
               let m = m\<lparr>state_id := next_id, seq := BS_ON_ENTRY\<rparr>;
                   m = bs_report_time s (bs_sample_time (now env) s m)
               in (upd_state s (\<lambda>b. b\<lparr>complete := True\<rparr>) m)\<lparr>pc := Loop\<rparr>)
      | Stopped \<Rightarrow> m
      | Handed_off \<Rightarrow> m)"

section \<open>The interface\<close>

definition boot_state_sched_callback :: "machine \<Rightarrow> boot_state_t \<Rightarrow> bscb \<Rightarrow> boot_state_sequence_t \<Rightarrow> machine \<times> int" where
  "boot_state_sched_callback m s c q =
     (if complete (boot_states m s) then (m, -1)
      else (upd_phase s q (\<lambda>p. p\<lparr>callbacks := c # callbacks p\<rparr>) m, 0))"

definition boot_state_sched_on_entry :: "machine \<Rightarrow> bscb \<Rightarrow> boot_state_t \<Rightarrow> machine \<times> int" where
  "boot_state_sched_on_entry m c s = boot_state_sched_callback m s c BS_ON_ENTRY"

definition boot_state_sched_on_exit :: "machine \<Rightarrow> bscb \<Rightarrow> boot_state_t \<Rightarrow> machine \<times> int" where
  "boot_state_sched_on_exit m c s = boot_state_sched_callback m s c BS_ON_EXIT"

text \<open>\<open>struct boot_state_init_entry\<close>: state, when, callback.\<close>

definition boot_state_schedule_static_entries ::
    "(boot_state_t \<times> boot_state_sequence_t \<times> bscb) list \<Rightarrow> machine \<Rightarrow> machine" where
  "boot_state_schedule_static_entries entries m =
     fold (\<lambda>(s, w, c) m. fst (if w = BS_ON_ENTRY then boot_state_sched_on_entry m c s
                              else boot_state_sched_on_exit m c s)) entries m"

text \<open>\<open>main\<close> up to the walk, with the entries the linker collected.\<close>

definition main_start :: "bool \<Rightarrow> env \<Rightarrow> (boot_state_t \<times> boot_state_sequence_t \<times> bscb) list \<Rightarrow> machine" where
  "main_start x86 env entries =
     (let calls = [Ramstage_adainit] @ (if x86 then [Init_timer] else []) @
            [Console_init, Post_code_console_ready, Cbmem_initialize, Timestamp_init,
             Timestamp_add_now ''TS_START_RAMSTAGE'', Post_code_entry_ramstage] @
            (if have_acpi_resume env then [Acpi_is_wakeup] else []) @ [Exception_init, Threads_initialize]
      in boot_state_schedule_static_entries entries (fold (\<lambda>c. log (Call c)) calls initial))"

definition phase_done :: "machine \<Rightarrow> boot_state_t \<Rightarrow> boot_state_sequence_t \<Rightarrow> bool" where
  "phase_done m s q \<longleftrightarrow> state_id m > s \<or> state_id m = s \<and> seq m > q"

definition boot_state_block :: "machine \<Rightarrow> boot_state_t \<Rightarrow> boot_state_sequence_t \<Rightarrow> machine \<times> int" where
  "boot_state_block m s q =
     (if phase_done m s q then (m, -1)
      else (upd_phase s q (\<lambda>p. p\<lparr>blockers := blockers p + 1\<rparr>) m, 0))"

definition boot_state_unblock :: "machine \<Rightarrow> boot_state_t \<Rightarrow> boot_state_sequence_t \<Rightarrow> machine \<times> int" where
  "boot_state_unblock m s q =
     (if phase_done m s q then (m, -1)
      else if blockers (phase_of m s q) = 0 then (m, -1)
      else (upd_phase s q (\<lambda>p. p\<lparr>blockers := blockers p - 1\<rparr>) m, 0))"

definition boot_state_current_block :: "machine \<Rightarrow> machine" where
  "boot_state_current_block m = fst (boot_state_block m (state_id m) (seq m))"

definition boot_state_current_unblock :: "machine \<Rightarrow> machine" where
  "boot_state_current_unblock m = fst (boot_state_unblock m (state_id m) (seq m))"

section \<open>Runs\<close>

datatype action = Walk env | Sched boot_state_t boot_state_sequence_t bscb
  | Block boot_state_t boot_state_sequence_t | Unblock boot_state_t boot_state_sequence_t
  | Current_block | Current_unblock

fun act :: "action \<Rightarrow> machine \<Rightarrow> machine" where
  "act (Walk env) m = bs_walk_step env m"
| "act (Sched s q c) m = fst (boot_state_sched_callback m s c q)"
| "act (Block s q) m = fst (boot_state_block m s q)"
| "act (Unblock s q) m = fst (boot_state_unblock m s q)"
| "act Current_block m = boot_state_current_block m"
| "act Current_unblock m = boot_state_current_unblock m"

abbreviation run :: "action list \<Rightarrow> machine \<Rightarrow> machine" where
  "run \<equiv> fold act"

inductive bs_reach :: "machine \<Rightarrow> bool" where
  start: "bs_reach (main_start x86 env entries)"
| step: "bs_reach m \<Longrightarrow> bs_reach (act a m)"

lemma bs_reach_run: "bs_reach m \<Longrightarrow> bs_reach (run as m)"
  by (induction as arbitrary: m) (auto intro: bs_reach.step)

section \<open>What each operation changes\<close>

lemma upd_state_simps [simp]:
  "boot_states (upd_state s f m) = (boot_states m)(s := f (boot_states m s))"
  "state_id (upd_state s f m) = state_id m" "seq (upd_state s f m) = seq m"
  "pc (upd_state s f m) = pc m" "trace (upd_state s f m) = trace m"
  by (simp_all add: upd_state_def)

lemma log_simps [simp]:
  "boot_states (log e m) = boot_states m" "state_id (log e m) = state_id m" "seq (log e m) = seq m"
  "pc (log e m) = pc m" "trace (log e m) = trace m @ [e]"
  by (simp_all add: log_def)

lemma upd_phase_simps [simp]:
  "state_id (upd_phase s q f m) = state_id m" "seq (upd_phase s q f m) = seq m"
  "pc (upd_phase s q f m) = pc m" "trace (upd_phase s q f m) = trace m"
  "complete (boot_states (upd_phase s q f m) t) = complete (boot_states m t)"
  "times (boot_states (upd_phase s q f m) t) = times (boot_states m t)"
  "bs_arg (boot_states (upd_phase s q f m) t) = bs_arg (boot_states m t)"
  "phase_of (upd_phase s q f m) t p = (if t = s \<and> p = q then f (phase_of m s q) else phase_of m t p)"
  by (auto simp: upd_phase_def)

lemma bs_sample_time_simps [simp]:
  "state_id (bs_sample_time t s m) = state_id m" "seq (bs_sample_time t s m) = seq m"
  "pc (bs_sample_time t s m) = pc m" "trace (bs_sample_time t s m) = trace m"
  "complete (boot_states (bs_sample_time t s m) u) = complete (boot_states m u)"
  "bs_arg (boot_states (bs_sample_time t s m) u) = bs_arg (boot_states m u)"
  "phases (boot_states (bs_sample_time t s m) u) = phases (boot_states m u)"
  "num_samples (times (boot_states (bs_sample_time t s m) u)) =
     (if u = s then num_samples (times (boot_states m s)) + 1 else num_samples (times (boot_states m u)))"
  "length (samples (times (boot_states (bs_sample_time t s m) u))) = length (samples (times (boot_states m u)))"
  by (auto simp: bs_sample_time_def)

lemma bs_report_time_simps [simp]:
  "boot_states (bs_report_time s m) = boot_states m" "state_id (bs_report_time s m) = state_id m"
  "seq (bs_report_time s m) = seq m" "pc (bs_report_time s m) = pc m"
  "\<exists>e. trace (bs_report_time s m) = trace m @ [e]"
  by (simp_all add: bs_report_time_def Let_def)

lemma bs_run_timers_simps [simp]:
  "boot_states (bs_run_timers m) = boot_states m" "state_id (bs_run_timers m) = state_id m"
  "seq (bs_run_timers m) = seq m" "pc (bs_run_timers m) = pc m" "trace (bs_run_timers m) = trace m @ [Timers_run]"
  by (simp_all add: bs_run_timers_def)

lemmas run_state_defs = bs_pre_device_def bs_dev_init_chips_def bs_dev_enumerate_def bs_dev_resources_def
  bs_dev_enable_def bs_dev_init_def bs_post_device_def bs_os_resume_check_def bs_os_resume_def
  bs_write_tables_def bs_payload_load_def bs_payload_boot_def

text \<open>A state function touches only the argument of the resume state, and goes forward.\<close>

lemma run_state_frame:
  assumes "run_state s env a m = (m', nx)"
  shows "state_id m' = state_id m \<and> seq m' = seq m \<and> pc m' = pc m \<and>
    phases (boot_states m' t) = phases (boot_states m t) \<and> complete (boot_states m' t) = complete (boot_states m t) \<and>
    times (boot_states m' t) = times (boot_states m t)"
  using assms by (cases s) (auto simp: run_state_defs Let_def split: if_splits)

lemma run_state_next:
  assumes "run_state s env a m = (m', nx)"
  shows "case nx of None \<Rightarrow> s = BS_OS_RESUME \<or> s = BS_PAYLOAD_BOOT
    | Some t \<Rightarrow> s < t \<or> s = BS_PAYLOAD_BOOT \<and> t = BS_PAYLOAD_BOOT"
  using assms by (cases s) (auto simp: run_state_defs Let_def less_boot_state_t_def split: if_splits)

section \<open>The invariant\<close>

definition pc_inv :: "machine \<Rightarrow> bool" where
  "pc_inv m \<longleftrightarrow> (let s = state_id m; c = complete (boot_states m s); n = num_samples (times (boot_states m s)) in
     case pc m of
       Loop \<Rightarrow> seq m = BS_ON_ENTRY \<and> (if c then n = 4 \<and> s = BS_PAYLOAD_BOOT else n = 0)
     | On_entry \<Rightarrow> seq m = BS_ON_ENTRY \<and> \<not> c \<and> n = 1
     | Run_state \<Rightarrow> seq m = BS_ON_EXIT \<and> \<not> c \<and> n = 2
     | On_exit t \<Rightarrow> seq m = BS_ON_EXIT \<and> \<not> c \<and> n = 3 \<and> (s < t \<or> s = BS_PAYLOAD_BOOT \<and> t = BS_PAYLOAD_BOOT)
     | Stopped \<Rightarrow> seq m = BS_ON_ENTRY \<and> c \<and> n = 4 \<and> s = BS_PAYLOAD_BOOT
     | Handed_off \<Rightarrow> seq m = BS_ON_EXIT \<and> \<not> c \<and> n = 2 \<and> (s = BS_OS_RESUME \<or> s = BS_PAYLOAD_BOOT))"

definition bs_inv :: "machine \<Rightarrow> bool" where
  "bs_inv m \<longleftrightarrow> pc_inv m \<and>
     (\<forall>s. state_id m < s \<longrightarrow> \<not> complete (boot_states m s) \<and> num_samples (times (boot_states m s)) = 0) \<and>
     (\<forall>s. s < state_id m \<longrightarrow> num_samples (times (boot_states m s)) = (if complete (boot_states m s) then 4 else 0)) \<and>
     (\<forall>s q. 0 \<le> blockers (phase_of m s q)) \<and>
     (\<forall>s. length (samples (times (boot_states m s))) = MAX_TIME_SAMPLES)"

lemma bs_call_callbacks_frame:
  assumes "bs_call_callbacks s q m = (m', d)"
  shows "state_id m' = state_id m" "seq m' = seq m" "pc m' = pc m"
    "complete (boot_states m' t) = complete (boot_states m t)" "times (boot_states m' t) = times (boot_states m t)"
    "blockers (phase_of m' t p) = blockers (phase_of m t p)"
  using assms by (auto simp: bs_call_callbacks_def split: list.splits if_splits)

lemma bs_inv_same:
  assumes "bs_inv m" and "state_id m' = state_id m" "seq m' = seq m" "pc m' = pc m"
    and "\<And>t. complete (boot_states m' t) = complete (boot_states m t)" "\<And>t. times (boot_states m' t) = times (boot_states m t)"
    and "\<And>t p. 0 \<le> blockers (phase_of m' t p)"
  shows "bs_inv m'"
proof -
  have "pc_inv m' = pc_inv m" unfolding pc_inv_def assms(2-6) ..
  then show ?thesis using assms by (simp add: bs_inv_def)
qed

text \<open>The walk step, per program counter.\<close>

lemma walk_Loop:
  "pc m = Loop \<Longrightarrow> bs_walk_step env m =
     (if complete (boot_states m (state_id m)) then (log (Call Die) m)\<lparr>pc := Stopped\<rparr>
      else (bs_sample_time (now env) (state_id m) (bs_run_timers m))\<lparr>pc := On_entry\<rparr>)"
  by (simp add: bs_walk_step_def Let_def)

lemma walk_On_entry:
  "pc m = On_entry \<Longrightarrow> bs_call_callbacks (state_id m) (seq m) m = (m', d) \<Longrightarrow> bs_walk_step env m =
     (if d then (log (Post_code (state_id m)) (bs_sample_time (now env) (state_id m) (m'\<lparr>seq := BS_ON_EXIT\<rparr>)))\<lparr>pc := Run_state\<rparr>
      else m')"
  by (simp add: bs_walk_step_def Let_def split: bool.split)

lemma walk_Run_state:
  "pc m = Run_state \<Longrightarrow> run_state (state_id m) env (bs_arg (boot_states m (state_id m))) m = (m', nx) \<Longrightarrow>
   bs_walk_step env m = (case nx of None \<Rightarrow> m'\<lparr>pc := Handed_off\<rparr>
     | Some t \<Rightarrow> (bs_sample_time (now env) (state_id m) m')\<lparr>pc := On_exit t\<rparr>)"
  by (simp add: bs_walk_step_def Let_def)

lemma walk_On_exit:
  "pc m = On_exit t \<Longrightarrow> bs_call_callbacks (state_id m) (seq m) m = (m', d) \<Longrightarrow> bs_walk_step env m =
     (if d then (upd_state (state_id m) (\<lambda>b. b\<lparr>complete := True\<rparr>)
        (bs_report_time (state_id m) (bs_sample_time (now env) (state_id m) (m'\<lparr>state_id := t, seq := BS_ON_ENTRY\<rparr>))))\<lparr>pc := Loop\<rparr>
      else m')"
  by (simp add: bs_walk_step_def Let_def split: bool.split)

lemma walk_end: "pc m = Stopped \<or> pc m = Handed_off \<Longrightarrow> bs_walk_step env m = m"
  by (auto simp: bs_walk_step_def)

lemma bs_inv_walk:
  assumes inv: "bs_inv m"
  shows "bs_inv (bs_walk_step env m)"
proof (cases "pc m")
  case Loop
  then show ?thesis using inv by (auto simp: walk_Loop bs_inv_def pc_inv_def Let_def split: if_splits)
next
  case On_entry
  obtain m' d where c: "bs_call_callbacks (state_id m) (seq m) m = (m', d)" by fastforce
  note f = bs_call_callbacks_frame [OF c]
  have m': "bs_inv m'" using inv by (intro bs_inv_same [OF inv]) (simp_all add: f bs_inv_def)
  then show ?thesis
    unfolding walk_On_entry [OF On_entry c] using On_entry by (auto simp: bs_inv_def pc_inv_def Let_def f)
next
  case Run_state
  obtain m' nx where r: "run_state (state_id m) env (bs_arg (boot_states m (state_id m))) m = (m', nx)" by fastforce
  note f = run_state_frame [OF r]
  have m': "bs_inv m'" using inv by (intro bs_inv_same [OF inv]) (simp_all add: f bs_inv_def)
  then show ?thesis
    unfolding walk_Run_state [OF Run_state r] using Run_state run_state_next [OF r]
    by (auto simp: bs_inv_def pc_inv_def Let_def f split: option.split)
next
  case (On_exit t)
  obtain m' d where c: "bs_call_callbacks (state_id m) (seq m) m = (m', d)" by fastforce
  note f = bs_call_callbacks_frame [OF c]
  have m': "bs_inv m'" using inv by (intro bs_inv_same [OF inv]) (simp_all add: f bs_inv_def)
  have t: "state_id m < t \<or> state_id m = BS_PAYLOAD_BOOT \<and> t = BS_PAYLOAD_BOOT"
    using inv On_exit by (simp add: bs_inv_def pc_inv_def Let_def)
  have others: "num_samples (times (boot_states m s)) = (if complete (boot_states m s) then 4 else 0)" if "s \<noteq> state_id m" for s
    using inv that by (cases s "state_id m" rule: linorder_cases) (simp_all add: bs_inv_def)
  have past: "s \<le> t" if "complete (boot_states m s)" for s
  proof -
    have "\<not> state_id m < s" using inv that by (auto simp: bs_inv_def)
    then show ?thesis using t by (metis linorder_le_less_linear order_less_imp_le order_trans)
  qed
  show ?thesis
  proof (cases d)
    case True
    then show ?thesis
      unfolding walk_On_exit [OF On_exit c] using m' On_exit t others past
      by (auto simp: bs_inv_def pc_inv_def Let_def f not_less)
  qed (use m' walk_On_exit [OF On_exit c] in simp)
qed (use inv in \<open>simp_all add: walk_end\<close>)

lemma api_frame:
  assumes "\<And>env. a \<noteq> Walk env"
  shows "state_id (act a m) = state_id m \<and> seq (act a m) = seq m \<and> pc (act a m) = pc m \<and>
    complete (boot_states (act a m) t) = complete (boot_states m t) \<and> times (boot_states (act a m) t) = times (boot_states m t) \<and>
    trace (act a m) = trace m"
  using assms by (cases a) (auto simp: boot_state_sched_callback_def boot_state_block_def boot_state_unblock_def
      boot_state_current_block_def boot_state_current_unblock_def)

lemma api_blockers:
  assumes "\<And>env. a \<noteq> Walk env" and "0 \<le> blockers (phase_of m s q)"
  shows "0 \<le> blockers (phase_of (act a m) s q)"
  using assms by (cases a) (auto simp: boot_state_sched_callback_def boot_state_block_def boot_state_unblock_def
      boot_state_current_block_def boot_state_current_unblock_def)

lemma bs_inv_act: "bs_inv m \<Longrightarrow> bs_inv (act a m)"
proof (cases "\<exists>env. a = Walk env")
  case False
  then have a: "\<And>env. a \<noteq> Walk env" by blast
  assume inv: "bs_inv m"
  then have "0 \<le> blockers (phase_of (act a m) t p)" for t p by (intro api_blockers [OF a]) (simp add: bs_inv_def)
  then show ?thesis by (intro bs_inv_same [OF inv]) (simp_all only: api_frame [OF a])
qed (auto simp: bs_inv_walk)

lemma bs_inv_initial: "bs_inv initial"
  by (simp add: bs_inv_def pc_inv_def initial_def BS_INIT_def Let_def)

lemma static_entries_act:
  "boot_state_schedule_static_entries entries m = run (map (\<lambda>(s, w, c). Sched s w c) entries) m"
proof -
  have "(\<lambda>(s, w, c) m. fst (if w = BS_ON_ENTRY then boot_state_sched_on_entry m c s else boot_state_sched_on_exit m c s)) =
      act \<circ> (\<lambda>(s, w, c). Sched s w c)"
  proof
    fix e :: "boot_state_t \<times> boot_state_sequence_t \<times> bscb"
    obtain s w c where "e = (s, w, c)" by (cases e)
    then show "(case e of (s, w, c) \<Rightarrow> \<lambda>m. fst (if w = BS_ON_ENTRY then boot_state_sched_on_entry m c s else boot_state_sched_on_exit m c s)) =
        (act \<circ> (\<lambda>(s, w, c). Sched s w c)) e"
      by (cases w) (auto simp: boot_state_sched_on_entry_def boot_state_sched_on_exit_def)
  qed
  then show ?thesis unfolding boot_state_schedule_static_entries_def fold_map by (simp only:)
qed

lemma bs_inv_run: "bs_inv m \<Longrightarrow> bs_inv (run as m)"
  by (induction as arbitrary: m) (simp_all add: bs_inv_act)

lemma fold_log: "bs_inv m \<Longrightarrow> bs_inv (fold (\<lambda>c. log (Call c)) cs m)"
proof (induction cs arbitrary: m)
  case (Cons c cs)
  have "bs_inv (log (Call c) m)" using Cons.prems by (rule bs_inv_same) (use Cons.prems in \<open>simp_all add: bs_inv_def\<close>)
  then show ?case using Cons.IH by simp
qed simp

lemma bs_reach_inv: "bs_reach m \<Longrightarrow> bs_inv m"
proof (induction rule: bs_reach.induct)
  case (start x86 env entries)
  then show ?case
    unfolding main_start_def Let_def static_entries_act by (intro bs_inv_run fold_log bs_inv_initial)
qed (rule bs_inv_act)

text \<open>
  In every reachable state of the boot machine, whatever callbacks, timers and device
  code ask of it, the time samples stay inside their array of four, no blocker count is
  negative, and the walk ends, with all of its states at most once executed, only in the
  payload state or in the resume of the operating system.
\<close>

theorem boot_machine_bounds:
  assumes "bs_reach m"
  shows "(\<forall>s. num_samples (times (boot_states m s)) \<le> MAX_TIME_SAMPLES \<and>
      length (samples (times (boot_states m s))) = MAX_TIME_SAMPLES \<and>
      (complete (boot_states m s) \<longleftrightarrow> num_samples (times (boot_states m s)) = MAX_TIME_SAMPLES)) \<and>
    (\<forall>s q. 0 \<le> blockers (phase_of m s q)) \<and>
    (pc m = Stopped \<longrightarrow> state_id m = BS_PAYLOAD_BOOT \<and> complete (boot_states m BS_PAYLOAD_BOOT)) \<and>
    (pc m = Handed_off \<longrightarrow> state_id m = BS_OS_RESUME \<or> state_id m = BS_PAYLOAD_BOOT)"
proof -
  have inv: "bs_inv m" using assms by (rule bs_reach_inv)
  have "num_samples (times (boot_states m s)) \<le> 4 \<and> (complete (boot_states m s) \<longleftrightarrow> num_samples (times (boot_states m s)) = 4)" for s
  proof (cases "s = state_id m")
    case True
    then show ?thesis
      using inv by (cases "pc m") (auto simp: bs_inv_def pc_inv_def Let_def split: if_splits)
  next
    case False
    then consider "state_id m < s" | "s < state_id m" by (meson linorder_less_linear)
    then show ?thesis using inv by cases (auto simp: bs_inv_def)
  qed
  moreover have "(pc m = Stopped \<longrightarrow> state_id m = BS_PAYLOAD_BOOT \<and> complete (boot_states m BS_PAYLOAD_BOOT)) \<and>
      (pc m = Handed_off \<longrightarrow> state_id m = BS_OS_RESUME \<or> state_id m = BS_PAYLOAD_BOOT)"
    using inv by (auto simp: bs_inv_def pc_inv_def Let_def)
  moreover have "\<forall>s q. 0 \<le> blockers (phase_of m s q)" "\<forall>s. length (samples (times (boot_states m s))) = MAX_TIME_SAMPLES"
    using inv by (simp_all add: bs_inv_def)
  ultimately show ?thesis unfolding MAX_TIME_SAMPLES_def by blast
qed

section \<open>The effect of a step on the phases\<close>

text \<open>Everything but the program counter and the samples; \<open>es\<close> is what the step adds to the trace.\<close>

definition same_phases :: "machine \<Rightarrow> machine \<Rightarrow> bool" where
  "same_phases m m' \<longleftrightarrow> state_id m' = state_id m \<and> seq m' = seq m \<and>
     (\<forall>t. complete (boot_states m' t) = complete (boot_states m t) \<and> phases (boot_states m' t) = phases (boot_states m t))"

definition adds :: "machine \<Rightarrow> event list \<Rightarrow> machine \<Rightarrow> bool" where
  "adds m es m' \<longleftrightarrow> trace m' = trace m @ es"

definition quiet :: "event list \<Rightarrow> bool" where
  "quiet es \<longleftrightarrow> (\<forall>c s q. Callback c s q \<notin> set es)"

lemma run_state_quiet:
  assumes "run_state s env a m = (m', nx)"
  shows "\<exists>es. quiet es \<and> adds m es m'"
  using assms by (cases s) (auto simp: run_state_defs Let_def quiet_def adds_def split: if_splits)

lemma call_cases:
  assumes "bs_call_callbacks s q m = (m', d)"
  obtains "d" "m' = m" "callbacks (phase_of m s q) = []" "blockers (phase_of m s q) = 0"
  | "\<not> d" "m' = bs_run_timers m" "callbacks (phase_of m s q) = []" "blockers (phase_of m s q) \<noteq> 0"
  | c cs where "\<not> d" "callbacks (phase_of m s q) = c # cs"
      "m' = log (Callback c s q) (upd_phase s q (\<lambda>p. p\<lparr>callbacks := cs\<rparr>) m)"
  using assms by (auto simp: bs_call_callbacks_def split: list.splits if_splits)

lemma walk_effect:
  assumes inv: "bs_inv m"
  obtains (same) es where "same_phases m (bs_walk_step env m)" "quiet es" "adds m es (bs_walk_step env m)"
  | (call) c cs where "\<not> complete (boot_states m (state_id m))" "callbacks (phase_of m (state_id m) (seq m)) = c # cs"
      "bs_walk_step env m = log (Callback c (state_id m) (seq m)) (upd_phase (state_id m) (seq m) (\<lambda>p. p\<lparr>callbacks := cs\<rparr>) m)"
  | (entered) es where "seq m = BS_ON_ENTRY" "callbacks (phase_of m (state_id m) BS_ON_ENTRY) = []"
      "blockers (phase_of m (state_id m) BS_ON_ENTRY) = 0" "quiet es" "adds m es (bs_walk_step env m)"
      "same_phases (m\<lparr>seq := BS_ON_EXIT\<rparr>) (bs_walk_step env m)"
  | (left) t es where "seq m = BS_ON_EXIT" "callbacks (phase_of m (state_id m) BS_ON_EXIT) = []"
      "blockers (phase_of m (state_id m) BS_ON_EXIT) = 0" "quiet es" "adds m es (bs_walk_step env m)"
      "same_phases (upd_state (state_id m) (\<lambda>b. b\<lparr>complete := True\<rparr>) (m\<lparr>state_id := t, seq := BS_ON_ENTRY\<rparr>)) (bs_walk_step env m)"
      "state_id m < t \<or> state_id m = BS_PAYLOAD_BOOT \<and> t = BS_PAYLOAD_BOOT"
proof (cases "pc m")
  case Loop
  show thesis
    by (rule same [of "if complete (boot_states m (state_id m)) then [Call Die] else [Timers_run]"])
      (auto simp: walk_Loop [OF Loop] same_phases_def quiet_def adds_def)
next
  case On_entry
  obtain m' d where c: "bs_call_callbacks (state_id m) (seq m) m = (m', d)" by fastforce
  note w = walk_On_entry [OF On_entry c]
  have e: "seq m = BS_ON_ENTRY" "\<not> complete (boot_states m (state_id m))"
    using inv On_entry by (simp_all add: bs_inv_def pc_inv_def Let_def)
  show thesis using c
  proof (cases rule: call_cases)
    case 1
    then show thesis using e by (intro entered [of "[Post_code (state_id m)]"])
      (simp_all add: w same_phases_def quiet_def adds_def)
  next
    case 2
    then show thesis by (intro same [of "[Timers_run]"]) (simp_all add: w same_phases_def quiet_def adds_def)
  next
    case (3 c cs)
    then show thesis using e(2) by (intro call) (simp_all add: w)
  qed
next
  case Run_state
  obtain m' nx where r: "run_state (state_id m) env (bs_arg (boot_states m (state_id m))) m = (m', nx)" by fastforce
  obtain es where es: "quiet es" "adds m es m'" using run_state_quiet [OF r] by blast
  show thesis
    using es run_state_frame [OF r]
    by (intro same [of es]) (auto simp: walk_Run_state [OF Run_state r] same_phases_def adds_def split: option.split)
next
  case (On_exit t)
  obtain m' d where c: "bs_call_callbacks (state_id m) (seq m) m = (m', d)" by fastforce
  note w = walk_On_exit [OF On_exit c]
  have e: "seq m = BS_ON_EXIT" "\<not> complete (boot_states m (state_id m))"
    "state_id m < t \<or> state_id m = BS_PAYLOAD_BOOT \<and> t = BS_PAYLOAD_BOOT"
    using inv On_exit by (simp_all add: bs_inv_def pc_inv_def Let_def)
  show thesis using c
  proof (cases rule: call_cases)
    case 1
    obtain x where x: "trace (bs_report_time (state_id m) (bs_sample_time (now env) (state_id m) (m\<lparr>state_id := t, seq := BS_ON_ENTRY\<rparr>))) = trace m @ [x]" "quiet [x]"
      by (simp add: bs_report_time_def Let_def quiet_def)
    then show thesis using e 1
      by (intro left [of "[x]" t]) (simp_all add: w same_phases_def adds_def)
  next
    case 2
    then show thesis by (intro same [of "[Timers_run]"]) (simp_all add: w same_phases_def quiet_def adds_def)
  next
    case (3 c cs)
    then show thesis using e(2) by (intro call) (simp_all add: w)
  qed
next
  case Stopped
  then show thesis by (intro same [of "[]"]) (simp_all add: walk_end same_phases_def quiet_def adds_def)
next
  case Handed_off
  then show thesis by (intro same [of "[]"]) (simp_all add: walk_end same_phases_def quiet_def adds_def)
qed

section \<open>Callbacks and blockers over a run\<close>

text \<open>A phase that will not run any more: its state is complete, or the walk is past it.\<close>

definition passed :: "machine \<Rightarrow> boot_state_t \<Rightarrow> boot_state_sequence_t \<Rightarrow> bool" where
  "passed m s q \<longleftrightarrow> complete (boot_states m s) \<or> state_id m = s \<and> q = BS_ON_ENTRY \<and> seq m = BS_ON_EXIT"

lemma walk_adds: "bs_inv m \<Longrightarrow> \<exists>es. adds m es (bs_walk_step env m)"
  by (erule walk_effect [where env = env]) (auto simp: adds_def)

lemma act_adds: "bs_inv m \<Longrightarrow> \<exists>es. adds m es (act a m)"
proof (cases "\<exists>env. a = Walk env")
  case False
  then have "trace (act a m) = trace m" using api_frame [of a m] by blast
  then show ?thesis by (auto simp: adds_def)
qed (use walk_adds in auto)

lemma run_adds: "bs_inv m \<Longrightarrow> \<exists>es. adds m es (run as m)"
proof (induction as arbitrary: m)
  case (Cons a as)
  obtain es where "adds m es (act a m)" using act_adds [OF Cons.prems] by blast
  moreover obtain fs where "adds (act a m) fs (run as (act a m))"
    using Cons.IH [OF bs_inv_act [OF Cons.prems]] by blast
  ultimately show ?case by (auto simp: adds_def)
qed (auto simp: adds_def)

lemma api_callbacks:
  "(\<And>env. a \<noteq> Walk env) \<Longrightarrow> set (callbacks (phase_of m s q)) \<subseteq> set (callbacks (phase_of (act a m) s q))"
  by (cases a) (auto simp: boot_state_sched_callback_def boot_state_block_def boot_state_unblock_def
      boot_state_current_block_def boot_state_current_unblock_def)

text \<open>A waiting callback is called before its phase is passed.\<close>

lemma walk_waiting:
  assumes inv: "bs_inv m" and w: "c \<in> set (callbacks (phase_of m s q))" "\<not> passed m s q"
  shows "c \<in> set (callbacks (phase_of (bs_walk_step env m) s q)) \<and> \<not> passed (bs_walk_step env m) s q \<or>
    (\<exists>es. adds m es (bs_walk_step env m) \<and> Callback c s q \<in> set es)"
  using inv
proof (cases rule: walk_effect [where env = env])
  case (same es)
  then show ?thesis using w by (simp add: same_phases_def passed_def)
next
  case (call d cs)
  then show ?thesis using w by (auto simp: passed_def adds_def)
next
  case (entered es)
  then show ?thesis using w by (cases q) (auto simp: same_phases_def passed_def)
next
  case (left t es)
  then show ?thesis using w by (cases q) (auto simp: same_phases_def passed_def)
qed

lemma run_waiting:
  assumes "bs_inv m" and "c \<in> set (callbacks (phase_of m s q))" and "\<not> passed m s q"
  shows "c \<in> set (callbacks (phase_of (run as m) s q)) \<and> \<not> passed (run as m) s q \<or>
    (\<exists>es. adds m es (run as m) \<and> Callback c s q \<in> set es)"
  using assms
proof (induction as arbitrary: m)
  case (Cons a as)
  have inv: "bs_inv (act a m)" using Cons.prems(1) by (rule bs_inv_act)
  have "c \<in> set (callbacks (phase_of (act a m) s q)) \<and> \<not> passed (act a m) s q \<or>
    (\<exists>es. adds m es (act a m) \<and> Callback c s q \<in> set es)"
  proof (cases "\<exists>env. a = Walk env")
    case False
    then show ?thesis using Cons.prems api_callbacks [of a m s q] api_frame [of a m] by (auto simp: passed_def)
  qed (use walk_waiting [OF Cons.prems] in force)
  then show ?case
  proof
    assume "c \<in> set (callbacks (phase_of (act a m) s q)) \<and> \<not> passed (act a m) s q"
    then show ?thesis using Cons.IH [OF inv] act_adds [OF Cons.prems(1), of a] by (auto simp: adds_def)
  next
    assume "\<exists>es. adds m es (act a m) \<and> Callback c s q \<in> set es"
    then show ?thesis using run_adds [OF inv, of as] by (auto simp: adds_def)
  qed
qed simp

text \<open>A passed phase stays passed and none of its callbacks is called.\<close>

lemma walk_passed:
  assumes inv: "bs_inv m" and p: "passed m s q"
  shows "passed (bs_walk_step env m) s q \<and> (\<forall>c es. adds m es (bs_walk_step env m) \<longrightarrow> Callback c s q \<notin> set es)"
  using inv
proof (cases rule: walk_effect [where env = env])
  case (same es)
  then show ?thesis using p by (auto simp: same_phases_def passed_def adds_def quiet_def)
next
  case (call d cs)
  then show ?thesis using p by (auto simp: passed_def adds_def)
next
  case (entered es)
  then show ?thesis using p by (auto simp: same_phases_def passed_def adds_def quiet_def)
next
  case (left t es)
  then show ?thesis using p by (auto simp: same_phases_def passed_def adds_def quiet_def)
qed

lemma run_passed:
  assumes "bs_inv m" and "passed m s q"
  shows "passed (run as m) s q \<and> (\<forall>c es. adds m es (run as m) \<longrightarrow> Callback c s q \<notin> set es)"
  using assms
proof (induction as arbitrary: m)
  case (Cons a as)
  have inv: "bs_inv (act a m)" using Cons.prems(1) by (rule bs_inv_act)
  have step: "passed (act a m) s q \<and> (\<forall>c es. adds m es (act a m) \<longrightarrow> Callback c s q \<notin> set es)"
  proof (cases "\<exists>env. a = Walk env")
    case False
    then show ?thesis using Cons.prems(2) api_frame [of a m] by (auto simp: passed_def adds_def)
  qed (use walk_passed [OF Cons.prems] in auto)
  obtain fs where "adds m fs (act a m)" using act_adds [OF Cons.prems(1)] by blast
  moreover obtain gs where "adds (act a m) gs (run as (act a m))" using run_adds [OF inv] by blast
  ultimately show ?case using Cons.IH [OF inv] step by (auto simp: adds_def)
qed (simp add: adds_def)

lemma seq_less: "(q :: boot_state_sequence_t) < p \<longleftrightarrow> q = BS_ON_ENTRY \<and> p = BS_ON_EXIT"
  by (simp add: less_boot_state_sequence_t_def)

text \<open>
  C32: A callback that is accepted before the walk is past its phase is called, in that phase,
  before its state completes, whatever else happens to the machine on the way.
\<close>

theorem scheduled_callback_runs:
  assumes "bs_reach m" and "boot_state_sched_callback m s c q = (m1, 0)" and "\<not> phase_done m s q"
    and "complete (boot_states (run as m1) s)"
  shows "\<exists>es. trace (run as m1) = trace m @ es \<and> Callback c s q \<in> set es"
proof -
  have m1: "m1 = act (Sched s q c) m" using assms(2) by simp
  have inv: "bs_inv m1" unfolding m1 by (intro bs_inv_act bs_reach_inv assms(1))
  have nc: "\<not> complete (boot_states m s)" "trace m1 = trace m" "c \<in> set (callbacks (phase_of m1 s q))"
    using assms(2) by (auto simp: boot_state_sched_callback_def split: if_splits)
  have "\<not> passed m1 s q"
    using nc(1) assms(3) api_frame [of "Sched s q c" m] m1 by (auto simp: passed_def phase_done_def seq_less)
  then have "\<exists>es. adds m1 es (run as m1) \<and> Callback c s q \<in> set es"
    using run_waiting [OF inv nc(3), of as] assms(4) by (auto simp: passed_def)
  then show ?thesis using nc(2) by (simp add: adds_def)
qed

text \<open>
  C34: An entry callback scheduled on the current state once its function is running is
  accepted, with 0 returned, and never called.
\<close>

theorem late_entry_callback_lost:
  assumes "bs_reach m" and "pc m = Run_state"
  shows "\<exists>m1. boot_state_sched_on_entry m c (state_id m) = (m1, 0) \<and>
    (\<forall>as es. trace (run as m1) = trace m1 @ es \<longrightarrow> Callback c (state_id m) BS_ON_ENTRY \<notin> set es)"
proof -
  have inv: "bs_inv m" using assms(1) by (rule bs_reach_inv)
  then have st: "\<not> complete (boot_states m (state_id m))" "seq m = BS_ON_EXIT"
    using assms(2) by (simp_all add: bs_inv_def pc_inv_def Let_def)
  define m1 where "m1 = act (Sched (state_id m) BS_ON_ENTRY c) m"
  have "boot_state_sched_on_entry m c (state_id m) = (m1, 0)"
    using st(1) by (simp add: m1_def boot_state_sched_on_entry_def boot_state_sched_callback_def)
  moreover have "passed m1 (state_id m) BS_ON_ENTRY"
    using st(2) api_frame [of "Sched (state_id m) BS_ON_ENTRY c" m] by (simp add: passed_def m1_def)
  moreover have "bs_inv m1" unfolding m1_def using inv by (rule bs_inv_act)
  ultimately show ?thesis using run_passed [of m1] by (auto simp: adds_def)
qed

text \<open>The unblocks a run may contain that reach a given phase.\<close>

definition unblocks :: "boot_state_t \<Rightarrow> boot_state_sequence_t \<Rightarrow> action list \<Rightarrow> nat" where
  "unblocks s q as = length (filter (\<lambda>a. a = Unblock s q \<or> a = Current_unblock) as)"

lemma api_blocked:
  assumes "\<And>env. a \<noteq> Walk env"
  shows "blockers (phase_of m s q) \<le> blockers (phase_of (act a m) s q) + int (unblocks s q [a])"
  using assms by (cases a) (auto simp: unblocks_def boot_state_sched_callback_def boot_state_block_def boot_state_unblock_def
      boot_state_current_block_def boot_state_current_unblock_def)

lemma walk_blocked:
  assumes inv: "bs_inv m" and b: "0 < blockers (phase_of m s q)" "\<not> passed m s q"
  shows "blockers (phase_of (bs_walk_step env m) s q) = blockers (phase_of m s q) \<and> \<not> passed (bs_walk_step env m) s q"
  using inv
proof (cases rule: walk_effect [where env = env])
  case (same es)
  then show ?thesis using b by (simp add: same_phases_def passed_def)
next
  case (call d cs)
  then show ?thesis using b by (auto simp: passed_def)
next
  case (entered es)
  have "\<not> (state_id m = s \<and> q = BS_ON_ENTRY)" using entered(3) b(1) by auto
  then show ?thesis using entered(6) b(2) by (simp add: same_phases_def passed_def)
next
  case (left t es)
  have "\<not> (state_id m = s \<and> q = BS_ON_EXIT)" using left(3) b(1) by auto
  then have "state_id m \<noteq> s" using b(2) left(1) by (cases q) (auto simp: passed_def)
  then show ?thesis using left(6,7) b(2) by (auto simp: same_phases_def passed_def)
qed

text \<open>
  C33: A phase the walk has not passed, with more blocks than the run contains unblocks for it,
  is not passed in the run: its state does not complete.
\<close>

theorem blocked_phase_not_left:
  assumes "bs_reach m" and "\<not> phase_done m s q" and "\<not> complete (boot_states m s)"
    and "int (unblocks s q as) < blockers (phase_of m s q)"
  shows "\<not> complete (boot_states (run as m) s) \<and> \<not> (state_id (run as m) = s \<and> seq (run as m) > q)"
proof -
  have "\<not> passed (run as m) s q"
    if "bs_inv m" "\<not> passed m s q" "int (unblocks s q as) < blockers (phase_of m s q)" for m
    using that
  proof (induction as arbitrary: m)
    case (Cons a as)
    have u: "unblocks s q (a # as) = unblocks s q [a] + unblocks s q as" by (simp add: unblocks_def)
    have "\<not> passed (act a m) s q \<and> blockers (phase_of m s q) \<le> blockers (phase_of (act a m) s q) + int (unblocks s q [a])"
    proof (cases "\<exists>env. a = Walk env")
      case True
      then obtain env where "a = Walk env" ..
      then show ?thesis using walk_blocked [OF Cons.prems(1) _ Cons.prems(2), of env] Cons.prems(3) by (simp add: unblocks_def)
    next
      case False
      then show ?thesis using api_blocked [of a] api_frame [of a m] Cons.prems(2) by (auto simp: passed_def)
    qed
    then show ?case using Cons.IH [OF bs_inv_act [OF Cons.prems(1)], of a] Cons.prems(3) by (simp add: u)
  qed simp
  moreover have "\<not> passed m s q" using assms(2,3) by (auto simp: passed_def phase_done_def seq_less)
  ultimately have "\<not> passed (run as m) s q" using bs_reach_inv [OF assms(1)] assms(4) by blast
  then show ?thesis by (auto simp: passed_def seq_less)
qed

section \<open>Progress\<close>

definition all_states :: "boot_state_t list" where
  "all_states = [BS_PRE_DEVICE, BS_DEV_INIT_CHIPS, BS_DEV_ENUMERATE, BS_DEV_RESOURCES, BS_DEV_ENABLE, BS_DEV_INIT,
     BS_POST_DEVICE, BS_OS_RESUME_CHECK, BS_OS_RESUME, BS_WRITE_TABLES, BS_PAYLOAD_LOAD, BS_PAYLOAD_BOOT]"

definition pending :: "machine \<Rightarrow> nat" where
  "pending m = (\<Sum>s\<in>set all_states. length (callbacks (phase_of m s BS_ON_ENTRY)) + length (callbacks (phase_of m s BS_ON_EXIT)))"

definition steps_left :: "machine \<Rightarrow> nat" where
  "steps_left m = 4 * (11 - bs_num (state_id m)) + (case pc m of
     Loop \<Rightarrow> if complete (boot_states m (state_id m)) then 1 else 5
   | On_entry \<Rightarrow> 4 | Run_state \<Rightarrow> 3 | On_exit _ \<Rightarrow> 2 | Stopped \<Rightarrow> 0 | Handed_off \<Rightarrow> 0)"

lemma in_all_states: "s \<in> set all_states"
  by (cases s) (simp_all add: all_states_def)

lemma bs_num_le: "bs_num s \<le> 11"
  by (cases s) simp_all

lemma pending_call:
  assumes "callbacks (phase_of m s q) = c # cs"
  shows "pending m = pending (upd_phase s q (\<lambda>p. p\<lparr>callbacks := cs\<rparr>) m) + 1"
proof -
  let ?m = "upd_phase s q (\<lambda>p. p\<lparr>callbacks := cs\<rparr>) m"
  let ?f = "\<lambda>m s. length (callbacks (phase_of m s BS_ON_ENTRY)) + length (callbacks (phase_of m s BS_ON_EXIT))"
  have "?f m s = ?f ?m s + 1" using assms by (cases q) auto
  moreover have "(\<Sum>t\<in>set all_states - {s}. ?f m t) = (\<Sum>t\<in>set all_states - {s}. ?f ?m t)"
    by (rule sum.cong) auto
  ultimately show ?thesis
    unfolding pending_def using in_all_states [of s] by (simp add: sum.remove [of "set all_states" s])
qed

lemma pending_same: "(\<And>t q. callbacks (phase_of m' t q) = callbacks (phase_of m t q)) \<Longrightarrow> pending m' = pending m"
  by (simp add: pending_def)

definition unblocked :: "machine \<Rightarrow> bool" where
  "unblocked m \<longleftrightarrow> (\<forall>s q. blockers (phase_of m s q) = 0)"

lemma walk_progress:
  assumes inv: "bs_inv m" and u: "unblocked m" and "pc m \<noteq> Stopped" "pc m \<noteq> Handed_off"
  shows "steps_left (bs_walk_step env m) + pending (bs_walk_step env m) < steps_left m + pending m \<and> unblocked (bs_walk_step env m)"
proof (cases "pc m")
  case Loop
  then have "pending (bs_walk_step env m) = pending m" "unblocked (bs_walk_step env m)"
    using u by (auto intro!: pending_same simp: walk_Loop unblocked_def)
  then show ?thesis using Loop by (simp add: walk_Loop steps_left_def)
next
  case On_entry
  obtain m' d where c: "bs_call_callbacks (state_id m) (seq m) m = (m', d)" by fastforce
  note w = walk_On_entry [OF On_entry c]
  show ?thesis using c
  proof (cases rule: call_cases)
    case 1
    then have "pending (bs_walk_step env m) = pending m" "unblocked (bs_walk_step env m)"
      using u by (auto intro!: pending_same simp: w unblocked_def)
    then show ?thesis using 1 On_entry by (simp add: w steps_left_def)
  next
    case (3 c cs)
    then have "pending m = pending (bs_walk_step env m) + 1" "unblocked (bs_walk_step env m)"
      using u pending_call [OF 3(2)] by (auto simp: w unblocked_def pending_def)
    then show ?thesis using 3 On_entry by (simp add: w steps_left_def)
  qed (use u in \<open>simp add: unblocked_def\<close>)
next
  case Run_state
  obtain m' nx where r: "run_state (state_id m) env (bs_arg (boot_states m (state_id m))) m = (m', nx)" by fastforce
  note w = walk_Run_state [OF Run_state r] and f = run_state_frame [OF r]
  have "pending (bs_walk_step env m) = pending m" "unblocked (bs_walk_step env m)"
    using u f by (auto intro!: pending_same simp: w unblocked_def split: option.split)
  then show ?thesis using Run_state f by (auto simp: w steps_left_def split: option.split)
next
  case (On_exit t)
  obtain m' d where c: "bs_call_callbacks (state_id m) (seq m) m = (m', d)" by fastforce
  note w = walk_On_exit [OF On_exit c]
  show ?thesis using c
  proof (cases rule: call_cases)
    case 1
    have "state_id m < t \<or> state_id m = BS_PAYLOAD_BOOT \<and> t = BS_PAYLOAD_BOOT"
      using inv On_exit by (simp add: bs_inv_def pc_inv_def Let_def)
    then have "if t = state_id m then bs_num t = 11 else bs_num (state_id m) < bs_num t"
      by (auto simp: less_boot_state_t_def)
    moreover have "pending (bs_walk_step env m) = pending m" "unblocked (bs_walk_step env m)"
      using u 1 by (auto intro!: pending_same simp: w unblocked_def)
    ultimately show ?thesis using 1 On_exit bs_num_le [of t] by (auto simp: w steps_left_def split: if_splits)
  next
    case (3 c cs)
    then have "pending m = pending (bs_walk_step env m) + 1" "unblocked (bs_walk_step env m)"
      using u pending_call [OF 3(2)] by (auto simp: w unblocked_def pending_def)
    then show ?thesis using 3 On_exit by (simp add: w steps_left_def)
  qed (use u in \<open>simp add: unblocked_def\<close>)
qed (use assms in simp_all)

text \<open>
  C21: With nothing blocked and nothing new asked of it, the machine reaches the end of the
  boot within 49 steps and one more per callback still waiting, whatever the platform answers.
\<close>

theorem boot_walk_ends:
  assumes "bs_reach m" and "\<forall>s q. blockers (phase_of m s q) = 0" and "49 + pending m \<le> length envs"
  shows "pc (run (map Walk envs) m) = Stopped \<or> pc (run (map Walk envs) m) = Handed_off"
proof -
  have stay: "run (map Walk es) m = m" if "pc m = Stopped \<or> pc m = Handed_off" for m es
    using that by (induction es) (simp_all add: walk_end)
  have "pc (run (map Walk envs) m) = Stopped \<or> pc (run (map Walk envs) m) = Handed_off"
    if "bs_inv m" "unblocked m" "steps_left m + pending m \<le> length envs" for m
    using that
  proof (induction envs arbitrary: m)
    case Nil
    then show ?case by (cases "pc m") (auto simp: steps_left_def split: if_splits)
  next
    case (Cons e envs)
    show ?case
    proof (cases "pc m = Stopped \<or> pc m = Handed_off")
      case True
      then show ?thesis using stay [of m "e # envs"] by simp
    next
      case False
      have "bs_inv (bs_walk_step e m)" using bs_inv_walk [OF Cons.prems(1)] .
      moreover have "steps_left (bs_walk_step e m) + pending (bs_walk_step e m) \<le> length envs" "unblocked (bs_walk_step e m)"
        using walk_progress [OF Cons.prems(1,2), of e] False Cons.prems(3) by auto
      ultimately show ?thesis using Cons.IH by simp
    qed
  qed
  moreover have "steps_left m \<le> 49"
  proof -
    have "4 * (11 - bs_num (state_id m)) \<le> 44" by simp
    then show ?thesis by (cases "pc m") (simp_all add: steps_left_def del: diff_le_self)
  qed
  ultimately show ?thesis
    using bs_reach_inv [OF assms(1)] assms(2,3) by (simp add: unblocked_def)
qed

section \<open>The order of the boot\<close>

text \<open>The calls that make up the boot, and those made before a state is entered; \<open>w\<close> is the wake vector if the resume was tried.\<close>

fun is_stage :: "bs_call \<Rightarrow> bool" where
  "is_stage Dev_initialize_chips = True" | "is_stage Dev_enumerate = True" | "is_stage Dev_configure = True"
| "is_stage Dev_enable = True" | "is_stage Dev_initialize = True" | "is_stage Dev_finalize = True"
| "is_stage (Acpi_resume v) = True" | "is_stage Write_tables = True" | "is_stage Dev_finalize_chips = True"
| "is_stage Payload_load = True" | "is_stage Payload_run = True" | "is_stage _ = False"

definition stages :: "event list \<Rightarrow> bs_call list" where
  "stages es = concat (map (\<lambda>e. case e of Call c \<Rightarrow> if is_stage c then [c] else [] | _ \<Rightarrow> []) es)"

definition boot_order :: "ptr option \<Rightarrow> bs_call list" where
  "boot_order w = [Dev_initialize_chips, Dev_enumerate, Dev_configure, Dev_enable, Dev_initialize, Dev_finalize] @
     (case w of None \<Rightarrow> [] | Some v \<Rightarrow> [Acpi_resume v]) @ [Write_tables, Dev_finalize_chips, Payload_load, Payload_run]"

text \<open>How much of the boot was done when a state is entered, and when it is left for \<open>t\<close>.\<close>

definition done_before :: "ptr option \<Rightarrow> boot_state_t \<Rightarrow> bs_call list" where
  "done_before w s = (if s \<le> BS_DEV_INIT_CHIPS then [] else if s \<le> BS_OS_RESUME then take (min 6 (bs_num s - 1)) (boot_order w)
     else if s = BS_WRITE_TABLES then take (6 + (if w = None then 0 else 1)) (boot_order w)
     else if s = BS_PAYLOAD_LOAD then take (8 + (if w = None then 0 else 1)) (boot_order w)
     else take (9 + (if w = None then 0 else 1)) (boot_order w))"

definition progress :: "machine \<Rightarrow> ptr option \<Rightarrow> bs_call list" where
  "progress m w = (case pc m of
     Loop \<Rightarrow> if complete (boot_states m (state_id m)) then boot_order w else done_before w (state_id m)
   | On_exit t \<Rightarrow> if t = state_id m then boot_order w else done_before w t
   | Stopped \<Rightarrow> boot_order w
   | Handed_off \<Rightarrow> if state_id m = BS_PAYLOAD_BOOT then boot_order w else done_before w BS_WRITE_TABLES
   | _ \<Rightarrow> done_before w (state_id m))"

lemma stages_simps [simp]: "stages [] = []" "stages (xs @ ys) = stages xs @ stages ys"
  "stages (Call c # es) = (if is_stage c then c # stages es else stages es)"
  "stages (Callback a s q # es) = stages es" "stages (Timers_run # es) = stages es"
  "stages (Post_code s # es) = stages es" "stages (Report s x y z # es) = stages es"
  by (simp_all add: stages_def)

lemma api_progress: "(\<And>env. a \<noteq> Walk env) \<Longrightarrow> progress (act a m) w = progress m w"
proof -
  assume a: "\<And>env. a \<noteq> Walk env"
  note f = api_frame [OF a, of m, THEN conjunct1] api_frame [OF a, of m, THEN conjunct2, THEN conjunct2, THEN conjunct1]
    api_frame [OF a, of m, THEN conjunct2, THEN conjunct2, THEN conjunct2, THEN conjunct1]
  show ?thesis unfolding progress_def f ..
qed

lemma run_state_stages:
  assumes "run_state s env a m = (m', nx)" and "stages (trace m) = done_before w s"
  shows "\<exists>w'. stages (trace m') = (case nx of
       None \<Rightarrow> if s = BS_PAYLOAD_BOOT then boot_order w' else done_before w' BS_WRITE_TABLES
     | Some t \<Rightarrow> if t = s then boot_order w' else done_before w' t)"
proof -
  let ?P = "\<lambda>w'. stages (trace m') = (case nx of
       None \<Rightarrow> if s = BS_PAYLOAD_BOOT then boot_order w' else done_before w' BS_WRITE_TABLES
     | Some t \<Rightarrow> if t = s then boot_order w' else done_before w' t)"
  note defs = run_state_defs Let_def done_before_def boot_order_def less_eq_boot_state_t_def
  have "?P (if s = BS_OS_RESUME \<and> have_acpi_resume env then Some a else if s \<le> BS_OS_RESUME then None else w)"
    using assms by (cases s; cases w) (auto simp: defs split: if_splits)
  then show ?thesis by (rule exI [of ?P])
qed

lemma progress_log [simp]: "progress (log e m) w = progress m w"
  unfolding progress_def log_simps ..

lemma call_stages: "bs_call_callbacks s q m = (m', d) \<Longrightarrow> stages (trace m') = stages (trace m) \<and> (d \<longrightarrow> m' = m)"
  by (auto simp: bs_call_callbacks_def split: list.splits if_splits)

lemma walk_order:
  assumes inv: "bs_inv m" and p: "stages (trace m) = progress m w"
  shows "\<exists>w'. stages (trace (bs_walk_step env m)) = progress (bs_walk_step env m) w'"
proof (cases "pc m")
  case Loop
  then show ?thesis using p
    by (cases "complete (boot_states m (state_id m))") (auto intro!: exI [of _ w] simp: walk_Loop progress_def)
next
  case On_entry
  obtain m' d where c: "bs_call_callbacks (state_id m) (seq m) m = (m', d)" by fastforce
  have "pc m' = pc m" "state_id m' = state_id m" "stages (trace m') = stages (trace m)"
    using bs_call_callbacks_frame [OF c] call_stages [OF c] by simp_all
  then show ?thesis using p On_entry by (intro exI [of _ w]) (simp add: walk_On_entry [OF On_entry c] progress_def)
next
  case Run_state
  obtain m' nx where r: "run_state (state_id m) env (bs_arg (boot_states m (state_id m))) m = (m', nx)" by fastforce
  have "stages (trace m) = done_before w (state_id m)" using p Run_state by (simp add: progress_def)
  then obtain w' where "stages (trace m') = (case nx of
       None \<Rightarrow> if state_id m = BS_PAYLOAD_BOOT then boot_order w' else done_before w' BS_WRITE_TABLES
     | Some t \<Rightarrow> if t = state_id m then boot_order w' else done_before w' t)"
    using run_state_stages [OF r] by blast
  then show ?thesis using run_state_frame [OF r]
    by (intro exI [of _ w']) (auto simp: walk_Run_state [OF Run_state r] progress_def split: option.split)
next
  case (On_exit t)
  obtain m' d where c: "bs_call_callbacks (state_id m) (seq m) m = (m', d)" by fastforce
  have f: "pc m' = pc m" "state_id m' = state_id m" "stages (trace m') = stages (trace m)"
    using bs_call_callbacks_frame [OF c] call_stages [OF c] by simp_all
  have "state_id m < t \<or> state_id m = BS_PAYLOAD_BOOT \<and> t = BS_PAYLOAD_BOOT" "\<forall>s. state_id m < s \<longrightarrow> \<not> complete (boot_states m s)"
    using inv On_exit by (simp_all add: bs_inv_def pc_inv_def Let_def)
  then show ?thesis using p On_exit f call_stages [OF c]
    by (intro exI [of _ w]) (auto simp: walk_On_exit [OF On_exit c] progress_def bs_report_time_def Let_def)
qed (use p in \<open>simp_all add: walk_end, blast+\<close>)

lemma reach_order: "bs_reach m \<Longrightarrow> \<exists>w. stages (trace m) = progress m w"
proof (induction rule: bs_reach.induct)
  case (start x86 env entries)
  have api: "stages (trace (run (map (\<lambda>(s, w, c). Sched s w c) es) m)) = stages (trace m) \<and>
      progress (run (map (\<lambda>(s, w, c). Sched s w c) es) m) None = progress m None" for es m
  proof (induction es arbitrary: m)
    case (Cons e es)
    obtain s w c where "e = (s, w, c)" by (cases e)
    then show ?case using Cons.IH [of "act (Sched s w c) m"] api_progress [of "Sched s w c" m] api_frame [of "Sched s w c" m] by simp
  qed simp
  have calls: "stages (trace (fold (\<lambda>c. log (Call c)) cs m)) = stages (trace m) @ filter is_stage cs \<and>
      progress (fold (\<lambda>c. log (Call c)) cs m) None = progress m None" for cs m
  proof (induction cs arbitrary: m)
    case (Cons c cs)
    then show ?case by simp
  qed simp
  have "progress initial None = []" "trace initial = []"
    by (simp_all add: progress_def initial_def BS_INIT_def done_before_def less_eq_boot_state_t_def)
  then show ?case
    unfolding main_start_def Let_def static_entries_act by (intro exI [of _ None]) (simp add: api calls)
next
  case (step m a)
  then obtain w where w: "stages (trace m) = progress m w" by blast
  show ?case
  proof (cases "\<exists>env. a = Walk env")
    case True
    then show ?thesis using walk_order [OF bs_reach_inv [OF step(1)] w] by auto
  next
    case False
    then show ?thesis using api_progress [of a m] api_frame [of a m] w by (intro exI [of _ w]) auto
  qed
qed

lemma progress_prefix: "prefix (progress m w) (boot_order w)"
  by (auto simp: progress_def done_before_def take_is_prefix split: walk_pc.split)

text \<open>
  C8: Whatever happens on the way, the device, table and payload calls of the machine are made
  in the documented order, each at most once: a prefix of enumeration, resources, enabling,
  initialisation, finalisation, the resume if one is tried, the tables, and the payload.
\<close>

theorem boot_calls_in_order:
  assumes "bs_reach m"
  shows "\<exists>w. prefix (stages (trace m)) (boot_order w)"
  using reach_order [OF assms] progress_prefix by metis

section \<open>Witnesses\<close>

definition ex_env :: env where
  "ex_env = \<lparr>have_acpi_resume = True, wakeup_vector = NULL, resume_returns = False, payload_returns = True, now = 0\<rparr>"

definition ex_entries :: "(boot_state_t \<times> boot_state_sequence_t \<times> bscb) list" where
  "ex_entries = [(BS_PRE_DEVICE, BS_ON_EXIT, 0x100), (BS_WRITE_TABLES, BS_ON_ENTRY, 0x200)]"

lemmas ex_simps = ex_env_def ex_entries_def main_start_def initial_def BS_INIT_def MAX_TIME_SAMPLES_def
  boot_state_schedule_static_entries_def boot_state_sched_on_entry_def boot_state_sched_on_exit_def
  boot_state_sched_callback_def bs_walk_step_def bs_call_callbacks_def Let_def run_state_defs
  upd_phase_def upd_state_def log_def bs_sample_time_def bs_report_time_def bs_run_timers_def

theorem boot_machine_bounds_witness:
  "num_samples (times (boot_states (main_start True ex_env ex_entries) BS_PRE_DEVICE)) \<le> MAX_TIME_SAMPLES"
  using boot_machine_bounds [OF bs_reach.start] by blast

theorem scheduled_callback_runs_witness:
  "\<exists>es. trace (run (map Walk (replicate 10 ex_env)) (fst (boot_state_sched_callback (main_start True ex_env []) BS_PRE_DEVICE 0x300 BS_ON_EXIT))) =
     trace (main_start True ex_env []) @ es \<and> Callback 0x300 BS_PRE_DEVICE BS_ON_EXIT \<in> set es"
proof (rule scheduled_callback_runs [OF bs_reach.start])
  show "boot_state_sched_callback (main_start True ex_env []) BS_PRE_DEVICE 0x300 BS_ON_EXIT =
      (fst (boot_state_sched_callback (main_start True ex_env []) BS_PRE_DEVICE 0x300 BS_ON_EXIT), 0)"
    by (simp add: ex_simps)
  show "\<not> phase_done (main_start True ex_env []) BS_PRE_DEVICE BS_ON_EXIT"
    by (simp add: ex_simps phase_done_def seq_less)
  show "complete (boot_states (run (map Walk (replicate 10 ex_env))
      (fst (boot_state_sched_callback (main_start True ex_env []) BS_PRE_DEVICE 0x300 BS_ON_EXIT))) BS_PRE_DEVICE)"
    by (simp add: ex_simps numeral_eq_Suc)
qed

definition ex_running :: machine where
  "ex_running = run (replicate 2 (Walk ex_env)) (main_start True ex_env [])"

lemma ex_running_reach: "bs_reach ex_running"
  unfolding ex_running_def by (intro bs_reach_run bs_reach.start)

theorem late_entry_callback_lost_witness:
  "\<exists>m1. boot_state_sched_on_entry ex_running 0x300 (state_id ex_running) = (m1, 0)"
proof -
  have "pc ex_running = Run_state" by (simp add: ex_running_def ex_simps numeral_eq_Suc)
  from late_entry_callback_lost [OF ex_running_reach this] show ?thesis by blast
qed

theorem blocked_phase_not_left_witness:
  "\<not> complete (boot_states (run [Walk ex_env, Walk ex_env, Walk ex_env] (fst (boot_state_block ex_running BS_PRE_DEVICE BS_ON_EXIT))) BS_PRE_DEVICE)"
proof -
  have "bs_reach (act (Block BS_PRE_DEVICE BS_ON_EXIT) ex_running)" by (intro bs_reach.step ex_running_reach)
  then have r: "bs_reach (fst (boot_state_block ex_running BS_PRE_DEVICE BS_ON_EXIT))" by simp
  show ?thesis
    by (rule blocked_phase_not_left [OF r, THEN conjunct1])
      (simp_all add: ex_running_def boot_state_block_def ex_simps numeral_eq_Suc phase_done_def seq_less unblocks_def)
qed

theorem boot_walk_ends_witness:
  "pc (run (map Walk (replicate 51 ex_env)) (main_start True ex_env ex_entries)) = Stopped \<or>
   pc (run (map Walk (replicate 51 ex_env)) (main_start True ex_env ex_entries)) = Handed_off"
  by (rule boot_walk_ends [OF bs_reach.start])
    (auto simp: pending_def all_states_def ex_simps)

theorem boot_calls_in_order_witness: "\<exists>w. prefix (stages (trace ex_running)) (boot_order w)"
  by (rule boot_calls_in_order [OF ex_running_reach])

end
