(* ===== verification/Mtrr.thy ===== *)
theory Mtrr
  imports Memrange
begin

text \<open>
  Memory type range registers, \<^verbatim>\<open>src/cpu/x86/mtrr/mtrr.c\<close>: the physical address space is
  collected from the device resources as tagged ranges (\<^verbatim>\<open>Memrange\<close>), the types of the
  first megabyte go to the fixed registers, and a solution of variable registers is computed
  for the rest. The registers are a file of 64-bit values held as two halves; the static
  variables of the C file are a record. Addresses are in pages of 4 KiB, as in the code.
  \<open>None\<close> is an access outside an array. \<open>amd\<close> is \<^verbatim>\<open>CONFIG_X86_AMD_FIXED_MTRRS\<close>.
\<close>

section \<open>Registers and constants\<close>

record msr_t =
  lo :: u32
  hi :: u32

definition MTRR_TYPE_UNCACHEABLE :: u32 where "MTRR_TYPE_UNCACHEABLE = 0"
definition MTRR_TYPE_WRCOMB :: u32 where "MTRR_TYPE_WRCOMB = 1"
definition MTRR_TYPE_WRBACK :: u32 where "MTRR_TYPE_WRBACK = 6"
definition MTRR_CAP_MSR :: u32 where "MTRR_CAP_MSR = 0xfe"
definition MTRR_DEF_TYPE_MSR :: u32 where "MTRR_DEF_TYPE_MSR = 0x2ff"
definition MTRR_DEF_TYPE_EN :: u32 where "MTRR_DEF_TYPE_EN = 0x800"
definition MTRR_DEF_TYPE_FIX_EN :: u32 where "MTRR_DEF_TYPE_FIX_EN = 0x400"
definition MTRR_PHYS_BASE :: "nat \<Rightarrow> u32" where "MTRR_PHYS_BASE i = 0x200 + 2 * of_nat i"
definition MTRR_PHYS_MASK :: "nat \<Rightarrow> u32" where "MTRR_PHYS_MASK i = MTRR_PHYS_BASE i + 1"
definition MTRR_PHYS_MASK_VALID :: u32 where "MTRR_PHYS_MASK_VALID = 0x800"
definition MTRR_FIX_64K_00000 :: u32 where "MTRR_FIX_64K_00000 = 0x250"
definition MTRR_FIX_16K_80000 :: u32 where "MTRR_FIX_16K_80000 = 0x258"
definition MTRR_FIX_4K_C0000 :: u32 where "MTRR_FIX_4K_C0000 = 0x268"
definition SYSCFG_MSR :: u32 where "SYSCFG_MSR = 0xC0010010"
definition SYSCFG_MSR_MtrrFixDramModEn :: u32 where "SYSCFG_MSR_MtrrFixDramModEn = 0x80000"
definition MTRR_FIXED_WRBACK_BITS :: "bool \<Rightarrow> u8" where "MTRR_FIXED_WRBACK_BITS amd = (if amd then 0x18 else 0)"
definition NUM_FIXED_RANGES :: nat where "NUM_FIXED_RANGES = 88"
definition RANGES_PER_FIXED_MTRR :: nat where "RANGES_PER_FIXED_MTRR = 8"
definition NUM_MTRR_STATIC_STORAGE :: int where "NUM_MTRR_STATIC_STORAGE = 16"
definition OS_MTRRS :: int where "OS_MTRRS = 2"
definition BIOS_MTRRS :: int where "BIOS_MTRRS = 6"
definition RANGE_1MB :: u32 where "RANGE_1MB = 0x100"
definition RANGE_4GB :: u32 where "RANGE_4GB = 0x100000"
definition MTRR_TAG_MASK :: u32 where "MTRR_TAG_MASK = 0xff"
definition DEVICE_PATH_PCI :: nat where "DEVICE_PATH_PCI = 2"
definition PCI_CLASS_DISPLAY_VGA :: u32 where "PCI_CLASS_DISPLAY_VGA = 0x300"

record var_mtrr_regs =
  r_base :: msr_t
  r_mask :: msr_t

record var_mtrr_solution =
  mtrr_default_type :: u32
  num_used :: int
  regs :: "var_mtrr_regs list"

text \<open>The static variables of the file, the registers, and whether the cache is on.\<close>

record mtrr_state =
  total_mtrrs :: int
  bios_mtrrs :: int
  addr_space :: "memranges option"
  fixed_mtrr_types :: "u8 list option"
  mtrr_global_solution :: "var_mtrr_solution option"
  put_back_original_solution :: bool
  msrs :: "u32 \<Rightarrow> msr_t"
  cache_on :: bool

definition zero_msr :: msr_t where "zero_msr = \<lparr>lo = 0, hi = 0\<rparr>"

definition mtrr_boot :: "(u32 \<Rightarrow> msr_t) \<Rightarrow> mtrr_state" where
  "mtrr_boot ms = \<lparr>total_mtrrs = BIOS_MTRRS + OS_MTRRS, bios_mtrrs = BIOS_MTRRS, addr_space = None, fixed_mtrr_types = None,
     mtrr_global_solution = None, put_back_original_solution = False, msrs = ms, cache_on = True\<rparr>"

definition rdmsr :: "mtrr_state \<Rightarrow> u32 \<Rightarrow> msr_t" where "rdmsr s i = msrs s i"
definition wrmsr :: "u32 \<Rightarrow> msr_t \<Rightarrow> mtrr_state \<Rightarrow> mtrr_state" where "wrmsr i v s = s\<lparr>msrs := (msrs s)(i := v)\<rparr>"
definition disable_cache :: "mtrr_state \<Rightarrow> mtrr_state" where "disable_cache s = s\<lparr>cache_on := False\<rparr>"
definition enable_cache :: "mtrr_state \<Rightarrow> mtrr_state" where "enable_cache s = s\<lparr>cache_on := True\<rparr>"

definition detect_var_mtrrs :: "mtrr_state \<Rightarrow> mtrr_state" where
  "detect_var_mtrrs s =
     (let n = uint (lo (rdmsr s MTRR_CAP_MSR) AND 0xff);
          n = (if n > NUM_MTRR_STATIC_STORAGE then NUM_MTRR_STATIC_STORAGE else n)
      in s\<lparr>total_mtrrs := n, bios_mtrrs := n - OS_MTRRS\<rparr>)"

definition enable_fixed_mtrr :: "mtrr_state \<Rightarrow> mtrr_state" where
  "enable_fixed_mtrr s =
     (let m = rdmsr s MTRR_DEF_TYPE_MSR
      in wrmsr MTRR_DEF_TYPE_MSR (m\<lparr>lo := lo m OR (MTRR_DEF_TYPE_EN OR MTRR_DEF_TYPE_FIX_EN)\<rparr>) s)"

definition fixed_mtrrs_expose_amd_rwdram :: "bool \<Rightarrow> mtrr_state \<Rightarrow> mtrr_state" where
  "fixed_mtrrs_expose_amd_rwdram amd s =
     (if \<not> amd then s
      else let m = rdmsr s SYSCFG_MSR in wrmsr SYSCFG_MSR (m\<lparr>lo := lo m OR SYSCFG_MSR_MtrrFixDramModEn\<rparr>) s)"

definition fixed_mtrrs_hide_amd_rwdram :: "bool \<Rightarrow> mtrr_state \<Rightarrow> mtrr_state" where
  "fixed_mtrrs_hide_amd_rwdram amd s =
     (if \<not> amd then s
      else let m = rdmsr s SYSCFG_MSR in wrmsr SYSCFG_MSR (m\<lparr>lo := lo m AND NOT SYSCFG_MSR_MtrrFixDramModEn\<rparr>) s)"

definition enable_var_mtrr :: "u32 \<Rightarrow> mtrr_state \<Rightarrow> mtrr_state" where
  "enable_var_mtrr deftype s =
     (let m = rdmsr s MTRR_DEF_TYPE_MSR
      in wrmsr MTRR_DEF_TYPE_MSR (m\<lparr>lo := (lo m AND NOT 0xff) OR (MTRR_DEF_TYPE_EN OR deftype)\<rparr>) s)"

section \<open>The address space\<close>

definition PHYS_TO_RANGE_ADDR :: "resource_t \<Rightarrow> u32" where
  "PHYS_TO_RANGE_ADDR x = ucast (drop_bit 12 x)"

definition RANGE_TO_PHYS_ADDR :: "u32 \<Rightarrow> resource_t" where
  "RANGE_TO_PHYS_ADDR x = push_bit 12 (ucast x)"

definition range_entry_base_mtrr_addr :: "range_entry \<Rightarrow> u32" where
  "range_entry_base_mtrr_addr r = PHYS_TO_RANGE_ADDR (range_entry_base r)"

definition range_entry_end_mtrr_addr :: "range_entry \<Rightarrow> u32" where
  "range_entry_end_mtrr_addr r = PHYS_TO_RANGE_ADDR (range_entry_end r)"

definition range_entry_mtrr_type :: "range_entry \<Rightarrow> u32" where
  "range_entry_mtrr_type r = re_tag r AND MTRR_TAG_MASK"

definition filter_vga_wrcomb :: "device \<Rightarrow> resource \<Rightarrow> bool" where
  "filter_vga_wrcomb dev res =
     (if dev_path_type dev \<noteq> DEVICE_PATH_PCI then False
      else if drop_bit 8 (dev_class dev) \<noteq> PCI_CLASS_DISPLAY_VGA then False
      else True)"

definition get_physical_address_space :: "device list \<Rightarrow> mtrr_state \<Rightarrow> memranges \<times> mtrr_state" where
  "get_physical_address_space devs s =
     (case addr_space s of Some a \<Rightarrow> (a, s)
      | None \<Rightarrow>
          let mask = IORESOURCE_CACHEABLE;
              a = memranges_init True devs mask mask MTRR_TYPE_WRBACK;
              a = memranges_add_resources True devs a mask 0 MTRR_TYPE_UNCACHEABLE;
              match = IORESOURCE_PREFETCH;
              mask = mask OR match;
              a = memranges_add_resources_filter True devs a mask match MTRR_TYPE_WRCOMB (Some filter_vga_wrcomb);
              a = memranges_fill_holes_up_to True a (RANGE_TO_PHYS_ADDR RANGE_4GB) MTRR_TYPE_UNCACHEABLE
          in (a, s\<lparr>addr_space := Some a\<rparr>))"

section \<open>Fixed registers\<close>

record fixed_mtrr_descr =
  d_begin :: u32
  d_end :: u32
  d_step :: u32
  d_range_index :: nat
  d_msr_index_base :: u32

definition fixed_mtrr_desc :: "fixed_mtrr_descr list" where
  "fixed_mtrr_desc =
    [\<lparr>d_begin = PHYS_TO_RANGE_ADDR 0x000000, d_end = PHYS_TO_RANGE_ADDR 0x080000, d_step = PHYS_TO_RANGE_ADDR (64 * 1024),
      d_range_index = 0, d_msr_index_base = MTRR_FIX_64K_00000\<rparr>,
     \<lparr>d_begin = PHYS_TO_RANGE_ADDR 0x080000, d_end = PHYS_TO_RANGE_ADDR 0x0C0000, d_step = PHYS_TO_RANGE_ADDR (16 * 1024),
      d_range_index = 8, d_msr_index_base = MTRR_FIX_16K_80000\<rparr>,
     \<lparr>d_begin = PHYS_TO_RANGE_ADDR 0x0C0000, d_end = PHYS_TO_RANGE_ADDR 0x100000, d_step = PHYS_TO_RANGE_ADDR (4 * 1024),
      d_range_index = 24, d_msr_index_base = MTRR_FIX_4K_C0000\<rparr>]"

text \<open>The two inner loops of \<^verbatim>\<open>calc_fixed_mtrrs\<close>; \<open>d\<close> is the index of \<^verbatim>\<open>desc\<close>.\<close>

function find_desc :: "u32 \<Rightarrow> nat \<Rightarrow> nat option" where
  "find_desc begin d =
     (if d \<ge> length fixed_mtrr_desc then None
      else if begin \<ge> d_end (fixed_mtrr_desc ! d) then find_desc begin (d + 1)
      else Some d)"
  by pat_completeness auto
termination
  by (relation "measure (\<lambda>(_, d). length fixed_mtrr_desc - d)") auto

function fill_fixed :: "u8 \<Rightarrow> u32 \<Rightarrow> u32 \<Rightarrow> nat \<Rightarrow> nat \<Rightarrow> u8 list \<Rightarrow> (u8 list \<times> nat) option" where
  "fill_fixed type e begin d type_index types =
     (if begin = e then Some (types, d)
      else if d \<ge> length fixed_mtrr_desc \<or> type_index \<ge> NUM_FIXED_RANGES then None
      else let desc = fixed_mtrr_desc ! d; begin = begin + d_step desc
           in fill_fixed type e begin (if begin = d_end desc then d + 1 else d) (type_index + 1) (types[type_index := type]))"
  by pat_completeness auto
termination
  by (relation "measure (\<lambda>(_, _, _, _, i, _). NUM_FIXED_RANGES - i)") (auto simp: Let_def)

declare find_desc.simps [simp del] fill_fixed.simps [simp del]

fun calc_fixed_entries :: "bool \<Rightarrow> range_entry list \<Rightarrow> nat \<Rightarrow> u8 list \<Rightarrow> u8 list option" where
  "calc_fixed_entries amd [] d types = Some types"
| "calc_fixed_entries amd (r # rs) d types =
     (let begin = range_entry_base_mtrr_addr r; e = range_entry_end_mtrr_addr r in
      if begin \<ge> d_end (last fixed_mtrr_desc) then Some types
      else let e = (if e > d_end (last fixed_mtrr_desc) then d_end (last fixed_mtrr_desc) else e) in
        case find_desc begin d of None \<Rightarrow> None
        | Some d \<Rightarrow>
            let desc = fixed_mtrr_desc ! d;
                type_index = d_range_index desc + unat ((begin - d_begin desc) div d_step desc);
                type = ucast (re_tag r);
                type = (if type = ucast MTRR_TYPE_WRBACK then type OR MTRR_FIXED_WRBACK_BITS amd else type)
            in case fill_fixed type e begin d type_index types of
                 None \<Rightarrow> None
               | Some (types, d) \<Rightarrow> calc_fixed_entries amd rs d types)"

definition calc_fixed_mtrrs :: "bool \<Rightarrow> device list \<Rightarrow> mtrr_state \<Rightarrow> mtrr_state option" where
  "calc_fixed_mtrrs amd devs s =
     (if fixed_mtrr_types s \<noteq> None then Some s
      else let (space, s) = get_physical_address_space devs s in
        case calc_fixed_entries amd (mr_entries space) 0 (replicate NUM_FIXED_RANGES (ucast MTRR_TYPE_UNCACHEABLE)) of
          None \<Rightarrow> None
        | Some types \<Rightarrow> Some (s\<lparr>fixed_mtrr_types := Some types\<rparr>))"

text \<open>The value of one fixed register, from eight types on, and the registers to write.\<close>

definition fixed_msr :: "u8 list \<Rightarrow> nat \<Rightarrow> msr_t" where
  "fixed_msr types i =
     \<lparr>lo = ucast (types ! i) OR push_bit 8 (ucast (types ! (i + 1))) OR
           push_bit 16 (ucast (types ! (i + 2))) OR push_bit 24 (ucast (types ! (i + 3))),
      hi = ucast (types ! (i + 4)) OR push_bit 8 (ucast (types ! (i + 5))) OR
           push_bit 16 (ucast (types ! (i + 6))) OR push_bit 24 (ucast (types ! (i + 7)))\<rparr>"

definition fixed_msrs :: "u8 list \<Rightarrow> (u32 \<times> msr_t) list" where
  "fixed_msrs types = concat (map (\<lambda>desc.
     map (\<lambda>j. (d_msr_index_base desc + of_nat j, fixed_msr types (d_range_index desc + RANGES_PER_FIXED_MTRR * j)))
       [0..<unat ((d_end desc - d_begin desc) div d_step desc) div RANGES_PER_FIXED_MTRR]) fixed_mtrr_desc)"

definition commit_fixed_mtrrs :: "bool \<Rightarrow> mtrr_state \<Rightarrow> mtrr_state" where
  "commit_fixed_mtrrs amd s =
     (let s = fixed_mtrrs_expose_amd_rwdram amd s;
          s = disable_cache s;
          types = (case fixed_mtrr_types s of None \<Rightarrow> replicate NUM_FIXED_RANGES 0 | Some t \<Rightarrow> t);
          s = fold (\<lambda>(i, v). wrmsr i v) (fixed_msrs types) s;
          s = enable_cache s
      in fixed_mtrrs_hide_amd_rwdram amd s)"

definition x86_setup_fixed_mtrrs_no_enable :: "bool \<Rightarrow> device list \<Rightarrow> mtrr_state \<Rightarrow> mtrr_state option" where
  "x86_setup_fixed_mtrrs_no_enable amd devs s = map_option (commit_fixed_mtrrs amd) (calc_fixed_mtrrs amd devs s)"

definition x86_setup_fixed_mtrrs :: "bool \<Rightarrow> device list \<Rightarrow> mtrr_state \<Rightarrow> mtrr_state option" where
  "x86_setup_fixed_mtrrs amd devs s = map_option enable_fixed_mtrr (x86_setup_fixed_mtrrs_no_enable amd devs s)"

section \<open>Variable registers\<close>

record var_mtrr_state =
  above4gb :: bool
  address_bits :: nat
  prepare_msrs :: bool
  mtrr_index :: int
  def_mtrr_type :: u32
  vs_regs :: "var_mtrr_regs list"

text \<open>The most and the least significant bit set.\<close>

definition fms :: "u32 \<Rightarrow> nat" where
  "fms x = (case find (bit x) (rev [0..<32]) of None \<Rightarrow> 0 | Some i \<Rightarrow> i)"

definition fls :: "u32 \<Rightarrow> nat" where
  "fls x = (case find (bit x) [0..<32] of None \<Rightarrow> 32 | Some i \<Rightarrow> i)"

definition clear_var_mtrr :: "nat \<Rightarrow> mtrr_state \<Rightarrow> mtrr_state" where
  "clear_var_mtrr i s = wrmsr (MTRR_PHYS_MASK i) zero_msr (wrmsr (MTRR_PHYS_BASE i) zero_msr s)"

text \<open>\<open>avail\<close> is \<^verbatim>\<open>total_mtrrs\<close>.\<close>

definition prep_var_mtrr :: "int \<Rightarrow> var_mtrr_state \<Rightarrow> u32 \<Rightarrow> u32 \<Rightarrow> u32 \<Rightarrow> var_mtrr_state" where
  "prep_var_mtrr avail st base sz type =
     (if mtrr_index st \<ge> avail then st
      else let rbase = RANGE_TO_PHYS_ADDR base;
               rsize = - RANGE_TO_PHYS_ADDR sz;
               mask = push_bit (address_bits st) 1 - 1;
               rsize = rsize AND mask
           in st\<lparr>vs_regs := (vs_regs st)[nat (mtrr_index st) :=
                \<lparr>r_base = \<lparr>lo = ucast rbase OR type, hi = ucast (drop_bit 32 rbase)\<rparr>,
                 r_mask = \<lparr>lo = ucast rsize OR MTRR_PHYS_MASK_VALID, hi = ucast (drop_bit 32 rsize)\<rparr>\<rparr>]\<rparr>)"

definition chunk :: "u32 \<Rightarrow> u32 \<Rightarrow> u32" where
  "chunk base sz = (let addr_lsb = fls base; size_msb = fms sz
     in if addr_lsb > size_msb then push_bit size_msb 1 else push_bit addr_lsb 1)"

lemma find_rev_upt: "find P (rev [0..<n]) = Some i \<longleftrightarrow> i < n \<and> P i \<and> (\<forall>j. i < j \<and> j < n \<longrightarrow> \<not> P j)"
  by (induction n) (auto simp: less_Suc_eq)

lemma find_upt: "find P [0..<n] = Some i \<longleftrightarrow> i < n \<and> P i \<and> (\<forall>j<i. \<not> P j)"
  by (auto simp: find_Some_iff)

lemma u32_bit: "(x :: u32) \<noteq> 0 \<Longrightarrow> \<exists>i<32. bit x i"
proof (rule ccontr)
  assume "x \<noteq> 0" "\<not> (\<exists>i<32. bit x i)"
  then have "x = 0" by (intro bit_word_eqI) auto
  then show False using \<open>x \<noteq> 0\<close> by simp
qed

lemma fms_bit:
  assumes "x \<noteq> 0"
  shows "bit x (fms x)" and "fms x < 32" and "fms x < i \<Longrightarrow> \<not> bit x i"
proof -
  obtain j where "j < 32" "bit x j" using u32_bit [OF assms] by blast
  then obtain k where k: "find (bit x) (rev [0..<32]) = Some k"
    by (cases "find (bit x) (rev [0..<32])") (auto simp: find_None_iff)
  then have f: "fms x = k" by (simp add: fms_def)
  show "bit x (fms x)" "fms x < 32" using k unfolding f find_rev_upt by simp_all
  show "fms x < i \<Longrightarrow> \<not> bit x i"
    using k bit_imp_le_length [of x i] unfolding f find_rev_upt by auto
qed

lemma fls_bit:
  assumes "x \<noteq> 0"
  shows "bit x (fls x)" and "fls x < 32" and "i < fls x \<Longrightarrow> \<not> bit x i"
proof -
  obtain j where "j < 32" "bit x j" using u32_bit [OF assms] by blast
  then obtain k where k: "find (bit x) [0..<32] = Some k"
    by (cases "find (bit x) [0..<32]") (auto simp: find_None_iff)
  then have f: "fls x = k" by (simp add: fls_def)
  show "bit x (fls x)" "fls x < 32" using k unfolding f find_upt by simp_all
  show "i < fls x \<Longrightarrow> \<not> bit x i" using k unfolding f find_upt by simp
qed

text \<open>In arithmetic: the size lies between two powers, the base is a multiple of one.\<close>

lemma fms_nat:
  assumes "x \<noteq> 0"
  shows "2 ^ fms x \<le> unat x" and "unat x < 2 ^ Suc (fms x)"
proof -
  show "2 ^ fms x \<le> unat x"
  proof (rule ccontr)
    assume "\<not> 2 ^ fms x \<le> unat x"
    then have "\<not> bit (unat x) (fms x)" by (simp add: bit_iff_odd)
    then show False using fms_bit(1) [OF assms] by (simp add: bit_unsigned_iff)
  qed
  have "take_bit (Suc (fms x)) x = x"
    using fms_bit(3) [OF assms] by (intro bit_word_eqI) (metis bit_take_bit_iff not_less_eq)
  then have "take_bit (Suc (fms x)) (unat x) = unat x" by (metis unsigned_take_bit_eq)
  then show "unat x < 2 ^ Suc (fms x)" by (simp only: take_bit_nat_eq_self_iff)
qed

lemma fls_nat:
  assumes "x \<noteq> 0" and "k \<le> fls x"
  shows "2 ^ k dvd unat x"
proof -
  have "take_bit k x = 0"
    using fls_bit(3) [OF assms(1)] assms(2) by (intro bit_word_eqI) (auto simp: bit_take_bit_iff)
  then have "take_bit k (unat x) = 0" by (metis unsigned_take_bit_eq unat_0)
  then show ?thesis by (simp add: take_bit_eq_0_iff)
qed

lemma chunk_eq:
  assumes "sz \<noteq> 0"
  obtains k where "chunk base sz = push_bit k 1" "k < 32" "unat (chunk base sz) = 2 ^ k" "2 ^ k \<le> unat sz"
    "2 ^ k dvd unat base"
proof -
  define k where "k = min (fls base) (fms sz)"
  have c: "chunk base sz = push_bit k 1" by (simp add: chunk_def k_def Let_def min_def)
  have k: "k < 32" "k \<le> fms sz" "k \<le> fls base" using fms_bit(2) [OF assms] by (simp_all add: k_def)
  have "push_bit k 1 = (of_nat (2 ^ k) :: u32)" by (simp add: push_bit_eq_mult)
  moreover have "(2::nat) ^ k < 2 ^ 32" using k(1) by (intro power_strict_increasing) simp_all
  ultimately have "unat (chunk base sz) = 2 ^ k" by (simp only: c) (subst unat_of_nat_id; simp)
  moreover have "2 ^ k \<le> unat sz"
    using order_trans [OF power_increasing [OF k(2), of "2 :: nat"] fms_nat(1) [OF assms]] by simp
  moreover have "2 ^ k dvd unat base" using fls_nat [of base k] k(3) by (cases "base = 0") simp_all
  ultimately show thesis using that c k(1) by blast
qed

lemma chunk_less: "sz \<noteq> 0 \<Longrightarrow> unat (sz - chunk base sz) < unat sz"
proof -
  assume "sz \<noteq> 0"
  then obtain k where "unat (chunk base sz) = 2 ^ k" "2 ^ k \<le> unat sz"
    using chunk_eq by blast
  then have "unat (sz - chunk base sz) = unat sz - 2 ^ k" "0 < (2::nat) ^ k" "2 ^ k \<le> unat sz"
    by (simp_all add: unat_sub_nowrap)
  then show ?thesis by linarith
qed

function calc_var_mtrr_range :: "int \<Rightarrow> var_mtrr_state \<Rightarrow> u32 \<Rightarrow> u32 \<Rightarrow> u32 \<Rightarrow> var_mtrr_state" where
  "calc_var_mtrr_range avail st base sz type =
     (if sz = 0 then st
      else let mtrr_size = chunk base sz;
               st = (if prepare_msrs st then prep_var_mtrr avail st base mtrr_size type else st)
           in calc_var_mtrr_range avail (st\<lparr>mtrr_index := mtrr_index st + 1\<rparr>) (base + mtrr_size) (sz - mtrr_size) type)"
  by pat_completeness auto
termination
proof (relation "measure (\<lambda>(_, _, _, sz, _). unat sz)", goal_cases)
  case (2 avail st base sz type x xa)
  then show ?case using chunk_less [of sz base] by simp
qed simp

text \<open>The state of the trial counts: nothing is written.\<close>

definition trial :: var_mtrr_state where
  "trial = \<lparr>above4gb = False, address_bits = 0, prepare_msrs = False, mtrr_index = 0, def_mtrr_type = 0, vs_regs = []\<rparr>"

text \<open>\<^verbatim>\<open>1 << n\<close>, a signed int, as 64 bits.\<close>

definition int_bit :: "nat \<Rightarrow> u64" where
  "int_bit n = scast (push_bit n 1 :: u32)"

function optimize_loop :: "u32 \<Rightarrow> u32 \<Rightarrow> u64 \<Rightarrow> bool \<Rightarrow> nat \<Rightarrow> int \<Rightarrow> u32 \<Rightarrow> u32" where
  "optimize_loop base hole limit carve_hole align best_count best_end =
     (if align > fms hole then best_end
      else let hole_end = align_up (ucast hole) (int_bit align) in
        if hole_end > limit then best_end
        else let st = calc_var_mtrr_range 0 trial base (ucast (hole_end - ucast base)) 0;
                 st = (if carve_hole then calc_var_mtrr_range 0 st hole (ucast (hole_end - ucast hole)) 0 else st)
             in if mtrr_index st < best_count
                then optimize_loop base hole limit carve_hole (align + 1) (mtrr_index st) (ucast hole_end)
                else optimize_loop base hole limit carve_hole (align + 1) best_count best_end)"
  by pat_completeness auto
termination
  by (relation "measure (\<lambda>(_, hole, _, _, align, _, _). Suc (fms hole) - align)") simp_all

definition optimize_var_mtrr_hole :: "u32 \<Rightarrow> u32 \<Rightarrow> u64 \<Rightarrow> bool \<Rightarrow> u32" where
  "optimize_var_mtrr_hole base hole limit carve_hole =
     optimize_loop base hole limit carve_hole (fls hole + 1)
       (mtrr_index (calc_var_mtrr_range 0 trial base (hole - base) 0)) hole"

declare calc_var_mtrr_range.simps [simp del] optimize_loop.simps [simp del]

text \<open>The entry and the one after it, if there is one; \<open>wb_end\<close> chooses the end of a write-back range.\<close>

definition wb_end :: "u32 \<Rightarrow> u32 \<Rightarrow> range_entry option \<Rightarrow> u32 \<times> bool" where
  "wb_end a1 b1 next =
     (let (b2_limit, carve_hole) =
        (case next of
           None \<Rightarrow> (align_up (ucast b1) (int_bit (fms b1)), a1 < RANGE_4GB)
         | Some n \<Rightarrow>
             if range_entry_mtrr_type n = MTRR_TYPE_UNCACHEABLE
             then (ucast (range_entry_end_mtrr_addr n), True)
             else (ucast (range_entry_base_mtrr_addr n), True))
      in (optimize_var_mtrr_hole a1 b1 b2_limit carve_hole, carve_hole))"

definition calc_var_mtrrs_with_hole :: "int \<Rightarrow> var_mtrr_state \<Rightarrow> range_entry \<Rightarrow> range_entry option \<Rightarrow> var_mtrr_state" where
  "calc_var_mtrrs_with_hole avail st r next =
     (let mtrr_type = range_entry_mtrr_type r;
          a1 = range_entry_base_mtrr_addr r;
          a2 = range_entry_end_mtrr_addr r
      in if a2 \<le> RANGE_1MB then st
         else let a1 = (if a1 \<le> RANGE_1MB then 0 else a1) in
           if \<not> above4gb st \<and> a1 \<ge> RANGE_4GB then st
           else let a2 = (if \<not> above4gb st \<and> a2 > RANGE_4GB then RANGE_4GB else a2);
                    b1 = a2;
                    (b2, carve_hole) = (if mtrr_type = MTRR_TYPE_WRBACK then wb_end a1 b1 next else (a2, False));
                    st = calc_var_mtrr_range avail st a1 (b2 - a1) mtrr_type
                in if carve_hole \<and> b2 \<noteq> b1
                   then calc_var_mtrr_range avail st b1 (b2 - b1) MTRR_TYPE_UNCACHEABLE else st)"

definition next_entry :: "range_entry list \<Rightarrow> range_entry option" where
  "next_entry rs = (case rs of [] \<Rightarrow> None | r # _ \<Rightarrow> Some r)"

text \<open>\<^verbatim>\<open>__calc_var_mtrrs\<close>: the counts with write-back and with uncacheable as the default type.\<close>

fun count_var_mtrrs :: "bool \<Rightarrow> nat \<Rightarrow> range_entry list \<Rightarrow> int \<times> int \<Rightarrow> int \<times> int" where
  "count_var_mtrrs ab bits [] counts = counts"
| "count_var_mtrrs ab bits (r # rs) (wb, uc) =
     (let mtrr_type = range_entry_mtrr_type r;
          count = (\<lambda>def_type. mtrr_index (calc_var_mtrrs_with_hole 0
            \<lparr>above4gb = ab, address_bits = bits, prepare_msrs = False, mtrr_index = 0, def_mtrr_type = def_type, vs_regs = []\<rparr>
            r (next_entry rs)));
          uc = (if mtrr_type \<noteq> MTRR_TYPE_UNCACHEABLE then uc + count MTRR_TYPE_UNCACHEABLE else uc);
          wb = (if mtrr_type \<noteq> MTRR_TYPE_WRBACK then wb + count MTRR_TYPE_WRBACK else wb)
      in count_var_mtrrs ab bits rs (wb, uc))"

definition calc_var_mtrrs :: "int \<Rightarrow> memranges \<Rightarrow> bool \<Rightarrow> nat \<Rightarrow> memranges \<times> u32" where
  "calc_var_mtrrs bios space ab bits =
     (let (wb, uc) = count_var_mtrrs ab bits (mr_entries space) (0, 0);
          (space, wb, uc) =
            (if wb > bios \<and> uc > bios
             then let space = memranges_update_tag space MTRR_TYPE_WRCOMB MTRR_TYPE_UNCACHEABLE
                  in (space, count_var_mtrrs ab bits (mr_entries space) (0, 0))
             else (space, wb, uc))
      in (space, if wb < uc then MTRR_TYPE_WRBACK else MTRR_TYPE_UNCACHEABLE))"

fun prepare_entries :: "int \<Rightarrow> u32 \<Rightarrow> range_entry list \<Rightarrow> var_mtrr_state \<Rightarrow> var_mtrr_state" where
  "prepare_entries avail def_type [] st = st"
| "prepare_entries avail def_type (r # rs) st =
     (if range_entry_mtrr_type r = def_type then prepare_entries avail def_type rs st
      else prepare_entries avail def_type rs (calc_var_mtrrs_with_hole avail st r (next_entry rs)))"

definition prepare_var_mtrrs :: "int \<Rightarrow> memranges \<Rightarrow> u32 \<Rightarrow> bool \<Rightarrow> nat \<Rightarrow> var_mtrr_solution \<Rightarrow> var_mtrr_solution" where
  "prepare_var_mtrrs avail space def_type ab bits sol =
     (let st = prepare_entries avail def_type (mr_entries space)
            \<lparr>above4gb = ab, address_bits = bits, prepare_msrs = True, mtrr_index = 0, def_mtrr_type = def_type, vs_regs = regs sol\<rparr>
      in sol\<lparr>regs := vs_regs st, num_used := mtrr_index st\<rparr>)"

definition commit_var_mtrrs :: "var_mtrr_solution \<Rightarrow> mtrr_state \<Rightarrow> mtrr_state \<times> int" where
  "commit_var_mtrrs sol s =
     (if num_used sol > total_mtrrs s then (s, -1)
      else let s = disable_cache s;
               s = fold (\<lambda>i s. wrmsr (MTRR_PHYS_MASK i) (r_mask (regs sol ! i)) (wrmsr (MTRR_PHYS_BASE i) (r_base (regs sol ! i)) s))
                     [0..<nat (num_used sol)] s;
               s = fold clear_var_mtrr [nat (num_used sol)..<nat (total_mtrrs s)] s;
               s = enable_var_mtrr (mtrr_default_type sol) s
           in (enable_cache s, 0))"

definition empty_solution :: var_mtrr_solution where
  "empty_solution = \<lparr>mtrr_default_type = 0, num_used = 0,
     regs = replicate (nat NUM_MTRR_STATIC_STORAGE) \<lparr>r_base = zero_msr, r_mask = zero_msr\<rparr>\<rparr>"

definition solve :: "mtrr_state \<Rightarrow> memranges \<Rightarrow> bool \<Rightarrow> nat \<Rightarrow> memranges \<times> var_mtrr_solution" where
  "solve s space ab bits =
     (let (space, def_type) = calc_var_mtrrs (bios_mtrrs s) space ab bits
      in (space, prepare_var_mtrrs (total_mtrrs s) space def_type ab bits (empty_solution\<lparr>mtrr_default_type := def_type\<rparr>)))"

definition x86_setup_var_mtrrs :: "device list \<Rightarrow> nat \<Rightarrow> bool \<Rightarrow> mtrr_state \<Rightarrow> mtrr_state" where
  "x86_setup_var_mtrrs devs bits ab s =
     (let (space, s) = get_physical_address_space devs s;
          s = (case mtrr_global_solution s of Some _ \<Rightarrow> s
               | None \<Rightarrow> let (space, sol) = solve s space ab bits
                         in s\<lparr>addr_space := Some space, mtrr_global_solution := Some sol\<rparr>)
      in fst (commit_var_mtrrs (the (mtrr_global_solution s)) s))"

text \<open>\<open>bits\<close> is what \<^verbatim>\<open>cpu_phys_address_size\<close> answers.\<close>

definition x86_setup_mtrrs :: "bool \<Rightarrow> device list \<Rightarrow> nat \<Rightarrow> mtrr_state \<Rightarrow> mtrr_state option" where
  "x86_setup_mtrrs amd devs bits s = map_option (x86_setup_var_mtrrs devs bits True) (x86_setup_fixed_mtrrs amd devs s)"

definition x86_setup_mtrrs_with_detect :: "bool \<Rightarrow> device list \<Rightarrow> nat \<Rightarrow> mtrr_state \<Rightarrow> mtrr_state option" where
  "x86_setup_mtrrs_with_detect amd devs bits s = x86_setup_mtrrs amd devs bits (detect_var_mtrrs s)"

text \<open>What \<^verbatim>\<open>x86_mtrr_check\<close> prints: whether the fixed and the variable registers are enabled.\<close>

definition x86_mtrr_check :: "mtrr_state \<Rightarrow> bool \<times> bool" where
  "x86_mtrr_check s =
     (let m = rdmsr s MTRR_DEF_TYPE_MSR
      in (lo m AND MTRR_DEF_TYPE_FIX_EN \<noteq> 0, lo m AND MTRR_DEF_TYPE_EN \<noteq> 0))"

definition mtrr_use_temp_range :: "device list \<Rightarrow> nat \<Rightarrow> ptr \<Rightarrow> usize \<Rightarrow> u32 \<Rightarrow> mtrr_state \<Rightarrow> mtrr_state" where
  "mtrr_use_temp_range devs bits begin sz type s =
     (let (orig, s) = get_physical_address_space devs s;
          space = fold (\<lambda>r a. let tag = (if re_tag r = MTRR_TYPE_WRCOMB then MTRR_TYPE_UNCACHEABLE else re_tag r)
                              in memranges_insert True a (range_entry_base r) (range_entry_size r) tag)
                    (mr_entries orig) (memranges_init_empty []);
          space = memranges_insert True space (ucast begin) (ucast sz) type;
          (_, sol) = solve s space True bits;
          (s, ret) = commit_var_mtrrs sol s
      in if ret < 0 then s else s\<lparr>put_back_original_solution := True\<rparr>)"

text \<open>The global solution is all zeros until it is computed.\<close>

definition remove_temp_solution :: "mtrr_state \<Rightarrow> mtrr_state" where
  "remove_temp_solution s =
     (if put_back_original_solution s
      then fst (commit_var_mtrrs (case mtrr_global_solution s of None \<Rightarrow> empty_solution | Some sol \<Rightarrow> sol) s) else s)"

end
