(* ===== verification/Mtrr_Types.thy ===== *)
theory Mtrr_Types
  imports Mtrr
begin

text \<open>
  What the registers computed in \<^verbatim>\<open>Mtrr\<close> do: the blocks the variable registers describe, the
  type the processor derives from a register file, and the theorems that the solution gives
  every page of the address space the type its range is tagged with.
\<close>

section \<open>Blocks\<close>

text \<open>The naturally aligned blocks one range is cut into.\<close>

function var_blocks :: "u32 \<Rightarrow> u32 \<Rightarrow> (u32 \<times> u32) list" where
  "var_blocks base sz =
     (if sz = 0 then [] else (base, chunk base sz) # var_blocks (base + chunk base sz) (sz - chunk base sz))"
  by pat_completeness auto
termination
proof (relation "measure (\<lambda>(_, sz). unat sz)", goal_cases)
  case (2 base sz)
  then show ?case using chunk_less [of sz base] by simp
qed simp

declare var_blocks.simps [simp del]

lemma var_blocks_0 [simp]: "var_blocks base 0 = []"
  by (simp add: var_blocks.simps)

definition emit :: "int \<Rightarrow> u32 \<times> u32 \<times> u32 \<Rightarrow> var_mtrr_state \<Rightarrow> var_mtrr_state" where
  "emit avail = (\<lambda>(b, s, t) st.
     (let st = (if prepare_msrs st then prep_var_mtrr avail st b s t else st) in st\<lparr>mtrr_index := mtrr_index st + 1\<rparr>))"

definition tagged :: "u32 \<times> u32 \<times> u32 \<Rightarrow> (u32 \<times> u32 \<times> u32) list" where
  "tagged = (\<lambda>(b, s, t). map (\<lambda>(b, s). (b, s, t)) (var_blocks b s))"

lemma calc_var_mtrr_range_fold:
  "calc_var_mtrr_range avail st base sz type = fold (emit avail) (tagged (base, sz, type)) st"
proof (induction base sz arbitrary: st rule: var_blocks.induct)
  case (1 base sz)
  show ?case
  proof (cases "sz = 0")
    case False
    then show ?thesis
      using "1.IH" [OF False] by (subst calc_var_mtrr_range.simps) (simp add: tagged_def var_blocks.simps [of base sz] emit_def Let_def)
  qed (simp add: tagged_def calc_var_mtrr_range.simps)
qed

definition in_block :: "nat \<Rightarrow> u32 \<times> u32 \<Rightarrow> bool" where
  "in_block p = (\<lambda>(b, s). unat b \<le> p \<and> p < unat b + unat s)"

definition natural :: "u32 \<times> u32 \<Rightarrow> bool" where
  "natural = (\<lambda>(b, s). \<exists>k<32. s = push_bit k 1 \<and> unat s = 2 ^ k \<and> 2 ^ k dvd unat b)"

lemma var_blocks_cover:
  assumes "unat base + unat sz \<le> 4294967296"
  shows "(\<exists>x\<in>set (var_blocks base sz). in_block p x) \<longleftrightarrow> unat base \<le> p \<and> p < unat base + unat sz"
    and "\<forall>x\<in>set (var_blocks base sz). natural x \<and> unat (fst x) + unat (snd x) \<le> unat base + unat sz"
proof -
  have "((\<exists>x\<in>set (var_blocks base sz). in_block p x) \<longleftrightarrow> unat base \<le> p \<and> p < unat base + unat sz) \<and>
    (\<forall>x\<in>set (var_blocks base sz). natural x \<and> unat (fst x) + unat (snd x) \<le> unat base + unat sz)"
    using assms
  proof (induction base sz rule: var_blocks.induct)
    case (1 base sz)
    show ?case
    proof (cases "sz = 0")
      case False
      obtain k where k: "chunk base sz = push_bit k 1" "k < 32" "unat (chunk base sz) = 2 ^ k" "2 ^ k \<le> unat sz" "2 ^ k dvd unat base"
        using chunk_eq [OF False] by blast
      have sub: "unat (sz - chunk base sz) = unat sz - 2 ^ k" using k by (simp add: unat_sub_nowrap)
      have nat: "natural (base, chunk base sz)" unfolding natural_def using k by auto
      have eq: "var_blocks base sz = (base, chunk base sz) # var_blocks (base + chunk base sz) (sz - chunk base sz)"
        using False by (simp add: var_blocks.simps [of base sz])
      show ?thesis
      proof (cases "sz = chunk base sz")
        case True
        then have "var_blocks (base + chunk base sz) (sz - chunk base sz) = []" "unat sz = 2 ^ k" using k by simp_all
        then show ?thesis using nat k(3) unfolding eq by (simp add: in_block_def)
      next
        case False
        then have "unat sz \<noteq> 2 ^ k" using k(3) by (metis word_unat_eq_iff)
        then have "unat base + 2 ^ k < 4294967296" using k(4) 1(2) by linarith
        then have add: "unat (base + chunk base sz) = unat base + 2 ^ k" using k(3) by (simp add: unat_add_nowrap)
        have "unat (base + chunk base sz) + unat (sz - chunk base sz) = unat base + unat sz" using add sub k(4) by linarith
        then show ?thesis
          using "1.IH" [OF \<open>sz \<noteq> 0\<close>] nat k(3,4) add "1.prems" unfolding eq by (auto simp: in_block_def)
      qed
    qed simp
  qed
  then show "(\<exists>x\<in>set (var_blocks base sz). in_block p x) \<longleftrightarrow> unat base \<le> p \<and> p < unat base + unat sz"
    "\<forall>x\<in>set (var_blocks base sz). natural x \<and> unat (fst x) + unat (snd x) \<le> unat base + unat sz" by blast+
qed

lemma emit_simps [simp]:
  "mtrr_index (emit avail x st) = mtrr_index st + 1" "prepare_msrs (emit avail x st) = prepare_msrs st"
  "above4gb (emit avail x st) = above4gb st" "address_bits (emit avail x st) = address_bits st"
  by (cases x; simp add: emit_def prep_var_mtrr_def Let_def)+

lemma emits_simps [simp]:
  "mtrr_index (fold (emit avail) xs st) = mtrr_index st + int (length xs)"
  "prepare_msrs (fold (emit avail) xs st) = prepare_msrs st"
  "above4gb (fold (emit avail) xs st) = above4gb st" "address_bits (fold (emit avail) xs st) = address_bits st"
  by (induction xs arbitrary: st) simp_all

lemma length_tagged [simp]: "length (tagged (b, s, t)) = length (var_blocks b s)"
  by (simp add: tagged_def)

section \<open>The upper end of a range\<close>

lemma int_bit_eq:
  assumes "n < 31"
  shows "int_bit n = 2 ^ n"
proof -
  have "push_bit n 1 = (word_of_int (2 ^ n) :: u32)" by (simp add: push_bit_eq_mult)
  moreover have "scast (word_of_int (2 ^ n) :: u32) = (word_of_int (signed_take_bit 31 (2 ^ n)) :: u64)"
    by (simp only: signed_of_int) simp
  moreover have "(2::int) ^ n < 2 ^ 31" using assms by (intro power_strict_increasing) simp_all
  then have "signed_take_bit 31 ((2::int) ^ n) = 2 ^ n"
    by (intro signed_take_bit_int_eq_self) (simp_all add: order_trans [of _ 0])
  ultimately show ?thesis by (simp add: int_bit_def)
qed

text \<open>Registers needed to end the range at \<open>e\<close> and carve the rest out again.\<close>

definition cost :: "u32 \<Rightarrow> u32 \<Rightarrow> bool \<Rightarrow> u32 \<Rightarrow> nat" where
  "cost base hole carve e = length (var_blocks base (e - base)) + (if carve then length (var_blocks hole (e - hole)) else 0)"

lemma fms_small: "x \<noteq> 0 \<Longrightarrow> unat x < 2147483648 \<Longrightarrow> fms x < 31"
proof (rule ccontr)
  assume "x \<noteq> 0" "unat x < 2147483648" "\<not> fms x < 31"
  moreover from this have "(2::nat) ^ 31 \<le> 2 ^ fms x" by (intro power_increasing) simp_all
  ultimately show False using fms_nat(1) [of x] by simp
qed

lemma align_up_hole:
  fixes hole :: u32
  assumes "hole \<noteq> 0" and "unat hole < 2147483648" and "align \<le> fms hole"
  shows "unat (align_up (ucast hole :: u64) (int_bit align)) = (unat hole + (2 ^ align - 1)) div 2 ^ align * 2 ^ align"
proof -
  have uh: "unat (ucast hole :: u64) = unat hole" by (simp add: unat_ucast_up)
  have f: "fms hole < 31" using assms(1,2) by (rule fms_small)
  have p: "(2::nat) ^ align \<le> 2 ^ fms hole" "(2::nat) ^ Suc (fms hole) \<le> 2 ^ 31"
    using power_increasing [OF assms(3), of "2 :: nat"] power_increasing [of "Suc (fms hole)" 31 "2 :: nat"] f
    by (simp_all del: power_Suc)
  have "(2::nat) ^ fms hole \<le> 2 ^ 31" using p(2) by simp
  then have "unat (ucast hole :: u64) + (2 ^ align - 1) < 2 ^ LENGTH(64)"
    using assms(2) order_trans [OF p(1), of 2147483648] unfolding uh by simp
  moreover have "int_bit align = 2 ^ align" "align < LENGTH(64)" using assms(3) f by (simp_all add: int_bit_eq)
  ultimately show ?thesis using unat_align_up [of align "ucast hole :: u64"] by (simp only: uh)
qed

lemma hole_end:
  fixes hole :: u32
  assumes "hole \<noteq> 0" and "unat hole < 2147483648" and "align \<le> fms hole"
  defines "e \<equiv> align_up (ucast hole :: u64) (int_bit align)"
  shows "unat hole \<le> unat e" and "unat e \<le> 2 ^ Suc (fms hole)" and "unat (ucast e :: u32) = unat e"
    and "fms hole = align \<Longrightarrow> unat e = 2 ^ fms hole \<or> unat e = 2 ^ Suc (fms hole)"
proof -
  have f: "fms hole < 31" using assms(1,2) by (rule fms_small)
  have uh: "unat (ucast hole :: u64) = unat hole" by (simp add: unat_ucast_up)
  have p: "(2::nat) ^ align \<le> 2 ^ fms hole" "(2::nat) ^ Suc (fms hole) \<le> 2 ^ 31"
    using power_increasing [OF assms(3), of "2 :: nat"] power_increasing [of "Suc (fms hole)" 31 "2 :: nat"] f
    by (simp_all del: power_Suc)
  have e: "unat e = (unat hole + (2 ^ align - 1)) div 2 ^ align * 2 ^ align"
    unfolding e_def using assms(1-3) by (rule align_up_hole)
  show le: "unat hole \<le> unat e" unfolding e by (rule align_up_ge_nat)
  obtain j where j: "Suc (fms hole) = align + j" using assms(3) by (metis le_SucI le_iff_add)
  have "unat hole < 2 ^ align * 2 ^ j" using fms_nat(2) [OF assms(1)] unfolding j by (simp add: power_add)
  then have "(unat hole + (2 ^ align - 1)) div 2 ^ align < 2 ^ j + 1"
    by (simp add: less_mult_imp_div_less algebra_simps div_less_iff_less_mult)
  then have "(unat hole + (2 ^ align - 1)) div 2 ^ align * 2 ^ align \<le> 2 ^ j * 2 ^ align" by (intro mult_le_mono1) simp
  then show le2: "unat e \<le> 2 ^ Suc (fms hole)" unfolding e j by (simp add: power_add mult.commute)
  then show "unat (ucast e :: u32) = unat e" using p(2) by (intro unat_ucast_small) simp
  assume "fms hole = align"
  then have dvd: "2 ^ fms hole dvd unat e" unfolding e by simp
  then obtain q where q: "unat e = 2 ^ fms hole * q" by (rule dvdE)
  have "2 ^ fms hole \<le> unat e" using le fms_nat(1) [OF assms(1)] by linarith
  then have "1 \<le> q" "q \<le> 2" using le2 unfolding q by simp_all
  then show "unat e = 2 ^ fms hole \<or> unat e = 2 ^ Suc (fms hole)" unfolding q by (cases "q = 1") auto
qed

lemma trial_count:
  "mtrr_index (calc_var_mtrr_range 0 st b s t) = mtrr_index st + int (length (var_blocks b s))"
  by (simp add: calc_var_mtrr_range_fold)

lemma ucast_diff:
  fixes e :: u64 and b :: u32
  assumes "unat b \<le> unat e" and "unat (ucast e :: u32) = unat e"
  shows "(ucast (e - ucast b) :: u32) = ucast e - b"
proof -
  have "unat (e - ucast b) = unat e - unat b" using assms(1) by (subst unat_sub_nowrap) (simp_all add: unat_ucast_up)
  moreover have "unat (ucast e - b) = unat e - unat b" using assms by (subst unat_sub_nowrap) simp_all
  moreover have "unat e < 2 ^ 32" using assms(2) unat_lt_exp [of "ucast e :: u32"] by simp
  ultimately show ?thesis by (simp add: word_unat_eq_iff unat_ucast_small)
qed

definition good_end :: "u32 \<Rightarrow> u32 \<Rightarrow> u64 \<Rightarrow> bool \<Rightarrow> int \<Rightarrow> u32 \<Rightarrow> bool" where
  "good_end base hole limit carve n e \<longleftrightarrow> unat hole \<le> unat e \<and> (e = hole \<or> unat e \<le> unat limit) \<and> unat e \<le> 2147483648 \<and>
     int (cost base hole carve e) \<le> n"

lemma optimize_loop_correct:
  assumes "hole \<noteq> 0" "unat hole < 2147483648" "unat base \<le> unat hole"
    and "good_end base hole limit carve best_count best_end" and "best_count \<le> n"
  shows "good_end base hole limit carve n (optimize_loop base hole limit carve align best_count best_end)"
  using assms(4,5)
proof (induction "Suc (fms hole) - align" arbitrary: align best_count best_end rule: less_induct)
  case less
  note prems = assms(1-3) less.prems
  define e where "e = align_up (ucast hole :: u64) (int_bit align)"
  show ?case
  proof (cases "fms hole < align \<or> limit < e")
    case True
    then have "optimize_loop base hole limit carve align best_count best_end = best_end"
      by (subst optimize_loop.simps) (auto simp: e_def Let_def)
    then show ?thesis using prems by (auto simp: good_end_def)
  next
    case False
    then have al: "align \<le> fms hole" and lim: "unat e \<le> unat limit" by (simp_all add: word_le_nat_alt not_less)
    note he = hole_end [OF prems(1,2) al, folded e_def]
    have f: "fms hole < 31" using prems(1,2) by (rule fms_small)
    have "(2::nat) ^ Suc (fms hole) \<le> 2 ^ 31" using f by (intro power_increasing) simp_all
    then have e31: "unat e \<le> 2147483648" using he(2) by simp
    define c where "c = int (cost base hole carve (ucast e))"
    define st where "st = (let st = calc_var_mtrr_range 0 trial base (ucast (e - ucast base)) 0
      in if carve then calc_var_mtrr_range 0 st hole (ucast (e - ucast hole)) 0 else st)"
    have "unat base \<le> unat e" using he(1) prems(3) by simp
    then have st: "mtrr_index st = c"
      using ucast_diff [of base e] ucast_diff [of hole e] he(1,3)
      by (simp add: st_def c_def cost_def trial_count Let_def trial_def)
    have eq: "optimize_loop base hole limit carve align best_count best_end =
        (if c < best_count then optimize_loop base hole limit carve (align + 1) c (ucast e)
         else optimize_loop base hole limit carve (align + 1) best_count best_end)"
      using False unfolding st [symmetric] st_def
      by (subst optimize_loop.simps) (auto simp: e_def Let_def)
    have good: "good_end base hole limit carve c (ucast e)"
      using he(1,3) lim e31 by (simp add: good_end_def c_def)
    have dec: "Suc (fms hole) - (align + 1) < Suc (fms hole) - align" using al by simp
    show ?thesis
      using less.hyps [OF dec good] less.hyps [OF dec prems(4,5)] prems(5) unfolding eq by simp
  qed
qed

text \<open>The end chosen for a range is never costlier than the range itself.\<close>

lemma optimize_var_mtrr_hole_correct:
  assumes "hole \<noteq> 0" "unat hole < 2147483648" "unat base \<le> unat hole"
  shows "good_end base hole limit carve (int (length (var_blocks base (hole - base)))) (optimize_var_mtrr_hole base hole limit carve)"
  unfolding optimize_var_mtrr_hole_def trial_count
proof (rule optimize_loop_correct [OF assms])
  show "good_end base hole limit carve (mtrr_index trial + int (length (var_blocks base (hole - base)))) hole"
    using assms(2) by (simp add: good_end_def cost_def trial_def)
qed (simp add: trial_def)

section \<open>The blocks of one entry\<close>

text \<open>The one or two ranges of \<^verbatim>\<open>calc_var_mtrrs_with_hole\<close>, with their types.\<close>

definition entry_parts :: "bool \<Rightarrow> range_entry \<Rightarrow> range_entry option \<Rightarrow> (u32 \<times> u32 \<times> u32) list" where
  "entry_parts ab r nx =
     (let type = range_entry_mtrr_type r; a1 = range_entry_base_mtrr_addr r; a2 = range_entry_end_mtrr_addr r in
      if a2 \<le> RANGE_1MB then []
      else let a1 = (if a1 \<le> RANGE_1MB then 0 else a1) in
        if \<not> ab \<and> a1 \<ge> RANGE_4GB then []
        else let b1 = (if \<not> ab \<and> a2 > RANGE_4GB then RANGE_4GB else a2);
                 (b2, carve) = (if type = MTRR_TYPE_WRBACK then wb_end a1 b1 nx else (b1, False))
             in (a1, b2 - a1, type) # (if carve \<and> b2 \<noteq> b1 then [(b1, b2 - b1, MTRR_TYPE_UNCACHEABLE)] else []))"

lemma calc_var_mtrrs_with_hole_parts:
  "calc_var_mtrrs_with_hole avail st r nx = fold (emit avail) (concat (map tagged (entry_parts (above4gb st) r nx))) st"
proof -
  define t a2 where "t = range_entry_mtrr_type r" and "a2 = range_entry_end_mtrr_addr r"
  define a1 where "a1 = (if range_entry_base_mtrr_addr r \<le> RANGE_1MB then 0 else range_entry_base_mtrr_addr r)"
  define b1 where "b1 = (if \<not> above4gb st \<and> a2 > RANGE_4GB then RANGE_4GB else a2)"
  obtain b2 c where bc: "(if t = MTRR_TYPE_WRBACK then wb_end a1 b1 nx else (b1, False)) = (b2, c)" by fastforce
  have l: "calc_var_mtrrs_with_hole avail st r nx = (if a2 \<le> RANGE_1MB then st else if \<not> above4gb st \<and> a1 \<ge> RANGE_4GB then st
      else let st = calc_var_mtrr_range avail st a1 (b2 - a1) t
           in if c \<and> b2 \<noteq> b1 then calc_var_mtrr_range avail st b1 (b2 - b1) MTRR_TYPE_UNCACHEABLE else st)"
    unfolding calc_var_mtrrs_with_hole_def t_def [symmetric] a2_def [symmetric] Let_def a1_def [symmetric] b1_def [symmetric] bc prod.case ..
  have r: "entry_parts (above4gb st) r nx = (if a2 \<le> RANGE_1MB then [] else if \<not> above4gb st \<and> a1 \<ge> RANGE_4GB then []
      else (a1, b2 - a1, t) # (if c \<and> b2 \<noteq> b1 then [(b1, b2 - b1, MTRR_TYPE_UNCACHEABLE)] else []))"
    unfolding entry_parts_def t_def [symmetric] a2_def [symmetric] Let_def a1_def [symmetric] b1_def [symmetric] bc prod.case ..
  show ?thesis unfolding l r by (simp add: calc_var_mtrr_range_fold Let_def)
qed

fun all_parts :: "bool \<Rightarrow> u32 \<Rightarrow> range_entry list \<Rightarrow> (u32 \<times> u32 \<times> u32) list" where
  "all_parts ab def_type [] = []"
| "all_parts ab def_type (r # rs) =
     (if range_entry_mtrr_type r = def_type then [] else entry_parts ab r (next_entry rs)) @ all_parts ab def_type rs"

lemma prepare_entries_parts:
  "prepare_entries avail def_type rs st = fold (emit avail) (concat (map tagged (all_parts (above4gb st) def_type rs))) st"
  by (induction rs arbitrary: st) (simp_all add: calc_var_mtrrs_with_hole_parts)

text \<open>The pages of an entry, as numbers.\<close>

definition first_page :: "range_entry \<Rightarrow> nat" where "first_page r = unat (re_begin r) div 4096"
definition end_page :: "range_entry \<Rightarrow> nat" where "end_page r = (unat (re_end r) + 1) div 4096"

text \<open>Whole pages below 8 TiB.\<close>

definition page_entry :: "range_entry \<Rightarrow> bool" where
  "page_entry r \<longleftrightarrow> unat (re_begin r) mod 4096 = 0 \<and> (unat (re_end r) + 1) mod 4096 = 0 \<and>
     re_begin r \<le> re_end r \<and> unat (re_end r) + 1 < 8796093022208"

lemma unat_range_addr: "unat x < 17592186044416 \<Longrightarrow> unat (PHYS_TO_RANGE_ADDR x) = unat x div 4096"
proof -
  assume x: "unat x < 17592186044416"
  have "unat (drop_bit 12 x) = drop_bit 12 (unat x)" by (rule unat_drop_bit_eq)
  then have "unat (drop_bit 12 x) = unat x div 4096" by (simp add: drop_bit_eq_div)
  then show ?thesis unfolding PHYS_TO_RANGE_ADDR_def using x by (subst unat_ucast_small) simp_all
qed

lemma page_entry_addrs:
  assumes "page_entry r"
  shows "unat (range_entry_base_mtrr_addr r) = first_page r" "unat (range_entry_end_mtrr_addr r) = end_page r"
    "first_page r < end_page r" "end_page r < 2147483648"
    "re_begin r \<le> a \<and> a \<le> re_end r \<longleftrightarrow> first_page r \<le> unat a div 4096 \<and> unat a div 4096 < end_page r"
proof -
  obtain x y where xy: "unat (re_begin r) = 4096 * x" "unat (re_end r) + 1 = 4096 * y" "4096 * x < 4096 * y" "4096 * y < 8796093022208"
    using assms by (auto simp: page_entry_def word_le_nat_alt mod_eq_0_iff_dvd elim!: dvdE)
  have fe: "first_page r = x" "end_page r = y" using xy by (simp_all add: first_page_def end_page_def)
  have "unat (re_end r + 1) = unat (re_end r) + 1" using xy(2,4) by (subst unat_add_nowrap) simp_all
  then have "unat (re_end r + 1) = 4096 * y" using xy(2) by simp
  then show "unat (range_entry_end_mtrr_addr r) = end_page r" "unat (range_entry_base_mtrr_addr r) = first_page r"
    using xy fe by (simp_all add: range_entry_end_mtrr_addr_def range_entry_base_mtrr_addr_def range_entry_end_def
        range_entry_base_def unat_range_addr)
  show "first_page r < end_page r" "end_page r < 2147483648" using xy fe by simp_all
  have "4096 * x \<le> unat a \<and> unat a < 4096 * y \<longleftrightarrow> x \<le> unat a div 4096 \<and> unat a div 4096 < y"
    by (simp add: less_eq_div_iff_mult_less_eq div_less_iff_less_mult mult.commute)
  then show "re_begin r \<le> a \<and> a \<le> re_end r \<longleftrightarrow> first_page r \<le> unat a div 4096 \<and> unat a div 4096 < end_page r"
    unfolding fe word_le_nat_alt using xy(1,2) by linarith
qed

definition covers :: "(u32 \<times> u32 \<times> u32) list \<Rightarrow> nat \<Rightarrow> u32 set" where
  "covers parts p = {t. \<exists>b s. (b, s, t) \<in> set parts \<and> unat b \<le> p \<and> p < unat b + unat s}"

lemma covers_append [simp]: "covers (xs @ ys) p = covers xs p \<union> covers ys p"
  by (auto simp: covers_def)

lemma covers_Nil [simp]: "covers [] p = {}"
  by (simp add: covers_def)

lemma covers_part [simp]: "covers ((b, s, t) # xs) p = (if unat b \<le> p \<and> p < unat b + unat s then {t} else {}) \<union> covers xs p"
  by (auto simp: covers_def)

lemma unat_diff_le: "unat (a :: u32) \<le> unat b \<Longrightarrow> unat (b - a) = unat b - unat a"
  by (rule unat_sub_nowrap)

lemma align_up_le_multiple:
  assumes "n \<le> m" and "2 ^ k dvd m"
  shows "(n + (2 ^ k - 1)) div 2 ^ k * 2 ^ k \<le> (m :: nat)"
proof -
  obtain q where q: "m = 2 ^ k * q" using assms(2) by (rule dvdE)
  have "(n + (2 ^ k - 1)) div 2 ^ k \<le> (2 ^ k - 1 + q * 2 ^ k) div 2 ^ k"
    using assms(1) q by (intro div_le_mono) (simp add: mult.commute)
  also have "\<dots> = q" by (subst div_mult_self1) simp_all
  finally show ?thesis using q by (simp add: mult.commute)
qed

lemma last_limit:
  assumes "hole \<noteq> 0" "unat hole < 2147483648" "unat hole \<le> 2 ^ j"
  shows "unat (align_up (ucast hole :: u64) (int_bit (fms hole))) \<le> 2 ^ j"
proof -
  have f: "fms hole < 31" using assms(1,2) by (rule fms_small)
  have "(2::nat) ^ fms hole \<le> 2 ^ j" using fms_nat(1) [OF assms(1)] assms(3) by linarith
  then have "fms hole \<le> j" by (simp add: power_increasing_iff)
  then have "(unat hole + (2 ^ fms hole - 1)) div 2 ^ fms hole * 2 ^ fms hole \<le> 2 ^ j"
    using assms(3) by (intro align_up_le_multiple) (simp_all add: le_imp_power_dvd)
  moreover have "unat (align_up (ucast hole :: u64) (int_bit (fms hole))) = (unat hole + (2 ^ fms hole - 1)) div 2 ^ fms hole * 2 ^ fms hole"
    using assms(1,2) by (intro align_up_hole) simp_all
  ultimately show ?thesis by simp
qed

text \<open>The parts of an entry: its range up to \<open>b2\<close>, and the piece between \<open>b1\<close> and \<open>b2\<close> carved out.\<close>

lemma entry_parts_cases:
  assumes r: "page_entry r"
  obtains "entry_parts ab r nx = []" "end_page r \<le> 256 \<or> \<not> ab \<and> 1048576 \<le> first_page r"
  | a1 b1 b2 c where
      "entry_parts ab r nx = (a1, b2 - a1, range_entry_mtrr_type r) #
         (if c \<and> b2 \<noteq> b1 then [(b1, b2 - b1, MTRR_TYPE_UNCACHEABLE)] else [])"
      "unat a1 = (if first_page r \<le> 256 then 0 else first_page r)"
      "unat b1 = (if \<not> ab \<and> 1048576 < end_page r then 1048576 else end_page r)"
      "unat a1 \<le> unat b1" "unat b1 \<le> unat b2" "unat b2 \<le> 2147483648"
      "b2 \<noteq> b1 \<Longrightarrow> range_entry_mtrr_type r = MTRR_TYPE_WRBACK"
      "\<And>n. b2 \<noteq> b1 \<Longrightarrow> nx = Some n \<Longrightarrow> page_entry n \<Longrightarrow>
         c \<and> unat b2 \<le> (if range_entry_mtrr_type n = MTRR_TYPE_UNCACHEABLE then end_page n else first_page n)"
      "\<And>j. end_page r \<le> 2 ^ j \<Longrightarrow> (\<And>n. nx = Some n \<Longrightarrow> page_entry n \<and> end_page n \<le> 2 ^ j) \<Longrightarrow> unat b2 \<le> 2 ^ j"
proof -
  note pg = page_entry_addrs [OF r]
  define t a2 where "t = range_entry_mtrr_type r" and "a2 = range_entry_end_mtrr_addr r"
  define a1 where "a1 = (if range_entry_base_mtrr_addr r \<le> RANGE_1MB then 0 else range_entry_base_mtrr_addr r)"
  define b1 where "b1 = (if \<not> ab \<and> a2 > RANGE_4GB then RANGE_4GB else a2)"
  obtain b2 c where bc: "(if t = MTRR_TYPE_WRBACK then wb_end a1 b1 nx else (b1, False)) = (b2, c)" by fastforce
  have parts: "entry_parts ab r nx = (if a2 \<le> RANGE_1MB then [] else if \<not> ab \<and> a1 \<ge> RANGE_4GB then []
      else (a1, b2 - a1, t) # (if c \<and> b2 \<noteq> b1 then [(b1, b2 - b1, MTRR_TYPE_UNCACHEABLE)] else []))"
    unfolding entry_parts_def t_def [symmetric] a2_def [symmetric] Let_def a1_def [symmetric] b1_def [symmetric] bc prod.case ..
  have a2: "unat a2 = end_page r" using pg(2) by (simp add: a2_def)
  have ua1: "unat a1 = (if first_page r \<le> 256 then 0 else first_page r)"
    using pg(1) by (simp add: a1_def RANGE_1MB_def word_le_nat_alt)
  have ub1: "unat b1 = (if \<not> ab \<and> 1048576 < end_page r then 1048576 else end_page r)"
    using a2 by (simp add: b1_def RANGE_4GB_def word_less_nat_alt)
  show thesis
  proof (cases "a2 \<le> RANGE_1MB \<or> \<not> ab \<and> a1 \<ge> RANGE_4GB")
    case True
    then have "end_page r \<le> 256 \<or> \<not> ab \<and> 1048576 \<le> first_page r"
      using a2 ua1 by (auto simp: RANGE_1MB_def RANGE_4GB_def word_le_nat_alt split: if_splits)
    then show thesis using that(1) True parts by auto
  next
    case False
    then have b1: "256 < unat b1" "unat b1 < 2147483648" "unat a1 \<le> unat b1"
      using a2 ua1 ub1 pg(3,4) by (auto simp: RANGE_1MB_def RANGE_4GB_def word_le_nat_alt not_le split: if_splits)
    then have nz: "b1 \<noteq> 0" by auto
    have g: "\<exists>limit. good_end a1 b1 limit c (int (length (var_blocks a1 (b1 - a1)))) b2 \<and>
       (\<forall>n. nx = Some n \<and> page_entry n \<longrightarrow> c \<and> unat limit = (if range_entry_mtrr_type n = MTRR_TYPE_UNCACHEABLE then end_page n else first_page n)) \<and>
       (\<forall>j. nx = None \<and> unat b1 \<le> 2 ^ j \<longrightarrow> unat limit \<le> 2 ^ j)"
      if "t = MTRR_TYPE_WRBACK"
    proof (cases nx)
      case None
      then show ?thesis using bc that optimize_var_mtrr_hole_correct [OF nz b1(2,3)] last_limit [OF nz b1(2)]
        by (intro exI [of _ "align_up (ucast b1) (int_bit (fms b1))"]) (auto simp: wb_end_def)
    next
      case (Some n)
      define limit :: u64 where "limit = ucast (if range_entry_mtrr_type n = MTRR_TYPE_UNCACHEABLE
        then range_entry_end_mtrr_addr n else range_entry_base_mtrr_addr n)"
      have "b2 = optimize_var_mtrr_hole a1 b1 limit True" "c"
        using bc that Some by (auto simp: wb_end_def limit_def split: if_splits)
      moreover have "unat limit = (if range_entry_mtrr_type n = MTRR_TYPE_UNCACHEABLE then end_page n else first_page n)"
        if "page_entry n"
        using page_entry_addrs(1,2) [OF that] by (simp add: limit_def unat_ucast_up)
      ultimately show ?thesis
        using Some optimize_var_mtrr_hole_correct [OF nz b1(2,3)] by (intro exI [of _ limit]) auto
    qed
    have "unat b1 \<le> unat b2 \<and> unat b2 \<le> 2147483648"
      using g b1(2) bc by (cases "t = MTRR_TYPE_WRBACK") (auto simp: good_end_def)
    moreover have ty: "t = MTRR_TYPE_WRBACK" if "b2 \<noteq> b1" using that bc by (auto split: if_splits)
    moreover have lim: "c \<and> unat b2 \<le> (if range_entry_mtrr_type n = MTRR_TYPE_UNCACHEABLE then end_page n else first_page n)"
      if "b2 \<noteq> b1" "nx = Some n" "page_entry n" for n
      using g ty that unfolding good_end_def by metis
    moreover have "unat b2 \<le> 2 ^ j"
      if e: "end_page r \<le> 2 ^ j" and nx: "\<And>n. nx = Some n \<Longrightarrow> page_entry n \<and> end_page n \<le> 2 ^ j" for j
    proof (cases "b2 = b1")
      case True
      then show ?thesis using ub1 e by (auto split: if_splits)
    next
      case ne: False
      show ?thesis
      proof (cases nx)
        case None
        moreover have "unat b1 \<le> 2 ^ j" using ub1 e by (auto split: if_splits)
        ultimately show ?thesis using g [OF ty [OF ne]] ne unfolding good_end_def by (metis order_trans)
      next
        case (Some n)
        then have "page_entry n" "end_page n \<le> 2 ^ j" using nx by blast+
        moreover have "first_page n < end_page n" using page_entry_addrs(3) [OF \<open>page_entry n\<close>] .
        moreover have "unat b2 \<le> (if range_entry_mtrr_type n = MTRR_TYPE_UNCACHEABLE then end_page n else first_page n)"
          using lim [OF ne Some \<open>page_entry n\<close>] by blast
        ultimately show ?thesis by (auto split: if_splits)
      qed
    qed
    ultimately show thesis using that(2) [of a1 b2 c b1] False parts ua1 ub1 b1(3) lim by (simp add: t_def)
  qed
qed

text \<open>Beyond the first megabyte an entry covers its own pages, and past its end only pages it carves out again.\<close>

lemma entry_covers:
  assumes r: "page_entry r" and p: "256 \<le> p" "ab \<or> p < 1048576"
  shows "p < first_page r \<Longrightarrow> covers (entry_parts ab r nx) p = {}"
    and "first_page r \<le> p \<Longrightarrow> p < end_page r \<Longrightarrow> covers (entry_parts ab r nx) p = {range_entry_mtrr_type r}"
    and "end_page r \<le> p \<Longrightarrow> nx = Some n \<Longrightarrow> page_entry n \<Longrightarrow> covers (entry_parts ab r nx) p \<noteq> {} \<Longrightarrow>
      range_entry_mtrr_type r = MTRR_TYPE_WRBACK \<and> MTRR_TYPE_UNCACHEABLE \<in> covers (entry_parts ab r nx) p \<and>
      p < (if range_entry_mtrr_type n = MTRR_TYPE_UNCACHEABLE then end_page n else first_page n)"
    and "\<forall>x \<in> set (entry_parts ab r nx). unat (fst x) + unat (fst (snd x)) \<le> 2147483648"
proof -
  have lt: "first_page r < end_page r" using page_entry_addrs(3) [OF r] .
  have "(p < first_page r \<longrightarrow> covers (entry_parts ab r nx) p = {}) \<and>
    (first_page r \<le> p \<and> p < end_page r \<longrightarrow> covers (entry_parts ab r nx) p = {range_entry_mtrr_type r}) \<and>
    (end_page r \<le> p \<and> nx = Some n \<and> page_entry n \<and> covers (entry_parts ab r nx) p \<noteq> {} \<longrightarrow>
      range_entry_mtrr_type r = MTRR_TYPE_WRBACK \<and> MTRR_TYPE_UNCACHEABLE \<in> covers (entry_parts ab r nx) p \<and>
      p < (if range_entry_mtrr_type n = MTRR_TYPE_UNCACHEABLE then end_page n else first_page n)) \<and>
    (\<forall>x \<in> set (entry_parts ab r nx). unat (fst x) + unat (fst (snd x)) \<le> 2147483648)"
    using r
  proof (cases rule: entry_parts_cases [where ab = ab and nx = nx])
    case 1
    then show ?thesis using p lt by auto
  next
    case (2 a1 b1 b2 c)
    have d: "unat (b2 - a1) = unat b2 - unat a1" "unat (b2 - b1) = unat b2 - unat b1"
      using 2(4,5) by (auto intro!: unat_diff_le)
    have cov: "covers (entry_parts ab r nx) p = (if unat a1 \<le> p \<and> p < unat b2 then {range_entry_mtrr_type r} else {}) \<union>
        (if c \<and> b2 \<noteq> b1 \<and> unat b1 \<le> p \<and> p < unat b2 then {MTRR_TYPE_UNCACHEABLE} else {})"
      using 2(4,5) unfolding 2(1) by (auto simp: d)
    have "p < first_page r \<longrightarrow> covers (entry_parts ab r nx) p = {}"
      unfolding cov using 2(2,3) p lt by auto
    moreover have "first_page r \<le> p \<and> p < end_page r \<longrightarrow> covers (entry_parts ab r nx) p = {range_entry_mtrr_type r}"
      unfolding cov using 2(2,3,5) p by auto
    moreover have "end_page r \<le> p \<and> nx = Some n \<and> page_entry n \<and> covers (entry_parts ab r nx) p \<noteq> {} \<longrightarrow>
      range_entry_mtrr_type r = MTRR_TYPE_WRBACK \<and> MTRR_TYPE_UNCACHEABLE \<in> covers (entry_parts ab r nx) p \<and>
      p < (if range_entry_mtrr_type n = MTRR_TYPE_UNCACHEABLE then end_page n else first_page n)"
    proof (intro impI)
      assume asm: "end_page r \<le> p \<and> nx = Some n \<and> page_entry n \<and> covers (entry_parts ab r nx) p \<noteq> {}"
      then have "unat b1 \<le> p" "p < unat b2" using 2(3) p unfolding cov by (auto split: if_splits)
      moreover from this have "b2 \<noteq> b1" by auto
      ultimately show "range_entry_mtrr_type r = MTRR_TYPE_WRBACK \<and> MTRR_TYPE_UNCACHEABLE \<in> covers (entry_parts ab r nx) p \<and>
        p < (if range_entry_mtrr_type n = MTRR_TYPE_UNCACHEABLE then end_page n else first_page n)"
        using 2(7) 2(8) [of n] asm unfolding cov by (auto split: if_splits)
    qed
    moreover have "\<forall>x \<in> set (entry_parts ab r nx). unat (fst x) + unat (fst (snd x)) \<le> 2147483648"
      using 2(4-6) unfolding 2(1) by (auto simp: d)
    ultimately show ?thesis by blast
  qed
  then show "p < first_page r \<Longrightarrow> covers (entry_parts ab r nx) p = {}"
    "first_page r \<le> p \<Longrightarrow> p < end_page r \<Longrightarrow> covers (entry_parts ab r nx) p = {range_entry_mtrr_type r}"
    "end_page r \<le> p \<Longrightarrow> nx = Some n \<Longrightarrow> page_entry n \<Longrightarrow> covers (entry_parts ab r nx) p \<noteq> {} \<Longrightarrow>
      range_entry_mtrr_type r = MTRR_TYPE_WRBACK \<and> MTRR_TYPE_UNCACHEABLE \<in> covers (entry_parts ab r nx) p \<and>
      p < (if range_entry_mtrr_type n = MTRR_TYPE_UNCACHEABLE then end_page n else first_page n)"
    "\<forall>x \<in> set (entry_parts ab r nx). unat (fst x) + unat (fst (snd x)) \<le> 2147483648"
    by blast+
qed

section \<open>The blocks of the whole address space\<close>

text \<open>The type that results from the types of the registers that match.\<close>

definition results_in :: "u32 \<Rightarrow> u32 set \<Rightarrow> u32 \<Rightarrow> bool" where
  "results_in def_type ts t \<longleftrightarrow> ts = {} \<and> t = def_type \<or> t = MTRR_TYPE_UNCACHEABLE \<and> MTRR_TYPE_UNCACHEABLE \<in> ts \<or> ts = {t}"

lemma sorted_pages:
  assumes "page_entry r" "page_entry x" "re_end r < re_begin x"
  shows "end_page r \<le> first_page x"
proof -
  have "(unat (re_end r) + 1) div 4096 \<le> unat (re_begin x) div 4096"
    using assms(3) by (intro div_le_mono) (simp add: word_less_nat_alt)
  then show ?thesis by (simp add: end_page_def first_page_def)
qed

lemma all_parts_covers:
  assumes "ranges_sorted rs" and "\<forall>r\<in>set rs. page_entry r" and p: "256 \<le> p" "ab \<or> p < 1048576"
    and d: "def_type = MTRR_TYPE_UNCACHEABLE \<or> def_type = MTRR_TYPE_WRBACK"
  shows "((\<forall>r\<in>set rs. p < first_page r) \<longrightarrow> covers (all_parts ab def_type rs) p = {}) \<and>
    (\<forall>r\<in>set rs. first_page r \<le> p \<and> p < end_page r \<longrightarrow> results_in def_type (covers (all_parts ab def_type rs) p) (range_entry_mtrr_type r)) \<and>
    ((\<forall>r\<in>set rs. \<not> (first_page r \<le> p \<and> p < end_page r)) \<and> (\<exists>r\<in>set rs. p < first_page r) \<longrightarrow>
      results_in def_type (covers (all_parts ab def_type rs) p) def_type)"
  using assms(1,2)
proof (induction rs)
  case (Cons r rs)
  have r: "page_entry r" "\<forall>x\<in>set rs. end_page r \<le> first_page x"
    using Cons.prems by (auto intro: sorted_pages)
  define T U where "T = covers (all_parts ab def_type rs) p"
    and "U = (if range_entry_mtrr_type r = def_type then {} else covers (entry_parts ab r (next_entry rs)) p)"
  have all: "covers (all_parts ab def_type (r # rs)) p = U \<union> T" by (simp add: U_def T_def)
  note IH = Cons.IH [folded T_def] and e = entry_covers [OF r(1) p, of "next_entry rs"]
  have IH': "(\<forall>r\<in>set rs. p < first_page r) \<longrightarrow> T = {}"
    "\<forall>r\<in>set rs. first_page r \<le> p \<and> p < end_page r \<longrightarrow> results_in def_type T (range_entry_mtrr_type r)"
    "(\<forall>r\<in>set rs. \<not> (first_page r \<le> p \<and> p < end_page r)) \<and> (\<exists>r\<in>set rs. p < first_page r) \<longrightarrow> results_in def_type T def_type"
    using IH Cons.prems by auto
  have lt: "first_page r < end_page r" using page_entry_addrs(3) [OF r(1)] .
  consider "p < first_page r" | "first_page r \<le> p" "p < end_page r" | "end_page r \<le> p" by linarith
  then show ?case
  proof cases
    case 1
    then have later: "\<forall>x\<in>set rs. p < first_page x" using r(2) lt by fastforce
    then have "T = {}" using IH'(1) by blast
    moreover have "U = {}" using e(1) 1 by (simp add: U_def)
    ultimately show ?thesis unfolding all using 1 later by (auto simp: results_in_def)
  next
    case 2
    then have later: "\<forall>x\<in>set rs. p < first_page x" using r(2) by fastforce
    then have "T = {}" using IH'(1) by blast
    moreover have "U = (if range_entry_mtrr_type r = def_type then {} else {range_entry_mtrr_type r})"
      using e(2) 2 by (simp add: U_def)
    ultimately show ?thesis unfolding all using 2 later by (auto simp: results_in_def)
  next
    case 3
    show ?thesis
    proof (cases "U = {}")
      case True
      then show ?thesis unfolding all using 3 lt IH' by auto
    next
      case U: False
      then have wb: "range_entry_mtrr_type r \<noteq> def_type" "U = covers (entry_parts ab r (next_entry rs)) p"
        by (auto simp: U_def split: if_splits)
      show ?thesis
      proof (cases rs)
        case Nil
        then show ?thesis using 3 lt by auto
      next
        case rs: (Cons n rs')
        have n: "page_entry n" "next_entry rs = Some n" using Cons.prems rs by (simp_all add: next_entry_def)
        have "range_entry_mtrr_type r = MTRR_TYPE_WRBACK" and uc: "MTRR_TYPE_UNCACHEABLE \<in> U"
          and lim: "p < (if range_entry_mtrr_type n = MTRR_TYPE_UNCACHEABLE then end_page n else first_page n)"
          using e(3) [OF 3 n(2,1)] U wb(2) by auto
        then have def_uc: "def_type = MTRR_TYPE_UNCACHEABLE" using wb(1) d by auto
        have after: "\<forall>x\<in>set rs'. end_page n \<le> first_page x"
          using Cons.prems rs by (auto intro: sorted_pages)
        have "first_page n < end_page n" using page_entry_addrs(3) [OF n(1)] .
        then have "first_page x \<le> p \<and> p < end_page x \<longrightarrow> x = n \<and> range_entry_mtrr_type n = MTRR_TYPE_UNCACHEABLE"
          if "x \<in> set rs" for x
          using that rs lim after by (auto split: if_splits)
        then show ?thesis unfolding all results_in_def using uc def_uc 3 lt by auto
      qed
    qed
  qed
qed simp

section \<open>What the processor makes of the registers\<close>

definition msr64 :: "msr_t \<Rightarrow> u64" where
  "msr64 m = push_bit 32 (ucast (hi m)) OR ucast (lo m)"

text \<open>A variable register matches an address that agrees with its base where its mask has ones.\<close>

definition var_matches :: "var_mtrr_regs \<Rightarrow> resource_t \<Rightarrow> bool" where
  "var_matches r a \<longleftrightarrow> lo (r_mask r) AND MTRR_PHYS_MASK_VALID \<noteq> 0 \<and>
     (let mask = msr64 (r_mask r) AND NOT 0xfff in a AND mask = msr64 (r_base r) AND mask)"

definition var_type :: "var_mtrr_regs \<Rightarrow> u32" where
  "var_type r = lo (r_base r) AND 0xff"

text \<open>The register a block is written to.\<close>

definition enc :: "nat \<Rightarrow> u32 \<times> u32 \<times> u32 \<Rightarrow> var_mtrr_regs" where
  "enc bits = (\<lambda>(base, sz, type).
     (let rbase = RANGE_TO_PHYS_ADDR base; rsize = (- RANGE_TO_PHYS_ADDR sz) AND (push_bit bits 1 - 1)
      in \<lparr>r_base = \<lparr>lo = ucast rbase OR type, hi = ucast (drop_bit 32 rbase)\<rparr>,
          r_mask = \<lparr>lo = ucast rsize OR MTRR_PHYS_MASK_VALID, hi = ucast (drop_bit 32 rsize)\<rparr>\<rparr>))"

lemma bit_msr64:
  "bit (msr64 \<lparr>lo = ucast x OR t, hi = ucast (drop_bit 32 x)\<rparr> AND NOT 0xfff) n \<longleftrightarrow> bit x n \<and> 12 \<le> n"
  if "\<forall>n\<ge>12. \<not> bit t n" for x :: u64 and t :: u32
proof -
  have m: "(0xfff :: u64) = mask 12" by (simp add: mask_eq_exp_minus_1)
  show ?thesis
    using that bit_imp_le_length [of x n] unfolding msr64_def m
    by (cases "n < 32") (auto simp: bit_simps)
qed

lemma unat_RANGE_TO_PHYS: "unat (RANGE_TO_PHYS_ADDR b) = unat b * 4096"
proof -
  have "unat (ucast b :: u64) = unat b" by (rule unat_ucast_up) simp
  moreover have "unat b * 4096 < 2 ^ 64" using unat_lt32 [of b] by simp
  ultimately show ?thesis unfolding RANGE_TO_PHYS_ADDR_def push_bit_eq_mult
    using unat_mult_lem [of "ucast b :: u64" "2 ^ 12", THEN iffD1] by (simp add: mult.commute)
qed

lemma block_mask:
  assumes "k < 32" and "bits \<le> 64"
  shows "bit ((- RANGE_TO_PHYS_ADDR (push_bit k 1)) AND (push_bit bits 1 - 1)) n \<longleftrightarrow> k + 12 \<le> n \<and> n < bits"
proof -
  have "RANGE_TO_PHYS_ADDR (push_bit k 1) = push_bit (k + 12) 1"
    unfolding RANGE_TO_PHYS_ADDR_def using assms(1) by (intro bit_word_eqI) (auto simp: bit_simps)
  then have "- RANGE_TO_PHYS_ADDR (push_bit k 1) = NOT (mask (k + 12))"
    by (simp add: minus_exp_eq_not_mask push_bit_eq_mult)
  moreover have "push_bit bits 1 - 1 = (mask bits :: u64)" by (simp add: mask_eq_exp_minus_1 push_bit_eq_mult)
  ultimately show ?thesis using assms by (auto simp: bit_simps)
qed

lemma div_interval: "0 < d \<Longrightarrow> x div d = q \<longleftrightarrow> d * q \<le> x \<and> x < d * q + (d :: nat)"
proof -
  assume d: "0 < d"
  have "x div d = q \<longleftrightarrow> q \<le> x div d \<and> x div d < q + 1" by linarith
  then show ?thesis using d by (simp add: less_eq_div_iff_mult_less_eq div_less_iff_less_mult algebra_simps)
qed

lemma no_high_bits: "unat (a :: 'a::len word) < 2 ^ bits \<Longrightarrow> bits \<le> n \<Longrightarrow> \<not> bit a n"
proof
  assume a: "unat a < 2 ^ bits" "bits \<le> n" "bit a n"
  then have "bit (unat a) n" by (simp add: bit_unsigned_iff)
  moreover have "unat a < 2 ^ n" using a(1) power_increasing [OF a(2), of "2 :: nat"] by (simp add: less_le_trans)
  ultimately show False by (simp add: bit_iff_odd)
qed

lemma bit_and_nonzero: "bit (x AND y) n \<Longrightarrow> x AND y \<noteq> 0"
  by (metis bit_0_eq bot_apply bot_bool_def)

lemma enc_matches:
  assumes "natural (base, sz)" and "\<forall>n\<ge>8. \<not> bit type n" and "12 \<le> bits" "bits \<le> 64"
    and "(unat base + unat sz) * 4096 \<le> 2 ^ bits" and "unat a < 2 ^ bits"
  shows "var_matches (enc bits (base, sz, type)) a \<longleftrightarrow> unat base \<le> unat a div 4096 \<and> unat a div 4096 < unat base + unat sz"
    and "var_type (enc bits (base, sz, type)) = type"
proof -
  obtain k q where k: "k < 32" "sz = push_bit k 1" "unat sz = 2 ^ k" "unat base = 2 ^ k * q"
    using assms(1) by (auto simp: natural_def elim!: dvdE)
  define rbase rsize where "rbase = RANGE_TO_PHYS_ADDR base" and "rsize = (- RANGE_TO_PHYS_ADDR sz) AND (push_bit bits 1 - 1)"
  have e: "r_base (enc bits (base, sz, type)) = \<lparr>lo = ucast rbase OR type, hi = ucast (drop_bit 32 rbase)\<rparr>"
    "r_mask (enc bits (base, sz, type)) = \<lparr>lo = ucast rsize OR MTRR_PHYS_MASK_VALID, hi = ucast (drop_bit 32 rsize)\<rparr>"
    by (simp_all add: enc_def Let_def rbase_def rsize_def)
  have "MTRR_PHYS_MASK_VALID = push_bit 11 1" by (simp add: MTRR_PHYS_MASK_VALID_def)
  then have valid: "bit MTRR_PHYS_MASK_VALID n \<longleftrightarrow> n = 11" for n
    using bit_push_bit_iff [of 11 "1 :: u32" n] by (auto simp only: bit_1_iff possible_bit_word) auto
  then have valid12: "\<forall>n\<ge>12. \<not> bit MTRR_PHYS_MASK_VALID n" by simp
  have mb: "bit rsize n \<longleftrightarrow> k + 12 \<le> n \<and> n < bits" for n
    unfolding rsize_def k(2) using k(1) assms(4) by (rule block_mask)
  have m: "bit (msr64 (r_mask (enc bits (base, sz, type))) AND NOT 0xfff) n \<longleftrightarrow> k + 12 \<le> n \<and> n < bits" for n
    unfolding e(2) bit_msr64 [OF valid12] mb by auto
  have t12: "\<forall>n\<ge>12. \<not> bit type n" using assms(2) by simp
  have bb: "bit (msr64 (r_base (enc bits (base, sz, type)))) n \<longleftrightarrow> bit rbase n" if "12 \<le> n" for n
  proof -
    have fff: "(0xfff :: u64) = mask 12" by (simp add: mask_eq_exp_minus_1)
    show ?thesis
      using bit_msr64 [OF t12, of rbase n, unfolded fff] that bit_imp_le_length [of rbase n]
        bit_imp_le_length [of "msr64 (r_base (enc bits (base, sz, type)))" n]
      unfolding e(1) by (auto simp: bit_and_iff bit_not_iff bit_mask_iff)
  qed
  define M B where "M = msr64 (r_mask (enc bits (base, sz, type))) AND NOT 0xfff" and "B = msr64 (r_base (enc bits (base, sz, type)))"
  have M: "bit M n \<longleftrightarrow> k + 12 \<le> n \<and> n < bits" for n unfolding M_def by (rule m)
  have B: "bit B n \<longleftrightarrow> bit rbase n" if "12 \<le> n" for n using bb [OF that] by (simp add: B_def)
  have rb: "unat rbase = 2 ^ (k + 12) * q" by (simp add: rbase_def unat_RANGE_TO_PHYS k(4) power_add)
  have "unat rbase < (unat base + unat sz) * 4096" using k(3) by (simp add: rbase_def unat_RANGE_TO_PHYS)
  then have rlt: "unat rbase < 2 ^ bits" using assms(5) by simp
  have "a AND M = B AND M \<longleftrightarrow> (\<forall>n. k + 12 \<le> n \<and> n < bits \<longrightarrow> bit a n = bit rbase n)"
  proof
    assume "a AND M = B AND M"
    then have ab: "bit (a AND M) n = bit (B AND M) n" for n by simp
    show "\<forall>n. k + 12 \<le> n \<and> n < bits \<longrightarrow> bit a n = bit rbase n"
    proof (intro allI impI)
      fix n assume "k + 12 \<le> n \<and> n < bits"
      then show "bit a n = bit rbase n" using ab [of n] B [of n] by (simp add: bit_and_iff M)
    qed
  next
    assume "\<forall>n. k + 12 \<le> n \<and> n < bits \<longrightarrow> bit a n = bit rbase n"
    then show "a AND M = B AND M" using B by (intro bit_word_eqI) (auto simp: bit_and_iff M)
  qed
  also have "\<dots> \<longleftrightarrow> drop_bit (k + 12) a = drop_bit (k + 12) rbase"
  proof
    assume l: "\<forall>n. k + 12 \<le> n \<and> n < bits \<longrightarrow> bit a n = bit rbase n"
    show "drop_bit (k + 12) a = drop_bit (k + 12) rbase"
    proof (rule bit_word_eqI)
      fix n
      show "bit (drop_bit (k + 12) a) n = bit (drop_bit (k + 12) rbase) n"
        using l no_high_bits [OF assms(6), of "k + 12 + n"] no_high_bits [OF rlt, of "k + 12 + n"]
        by (cases "k + 12 + n < bits") (simp_all add: bit_drop_bit_eq)
    qed
  next
    assume eq: "drop_bit (k + 12) a = drop_bit (k + 12) rbase"
    show "\<forall>n. k + 12 \<le> n \<and> n < bits \<longrightarrow> bit a n = bit rbase n"
    proof (intro allI impI)
      fix n assume "k + 12 \<le> n \<and> n < bits"
      moreover have "bit (drop_bit (k + 12) a) (n - (k + 12)) = bit (drop_bit (k + 12) rbase) (n - (k + 12))"
        by (simp only: eq)
      ultimately show "bit a n = bit rbase n" by (simp add: bit_drop_bit_eq)
    qed
  qed
  also have "\<dots> \<longleftrightarrow> unat a div 2 ^ (k + 12) = unat rbase div 2 ^ (k + 12)"
    by (simp add: word_unat_eq_iff unat_drop_bit_eq) (simp add: drop_bit_eq_div)
  also have "\<dots> \<longleftrightarrow> unat a div 4096 div 2 ^ k = q"
  proof -
    have p: "(2 :: nat) ^ (k + 12) = 4096 * 2 ^ k" by (simp add: power_add)
    show ?thesis unfolding rb unfolding p div_mult2_eq by simp
  qed
  also have "\<dots> \<longleftrightarrow> unat base \<le> unat a div 4096 \<and> unat a div 4096 < unat base + unat sz"
    unfolding k(3,4) by (rule div_interval) simp
  finally show "var_matches (enc bits (base, sz, type)) a \<longleftrightarrow> unat base \<le> unat a div 4096 \<and> unat a div 4096 < unat base + unat sz"
    using bit_and_nonzero [of "lo (r_mask (enc bits (base, sz, type)))" MTRR_PHYS_MASK_VALID 11]
    unfolding M_def B_def by (simp add: var_matches_def Let_def e(2) bit_simps valid)
  show "var_type (enc bits (base, sz, type)) = type"
  proof (rule bit_word_eqI)
    fix n assume "n < LENGTH(32)"
    have "\<not> bit rbase n" if "n < 8" using that by (simp add: rbase_def RANGE_TO_PHYS_ADDR_def bit_push_bit_iff)
    moreover have ff: "(0xff :: u32) = mask 8" by (simp add: mask_eq_exp_minus_1)
    ultimately show "bit (var_type (enc bits (base, sz, type))) n = bit type n"
      using assms(2) \<open>n < LENGTH(32)\<close> unfolding var_type_def ff e(1)
      by (cases "n < 8") (auto simp: bit_and_iff bit_or_iff bit_mask_iff bit_unsigned_iff)
  qed
qed

section \<open>From the blocks to the registers\<close>

lemma emit_regs:
  assumes "prepare_msrs st" and "mtrr_index st = int k" and "k < 16 \<or> avail \<le> int k" and "length (vs_regs st) = 16"
  shows "vs_regs (emit avail x st) = (if int k < avail then (vs_regs st)[k := enc (address_bits st) x] else vs_regs st)"
  using assms by (cases x) (simp add: emit_def prep_var_mtrr_def enc_def Let_def)

lemma emits_regs:
  assumes "prepare_msrs st" and "mtrr_index st = int k" and "avail \<le> 16" and "length (vs_regs st) = 16"
  shows "length (vs_regs (fold (emit avail) xs st)) = 16 \<and>
    (\<forall>i<16. vs_regs (fold (emit avail) xs st) ! i =
      (if k \<le> i \<and> i < k + length xs \<and> int i < avail then enc (address_bits st) (xs ! (i - k)) else vs_regs st ! i))"
  using assms
proof (induction xs arbitrary: st k)
  case (Cons x xs)
  have k: "k < 16 \<or> avail \<le> int k" using Cons.prems(3) by linarith
  note e = emit_regs [OF Cons.prems(1,2) k Cons.prems(4), of x]
  have len: "length (vs_regs (emit avail x st)) = 16" using e Cons.prems(4) by simp
  have "mtrr_index (emit avail x st) = int (k + 1)" using Cons.prems(2) by simp
  note IH = Cons.IH [OF _ this Cons.prems(3) len]
  have "vs_regs (fold (emit avail) xs (emit avail x st)) ! i =
      (if k \<le> i \<and> i < k + length (x # xs) \<and> int i < avail then enc (address_bits st) ((x # xs) ! (i - k)) else vs_regs st ! i)"
    if "i < 16" for i
  proof -
    have "vs_regs (fold (emit avail) xs (emit avail x st)) ! i =
        (if k + 1 \<le> i \<and> i < k + 1 + length xs \<and> int i < avail then enc (address_bits st) (xs ! (i - (k + 1))) else vs_regs (emit avail x st) ! i)"
      using IH Cons.prems(1) that by simp
    moreover have "(x # xs) ! (i - k) = xs ! (i - (k + 1))" if "k + 1 \<le> i" using that by (simp add: nth_Cons')
    ultimately show ?thesis using that Cons.prems(4) unfolding e by (auto simp: nth_list_update)
  qed
  then show ?case using IH Cons.prems(1) by simp
qed auto

definition blocks_of :: "(u32 \<times> u32 \<times> u32) list \<Rightarrow> (u32 \<times> u32 \<times> u32) list" where
  "blocks_of parts = concat (map tagged parts)"

lemma prepare_var_mtrrs_regs:
  fixes ab :: bool and def_type :: u32 and space :: memranges
  assumes "avail \<le> 16" and "length (regs sol) = 16"
  defines "bs \<equiv> blocks_of (all_parts ab def_type (mr_entries space))"
  shows "num_used (prepare_var_mtrrs avail space def_type ab bits sol) = int (length bs)"
    and "i < length bs \<Longrightarrow> int i < avail \<Longrightarrow> regs (prepare_var_mtrrs avail space def_type ab bits sol) ! i = enc bits (bs ! i)"
    and "mtrr_default_type (prepare_var_mtrrs avail space def_type ab bits sol) = mtrr_default_type sol"
proof -
  define st where "st = \<lparr>above4gb = ab, address_bits = bits, prepare_msrs = True, mtrr_index = 0, def_mtrr_type = def_type, vs_regs = regs sol\<rparr>"
  have p: "prepare_var_mtrrs avail space def_type ab bits sol = sol\<lparr>regs := vs_regs (fold (emit avail) bs st), num_used := mtrr_index (fold (emit avail) bs st)\<rparr>"
    by (simp add: prepare_var_mtrrs_def Let_def prepare_entries_parts bs_def blocks_of_def st_def)
  show "num_used (prepare_var_mtrrs avail space def_type ab bits sol) = int (length bs)"
    "mtrr_default_type (prepare_var_mtrrs avail space def_type ab bits sol) = mtrr_default_type sol"
    unfolding p by (simp_all add: st_def)
  assume "i < length bs" "int i < avail"
  then show "regs (prepare_var_mtrrs avail space def_type ab bits sol) ! i = enc bits (bs ! i)"
    unfolding p using emits_regs [of st 0 avail bs] assms(1,2) by (simp add: st_def)
qed

section \<open>The register file after a commit\<close>

definition hw_reg :: "(u32 \<Rightarrow> msr_t) \<Rightarrow> nat \<Rightarrow> var_mtrr_regs" where
  "hw_reg ms i = \<lparr>r_base = ms (MTRR_PHYS_BASE i), r_mask = ms (MTRR_PHYS_MASK i)\<rparr>"

text \<open>The types of the first \<open>n\<close> registers that match, and what the processor makes of them.\<close>

definition hw_types :: "(u32 \<Rightarrow> msr_t) \<Rightarrow> nat \<Rightarrow> resource_t \<Rightarrow> u32 list" where
  "hw_types ms n a = map (\<lambda>i. var_type (hw_reg ms i)) (filter (\<lambda>i. var_matches (hw_reg ms i) a) [0..<n])"

definition hw_type :: "(u32 \<Rightarrow> msr_t) \<Rightarrow> nat \<Rightarrow> resource_t \<Rightarrow> u32 option" where
  "hw_type ms n a =
     (let ts = hw_types ms n a in
      if ts = [] then Some (lo (ms MTRR_DEF_TYPE_MSR) AND 0xff)
      else if MTRR_TYPE_UNCACHEABLE \<in> set ts then Some MTRR_TYPE_UNCACHEABLE
      else if list_all (\<lambda>t. t = hd ts) ts then Some (hd ts) else None)"

lemma hw_type_results:
  assumes "results_in (lo (ms MTRR_DEF_TYPE_MSR) AND 0xff) (set (hw_types ms n a)) t"
  shows "hw_type ms n a = Some t"
  using assms by (cases "hw_types ms n a") (auto simp: results_in_def hw_type_def Let_def list_all_iff)

lemma unat_PHYS: "i < 16 \<Longrightarrow> unat (MTRR_PHYS_BASE i) = 512 + 2 * i \<and> unat (MTRR_PHYS_MASK i) = 513 + 2 * i"
proof -
  assume i: "i < 16"
  have "MTRR_PHYS_BASE i = of_nat (512 + 2 * i)" "MTRR_PHYS_MASK i = of_nat (513 + 2 * i)"
    by (simp_all add: MTRR_PHYS_BASE_def MTRR_PHYS_MASK_def)
  moreover have "unat (of_nat (512 + 2 * i) :: u32) = 512 + 2 * i" "unat (of_nat (513 + 2 * i) :: u32) = 513 + 2 * i"
    using i by (intro unat_of_nat_id; simp)+
  ultimately show ?thesis by (simp only:)
qed

lemma PHYS_distinct:
  assumes "i < 16" "j < 16"
  shows "MTRR_PHYS_BASE i = MTRR_PHYS_BASE j \<longleftrightarrow> i = j" "MTRR_PHYS_MASK i = MTRR_PHYS_MASK j \<longleftrightarrow> i = j"
    "MTRR_PHYS_BASE i \<noteq> MTRR_PHYS_MASK j" "MTRR_PHYS_MASK i \<noteq> MTRR_PHYS_BASE j"
    "MTRR_PHYS_BASE i \<noteq> MTRR_DEF_TYPE_MSR" "MTRR_PHYS_MASK i \<noteq> MTRR_DEF_TYPE_MSR"
    "MTRR_DEF_TYPE_MSR \<noteq> MTRR_PHYS_BASE i" "MTRR_DEF_TYPE_MSR \<noteq> MTRR_PHYS_MASK i"
proof -
  note u = unat_PHYS [OF assms(1)] unat_PHYS [OF assms(2)]
  have d: "unat MTRR_DEF_TYPE_MSR = 767" by (simp add: MTRR_DEF_TYPE_MSR_def)
  show "MTRR_PHYS_BASE i = MTRR_PHYS_BASE j \<longleftrightarrow> i = j" "MTRR_PHYS_MASK i = MTRR_PHYS_MASK j \<longleftrightarrow> i = j"
    unfolding word_unat_eq_iff using u by linarith+
  show "MTRR_PHYS_BASE i \<noteq> MTRR_PHYS_MASK j" "MTRR_PHYS_MASK i \<noteq> MTRR_PHYS_BASE j"
    unfolding word_unat_eq_iff using u by presburger+
  show "MTRR_PHYS_BASE i \<noteq> MTRR_DEF_TYPE_MSR" "MTRR_PHYS_MASK i \<noteq> MTRR_DEF_TYPE_MSR"
    "MTRR_DEF_TYPE_MSR \<noteq> MTRR_PHYS_BASE i" "MTRR_DEF_TYPE_MSR \<noteq> MTRR_PHYS_MASK i"
    unfolding word_unat_eq_iff d using u assms by linarith+
qed

definition put :: "(nat \<Rightarrow> var_mtrr_regs) \<Rightarrow> nat \<Rightarrow> mtrr_state \<Rightarrow> mtrr_state" where
  "put f i s = wrmsr (MTRR_PHYS_MASK i) (r_mask (f i)) (wrmsr (MTRR_PHYS_BASE i) (r_base (f i)) s)"

lemma put_reg:
  assumes "i < 16" "j < 16"
  shows "hw_reg (msrs (put f i s)) j = (if j = i then f i else hw_reg (msrs s) j)"
    and "msrs (put f i s) MTRR_DEF_TYPE_MSR = msrs s MTRR_DEF_TYPE_MSR"
  using assms by (simp_all add: put_def hw_reg_def wrmsr_def PHYS_distinct)

lemma put_total [simp]: "total_mtrrs (put f i s) = total_mtrrs s"
  by (simp add: put_def wrmsr_def)

lemma puts_reg:
  assumes "\<forall>i\<in>set xs. i < 16" "j < 16"
  shows "hw_reg (msrs (fold (put f) xs s)) j = (if j \<in> set xs then f j else hw_reg (msrs s) j) \<and>
    msrs (fold (put f) xs s) MTRR_DEF_TYPE_MSR = msrs s MTRR_DEF_TYPE_MSR"
  using assms
proof (induction xs arbitrary: s)
  case (Cons x xs)
  then have "x < 16" by simp
  then show ?case using Cons.IH [of "put f x s"] Cons.prems put_reg [OF \<open>x < 16\<close> assms(2), of f s] by auto
qed simp

lemma commit_regs:
  assumes "commit_var_mtrrs sol s = (s', 0)" and "total_mtrrs s \<le> 16" "0 \<le> num_used sol" and "\<forall>n\<ge>8. \<not> bit (mtrr_default_type sol) n"
  shows "num_used sol \<le> total_mtrrs s"
    and "i < nat (total_mtrrs s) \<Longrightarrow> hw_reg (msrs s') i = (if int i < num_used sol then regs sol ! i else \<lparr>r_base = zero_msr, r_mask = zero_msr\<rparr>)"
    and "lo (msrs s' MTRR_DEF_TYPE_MSR) AND 0xff = mtrr_default_type sol"
proof -
  show le: "num_used sol \<le> total_mtrrs s"
    using assms(1) by (auto simp: commit_var_mtrrs_def Let_def split: if_splits)
  define s1 where "s1 = fold (put ((!) (regs sol))) [0..<nat (num_used sol)] (disable_cache s)"
  define s2 where "s2 = fold (put (\<lambda>_. \<lparr>r_base = zero_msr, r_mask = zero_msr\<rparr>)) [nat (num_used sol)..<nat (total_mtrrs s)] s1"
  have t: "total_mtrrs (fold (put f) xs s) = total_mtrrs s" for f xs s by (induction xs arbitrary: s) simp_all
  have c: "clear_var_mtrr = put (\<lambda>_. \<lparr>r_base = zero_msr, r_mask = zero_msr\<rparr>)"
    by (intro ext) (simp add: clear_var_mtrr_def put_def)
  have p: "(\<lambda>i s. wrmsr (MTRR_PHYS_MASK i) (r_mask (regs sol ! i)) (wrmsr (MTRR_PHYS_BASE i) (r_base (regs sol ! i)) s)) = put ((!) (regs sol))"
    by (intro ext) (simp add: put_def)
  have tot: "total_mtrrs s1 = total_mtrrs s" by (simp add: s1_def t disable_cache_def)
  have s': "s' = enable_cache (enable_var_mtrr (mtrr_default_type sol) s2)"
    using assms(1) le tot unfolding commit_var_mtrrs_def Let_def c p s1_def [symmetric] by (simp add: s2_def)
  have r: "hw_reg (msrs s') i = hw_reg (msrs s2) i" if "i < 16" for i
    using PHYS_distinct(5,6) [OF that that] by (simp add: s' enable_cache_def enable_var_mtrr_def wrmsr_def hw_reg_def Let_def)
  show "hw_reg (msrs s') i = (if int i < num_used sol then regs sol ! i else \<lparr>r_base = zero_msr, r_mask = zero_msr\<rparr>)"
    if i: "i < nat (total_mtrrs s)"
  proof -
    have i16: "i < 16" using i assms(2) by linarith
    have "hw_reg (msrs s2) i = (if i \<in> {nat (num_used sol)..<nat (total_mtrrs s)} then \<lparr>r_base = zero_msr, r_mask = zero_msr\<rparr> else hw_reg (msrs s1) i)"
    proof -
      have "\<forall>i\<in>set [nat (num_used sol)..<nat (total_mtrrs s)]. i < 16" using assms(2) by auto
      from puts_reg [OF this i16, of "\<lambda>_. \<lparr>r_base = zero_msr, r_mask = zero_msr\<rparr>" s1] show ?thesis
        unfolding s2_def by simp
    qed
    moreover have "hw_reg (msrs s1) i = (if i < nat (num_used sol) then regs sol ! i else hw_reg (msrs (disable_cache s)) i)"
    proof -
      have "\<forall>i\<in>set [0..<nat (num_used sol)]. i < 16" using assms(2) le by auto
      from puts_reg [OF this i16, of "(!) (regs sol)" "disable_cache s"] show ?thesis unfolding s1_def by simp
    qed
    ultimately show ?thesis using r [OF i16] i assms(3) by auto
  qed
  have "(lo m AND NOT 0xff OR (MTRR_DEF_TYPE_EN OR d)) AND 0xff = d" if "\<forall>n\<ge>8. \<not> bit d n" for m :: msr_t and d :: u32
  proof (rule bit_word_eqI)
    fix n assume n: "n < LENGTH(32)"
    have ff: "(0xff :: u32) = mask 8" by (simp add: mask_eq_exp_minus_1)
    have "MTRR_DEF_TYPE_EN = push_bit 11 1" by (simp add: MTRR_DEF_TYPE_EN_def)
    then have en: "bit MTRR_DEF_TYPE_EN n \<longleftrightarrow> n = 11"
      using bit_push_bit_iff [of 11 "1 :: u32" n] by (auto simp only: bit_1_iff possible_bit_word) auto
    show "bit ((lo m AND NOT 0xff OR (MTRR_DEF_TYPE_EN OR d)) AND 0xff) n = bit d n"
      using that n unfolding ff by (cases "n < 8") (auto simp: bit_and_iff bit_or_iff bit_not_iff bit_mask_iff en)
  qed
  then show "lo (msrs s' MTRR_DEF_TYPE_MSR) AND 0xff = mtrr_default_type sol"
    using assms(4) by (simp add: s' enable_cache_def enable_var_mtrr_def wrmsr_def Let_def)
qed

section \<open>The solution describes the address space\<close>

text \<open>Whole pages below 8 TiB and below what the processor can address.\<close>

definition space_ok :: "nat \<Rightarrow> range_entry list \<Rightarrow> bool" where
  "space_ok bits es \<longleftrightarrow> ranges_sorted es \<and> (\<forall>r\<in>set es. page_entry r \<and> unat (re_end r) + 1 \<le> 2 ^ bits)"

lemma end_page_bits: "12 \<le> bits \<Longrightarrow> unat (re_end r) + 1 \<le> 2 ^ bits \<Longrightarrow> end_page r \<le> 2 ^ (bits - 12)"
proof -
  assume b: "12 \<le> bits" "unat (re_end r) + 1 \<le> 2 ^ bits"
  have "(2::nat) ^ bits = 2 ^ (bits - 12) * 4096"
    using b(1) power_add [of "2 :: nat" "bits - 12" 12] by simp
  then have "end_page r \<le> (2 ^ (bits - 12) * 4096) div 4096"
    unfolding end_page_def using b(2) by (intro div_le_mono) simp
  then show ?thesis by simp
qed

lemma all_parts_bound:
  assumes "\<forall>r\<in>set rs. page_entry r \<and> end_page r \<le> 2 ^ j" and "x \<in> set (all_parts ab def_type rs)"
  shows "unat (fst x) + unat (fst (snd x)) \<le> 2 ^ j \<and> unat (fst x) + unat (fst (snd x)) \<le> 2147483648 \<and>
    (\<exists>r\<in>set rs. snd (snd x) = range_entry_mtrr_type r \<or> snd (snd x) = MTRR_TYPE_UNCACHEABLE)"
  using assms
proof (induction rs)
  case (Cons r rs)
  have nx: "page_entry n \<and> end_page n \<le> 2 ^ j" if "next_entry rs = Some n" for n
    using Cons.prems(1) that by (cases rs) (simp_all add: next_entry_def)
  consider "x \<in> set (entry_parts ab r (next_entry rs))" | "x \<in> set (all_parts ab def_type rs)"
    using Cons.prems(2) by (auto split: if_splits)
  then show ?case
  proof cases
    case 1
    have r: "page_entry r" "end_page r \<le> 2 ^ j" using Cons.prems(1) by simp_all
    from r(1) show ?thesis
    proof (cases rule: entry_parts_cases [where ab = ab and nx = "next_entry rs"])
      case (2 a1 b1 b2 c)
      have "unat (b2 - a1) = unat b2 - unat a1" "unat (b2 - b1) = unat b2 - unat b1"
        using 2(4,5) by (auto intro!: unat_diff_le)
      then have "unat (fst x) + unat (fst (snd x)) = unat b2 \<and> (snd (snd x) = range_entry_mtrr_type r \<or> snd (snd x) = MTRR_TYPE_UNCACHEABLE)"
        using 1 2(4,5) unfolding 2(1) by (auto split: if_splits)
      then show ?thesis using 2(6) 2(9) [OF r(2) nx] by auto
    qed (use 1 in simp)
  next
    case 2
    then show ?thesis using Cons.IH Cons.prems(1) by auto
  qed
qed simp

lemma blocks_of_props:
  assumes "\<forall>x\<in>set parts. unat (fst x) + unat (fst (snd x)) \<le> 2 ^ j \<and> unat (fst x) + unat (fst (snd x)) \<le> 2147483648"
  shows "(b, s, t) \<in> set (blocks_of parts) \<Longrightarrow> natural (b, s) \<and> unat b + unat s \<le> 2 ^ j \<and> (\<exists>x\<in>set parts. snd (snd x) = t)"
    and "{t. \<exists>b s. (b, s, t) \<in> set (blocks_of parts) \<and> unat b \<le> p \<and> p < unat b + unat s} = covers parts p"
proof -
  have c: "(\<exists>y\<in>set (var_blocks b s). in_block p y) \<longleftrightarrow> unat b \<le> p \<and> p < unat b + unat s"
    "\<forall>y\<in>set (var_blocks b s). natural y \<and> unat (fst y) + unat (snd y) \<le> unat b + unat s"
    if "(b, s, t) \<in> set parts" for b s t
  proof -
    have "unat b + unat s \<le> 4294967296" using assms that by fastforce
    from var_blocks_cover [OF this] show "(\<exists>y\<in>set (var_blocks b s). in_block p y) \<longleftrightarrow> unat b \<le> p \<and> p < unat b + unat s"
      "\<forall>y\<in>set (var_blocks b s). natural y \<and> unat (fst y) + unat (snd y) \<le> unat b + unat s" by blast+
  qed
  have mem: "(b, s, t) \<in> set (blocks_of parts) \<longleftrightarrow> (\<exists>b' s'. (b', s', t) \<in> set parts \<and> (b, s) \<in> set (var_blocks b' s'))" for b s t
  proof -
    have "(b, s, t) \<in> set (tagged (b', s', t')) \<longleftrightarrow> t = t' \<and> (b, s) \<in> set (var_blocks b' s')" for b' s' t'
      by (auto simp: tagged_def image_iff intro!: bexI [of _ "(b, s)"])
    moreover have "(b, s, t) \<in> set (blocks_of parts) \<longleftrightarrow> (\<exists>x\<in>set parts. (b, s, t) \<in> set (tagged x))"
      by (simp add: blocks_of_def)
    ultimately show ?thesis by (metis prod_cases3)
  qed
  show "(b, s, t) \<in> set (blocks_of parts) \<Longrightarrow> natural (b, s) \<and> unat b + unat s \<le> 2 ^ j \<and> (\<exists>x\<in>set parts. snd (snd x) = t)"
  proof -
    assume "(b, s, t) \<in> set (blocks_of parts)"
    then obtain b' s' where x: "(b', s', t) \<in> set parts" "(b, s) \<in> set (var_blocks b' s')" unfolding mem by blast
    have "natural (b, s) \<and> unat b + unat s \<le> unat b' + unat s'" using bspec [OF c(2) [OF x(1)] x(2)] by simp
    moreover have "unat b' + unat s' \<le> 2 ^ j" using bspec [OF assms x(1)] by simp
    ultimately show "natural (b, s) \<and> unat b + unat s \<le> 2 ^ j \<and> (\<exists>x\<in>set parts. snd (snd x) = t)"
      using x(1) by force
  qed
  show "{t. \<exists>b s. (b, s, t) \<in> set (blocks_of parts) \<and> unat b \<le> p \<and> p < unat b + unat s} = covers parts p"
  proof -
    have "(\<exists>b s. (b, s, t) \<in> set (blocks_of parts) \<and> unat b \<le> p \<and> p < unat b + unat s) \<longleftrightarrow>
        (\<exists>b' s'. (b', s', t) \<in> set parts \<and> (\<exists>y\<in>set (var_blocks b' s'). in_block p y))" for t
      unfolding mem in_block_def by fastforce
    also have "\<dots> t \<longleftrightarrow> (\<exists>b' s'. (b', s', t) \<in> set parts \<and> unat b' \<le> p \<and> p < unat b' + unat s')" for t
      using c(1) by blast
    finally show ?thesis by (simp add: covers_def)
  qed
qed

lemma byte_bits: "\<not> bit (x AND MTRR_TAG_MASK) n" if "8 \<le> n"
proof -
  have m: "MTRR_TAG_MASK = mask 8" by (simp add: MTRR_TAG_MASK_def mask_eq_exp_minus_1)
  show ?thesis unfolding m bit_and_iff bit_mask_iff using that by simp
qed

text \<open>The types of the registers that match an address after a commit are those that cover its page.\<close>

lemma committed_types:
  assumes ok: "space_ok bits (mr_entries space)" and bits: "12 \<le> bits" "bits \<le> 64"
    and sol: "sol = prepare_var_mtrrs (total_mtrrs s) space def_type ab bits (empty_solution\<lparr>mtrr_default_type := def_type\<rparr>)"
    and commit: "commit_var_mtrrs sol s = (s', 0)" "total_mtrrs s \<le> 16"
    and d: "def_type = MTRR_TYPE_UNCACHEABLE \<or> def_type = MTRR_TYPE_WRBACK" and a: "unat a < 2 ^ bits"
  shows "set (hw_types (msrs s') (nat (total_mtrrs s)) a) = covers (all_parts ab def_type (mr_entries space)) (unat a div 4096)"
    and "lo (msrs s' MTRR_DEF_TYPE_MSR) AND 0xff = def_type"
proof -
  define parts bs where "parts = all_parts ab def_type (mr_entries space)" and "bs = blocks_of parts"
  have len: "length (regs (empty_solution\<lparr>mtrr_default_type := def_type\<rparr>)) = 16"
    by (simp add: empty_solution_def NUM_MTRR_STATIC_STORAGE_def)
  note p = prepare_var_mtrrs_regs [OF commit(2) len, where ab = ab and def_type = def_type and space = space and bits = bits, folded sol parts_def, folded bs_def]
  have dbits: "\<forall>n\<ge>8. \<not> bit def_type n"
    using d byte_bits [of _ def_type] by (auto simp: MTRR_TYPE_UNCACHEABLE_def MTRR_TYPE_WRBACK_def MTRR_TAG_MASK_def)
  have num: "0 \<le> num_used sol" "num_used sol = int (length bs)" "mtrr_default_type sol = def_type"
    using p(1,3) by simp_all
  note c = commit_regs [OF commit num(1) dbits [folded num(3)]]
  show "lo (msrs s' MTRR_DEF_TYPE_MSR) AND 0xff = def_type" using c(3) num(3) by simp
  have pb: "unat (fst x) + unat (fst (snd x)) \<le> 2 ^ (bits - 12) \<and> unat (fst x) + unat (fst (snd x)) \<le> 2147483648 \<and>
      (\<exists>r\<in>set (mr_entries space). snd (snd x) = range_entry_mtrr_type r \<or> snd (snd x) = MTRR_TYPE_UNCACHEABLE)"
    if "x \<in> set parts" for x
    using all_parts_bound [OF _ that [unfolded parts_def], of "bits - 12"] ok end_page_bits [OF bits(1)]
    by (auto simp: space_ok_def)
  then have pb': "\<forall>x\<in>set parts. unat (fst x) + unat (fst (snd x)) \<le> 2 ^ (bits - 12) \<and> unat (fst x) + unat (fst (snd x)) \<le> 2147483648"
    by blast
  note bp = blocks_of_props [OF pb', folded bs_def]
  have reg: "var_matches (hw_reg (msrs s') i) a \<longleftrightarrow> unat b \<le> unat a div 4096 \<and> unat a div 4096 < unat b + unat z"
    "var_type (hw_reg (msrs s') i) = t" if i: "i < length bs" "bs ! i = (b, z, t)" for i b z t
  proof -
    have mem: "(b, z, t) \<in> set bs" using i nth_mem by metis
    have nat: "natural (b, z)" "unat b + unat z \<le> 2 ^ (bits - 12)" using bp(1) [OF mem] by simp_all
    obtain x where x: "x \<in> set parts" "snd (snd x) = t" using bp(1) [OF mem] by blast
    have "\<forall>n\<ge>8. \<not> bit t n"
      using pb [OF x(1)] x(2) byte_bits by (auto simp: range_entry_mtrr_type_def MTRR_TYPE_UNCACHEABLE_def)
    moreover have "(2::nat) ^ bits = 2 ^ (bits - 12) * 4096"
      using bits(1) power_add [of "2 :: nat" "bits - 12" 12] by simp
    then have "(unat b + unat z) * 4096 \<le> 2 ^ bits" using nat(2) by simp
    moreover have "hw_reg (msrs s') i = enc bits (b, z, t)"
      using c(1) c(2) [of i] p(2) [of i] num(2) i by simp
    ultimately show "var_matches (hw_reg (msrs s') i) a \<longleftrightarrow> unat b \<le> unat a div 4096 \<and> unat a div 4096 < unat b + unat z"
      "var_type (hw_reg (msrs s') i) = t"
      using enc_matches [OF nat(1) _ bits _ a, of t] by simp_all
  qed
  have none: "\<not> var_matches (hw_reg (msrs s') i) a" if "length bs \<le> i" "i < nat (total_mtrrs s)" for i
    using c(2) [OF that(2)] that(1) num(2) by (simp add: var_matches_def zero_msr_def)
  have le: "length bs \<le> nat (total_mtrrs s)" using c(1) num(2) by simp
  have "set (hw_types (msrs s') (nat (total_mtrrs s)) a) =
      {t. \<exists>b z. (b, z, t) \<in> set bs \<and> unat b \<le> unat a div 4096 \<and> unat a div 4096 < unat b + unat z}"
  proof (intro set_eqI iffI)
    fix t assume "t \<in> set (hw_types (msrs s') (nat (total_mtrrs s)) a)"
    then obtain i where i: "i < nat (total_mtrrs s)" "var_matches (hw_reg (msrs s') i) a" "t = var_type (hw_reg (msrs s') i)"
      by (auto simp: hw_types_def)
    then have il: "i < length bs" using none by (metis not_le)
    obtain b z u where "bs ! i = (b, z, u)" by (cases "bs ! i")
    then show "t \<in> {t. \<exists>b z. (b, z, t) \<in> set bs \<and> unat b \<le> unat a div 4096 \<and> unat a div 4096 < unat b + unat z}"
      using reg [OF il] i nth_mem [OF il] by auto
  next
    fix t assume "t \<in> {t. \<exists>b z. (b, z, t) \<in> set bs \<and> unat b \<le> unat a div 4096 \<and> unat a div 4096 < unat b + unat z}"
    then obtain i b z where "i < length bs" "bs ! i = (b, z, t)" "unat b \<le> unat a div 4096" "unat a div 4096 < unat b + unat z"
      by (auto simp: in_set_conv_nth)
    moreover from this have "i \<in> set (filter (\<lambda>i. var_matches (hw_reg (msrs s') i) a) [0..<nat (total_mtrrs s)])"
      using reg(1) le by simp
    ultimately show "t \<in> set (hw_types (msrs s') (nat (total_mtrrs s)) a)"
      unfolding hw_types_def set_map using reg(2) by (metis imageI)
  qed
  then show "set (hw_types (msrs s') (nat (total_mtrrs s)) a) = covers (all_parts ab def_type (mr_entries space)) (unat a div 4096)"
    unfolding bp(2) parts_def .
qed

section \<open>Properties\<close>

text \<open>
  C2: When the solution for an address space of whole pages fits the registers and is
  committed, the processor gives every address beyond the first megabyte (below 4 GiB if only
  that is asked for) exactly the type its range is tagged with, whatever the default type,
  the alignment of the ranges and the holes carved out; addresses in gaps before the last
  range get the default type.
\<close>

theorem var_mtrrs_give_types:
  assumes "space_ok bits (mr_entries space)" and "12 \<le> bits" "bits \<le> 64"
    and "def_type = MTRR_TYPE_UNCACHEABLE \<or> def_type = MTRR_TYPE_WRBACK" and "total_mtrrs s \<le> 16"
    and "commit_var_mtrrs (prepare_var_mtrrs (total_mtrrs s) space def_type ab bits
       (empty_solution\<lparr>mtrr_default_type := def_type\<rparr>)) s = (s', 0)"
    and "0x100000 \<le> unat a" "ab \<or> unat a < 0x100000000" "unat a < 2 ^ bits"
  shows "case tag_at (mr_entries space) a of
      Some t \<Rightarrow> hw_type (msrs s') (nat (total_mtrrs s)) a = Some (t AND 0xff)
    | None \<Rightarrow> (\<exists>r\<in>set (mr_entries space). a < re_begin r) \<longrightarrow> hw_type (msrs s') (nat (total_mtrrs s)) a = Some def_type"
proof -
  define p where "p = unat a div 4096"
  have p: "256 \<le> p" "ab \<or> p < 1048576"
    using assms(7,8) by (auto simp: p_def less_eq_div_iff_mult_less_eq div_less_iff_less_mult)
  have es: "ranges_sorted (mr_entries space)" "\<forall>r\<in>set (mr_entries space). page_entry r"
    using assms(1) by (simp_all add: space_ok_def)
  note T = committed_types [OF assms(1,2,3) refl assms(6,5,4,9), folded p_def]
  note C = all_parts_covers [OF es p assms(4)]
  have pages: "re_begin r \<le> a \<and> a \<le> re_end r \<longleftrightarrow> first_page r \<le> p \<and> p < end_page r" if "r \<in> set (mr_entries space)" for r
    using page_entry_addrs(5) [of r a] es(2) that by (simp add: p_def)
  have ty: "hw_type (msrs s') (nat (total_mtrrs s)) a = Some t"
    if "results_in def_type (covers (all_parts ab def_type (mr_entries space)) p) t" for t
    using that by (intro hw_type_results) (simp add: T)
  show ?thesis
  proof (cases "tag_at (mr_entries space) a")
    case (Some t)
    then obtain r where r: "r \<in> set (mr_entries space)" "re_begin r \<le> a \<and> a \<le> re_end r" "re_tag r = t"
      using tag_at_SomeD by blast
    then have "results_in def_type (covers (all_parts ab def_type (mr_entries space)) p) (range_entry_mtrr_type r)"
      using C pages [OF r(1)] by blast
    then show ?thesis using ty r(3) Some by (simp add: range_entry_mtrr_type_def MTRR_TAG_MASK_def)
  next
    case None
    have "hw_type (msrs s') (nat (total_mtrrs s)) a = Some def_type" if r: "r \<in> set (mr_entries space)" "a < re_begin r" for r
    proof (rule ty)
      have "\<forall>r\<in>set (mr_entries space). \<not> (first_page r \<le> p \<and> p < end_page r)"
        using None pages tag_at_Some_iff [of "mr_entries space" a] by blast
      moreover have "p < first_page r"
      proof -
        have "first_page r < end_page r" using page_entry_addrs(3) es(2) r(1) by blast
        moreover have "\<not> (first_page r \<le> p \<and> p < end_page r)" using calculation None pages [OF r(1)] r(2) by auto
        moreover have "p \<le> first_page r" unfolding p_def first_page_def using r(2) by (intro div_le_mono) (simp add: word_less_nat_alt)
        ultimately show ?thesis by linarith
      qed
      ultimately show "results_in def_type (covers (all_parts ab def_type (mr_entries space)) p) def_type"
        using C r(1) by blast
    qed
    then show ?thesis using None by auto
  qed
qed

definition ex_space :: memranges where
  "ex_space = \<lparr>mr_entries = [\<lparr>re_begin = 0, re_end = 0x3fffffff, re_tag = 6\<rparr>, \<lparr>re_begin = 0x40000000, re_end = 0xffffffff, re_tag = 0\<rparr>],
     mr_free_list = []\<rparr>"

definition ex_solution :: var_mtrr_solution where
  "ex_solution = prepare_var_mtrrs 8 ex_space MTRR_TYPE_UNCACHEABLE True 36 (empty_solution\<lparr>mtrr_default_type := MTRR_TYPE_UNCACHEABLE\<rparr>)"

lemma ex_num_used: "num_used ex_solution = 1"
  by code_simp

theorem var_mtrrs_give_types_witness:
  "hw_type (msrs (fst (commit_var_mtrrs ex_solution (mtrr_boot (\<lambda>_. zero_msr))))) 8 0x20000000 = Some 6"
proof -
  define s where "s = mtrr_boot (\<lambda>_. zero_msr)"
  have t: "total_mtrrs s = 8" by (simp add: s_def mtrr_boot_def BIOS_MTRRS_def OS_MTRRS_def)
  have "space_ok 36 (mr_entries ex_space)" by (simp add: space_ok_def ex_space_def page_entry_def)
  moreover have "commit_var_mtrrs ex_solution s = (fst (commit_var_mtrrs ex_solution s), 0)"
    by (simp add: commit_var_mtrrs_def ex_num_used t Let_def)
  ultimately show ?thesis
    using var_mtrrs_give_types [of 36 ex_space MTRR_TYPE_UNCACHEABLE s True _ "0x20000000"] t
    by (simp add: ex_solution_def [symmetric] s_def [symmetric]) (simp add: ex_space_def)
qed

text \<open>
  The end chosen for a write-back range lies between the real end and the limit (or is the
  real end), and carving the surplus out again never takes more registers than the range
  alone.
\<close>

theorem hole_never_costs:
  assumes "0 < unat hole" "unat hole < 0x80000000" "unat base \<le> unat hole"
  shows "unat hole \<le> unat (optimize_var_mtrr_hole base hole limit carve) \<and>
    (optimize_var_mtrr_hole base hole limit carve = hole \<or> unat (optimize_var_mtrr_hole base hole limit carve) \<le> unat limit) \<and>
    length (var_blocks base (optimize_var_mtrr_hole base hole limit carve - base)) +
      (if carve then length (var_blocks hole (optimize_var_mtrr_hole base hole limit carve - hole)) else 0)
      \<le> length (var_blocks base (hole - base))"
proof -
  have "hole \<noteq> 0" using assms(1) by auto
  then show ?thesis
    using optimize_var_mtrr_hole_correct [of hole base limit carve] assms(2,3) by (simp add: good_end_def cost_def)
qed

theorem hole_never_costs_witness:
  "optimize_var_mtrr_hole 0 0xf 0x10 True = 0x10 \<and>
   length (var_blocks 0 (optimize_var_mtrr_hole 0 0xf 0x10 True)) +
     length (var_blocks 0xf (optimize_var_mtrr_hole 0 0xf 0x10 True - 0xf)) \<le> length (var_blocks 0 0xf)"
proof -
  have "optimize_var_mtrr_hole 0 0xf 0x10 True = 0x10" by code_simp
  then show ?thesis using hole_never_costs [of "0xf" 0 "0x10" True] by simp
qed

end
