(* ===== verification/Mtrr_Fixed.thy ===== *)
theory Mtrr_Fixed
  imports Mtrr_Types
begin

text \<open>
  The fixed registers of \<^verbatim>\<open>Mtrr\<close>: for an address space whose ranges respect the granules of
  the first megabyte (64, 16 and 4 KiB) every page gets the type of its range; a range that
  does not respect them makes the computation run past its tables.
\<close>

section \<open>Granules\<close>

text \<open>The first page of the \<open>i\<close>-th fixed range, the descriptor it belongs to, and the range of a page.\<close>

definition granule :: "nat \<Rightarrow> nat" where
  "granule i = (if i \<le> 8 then 16 * i else if i \<le> 24 then 128 + 4 * (i - 8) else 192 + (i - 24))"

definition desc_of :: "nat \<Rightarrow> nat" where
  "desc_of i = (if i < 8 then 0 else if i < 24 then 1 else if i < 88 then 2 else 3)"

definition index_of :: "nat \<Rightarrow> nat" where
  "index_of p = (if p < 128 then p div 16 else if p < 192 then 8 + (p - 128) div 4 else 24 + (p - 192))"

text \<open>A boundary the fixed registers can express.\<close>

definition granular :: "nat \<Rightarrow> bool" where
  "granular p \<longleftrightarrow> (p < 128 \<longrightarrow> 16 dvd p) \<and> (p < 192 \<longrightarrow> 4 dvd p)"

lemma granule_index:
  assumes "granular p" and "p \<le> 256"
  shows "granule (index_of p) = p \<and> index_of p \<le> 88"
proof (cases "p < 128")
  case True
  then have "16 * (p div 16) = p" "p div 16 < 8" using assms(1) by (auto simp: granular_def)
  then show ?thesis using True by (simp add: granule_def index_of_def)
next
  case False
  show ?thesis
  proof (cases "p < 192")
    case True
    then have "4 * ((p - 128) div 4) = p - 128" "(p - 128) div 4 < 16" using assms(1) by (simp_all add: granular_def)
    then show ?thesis using True False by (auto simp: granule_def index_of_def)
  qed (use assms(2) False in \<open>auto simp: granule_def index_of_def\<close>)
qed

lemma granule_mono: "i < j \<Longrightarrow> granule i < granule j"
  unfolding granule_def by (split if_split)+ arith

lemma granule_less_iff: "granule i < granule j \<longleftrightarrow> i < j"
  using granule_mono [of i j] granule_mono [of j i] by (cases i j rule: linorder_cases) auto

lemma granule_le_iff: "granule i \<le> granule j \<longleftrightarrow> i \<le> j"
  using granule_less_iff [of j i] by linarith

lemma index_less: "p < 256 \<Longrightarrow> index_of p < 88"
  by (auto simp: index_of_def)

lemma granule_of_page: "granule (index_of p) \<le> p \<and> p < granule (index_of p + 1)" if "p < 256"
  using that by (auto simp: granule_def index_of_def)

lemma granule_88: "granule 88 = 256"
  by (simp add: granule_def)

text \<open>A page is on the same side of a granular boundary as its granule.\<close>

lemma granular_side:
  assumes "granular b" and "p < 256"
  shows "b \<le> granule (index_of p) \<longleftrightarrow> b \<le> p"
proof (cases "b \<le> 256")
  case True
  then have "granule (index_of b) = b" using granule_index assms(1) by blast
  then show ?thesis
    using granule_of_page [OF assms(2)] granule_le_iff [of "index_of b" "index_of p"] granule_less_iff [of "index_of p" "index_of b"]
      granule_le_iff [of "index_of p + 1" "index_of b"] by linarith
qed (use granule_of_page [OF assms(2)] assms(2) in linarith)

section \<open>The loops\<close>

lemma fixed_mtrr_desc_numerals:
  "fixed_mtrr_desc = [\<lparr>d_begin = 0, d_end = 128, d_step = 16, d_range_index = 0, d_msr_index_base = MTRR_FIX_64K_00000\<rparr>,
     \<lparr>d_begin = 128, d_end = 192, d_step = 4, d_range_index = 8, d_msr_index_base = MTRR_FIX_16K_80000\<rparr>,
     \<lparr>d_begin = 192, d_end = 256, d_step = 1, d_range_index = 24, d_msr_index_base = MTRR_FIX_4K_C0000\<rparr>]"
  by (simp add: fixed_mtrr_desc_def PHYS_TO_RANGE_ADDR_def)

lemma fixed_step:
  assumes "i < 88"
  shows "desc_of i < 3"
    and "of_nat (granule i) + d_step (fixed_mtrr_desc ! desc_of i) = of_nat (granule (i + 1))"
    and "(if of_nat (granule i) + d_step (fixed_mtrr_desc ! desc_of i) = d_end (fixed_mtrr_desc ! desc_of i)
          then desc_of i + 1 else desc_of i) = desc_of (i + 1)"
    and "d_range_index (fixed_mtrr_desc ! desc_of i) +
         unat ((of_nat (granule i) - d_begin (fixed_mtrr_desc ! desc_of i)) div d_step (fixed_mtrr_desc ! desc_of i)) = i"
    and "d \<le> desc_of i \<Longrightarrow> find_desc (of_nat (granule i)) d = Some (desc_of i)"
proof -
  define g where "g = (of_nat (granule i) :: u32)"
  have le: "granule i < 256" using granule_less_iff [of i 88] granule_88 assms by simp
  then have u: "unat g = granule i" by (simp add: g_def unat_of_nat_id)
  let ?d = "fixed_mtrr_desc ! desc_of i"
  have c: "i < 8 \<or> 8 \<le> i \<and> i < 24 \<or> 24 \<le> i" by linarith
  show "desc_of i < 3" using assms by (simp add: desc_of_def)
  show next_granule: "g + d_step ?d = of_nat (granule (i + 1))"
    using c assms by (elim disjE) (auto simp: g_def desc_of_def granule_def fixed_mtrr_desc_numerals)
  have "unat (d_end ?d) \<le> 256" "unat (d_step ?d) \<le> 16" "unat (d_begin ?d) \<le> granule i"
    "granule (i + 1) = unat (d_end ?d) \<longleftrightarrow> i = 7 \<or> i = 23 \<or> i = 87"
    "d_range_index ?d + (granule i - unat (d_begin ?d)) div unat (d_step ?d) = i"
    using c assms by (auto simp: desc_of_def granule_def fixed_mtrr_desc_numerals)
  moreover have "unat (of_nat (granule (i + 1)) :: u32) = granule (i + 1)"
    using granule_le_iff [of "i + 1" 88] granule_88 assms by (intro unat_of_nat_id) simp
  ultimately show "(if g + d_step ?d = d_end ?d then desc_of i + 1 else desc_of i) = desc_of (i + 1)"
    and "d_range_index ?d + unat ((g - d_begin ?d) div d_step ?d) = i"
    unfolding next_granule using assms u
    by (auto simp: word_unat_eq_iff desc_of_def unat_div unat_sub word_le_nat_alt)
  have "unat (d_end (fixed_mtrr_desc ! k)) \<le> granule i" if "k < desc_of i" for k
  proof -
    have "k = 0 \<or> k = 1" using that assms by (auto simp: desc_of_def split: if_splits)
    then show ?thesis
      using c assms that by (elim disjE) (simp_all add: desc_of_def granule_def fixed_mtrr_desc_numerals split: if_splits)
  qed
  moreover have "granule i < unat (d_end ?d)" using c assms by (auto simp: desc_of_def granule_def fixed_mtrr_desc_numerals)
  moreover have "desc_of i < length fixed_mtrr_desc" using assms by (simp add: desc_of_def fixed_mtrr_desc_def)
  ultimately show "d \<le> desc_of i \<Longrightarrow> find_desc g d = Some (desc_of i)"
  proof (induction "desc_of i - d" arbitrary: d)
    case 0
    then show ?case by (subst find_desc.simps) (simp add: u word_le_nat_alt)
  next
    case (Suc k)
    then show ?case by (subst find_desc.simps) (simp add: u word_le_nat_alt)
  qed
qed

lemma of_nat_granule_eq: "i \<le> 88 \<Longrightarrow> j \<le> 88 \<Longrightarrow> (of_nat (granule i) :: u32) = of_nat (granule j) \<longleftrightarrow> i = j"
proof -
  assume "i \<le> 88" "j \<le> 88"
  then have "granule i \<le> 256" "granule j \<le> 256" using granule_le_iff [of _ 88] granule_88 by auto
  then have "unat (of_nat (granule i) :: u32) = granule i" "unat (of_nat (granule j) :: u32) = granule j"
    by (simp_all add: unat_of_nat_id)
  then show ?thesis using granule_less_iff [of i j] granule_less_iff [of j i]
    by (metis linorder_neqE_nat nat_less_le)
qed

lemma fill_fixed_step:
  assumes "i < 88" and "e \<noteq> of_nat (granule i)"
  shows "fill_fixed type e (of_nat (granule i)) (desc_of i) i types =
    fill_fixed type e (of_nat (granule (i + 1))) (desc_of (i + 1)) (i + 1) (types[i := type])"
proof -
  note f = fixed_step [OF assms(1)]
  have "length fixed_mtrr_desc = 3" by (simp add: fixed_mtrr_desc_def)
  then show ?thesis
    using f(1) assms f(3) unfolding f(2)
    by (subst fill_fixed.simps) (simp add: NUM_FIXED_RANGES_def Let_def f(2) del: of_nat_add)
qed

lemma fill_fixed_correct:
  assumes "i \<le> j" and "j \<le> 88" and "length types = 88"
  shows "\<exists>types'. fill_fixed type (of_nat (granule j)) (of_nat (granule i)) (desc_of i) i types = Some (types', desc_of j) \<and>
    length types' = 88 \<and> (\<forall>k<88. types' ! k = (if i \<le> k \<and> k < j then type else types ! k))"
  using assms
proof (induction "j - i" arbitrary: i types)
  case 0
  then show ?case by (subst fill_fixed.simps) auto
next
  case (Suc n)
  then have lt: "i < j" "i < 88" by simp_all
  then have "(of_nat (granule j) :: u32) \<noteq> of_nat (granule i)" using of_nat_granule_eq Suc.prems(2) by auto
  note step = fill_fixed_step [OF lt(2) this, of type types]
  obtain types' where "fill_fixed type (of_nat (granule j)) (of_nat (granule (i + 1))) (desc_of (i + 1)) (i + 1) (types[i := type]) = Some (types', desc_of j)"
    "length types' = 88" "\<forall>k<88. types' ! k = (if i + 1 \<le> k \<and> k < j then type else types[i := type] ! k)"
  proof -
    have "n = j - (i + 1)" "i + 1 \<le> j" "length (types[i := type]) = 88" using Suc.hyps(2) Suc.prems(3) by simp_all
    from Suc.hyps(1) [OF this(1,2) Suc.prems(2) this(3)] show thesis using that by blast
  qed
  then show ?case using Suc.prems(3) lt unfolding step by (auto simp: nth_list_update)
qed

text \<open>An end that is no granule is never met: the loop leaves the tables.\<close>

lemma fill_fixed_overrun:
  assumes "i \<le> 88" and "\<forall>k\<le>88. e \<noteq> of_nat (granule k)"
  shows "fill_fixed type e (of_nat (granule i)) (desc_of i) i types = None"
  using assms(1)
proof (induction "88 - i" arbitrary: i types)
  case 0
  then have "i = 88" by simp
  then show ?case using assms(2) by (subst fill_fixed.simps) (auto simp: fixed_mtrr_desc_def desc_of_def)
next
  case (Suc n)
  then have lt: "i < 88" by simp
  then have "e \<noteq> of_nat (granule i)" using assms(2) by simp
  note step = fill_fixed_step [OF lt this, of type types]
  show ?case unfolding step using Suc.hyps(1) [of "i + 1"] Suc.hyps(2) lt by simp
qed

section \<open>All entries\<close>

definition fixed_type :: "bool \<Rightarrow> range_entry \<Rightarrow> u8" where
  "fixed_type amd r = (let type = ucast (re_tag r) in if type = ucast MTRR_TYPE_WRBACK then type OR MTRR_FIXED_WRBACK_BITS amd else type)"

definition granular_entry :: "range_entry \<Rightarrow> bool" where
  "granular_entry r \<longleftrightarrow> page_entry r \<and> granular (first_page r) \<and> granular (end_page r)"

lemma desc_mono: "i \<le> j \<Longrightarrow> desc_of i \<le> desc_of j"
  by (simp add: desc_of_def)

lemma last_desc: "d_end (last fixed_mtrr_desc) = 0x100"
  by (simp add: fixed_mtrr_desc_def PHYS_TO_RANGE_ADDR_def)

lemma word_of_page: "unat (w :: u32) = n \<Longrightarrow> w = of_nat n"
  by auto

lemma calc_fixed_entries_correct:
  assumes "ranges_sorted es" and "\<forall>r\<in>set es. granular_entry r" and "length types = 88"
    and "\<forall>r\<in>set es. first_page r < 256 \<longrightarrow> d \<le> desc_of (index_of (first_page r))"
  shows "\<exists>types'. calc_fixed_entries amd es d types = Some types' \<and> length types' = 88 \<and>
    (\<forall>k<88. types' ! k = (case find (\<lambda>r. first_page r \<le> granule k \<and> granule k < end_page r) es of
       None \<Rightarrow> types ! k | Some r \<Rightarrow> fixed_type amd r))"
  using assms
proof (induction es arbitrary: d types)
  case (Cons r es)
  have r: "page_entry r" "granular (first_page r)" "granular (end_page r)" and later: "\<forall>x\<in>set es. end_page r \<le> first_page x"
    using Cons.prems(1,2) by (auto simp: granular_entry_def intro: sorted_pages)
  note pg = page_entry_addrs [OF r(1)]
  have none: "find (\<lambda>r. first_page r \<le> granule k \<and> granule k < end_page r) es = None" if "granule k < end_page r" for k
    using later that by (auto simp: find_None_iff)
  show ?case
  proof (cases "first_page r < 256")
    case False
    then have big: "d_end (last fixed_mtrr_desc) \<le> range_entry_base_mtrr_addr r"
      using pg(1) by (simp add: last_desc word_le_nat_alt)
    have "\<not> (first_page x \<le> granule k \<and> granule k < end_page x)" if "k < 88" "x \<in> set (r # es)" for k x
    proof -
      have "granule k < 256" using granule_less_iff [of k 88] granule_88 that(1) by simp
      moreover have "256 \<le> first_page x" using that(2) later False pg(3) by fastforce
      ultimately show ?thesis by simp
    qed
    then have "find (\<lambda>r. first_page r \<le> granule k \<and> granule k < end_page r) (r # es) = None" if "k < 88" for k
      unfolding find_None_iff using that by blast
    then show ?thesis using big Cons.prems(3) by (auto simp: Let_def)
  next
    case True
    define i j where "i = index_of (first_page r)" and "j = index_of (min 256 (end_page r))"
    have gi: "granule i = first_page r" "i < 88" using granule_index [OF r(2)] True index_less by (simp_all add: i_def)
    have "granular (min 256 (end_page r))" using r(3) by (simp add: min_def granular_def)
    then have gj: "granule j = min 256 (end_page r)" "j \<le> 88" using granule_index by (simp_all add: j_def)
    have ij: "i < j" using granule_less_iff [of i j] gi(1) gj(1) True pg(3) by simp
    have b: "range_entry_base_mtrr_addr r = of_nat (granule i)" using word_of_page [OF pg(1)] gi(1) by simp
    have e: "(if range_entry_end_mtrr_addr r > 0x100 then 0x100 else range_entry_end_mtrr_addr r) = of_nat (granule j)"
      using word_of_page [OF pg(2)] gj(1) pg(2) by (auto simp: word_less_nat_alt min_def)
    have small: "\<not> 0x100 \<le> range_entry_base_mtrr_addr r" using True pg(1) by (simp add: word_le_nat_alt)
    note f = fixed_step [OF gi(2)]
    have d: "find_desc (of_nat (granule i)) d = Some (desc_of i)"
      using f(5) Cons.prems(4) True by (simp add: i_def)
    obtain types1 where t1: "fill_fixed (fixed_type amd r) (of_nat (granule j)) (of_nat (granule i)) (desc_of i) i types = Some (types1, desc_of j)"
      "length types1 = 88" "\<forall>k<88. types1 ! k = (if i \<le> k \<and> k < j then fixed_type amd r else types ! k)"
      using fill_fixed_correct [OF less_imp_le [OF ij] gj(2) Cons.prems(3)] by blast
    have eq: "calc_fixed_entries amd (r # es) d types = calc_fixed_entries amd es (desc_of j) types1"
      using small t1(1) unfolding calc_fixed_entries.simps(2) Let_def last_desc e unfolding b d
      by (simp add: f(4) fixed_type_def Let_def)
    have "\<forall>x\<in>set es. first_page x < 256 \<longrightarrow> desc_of j \<le> desc_of (index_of (first_page x))"
    proof (intro ballI impI)
      fix x assume x: "x \<in> set es" "first_page x < 256"
      then have "granule (index_of (first_page x)) = first_page x"
        using Cons.prems(2) granule_index by (simp add: granular_entry_def)
      moreover have "granule j \<le> first_page x" using later x gj(1) by force
      ultimately show "desc_of j \<le> desc_of (index_of (first_page x))"
        using granule_le_iff [of j "index_of (first_page x)"] by (intro desc_mono) simp
    qed
    then obtain types' where t': "calc_fixed_entries amd es (desc_of j) types1 = Some types'" "length types' = 88"
      "\<forall>k<88. types' ! k = (case find (\<lambda>r. first_page r \<le> granule k \<and> granule k < end_page r) es of
         None \<Rightarrow> types1 ! k | Some r \<Rightarrow> fixed_type amd r)"
      using Cons.IH [OF _ _ t1(2), of "desc_of j"] Cons.prems(1,2) by auto
    have "types' ! k = (case find (\<lambda>r. first_page r \<le> granule k \<and> granule k < end_page r) (r # es) of
         None \<Rightarrow> types ! k | Some r \<Rightarrow> fixed_type amd r)" if k: "k < 88" for k
    proof -
      have in_r: "first_page r \<le> granule k \<and> granule k < end_page r \<longleftrightarrow> i \<le> k \<and> k < j"
        using granule_le_iff [of i k] granule_less_iff [of k j] gi(1) gj(1) granule_less_iff [of k 88] granule_88 k by auto
      show ?thesis
        using t'(3) t1(3) k none [of k] in_r by (cases "i \<le> k \<and> k < j") (auto split: option.split)
    qed
    then show ?thesis using eq t'(1,2) by auto
  qed
qed simp

section \<open>Reading the fixed registers\<close>

text \<open>The eleven registers, and the byte of a page: the type the processor uses for it.\<close>

definition fixed_regs :: "u32 list" where
  "fixed_regs = [0x250, 0x258, 0x259, 0x268, 0x269, 0x26a, 0x26b, 0x26c, 0x26d, 0x26e, 0x26f]"

definition msr_byte :: "msr_t \<Rightarrow> nat \<Rightarrow> u8" where
  "msr_byte m k = ucast (drop_bit (8 * (k mod 4)) (if k < 4 then lo m else hi m))"

definition hw_fixed_type :: "(u32 \<Rightarrow> msr_t) \<Rightarrow> nat \<Rightarrow> u8" where
  "hw_fixed_type ms p = msr_byte (ms (fixed_regs ! (index_of p div 8))) (index_of p mod 8)"

lemma bytes_of_word:
  fixes a b c d :: u8
  defines "w \<equiv> (ucast a OR push_bit 8 (ucast b) OR push_bit 16 (ucast c) OR push_bit 24 (ucast d) :: u32)"
  shows "ucast w = a" "ucast (drop_bit 8 w) = b" "ucast (drop_bit 16 w) = c" "ucast (drop_bit 24 w) = d"
proof -
  have hi: "\<not> bit x n" if "8 \<le> n" for x :: u8 and n using bit_imp_le_length [of x n] that by auto
  show "ucast w = a" unfolding w_def by (rule bit_word_eqI) (auto simp: bit_simps)
  show "ucast (drop_bit 8 w) = b" unfolding w_def by (rule bit_word_eqI) (auto simp: bit_simps hi)
  show "ucast (drop_bit 16 w) = c" unfolding w_def by (rule bit_word_eqI) (auto simp: bit_simps hi)
  show "ucast (drop_bit 24 w) = d" unfolding w_def by (rule bit_word_eqI) (auto simp: bit_simps hi)
qed

lemma fixed_msr_byte:
  assumes "k < 8"
  shows "msr_byte (fixed_msr types i) k = types ! (i + k)"
proof -
  have "k = 0 \<or> k = 1 \<or> k = 2 \<or> k = 3 \<or> k = 4 \<or> k = 5 \<or> k = 6 \<or> k = 7" using assms by linarith
  moreover have "4 mod 4 = (0::nat)" "5 mod 4 = (1::nat)" "6 mod 4 = (2::nat)" "7 mod 4 = (3::nat)" "8 * 0 = (0::nat)"
    "8 * 1 = (8::nat)" "8 * 2 = (16::nat)" "8 * 3 = (24::nat)" "i + 0 = i" by simp_all
  ultimately show ?thesis
    by (elim disjE; hypsubst; simp only: msr_byte_def fixed_msr_def msr_t.simps bytes_of_word drop_bit_0 id_apply
        mod_less zero_less_numeral one_less_numeral_iff numeral_less_iff less_irrefl semiring_norm if_True if_False)
qed

lemma fixed_msrs_eq: "fixed_msrs types = map (\<lambda>j. (fixed_regs ! j, fixed_msr types (8 * j))) [0..<11]"
  by (simp add: fixed_msrs_def fixed_mtrr_desc_def fixed_regs_def PHYS_TO_RANGE_ADDR_def RANGES_PER_FIXED_MTRR_def
      MTRR_FIX_64K_00000_def MTRR_FIX_16K_80000_def MTRR_FIX_4K_C0000_def upt_rec)

lemma fixed_regs_distinct: "distinct fixed_regs" "length fixed_regs = 11" "SYSCFG_MSR \<notin> set fixed_regs"
  "MTRR_DEF_TYPE_MSR \<notin> set fixed_regs"
  by (simp_all add: fixed_regs_def SYSCFG_MSR_def MTRR_DEF_TYPE_MSR_def)

lemma fold_wrmsr:
  "distinct (map fst xs) \<Longrightarrow> msrs (fold (\<lambda>(i, v). wrmsr i v) xs s) r = (case map_of xs r of None \<Rightarrow> msrs s r | Some v \<Rightarrow> v)"
proof (induction xs arbitrary: s)
  case (Cons x xs)
  then have "map_of xs (fst x) = None" by (simp add: map_of_eq_None_iff)
  then show ?case using Cons by (cases x) (auto simp: wrmsr_def split: option.split)
qed simp

lemma commit_fixed_regs:
  assumes "fixed_mtrr_types s = Some types" and "p < 256"
  shows "hw_fixed_type (msrs (commit_fixed_mtrrs amd s)) p = types ! index_of p"
proof -
  define j where "j = index_of p div 8"
  have j: "j < 11" using index_less [OF assms(2)] by (simp add: j_def div_less_iff_less_mult)
  have "fixed_regs ! j \<in> set fixed_regs" using j fixed_regs_distinct(2) by (intro nth_mem) simp
  then have reg: "fixed_regs ! j \<noteq> SYSCFG_MSR" using fixed_regs_distinct(3) by metis
  define f where "f = fold (\<lambda>(i, v). wrmsr i v) (fixed_msrs types) (disable_cache (fixed_mtrrs_expose_amd_rwdram amd s))"
  have keys: "map fst (fixed_msrs types) = fixed_regs"
    unfolding fixed_msrs_eq by (simp add: comp_def fixed_regs_distinct(2) [symmetric] map_nth)
  have "fixed_msrs types ! j = (fixed_regs ! j, fixed_msr types (8 * j))" "j < length (fixed_msrs types)"
    using j unfolding fixed_msrs_eq by (simp_all add: nth_append)
  then have mem: "(fixed_regs ! j, fixed_msr types (8 * j)) \<in> set (fixed_msrs types)" by (metis nth_mem)
  have "map_of (fixed_msrs types) (fixed_regs ! j) = Some (fixed_msr types (8 * j))"
    using map_of_is_SomeI [OF _ mem] keys fixed_regs_distinct(1) by simp
  then have "msrs f (fixed_regs ! j) = fixed_msr types (8 * j)"
    unfolding f_def using keys fixed_regs_distinct(1) by (simp add: fold_wrmsr)
  moreover have "types_of = types" if "types_of = (case fixed_mtrr_types (disable_cache (fixed_mtrrs_expose_amd_rwdram amd s)) of None \<Rightarrow> replicate NUM_FIXED_RANGES 0 | Some t \<Rightarrow> t)" for types_of
    using that assms(1) by (simp add: disable_cache_def fixed_mtrrs_expose_amd_rwdram_def wrmsr_def Let_def)
  then have "commit_fixed_mtrrs amd s = fixed_mtrrs_hide_amd_rwdram amd (enable_cache f)"
    by (simp add: commit_fixed_mtrrs_def Let_def f_def)
  then have "msrs (commit_fixed_mtrrs amd s) (fixed_regs ! j) = msrs f (fixed_regs ! j)"
    using reg by (simp add: fixed_mtrrs_hide_amd_rwdram_def enable_cache_def wrmsr_def Let_def)
  moreover have "8 * j + index_of p mod 8 = index_of p" by (simp add: j_def)
  ultimately show ?thesis
    using fixed_msr_byte [of "index_of p mod 8" types "8 * j"] by (simp add: hw_fixed_type_def j_def)
qed

section \<open>Properties\<close>

text \<open>
  C22: Setting up the fixed registers of an address space whose ranges respect the granules
  succeeds and gives every page of the first megabyte the type its range is tagged with,
  with the AMD DRAM bits on write-back pages, and leaves pages outside the ranges
  uncacheable.
\<close>

theorem fixed_mtrrs_give_types:
  assumes "addr_space s = Some space" and "fixed_mtrr_types s = None" and "ranges_sorted (mr_entries space)"
    and "\<forall>r\<in>set (mr_entries space). granular_entry r" and "unat a < 0x100000"
  shows "\<exists>s'. x86_setup_fixed_mtrrs amd devs s = Some s' \<and>
    hw_fixed_type (msrs s') (unat a div 4096) =
      (case tag_at (mr_entries space) a of
         None \<Rightarrow> 0
       | Some t \<Rightarrow> if (ucast t :: u8) = 6 then 6 OR MTRR_FIXED_WRBACK_BITS amd else ucast t)"
proof -
  define es p where "es = mr_entries space" and "p = unat a div 4096"
  have p: "p < 256" using assms(5) by (simp add: p_def div_less_iff_less_mult)
  obtain types where t: "calc_fixed_entries amd es 0 (replicate NUM_FIXED_RANGES (ucast MTRR_TYPE_UNCACHEABLE)) = Some types"
    "\<forall>k<88. types ! k = (case find (\<lambda>r. first_page r \<le> granule k \<and> granule k < end_page r) es of
       None \<Rightarrow> replicate NUM_FIXED_RANGES (ucast MTRR_TYPE_UNCACHEABLE) ! k | Some r \<Rightarrow> fixed_type amd r)"
    using calc_fixed_entries_correct [of es "replicate NUM_FIXED_RANGES (ucast MTRR_TYPE_UNCACHEABLE)" 0 amd] assms(3,4)
    by (auto simp: es_def NUM_FIXED_RANGES_def)
  define s1 where "s1 = s\<lparr>fixed_mtrr_types := Some types\<rparr>"
  define s' where "s' = enable_fixed_mtrr (commit_fixed_mtrrs amd s1)"
  have "x86_setup_fixed_mtrrs amd devs s = Some s'"
    using assms(1,2) t(1) by (simp add: x86_setup_fixed_mtrrs_def x86_setup_fixed_mtrrs_no_enable_def calc_fixed_mtrrs_def
        get_physical_address_space_def es_def s1_def s'_def)
  moreover have "index_of p div 8 < 11" using index_less [OF p] by (simp add: div_less_iff_less_mult)
  then have "fixed_regs ! (index_of p div 8) \<in> set fixed_regs" using fixed_regs_distinct(2) by (intro nth_mem) simp
  then have "fixed_regs ! (index_of p div 8) \<noteq> MTRR_DEF_TYPE_MSR" using fixed_regs_distinct(4) by metis
  then have "hw_fixed_type (msrs s') p = hw_fixed_type (msrs (commit_fixed_mtrrs amd s1)) p"
    by (simp add: hw_fixed_type_def s'_def enable_fixed_mtrr_def wrmsr_def Let_def)
  then have "hw_fixed_type (msrs s') p = types ! index_of p"
    using commit_fixed_regs [OF _ p, of s1 types amd] by (simp add: s1_def)
  moreover have "find (\<lambda>r. first_page r \<le> granule (index_of p) \<and> granule (index_of p) < end_page r) es = find (\<lambda>r. re_begin r \<le> a \<and> a \<le> re_end r) es"
  proof (rule find_cong)
    fix r assume "r \<in> set es"
    then have r: "page_entry r" "granular (first_page r)" "granular (end_page r)" using assms(4) by (simp_all add: es_def granular_entry_def)
    have "first_page r \<le> granule (index_of p) \<longleftrightarrow> first_page r \<le> p" using granular_side [OF r(2) p] .
    moreover have "end_page r \<le> granule (index_of p) \<longleftrightarrow> end_page r \<le> p" using granular_side [OF r(3) p] .
    ultimately show "(first_page r \<le> granule (index_of p) \<and> granule (index_of p) < end_page r) = (re_begin r \<le> a \<and> a \<le> re_end r)"
      using page_entry_addrs(5) [OF r(1), of a] by (simp add: p_def not_le [symmetric])
  qed simp
  moreover have "tag_at es a = map_option re_tag (find (\<lambda>r. re_begin r \<le> a \<and> a \<le> re_end r) es)" for es
    by (induction es) auto
  ultimately show ?thesis
    using t(2) index_less [OF p]
    by (auto simp: p_def [symmetric] es_def [symmetric] NUM_FIXED_RANGES_def MTRR_TYPE_UNCACHEABLE_def fixed_type_def
        MTRR_TYPE_WRBACK_def Let_def split: option.splits)
qed

definition ex_state :: mtrr_state where
  "ex_state = (mtrr_boot (\<lambda>_. zero_msr))\<lparr>addr_space := Some \<lparr>mr_entries = [\<lparr>re_begin = 0, re_end = 0x9ffff, re_tag = 6\<rparr>,
     \<lparr>re_begin = 0xa0000, re_end = 0xffffffff, re_tag = 0\<rparr>], mr_free_list = []\<rparr>\<rparr>"

theorem fixed_mtrrs_give_types_witness:
  "\<exists>s'. x86_setup_fixed_mtrrs False [] ex_state = Some s' \<and> hw_fixed_type (msrs s') 0x9f = 6"
  using fixed_mtrrs_give_types [of ex_state _ "0x9f000" False "[]"]
  by (simp add: ex_state_def mtrr_boot_def granular_entry_def page_entry_def granular_def first_page_def end_page_def MTRR_FIXED_WRBACK_BITS_def)

text \<open>
  C35: A range that starts on a granule below 1 MiB and ends there on none makes
  \<^verbatim>\<open>calc_fixed_mtrrs\<close> step past its end, fill every later fixed range with its type and leave
  the descriptor table.
\<close>

theorem fixed_mtrrs_overrun:
  assumes "page_entry r" and "granular (first_page r)" and "end_page r < 256" and "\<not> granular (end_page r)"
    and "addr_space s = Some space" and "mr_entries space = r # rs" and "fixed_mtrr_types s = None"
  shows "x86_setup_fixed_mtrrs amd devs s = None"
proof -
  define i where "i = index_of (first_page r)"
  note pg = page_entry_addrs [OF assms(1)]
  have small: "first_page r < 256" using pg(3) assms(3) by simp
  have gi: "granule i = first_page r" "i < 88" using granule_index [OF assms(2)] small index_less by (simp_all add: i_def)
  note f = fixed_step [OF gi(2)]
  have b: "range_entry_base_mtrr_addr r = of_nat (granule i)" using word_of_page [OF pg(1)] gi(1) by simp
  have e: "range_entry_end_mtrr_addr r = of_nat (end_page r)" using word_of_page [OF pg(2)] .
  have gr: "granular (granule k)" for k by (auto simp: granular_def granule_def)
  have ne: "\<forall>k\<le>88. of_nat (end_page r) \<noteq> (of_nat (granule k) :: u32)"
  proof (intro allI impI)
    fix k :: nat assume "k \<le> 88"
    then have "granule k \<le> 256" using granule_le_iff [of k 88] granule_88 by simp
    then have "unat (of_nat (granule k) :: u32) = granule k" "unat (of_nat (end_page r) :: u32) = end_page r"
      using assms(3) by (simp_all add: unat_of_nat_id)
    moreover have "granule k \<noteq> end_page r" using gr assms(4) by metis
    ultimately show "of_nat (end_page r) \<noteq> (of_nat (granule k) :: u32)" by metis
  qed
  have "calc_fixed_entries amd (r # rs) 0 types = None" for types
    using small pg assms(3) fill_fixed_overrun [OF less_imp_le [OF gi(2)] ne] f(4,5)
    unfolding calc_fixed_entries.simps(2) Let_def last_desc
    by (simp add: word_le_nat_alt word_less_nat_alt b e del: of_nat_add)
  then show ?thesis
    using assms(5-7) by (simp add: x86_setup_fixed_mtrrs_def x86_setup_fixed_mtrrs_no_enable_def calc_fixed_mtrrs_def get_physical_address_space_def)
qed

theorem fixed_mtrrs_overrun_witness:
  "x86_setup_fixed_mtrrs False [] (ex_state\<lparr>addr_space := Some \<lparr>mr_entries = [\<lparr>re_begin = 0, re_end = 0x9efff, re_tag = 6\<rparr>],
     mr_free_list = []\<rparr>\<rparr>) = None"
  by (rule fixed_mtrrs_overrun [where r = "\<lparr>re_begin = 0, re_end = 0x9efff, re_tag = 6\<rparr>" and rs = "[]" and
      space = "\<lparr>mr_entries = [\<lparr>re_begin = 0, re_end = 0x9efff, re_tag = 6\<rparr>], mr_free_list = []\<rparr>"])
    (simp_all add: page_entry_def granular_def first_page_def end_page_def ex_state_def mtrr_boot_def)

end
