(* ===== verification/Resources.thy ===== *)
theory Resources
  imports Memrange "HOL-Library.Product_Lexorder"
begin

text \<open>
  The resource allocator of the device tree, \<^verbatim>\<open>src/device/device.c\<close> (with
  \<^verbatim>\<open>search_bus_resources\<close> and \<^verbatim>\<open>resource_max\<close> of
  \<^verbatim>\<open>device_util.c\<close>). The tree of devices and buses is fixed while the allocator runs; the
  resource structures live in a store indexed by their identity, because bridges and their
  buses update the same structure. A missing link, which the code dereferences as NULL, is \<open>None\<close>.
\<close>

section \<open>Devices, buses and their resources\<close>

type_synonym rid = nat
type_synonym store = "rid \<Rightarrow> resource"

datatype dev = Dev (d_enabled: bool) (d_path_type: nat) (d_resources: "rid list") (d_links: "bus list")
and bus = Bus (link_num: u32) (bus_children: "dev list")

definition IORESOURCE_IO :: u32 where "IORESOURCE_IO = 0x100"
definition IORESOURCE_TYPE_MASK :: u32 where "IORESOURCE_TYPE_MASK = 0xf00"
definition IORESOURCE_BRIDGE :: u32 where "IORESOURCE_BRIDGE = 0x80000"
definition IORESOURCE_STORED :: u32 where "IORESOURCE_STORED = 0x20000000"
definition IORESOURCE_ASSIGNED :: u32 where "IORESOURCE_ASSIGNED = 0x40000000"
definition IORESOURCE_FIXED :: u32 where "IORESOURCE_FIXED = 0x80000000"
definition DEVICE_PATH_DOMAIN :: nat where "DEVICE_PATH_DOMAIN = 6"

definition IOINDEX_LINK :: "u32 \<Rightarrow> u32" where "IOINDEX_LINK idx = drop_bit 16 (idx AND 0xf0000)"
definition IOINDEX_SUBTRACTIVE_LINK :: "u32 \<Rightarrow> u32" where "IOINDEX_SUBTRACTIVE_LINK idx = idx AND 0xff"

definition round_pow :: "resource_t \<Rightarrow> u8 \<Rightarrow> resource_t" where
  "round_pow val pow =
     (let msk = push_bit (unat pow) 1 - 1;
          val = val + msk
      in val AND NOT msk)"

definition find_link :: "u32 \<Rightarrow> bus list \<Rightarrow> bus option" where
  "find_link n links = find (\<lambda>l. link_num l = n) links"

lemma find_link_mem: "find_link n links = Some l \<Longrightarrow> l \<in> set links"
  by (auto simp: find_link_def find_Some_iff)

lemma size_child: "d \<in> set (bus_children b) \<Longrightarrow> size d < size b"
  by (cases b) (auto dest: size_list_estimation' [of _ _ _ size, OF _ order_refl])

lemma size_link: "l \<in> set (d_links d) \<Longrightarrow> size l < size d"
  by (cases d) (auto dest: size_list_estimation' [of _ _ _ size, OF _ order_refl])

section \<open>Walking the resources of a bus\<close>

text \<open>
  The resources of one device in the order \<^verbatim>\<open>search_bus_resources\<close> visits them: a
  subtractive resource stands for those of its sub-bus, and one whose link is missing ends the
  device.
\<close>

primrec device_resources ::
    "store \<Rightarrow> u32 \<Rightarrow> u32 \<Rightarrow> bus list \<Rightarrow> (bus \<Rightarrow> rid list) \<Rightarrow> rid list \<Rightarrow> rid list" where
  "device_resources rs msk ty links sub [] = []"
| "device_resources rs msk ty links sub (r # rest) =
     (if res_flags (rs r) AND msk \<noteq> ty then device_resources rs msk ty links sub rest
      else if res_flags (rs r) AND IORESOURCE_SUBTRACTIVE \<noteq> 0 then
        (case find_link (IOINDEX_SUBTRACTIVE_LINK (res_index (rs r))) links of
           None \<Rightarrow> []
         | Some subbus \<Rightarrow> sub subbus @ device_resources rs msk ty links sub rest)
      else r # device_resources rs msk ty links sub rest)"

lemma device_resources_cong [fundef_cong]:
  "\<lbrakk>rs = rs'; msk = msk'; ty = ty'; links = links'; xs = xs'; \<And>l. l \<in> set links' \<Longrightarrow> f l = g l\<rbrakk>
   \<Longrightarrow> device_resources rs msk ty links f xs = device_resources rs' msk' ty' links' g xs'"
  by (induction xs arbitrary: xs') (auto split: option.split simp: find_link_mem)

function bus_resources :: "store \<Rightarrow> u32 \<Rightarrow> u32 \<Rightarrow> bus \<Rightarrow> rid list" where
  "bus_resources rs msk ty bus =
     concat (map (\<lambda>d. if \<not> d_enabled d then []
                     else device_resources rs msk ty (d_links d) (bus_resources rs msk ty) (d_resources d))
       (bus_children bus))"
  by pat_completeness auto
termination
  by (relation "measure (\<lambda>(rs, msk, ty, bus). size bus)") (auto dest: size_child size_link intro: less_trans)

declare bus_resources.simps [simp del]

definition search_bus_resources ::
    "store \<Rightarrow> u32 \<Rightarrow> u32 \<Rightarrow> (rid \<Rightarrow> 's \<Rightarrow> 's) \<Rightarrow> bus \<Rightarrow> 's \<Rightarrow> 's" where
  "search_bus_resources rs msk ty search bus s = fold search (bus_resources rs msk ty bus) s"

record pick_largest_state =
  last_res :: "rid option"
  result_res :: "rid option"
  seen_last :: bool

definition pick_largest_resource :: "store \<Rightarrow> rid \<Rightarrow> pick_largest_state \<Rightarrow> pick_largest_state" where
  "pick_largest_resource rs r s =
     (if last_res s = Some r then s\<lparr>seen_last := True\<rparr>
      else if res_flags (rs r) AND IORESOURCE_FIXED \<noteq> 0 then s
      else if (case last_res s of None \<Rightarrow> False | Some la \<Rightarrow>
                 res_align (rs la) < res_align (rs r) \<or>
                 (res_align (rs la) = res_align (rs r) \<and> res_size (rs la) < res_size (rs r)) \<or>
                 (res_align (rs la) = res_align (rs r) \<and> res_size (rs la) = res_size (rs r) \<and> \<not> seen_last s))
        then s
      else if (case result_res s of None \<Rightarrow> True | Some re \<Rightarrow>
                 res_align (rs re) < res_align (rs r) \<or>
                 (res_align (rs re) = res_align (rs r) \<and> res_size (rs re) < res_size (rs r)))
        then s\<lparr>result_res := Some r\<rparr>
      else s)"

definition largest_resource :: "store \<Rightarrow> bus \<Rightarrow> rid option \<Rightarrow> u32 \<Rightarrow> u32 \<Rightarrow> rid option" where
  "largest_resource rs bus la msk ty =
     result_res (search_bus_resources rs msk ty (pick_largest_resource rs) bus
       \<lparr>last_res = la, result_res = None, seen_last = False\<rparr>)"

section \<open>The two passes\<close>

text \<open>
  The legacy PCI decoders see ten address bits: an I/O base in the upper three quarters of a
  1 KiB block moves to the next block.
\<close>

definition skip_legacy_io :: "resource \<Rightarrow> resource_t \<Rightarrow> resource_t" where
  "skip_legacy_io r base =
     (if res_flags r AND IORESOURCE_IO \<noteq> 0 then
        if base AND 0x300 \<noteq> 0 then (base AND NOT 0x3ff) + 0x400
        else if base \<ge> 0x3b0 \<and> base \<le> 0x3df then 0x3e0
        else base
      else base)"

text \<open>One resource of the first pass: \<open>r\<close> is placed at the running base of the bridge resource \<open>br\<close>.\<close>

definition compute_step :: "rid \<Rightarrow> rid \<Rightarrow> store \<times> resource_t \<Rightarrow> store \<times> resource_t" where
  "compute_step br r = (\<lambda>(rs, base).
     if res_size (rs r) = 0 then (rs, base)
     else let rs = (if res_align (rs r) > res_align (rs br)
                    then rs(br := (rs br)\<lparr>res_align := res_align (rs r)\<rparr>) else rs);
              rs = (if res_limit (rs br) > res_limit (rs r)
                    then rs(br := (rs br)\<lparr>res_limit := res_limit (rs r)\<rparr>) else rs);
              base = skip_legacy_io (rs r) base;
              base = round_pow base (res_align (rs r))
          in (rs(r := (rs r)\<lparr>res_base := base\<rparr>), base + res_size (rs r)))"

partial_function (option) compute_loop ::
    "bus \<Rightarrow> rid \<Rightarrow> u32 \<Rightarrow> u32 \<Rightarrow> rid option \<Rightarrow> store \<times> resource_t \<Rightarrow> (store \<times> resource_t) option" where
  "compute_loop bus br msk ty la st =
     (case largest_resource (fst st) bus la msk ty of
        None \<Rightarrow> Some st
      | Some r \<Rightarrow> compute_loop bus br msk ty (Some r) (compute_step br r st))"

text \<open>The resources of the bridges on a bus, with the links of their device.\<close>

definition child_bridges :: "bus \<Rightarrow> (rid \<times> bus list) list" where
  "child_bridges bus =
     concat (map (\<lambda>d. if d_links d = [] then [] else map (\<lambda>r. (r, d_links d)) (d_resources d)) (bus_children bus))"

lemma child_bridges_size: "(cb, links) \<in> set (child_bridges b) \<Longrightarrow> l \<in> set links \<Longrightarrow> size l < size b"
  by (auto simp: child_bridges_def split: if_splits dest!: size_child size_link)

definition is_child_bridge :: "store \<Rightarrow> u32 \<Rightarrow> u32 \<Rightarrow> rid \<Rightarrow> bool" where
  "is_child_bridge rs msk ty cb \<longleftrightarrow>
     \<not> (res_flags (rs cb) AND IORESOURCE_BRIDGE = 0 \<or> res_flags (rs cb) AND msk \<noteq> ty)"

primrec foldM :: "('a \<Rightarrow> 's \<Rightarrow> 's option) \<Rightarrow> 'a list \<Rightarrow> 's \<Rightarrow> 's option" where
  "foldM f [] s = Some s"
| "foldM f (x # xs) s = (case f x s of None \<Rightarrow> None | Some s \<Rightarrow> foldM f xs s)"

lemma foldM_cong [fundef_cong]:
  "\<lbrakk>xs = ys; s = t; \<And>x s. x \<in> set ys \<Longrightarrow> f x s = g x s\<rbrakk> \<Longrightarrow> foldM f xs s = foldM g ys t"
  by (induction xs arbitrary: ys s t) (auto split: option.split)

function compute_resources :: "bus \<Rightarrow> rid \<Rightarrow> u32 \<Rightarrow> u32 \<Rightarrow> store \<Rightarrow> store option" where
  "compute_resources bus br msk ty rs =
     (let base = round_pow (res_base (rs br)) (res_align (rs br)) in
      case foldM (\<lambda>(cb, links) rs.
             if \<not> is_child_bridge rs msk ty cb then Some rs
             else case find_link (IOINDEX_LINK (res_index (rs cb))) links of
                    None \<Rightarrow> None
                  | Some link \<Rightarrow> compute_resources link cb (msk OR IORESOURCE_PREFETCH)
                                   (ty OR (res_flags (rs cb) AND IORESOURCE_PREFETCH)) rs)
           (child_bridges bus) rs of
        None \<Rightarrow> None
      | Some rs \<Rightarrow>
          (case compute_loop bus br msk ty None (rs, base) of
             None \<Rightarrow> None
           | Some (rs, base) \<Rightarrow>
               Some (rs(br := (rs br)\<lparr>res_size := round_pow base (res_gran (rs br))
                                               - round_pow (res_base (rs br)) (res_align (rs br))\<rparr>))))"
  by pat_completeness auto
termination
  by (relation "measure (\<lambda>(bus, br, msk, ty, rs). size bus)") (auto dest: child_bridges_size find_link_mem)

definition allocate_step :: "rid \<Rightarrow> rid \<Rightarrow> store \<times> resource_t \<Rightarrow> store \<times> resource_t" where
  "allocate_step br r = (\<lambda>(rs, base).
     let rs = (if res_limit (rs r) > res_limit (rs br)
               then rs(r := (rs r)\<lparr>res_limit := res_limit (rs br)\<rparr>) else rs)
     in if res_size (rs r) = 0
        then (rs(r := (rs r)\<lparr>res_base := res_limit (rs r), res_flags := res_flags (rs r) OR IORESOURCE_ASSIGNED\<rparr>), base)
        else let base = skip_legacy_io (rs r) base in
          if round_pow base (res_align (rs r)) + res_size (rs r) - 1 \<le> res_limit (rs r)
          then let base = round_pow base (res_align (rs r)) in
               (rs(r := (rs r)\<lparr>res_base := base, res_limit := base + res_size (rs r) - 1,
                   res_flags := (res_flags (rs r) OR IORESOURCE_ASSIGNED) AND NOT IORESOURCE_STORED\<rparr>),
                base + res_size (rs r))
          else (rs, base))"

partial_function (option) allocate_loop ::
    "bus \<Rightarrow> rid \<Rightarrow> u32 \<Rightarrow> u32 \<Rightarrow> rid option \<Rightarrow> store \<times> resource_t \<Rightarrow> (store \<times> resource_t) option" where
  "allocate_loop bus br msk ty la st =
     (case largest_resource (fst st) bus la msk ty of
        None \<Rightarrow> Some st
      | Some r \<Rightarrow> allocate_loop bus br msk ty (Some r) (allocate_step br r st))"

function allocate_resources :: "bus \<Rightarrow> rid \<Rightarrow> u32 \<Rightarrow> u32 \<Rightarrow> store \<Rightarrow> store option" where
  "allocate_resources bus br msk ty rs =
     (case allocate_loop bus br msk ty None (rs, res_base (rs br)) of
        None \<Rightarrow> None
      | Some (rs, base) \<Rightarrow>
          foldM (\<lambda>(cb, links) rs.
            if \<not> is_child_bridge rs msk ty cb then Some rs
            else case find_link (IOINDEX_LINK (res_index (rs cb))) links of
                   None \<Rightarrow> None
                 | Some link \<Rightarrow> allocate_resources link cb (msk OR IORESOURCE_PREFETCH)
                                  (ty OR (res_flags (rs cb) AND IORESOURCE_PREFETCH)) rs)
            (child_bridges bus) (rs(br := (rs br)\<lparr>res_flags := res_flags (rs br) OR IORESOURCE_ASSIGNED\<rparr>)))"
  by pat_completeness auto
termination
  by (relation "measure (\<lambda>(bus, br, msk, ty, rs). size bus)") (auto dest: child_bridges_size find_link_mem)

declare compute_resources.simps [simp del] allocate_resources.simps [simp del]

section \<open>Fixed resources\<close>

text \<open>\<open>limits->io\<close> and \<open>limits->mem\<close>: a base and a limit each.\<close>

record window =
  w_base :: resource_t
  w_limit :: resource_t

record constraints =
  c_io :: window
  c_mem :: window

definition resource_is :: "resource \<Rightarrow> u32 \<Rightarrow> bool" where
  "resource_is r ty \<longleftrightarrow> res_flags r AND IORESOURCE_TYPE_MASK = ty"

text \<open>The window of the resource's type, updated by \<open>f\<close>; other types are skipped.\<close>

definition resource_limit :: "resource \<Rightarrow> (window \<Rightarrow> window) \<Rightarrow> constraints \<Rightarrow> constraints" where
  "resource_limit r f limits =
     (if resource_is r IORESOURCE_MEM then limits\<lparr>c_mem := f (c_mem limits)\<rparr>
      else if resource_is r IORESOURCE_IO then limits\<lparr>c_io := f (c_io limits)\<rparr>
      else limits)"

definition constrain_window :: "resource \<Rightarrow> window \<Rightarrow> window" where
  "constrain_window r lim =
     (if res_base r + res_size r - 1 < w_base lim \<or> res_base r > w_limit lim then lim
      else if sint (w_limit lim - (res_base r + res_size r - 1)) > sint (res_base r - w_base lim)
      then lim\<lparr>w_base := res_base r + res_size r\<rparr>
      else lim\<lparr>w_limit := res_base r - 1\<rparr>)"

definition constrain_one :: "resource \<Rightarrow> constraints \<Rightarrow> constraints" where
  "constrain_one r limits =
     (if res_flags r AND IORESOURCE_FIXED = 0 then limits
      else if res_size r = 0 then limits
      else resource_limit r (constrain_window r) limits)"

lemma fold_cong_state [fundef_cong]:
  "\<lbrakk>xs = ys; s = t; \<And>x s. x \<in> set ys \<Longrightarrow> f x s = g x s\<rbrakk> \<Longrightarrow> fold f xs s = fold g ys t"
  by (induction xs arbitrary: ys s t) auto

function constrain_resources :: "store \<Rightarrow> dev \<Rightarrow> constraints \<Rightarrow> constraints" where
  "constrain_resources rs d limits =
     fold (\<lambda>link limits. fold (\<lambda>child limits.
         if d_enabled child then constrain_resources rs child limits else limits) (bus_children link) limits)
       (d_links d) (fold (\<lambda>r limits. constrain_one (rs r) limits) (d_resources d) limits)"
  by pat_completeness auto
termination
  by (relation "measure (\<lambda>(rs, d, limits). size d)") (auto intro: less_trans [OF size_child size_link])

declare constrain_resources.simps [simp del]

definition resource_max :: "resource \<Rightarrow> resource_t" where
  "resource_max r = (let m = push_bit (unat (res_align r)) 1 - 1 in (res_limit r - res_size r + 1) AND NOT m)"

definition narrow :: "resource \<Rightarrow> window \<Rightarrow> window" where
  "narrow r lim =
     (let lim = (if res_base r > w_base lim then lim\<lparr>w_base := res_base r\<rparr> else lim)
      in if res_limit r < w_limit lim then lim\<lparr>w_limit := res_limit r\<rparr> else lim)"

definition apply_window :: "window \<Rightarrow> resource \<Rightarrow> resource" where
  "apply_window lim r =
     (let r = (if w_base lim > res_base r then r\<lparr>res_base := w_base lim\<rparr> else r);
          r = (if res_limit r > w_limit lim then r\<lparr>res_limit := w_limit lim\<rparr> else r)
      in if res_flags r AND IORESOURCE_MEM \<noteq> 0 then r\<lparr>res_base := resource_max r\<rparr> else r)"

text \<open>The limits the non-fixed resources of a domain set, before fixed resources are looked at.\<close>

definition domain_limits :: "store \<Rightarrow> dev \<Rightarrow> constraints" where
  "domain_limits rs d =
     fold (\<lambda>r limits. if res_flags (rs r) AND IORESOURCE_FIXED \<noteq> 0 then limits
                      else resource_limit (rs r) (narrow (rs r)) limits)
       (d_resources d) \<lparr>c_io = \<lparr>w_base = 0, w_limit = -1\<rparr>, c_mem = \<lparr>w_base = 0, w_limit = -1\<rparr>\<rparr>"

definition avoid_fixed_resources :: "dev \<Rightarrow> store \<Rightarrow> store" where
  "avoid_fixed_resources d rs =
     (let limits = constrain_resources rs d (domain_limits rs d)
      in fold (\<lambda>r rs. if res_flags (rs r) AND IORESOURCE_FIXED \<noteq> 0 then rs
                      else if resource_is (rs r) IORESOURCE_MEM then rs(r := apply_window (c_mem limits) (rs r))
                      else if resource_is (rs r) IORESOURCE_IO then rs(r := apply_window (c_io limits) (rs r))
                      else rs) (d_resources d) rs)"

section \<open>Configuring the tree\<close>

text \<open>
  \<^verbatim>\<open>dev_configure\<close> on the children of the root's first link. What the devices do to the
  resources in their read and set methods is \<open>read\<close> and \<open>assign\<close>; a domain whose
  \<^verbatim>\<open>link_list\<close> is empty passes NULL to the passes.
\<close>

definition domain_pass ::
    "(bus \<Rightarrow> rid \<Rightarrow> u32 \<Rightarrow> u32 \<Rightarrow> store \<Rightarrow> store option) \<Rightarrow> dev \<Rightarrow> store \<Rightarrow> store option" where
  "domain_pass pass d rs =
     foldM (\<lambda>r rs.
       if res_flags (rs r) AND IORESOURCE_FIXED \<noteq> 0 then Some rs
       else if res_flags (rs r) AND IORESOURCE_MEM \<noteq> 0 then
         (case d_links d of [] \<Rightarrow> None | link # _ \<Rightarrow> pass link r IORESOURCE_TYPE_MASK IORESOURCE_MEM rs)
       else if res_flags (rs r) AND IORESOURCE_IO \<noteq> 0 then
         (case d_links d of [] \<Rightarrow> None | link # _ \<Rightarrow> pass link r IORESOURCE_TYPE_MASK IORESOURCE_IO rs)
       else Some rs) (d_resources d) rs"

definition dev_configure :: "(store \<Rightarrow> store) \<Rightarrow> (store \<Rightarrow> store) \<Rightarrow> dev list \<Rightarrow> store \<Rightarrow> store option" where
  "dev_configure read assign children rs =
     (let domains = filter (\<lambda>d. d_path_type d = DEVICE_PATH_DOMAIN) children;
          rs = read rs
      in case foldM (domain_pass compute_resources) domains rs of
           None \<Rightarrow> None
         | Some rs \<Rightarrow>
             let rs = fold avoid_fixed_resources domains rs
             in map_option assign (foldM (domain_pass allocate_resources) domains rs))"

end
