(* ===== verification/Resource_Order.thy ===== *)
theory Resource_Order
  imports Resources
begin

text \<open>
  The order in which the allocator visits the resources of a bus: calling
  \<^verbatim>\<open>largest_resource\<close> until it finds nothing walks the stable sort of the resources by
  alignment and size, largest first. From this the loops of both passes become folds over a
  list, and the passes structural recursions over a plan of the tree.
\<close>

section \<open>A strict order that refines a stable sort\<close>

primrec before :: "'a \<Rightarrow> 'a \<Rightarrow> 'a list \<Rightarrow> bool" where
  "before x y [] = False"
| "before x y (z # zs) = (if x = z then y \<in> set zs else before x y zs)"

lemma before_append: "before x y (xs @ ys) = (before x y xs \<or> x \<in> set xs \<and> y \<in> set ys \<or> x \<notin> set xs \<and> before x y ys)"
  by (induction xs) auto

lemma before_set: "before x y xs \<Longrightarrow> x \<in> set xs \<and> y \<in> set xs"
  by (induction xs) (auto split: if_splits)

lemma before_asym: "distinct xs \<Longrightarrow> before x y xs \<Longrightarrow> \<not> before y x xs"
  by (induction xs) (auto dest: before_set split: if_splits)

lemma before_filter: "distinct xs \<Longrightarrow> before x y (filter P xs) \<Longrightarrow> before x y xs"
  by (induction xs) (auto dest: before_set split: if_splits)

definition later :: "('a \<Rightarrow> 'k::linorder) \<Rightarrow> 'a list \<Rightarrow> 'a \<Rightarrow> 'a \<Rightarrow> bool" where
  "later f xs x y \<longleftrightarrow> f x < f y \<or> f x = f y \<and> before x y xs"

lemma later_asym: "distinct xs \<Longrightarrow> later f xs x y \<Longrightarrow> \<not> later f xs y x"
  by (auto simp: later_def dest: before_asym)

lemma sorted_wrt_insort:
  assumes "sorted_wrt R ys" and "\<forall>y\<in>set ys. f x \<le> f y \<longrightarrow> R x y" and "\<forall>y\<in>set ys. f y < f x \<longrightarrow> R y x" and "sorted (map f ys)"
  shows "sorted_wrt R (insort_key f x ys)"
  using assms by (induction ys) (auto simp: set_insort_key dest: order_trans)

lemma sorted_wrt_later: "distinct xs \<Longrightarrow> sorted_wrt (later f xs) (sort_key f xs)"
proof (induction xs)
  case (Cons x xs)
  have "sorted_wrt (later f (x # xs)) (sort_key f xs)"
    by (rule sorted_wrt_mono_rel [OF _ Cons.IH]) (use Cons.prems in \<open>auto simp: later_def\<close>)
  then have "sorted_wrt (later f (x # xs)) (insort_key f x (sort_key f xs))"
    by (rule sorted_wrt_insort) (auto simp: later_def)
  then show ?case by simp
qed simp

section \<open>The next largest resource\<close>

definition size_key :: "store \<Rightarrow> rid \<Rightarrow> int \<times> int" where
  "size_key rs r = (- uint (res_align (rs r)), - uint (res_size (rs r)))"

definition placement_order :: "store \<Rightarrow> rid list \<Rightarrow> rid list" where
  "placement_order rs xs = sort_key (size_key rs) (filter (\<lambda>r. res_flags (rs r) AND IORESOURCE_FIXED = 0) xs)"

definition eligible :: "store \<Rightarrow> rid list \<Rightarrow> rid option \<Rightarrow> rid \<Rightarrow> bool" where
  "eligible rs xs la r \<longleftrightarrow> res_flags (rs r) AND IORESOURCE_FIXED = 0 \<and>
     (case la of None \<Rightarrow> True | Some l \<Rightarrow> later (size_key rs) xs l r)"

definition least_of :: "store \<Rightarrow> rid list \<Rightarrow> rid option \<Rightarrow> rid set \<Rightarrow> rid option \<Rightarrow> bool" where
  "least_of rs xs la S res \<longleftrightarrow> (case res of
     None \<Rightarrow> \<forall>y\<in>S. \<not> eligible rs xs la y
   | Some m \<Rightarrow> m \<in> S \<and> eligible rs xs la m \<and> (\<forall>y\<in>S. eligible rs xs la y \<longrightarrow> y = m \<or> later (size_key rs) xs m y))"

lemma size_key_less:
  "size_key rs x < size_key rs y \<longleftrightarrow> res_align (rs y) < res_align (rs x) \<or>
     (res_align (rs y) = res_align (rs x) \<and> res_size (rs y) < res_size (rs x))"
  "size_key rs x = size_key rs y \<longleftrightarrow> res_align (rs y) = res_align (rs x) \<and> res_size (rs y) = res_size (rs x)"
  by (auto simp: size_key_def word_less_def less_prod_def word_uint_eq_iff)

lemma pick_largest_fold:
  fixes rs :: store and la :: "rid option"
  assumes "distinct (ps @ qs)"
  defines "s \<equiv> fold (pick_largest_resource rs) ps \<lparr>last_res = la, result_res = None, seen_last = False\<rparr>"
  shows "last_res s = la \<and> (seen_last s \<longleftrightarrow> (\<exists>l. la = Some l \<and> l \<in> set ps)) \<and> least_of rs (ps @ qs) la (set ps) (result_res s)"
  using assms(1) unfolding s_def
proof (induction ps arbitrary: qs rule: rev_induct)
  case Nil
  show ?case by (simp add: least_of_def)
next
  case (snoc x ps)
  define t where "t = fold (pick_largest_resource rs) ps \<lparr>last_res = la, result_res = None, seen_last = False\<rparr>"
  define xs where "xs = (ps @ [x]) @ qs"
  have IH: "last_res t = la" "seen_last t \<longleftrightarrow> (\<exists>l. la = Some l \<and> l \<in> set ps)" "least_of rs xs la (set ps) (result_res t)"
    using snoc.IH [of "x # qs"] snoc.prems by (simp_all add: t_def xs_def)
  have d: "distinct xs" "x \<notin> set ps" using snoc.prems by (auto simp: xs_def)
  have bef: "before l x xs \<longleftrightarrow> l \<in> set ps" if "l \<noteq> x" for l
    using d that by (auto simp: xs_def before_append dest: before_set)
  have self: "\<not> later f xs x x" for f :: "rid \<Rightarrow> int \<times> int" using later_asym [OF d(1)] by blast
  define st where "st = pick_largest_resource rs x t"
  consider (skip) "last_res st = la" "result_res st = result_res t" "\<not> eligible rs xs la x" "seen_last st \<longleftrightarrow> seen_last t \<or> la = Some x"
    | (take) "last_res st = la" "result_res st = Some x" "eligible rs xs la x" "seen_last st = seen_last t" "la \<noteq> Some x"
        "\<forall>m. result_res t = Some m \<longrightarrow> size_key rs x < size_key rs m"
    | (keep) m where "last_res st = la" "result_res st = Some m" "result_res t = Some m" "eligible rs xs la x" "seen_last st = seen_last t"
        "la \<noteq> Some x" "\<not> size_key rs x < size_key rs m"
  proof -
    show ?thesis
    proof (cases "la = Some x")
      case True
      then show ?thesis using skip self IH(1) by (auto simp: st_def pick_largest_resource_def eligible_def)
    next
      case False
      have el: "eligible rs xs la x \<longleftrightarrow> res_flags (rs x) AND IORESOURCE_FIXED = 0 \<and>
          \<not> (case la of None \<Rightarrow> False | Some la \<Rightarrow> size_key rs x < size_key rs la \<or> (size_key rs x = size_key rs la \<and> \<not> seen_last t))"
        using bef False IH(2) by (auto simp: eligible_def later_def split: option.split)
      have st: "st = (if \<not> eligible rs xs la x then t
          else if (case result_res t of None \<Rightarrow> True | Some re \<Rightarrow> size_key rs x < size_key rs re) then t\<lparr>result_res := Some x\<rparr> else t)"
        using False IH(1) unfolding el size_key_less st_def pick_largest_resource_def by (auto split: option.split)
      show ?thesis
      proof (cases "eligible rs xs la x")
        case False
        then show ?thesis using skip st IH(1) \<open>la \<noteq> Some x\<close> by simp
      next
        case True
        then show ?thesis using take keep st IH(1) \<open>la \<noteq> Some x\<close> by (cases "result_res t") (auto split: if_splits)
      qed
    qed
  qed
  then have "last_res st = la \<and> (seen_last st \<longleftrightarrow> (\<exists>l. la = Some l \<and> l \<in> set (ps @ [x]))) \<and> least_of rs xs la (set (ps @ [x])) (result_res st)"
  proof cases
    case skip
    then show ?thesis using IH(2,3) by (auto simp: least_of_def split: option.splits)
  next
    case take
    have "eligible rs xs la y \<longrightarrow> later (size_key rs) xs x y" if "y \<in> set ps" for y
      using IH(3) take(6) that by (auto simp: least_of_def later_def split: option.splits)
    then show ?thesis using take(1-5) IH(2) by (auto simp: least_of_def)
  next
    case keep
    have "m \<in> set ps" using IH(3) keep(3) by (simp add: least_of_def)
    then have "later (size_key rs) xs m x" using keep(7) bef d(2) by (fastforce simp: later_def)
    then show ?thesis using keep(1-6) IH(2,3) by (auto simp: least_of_def)
  qed
  then show ?case by (simp add: st_def t_def xs_def)
qed

lemma placement_order_sorted:
  assumes "distinct xs"
  shows "sorted_wrt (later (size_key rs) xs) (placement_order rs xs)"
proof -
  have "distinct (filter (\<lambda>r. res_flags (rs r) AND IORESOURCE_FIXED = 0) xs)" using assms by simp
  from sorted_wrt_later [OF this] show ?thesis
    unfolding placement_order_def
    by (rule sorted_wrt_mono_rel [rotated]) (auto simp: later_def dest: before_filter [OF assms])
qed

lemma placement_order_set: "set (placement_order rs xs) = {r \<in> set xs. res_flags (rs r) AND IORESOURCE_FIXED = 0}"
  by (simp add: placement_order_def)

lemma placement_order_distinct: "distinct xs \<Longrightarrow> distinct (placement_order rs xs)"
  by (simp add: placement_order_def)

lemma largest_resource_least:
  assumes "distinct (bus_resources rs msk ty bus)"
  shows "least_of rs (bus_resources rs msk ty bus) la (set (bus_resources rs msk ty bus)) (largest_resource rs bus la msk ty)"
  using pick_largest_fold [of "bus_resources rs msk ty bus" "[]" rs la] assms
  by (simp add: largest_resource_def search_bus_resources_def)

lemma least_of_unique:
  assumes "distinct xs" and "least_of rs xs la (set xs) res" and "least_of rs xs la (set xs) res'"
  shows "res = res'"
  using assms(2,3) later_asym [OF assms(1), of "size_key rs"]
  by (cases res; cases res') (auto simp: least_of_def)

lemma largest_resource_next:
  assumes "distinct (bus_resources rs msk ty bus)" and "placement_order rs (bus_resources rs msk ty bus) = as @ bs"
  shows "largest_resource rs bus (if as = [] then None else Some (last as)) msk ty = (case bs of [] \<Rightarrow> None | r # _ \<Rightarrow> Some r)"
proof -
  define xs la where "xs = bus_resources rs msk ty bus" and "la = (if as = [] then None else Some (last as))"
  have d: "distinct xs" using assms(1) by (simp add: xs_def)
  have srt: "sorted_wrt (later (size_key rs) xs) (as @ bs)" using placement_order_sorted [OF d, of rs] assms(2) by (simp add: xs_def)
  have set: "y \<in> set as \<or> y \<in> set bs \<longleftrightarrow> y \<in> set xs \<and> res_flags (rs y) AND IORESOURCE_FIXED = 0" for y
    using placement_order_set [of rs xs] assms(2) by (auto simp: xs_def)
  have el: "eligible rs xs la y \<longleftrightarrow> y \<in> set bs" if y: "y \<in> set xs" for y
  proof (cases "as = []")
    case True
    then show ?thesis using set y by (auto simp: eligible_def la_def)
  next
    case False
    then have la: "last as \<in> set as" "la = Some (last as)" by (simp_all add: la_def)
    have as: "butlast as @ [last as] = as" using False by simp
    have "sorted_wrt (later (size_key rs) xs) (butlast as @ [last as])" using srt as by (simp add: sorted_wrt_append)
    then have last: "later (size_key rs) xs z (last as)" if "z \<in> set (butlast as)" for z using that by (simp add: sorted_wrt_append)
    have "\<not> later (size_key rs) xs (last as) y" if "y \<in> set as"
    proof (cases "y = last as")
      case True
      then show ?thesis using later_asym [OF d] by blast
    next
      case False
      then have "y \<in> set (butlast as)" using that arg_cong [OF as, of set] by auto
      then have "later (size_key rs) xs y (last as)" by (rule last)
      then show ?thesis using later_asym [OF d] by blast
    qed
    moreover have "later (size_key rs) xs (last as) y" if "y \<in> set bs" using srt la that by (simp add: sorted_wrt_append)
    ultimately show ?thesis using set y by (auto simp: eligible_def la(2))
  qed
  have "least_of rs xs la (set xs) (case bs of [] \<Rightarrow> None | r # _ \<Rightarrow> Some r)"
    using el set srt by (cases bs) (auto simp: least_of_def sorted_wrt_append)
  then show ?thesis
    using least_of_unique [OF d largest_resource_least [OF assms(1), folded xs_def]] by (simp add: la_def)
qed

end
