(* ===== verification/Resource_Plan.thy ===== *)
theory Resource_Plan
  imports Resource_Order
begin

text \<open>
  The two passes of the resource allocator as structural recursions. A plan of a bus names its
  bridge resource, the resources its walk visits and the plans of the child bridges; both
  passes follow it, placing the resources of each bus in the order of a stable sort.
\<close>

section \<open>What the passes leave alone\<close>

definition KEPT_FLAGS :: u32 where
  "KEPT_FLAGS = NOT (IORESOURCE_ASSIGNED OR IORESOURCE_STORED)"

definition same_shape :: "store \<Rightarrow> store \<Rightarrow> bool" where
  "same_shape rs rs' \<longleftrightarrow> (\<forall>r. res_flags (rs' r) AND KEPT_FLAGS = res_flags (rs r) AND KEPT_FLAGS \<and>
     res_index (rs' r) = res_index (rs r))"

definition same_sizes :: "store \<Rightarrow> store \<Rightarrow> rid \<Rightarrow> bool" where
  "same_sizes rs rs' r \<longleftrightarrow> res_align (rs' r) = res_align (rs r) \<and> res_size (rs' r) = res_size (rs r)"

definition kept_mask :: "u32 \<Rightarrow> bool" where
  "kept_mask m \<longleftrightarrow> m AND KEPT_FLAGS = m"

lemma kept_masks [simp]: "kept_mask IORESOURCE_FIXED" "kept_mask IORESOURCE_SUBTRACTIVE" "kept_mask IORESOURCE_BRIDGE"
  "kept_mask IORESOURCE_PREFETCH" "kept_mask IORESOURCE_IO" "kept_mask IORESOURCE_TYPE_MASK" "kept_mask IORESOURCE_MEM"
  by (simp_all add: kept_mask_def KEPT_FLAGS_def IORESOURCE_FIXED_def IORESOURCE_SUBTRACTIVE_def IORESOURCE_BRIDGE_def
      IORESOURCE_PREFETCH_def IORESOURCE_IO_def IORESOURCE_TYPE_MASK_def IORESOURCE_MEM_def IORESOURCE_ASSIGNED_def IORESOURCE_STORED_def)

lemma kept_mask_or [intro]: "kept_mask a \<Longrightarrow> kept_mask b \<Longrightarrow> kept_mask (a OR b)"
  by (simp add: kept_mask_def bit.conj_disj_distrib2)

lemma same_shape_refl [simp]: "same_shape rs rs"
  by (simp add: same_shape_def)

lemma same_shape_trans: "same_shape a b \<Longrightarrow> same_shape b c \<Longrightarrow> same_shape a c"
  by (simp add: same_shape_def)

lemma same_shape_flags: "same_shape rs rs' \<Longrightarrow> kept_mask m \<Longrightarrow> res_flags (rs' r) AND m = res_flags (rs r) AND m"
proof -
  assume *: "same_shape rs rs'" "kept_mask m"
  have "x AND m = (x AND KEPT_FLAGS) AND m" for x
    using *(2) by (metis kept_mask_def and.assoc and.commute)
  then show ?thesis using *(1) by (metis same_shape_def)
qed

lemma same_shape_index: "same_shape rs rs' \<Longrightarrow> res_index (rs' r) = res_index (rs r)"
  by (simp add: same_shape_def)

lemma device_resources_shape:
  assumes "same_shape rs rs'" and "kept_mask msk" and "\<And>l. l \<in> set links \<Longrightarrow> f l = g l"
  shows "device_resources rs' msk ty links f xs = device_resources rs msk ty links g xs"
  using assms by (induction xs)
    (auto simp: same_shape_flags [OF assms(1)] same_shape_index [OF assms(1)] find_link_mem split: option.split)

lemma bus_resources_shape:
  assumes "same_shape rs rs'" and "kept_mask msk"
  shows "bus_resources rs' msk ty bus = bus_resources rs msk ty bus"
proof (induction bus rule: measure_induct_rule [of size])
  case (less bus)
  show ?case
    unfolding bus_resources.simps [of rs' msk ty bus] bus_resources.simps [of rs msk ty bus]
    by (intro arg_cong [of _ _ concat] map_cong refl if_cong)
      (auto intro!: device_resources_shape [OF assms] less intro: less_trans [OF size_link size_child])
qed

lemma sort_key_cong_on: "(\<And>x. x \<in> set xs \<Longrightarrow> f x = g x) \<Longrightarrow> sort_key f xs = sort_key g xs"
proof (induction xs)
  case (Cons x xs)
  have "insort_key f x ys = insort_key g x ys" if "set ys \<subseteq> set xs" for ys
    using that Cons.prems by (induction ys) auto
  then show ?case using Cons by simp
qed simp

lemma placement_order_shape:
  assumes "same_shape rs rs'" and "\<forall>r\<in>set xs. same_sizes rs rs' r"
  shows "placement_order rs' xs = placement_order rs xs"
  unfolding placement_order_def same_shape_flags [OF assms(1) kept_masks(1)]
  by (rule sort_key_cong_on) (use assms(2) in \<open>auto simp: size_key_def same_sizes_def\<close>)

section \<open>The loops as folds\<close>

text \<open>
  What the two loops of the allocator share: they take the largest resource that is left and
  treat it with a step that changes neither the shape of the tree nor the sizes of any resource
  but the bridge's.
\<close>

locale largest_first =
  fixes loop :: "bus \<Rightarrow> rid \<Rightarrow> u32 \<Rightarrow> u32 \<Rightarrow> rid option \<Rightarrow> store \<times> resource_t \<Rightarrow> (store \<times> resource_t) option"
    and step :: "rid \<Rightarrow> rid \<Rightarrow> store \<times> resource_t \<Rightarrow> store \<times> resource_t"
  assumes loop_unfold: "loop bus br msk ty la st =
      (case largest_resource (fst st) bus la msk ty of
         None \<Rightarrow> Some st | Some r \<Rightarrow> loop bus br msk ty (Some r) (step br r st))"
    and step_shape: "same_shape (fst st) (fst (step br r st))"
    and step_sizes: "r \<noteq> br \<Longrightarrow> x \<noteq> br \<Longrightarrow> same_sizes (fst st) (fst (step br r st)) x"
begin

lemma loop_suffix:
  assumes "distinct (bus_resources rs msk ty bus)" and "br \<notin> set (bus_resources rs msk ty bus)" and "kept_mask msk"
    and "placement_order rs (bus_resources rs msk ty bus) = as @ bs"
    and "same_shape rs (fst st)" and "\<forall>x\<in>set (bus_resources rs msk ty bus). same_sizes rs (fst st) x"
  shows "loop bus br msk ty (if as = [] then None else Some (last as)) st = Some (fold (step br) bs st)"
  using assms(4-)
proof (induction bs arbitrary: as st)
  case (Cons r bs)
  note xs = bus_resources_shape [OF Cons.prems(2) assms(3), of ty bus]
  have "placement_order (fst st) (bus_resources (fst st) msk ty bus) = as @ r # bs"
    using placement_order_shape [OF Cons.prems(2,3)] Cons.prems(1) xs by simp
  then have nx: "largest_resource (fst st) bus (if as = [] then None else Some (last as)) msk ty = Some r"
    using largest_resource_next [of "fst st" msk ty bus as "r # bs"] assms(1) xs by simp
  have "r \<in> set (placement_order rs (bus_resources rs msk ty bus))" using Cons.prems(1) by simp
  then have "r \<noteq> br" using assms(2) by (auto simp: placement_order_set)
  then have "same_sizes rs (fst (step br r st)) x" if "x \<in> set (bus_resources rs msk ty bus)" for x
    using step_sizes [of r br x st] Cons.prems(3) assms(2) that by (auto simp: same_sizes_def)
  moreover have "same_shape rs (fst (step br r st))" using same_shape_trans [OF Cons.prems(2) step_shape] .
  ultimately have "loop bus br msk ty (Some r) (step br r st) = Some (fold (step br) bs (step br r st))"
    using Cons.IH [of "as @ [r]" "step br r st"] Cons.prems(1) by simp
  then show ?case using nx by (simp add: loop_unfold [of bus br msk ty _ st])
next
  case Nil
  note xs = bus_resources_shape [OF Nil.prems(2) assms(3), of ty bus]
  have "placement_order (fst st) (bus_resources (fst st) msk ty bus) = as @ []"
    using placement_order_shape [OF Nil.prems(2,3)] Nil.prems(1) xs by simp
  then have "largest_resource (fst st) bus (if as = [] then None else Some (last as)) msk ty = None"
    using largest_resource_next [of "fst st" msk ty bus as "[]"] assms(1) xs by simp
  then show ?case by (simp add: loop_unfold [of bus br msk ty _ st])
qed

lemma loop_fold:
  assumes "distinct (bus_resources rs msk ty bus)" and "br \<notin> set (bus_resources rs msk ty bus)" and "kept_mask msk"
  shows "loop bus br msk ty None (rs, base) = Some (fold (step br) (placement_order rs (bus_resources rs msk ty bus)) (rs, base))"
  using loop_suffix [OF assms, of "[]" "placement_order rs (bus_resources rs msk ty bus)" "(rs, base)"]
  by (simp add: same_sizes_def)

end

lemma assigned_flags: "(f OR IORESOURCE_ASSIGNED) AND KEPT_FLAGS = f AND KEPT_FLAGS"
  "((f OR IORESOURCE_ASSIGNED) AND NOT IORESOURCE_STORED) AND KEPT_FLAGS = f AND KEPT_FLAGS"
  unfolding KEPT_FLAGS_def by (rule bit_word_eqI; auto simp: bit_simps)+

interpretation compute: largest_first compute_loop compute_step
proof
  show "compute_loop bus br msk ty la st = (case largest_resource (fst st) bus la msk ty of
      None \<Rightarrow> Some st | Some r \<Rightarrow> compute_loop bus br msk ty (Some r) (compute_step br r st))" for bus br msk ty la st
    by (rule compute_loop.simps)
  show "same_shape (fst st) (fst (compute_step br r st))" for st br r
    by (cases st) (simp add: compute_step_def same_shape_def Let_def)
  show "same_sizes (fst st) (fst (compute_step br r st)) x" if "r \<noteq> br" "x \<noteq> br" for st br r x
    using that by (cases st) (simp add: compute_step_def same_sizes_def Let_def)
qed

interpretation allocate: largest_first allocate_loop allocate_step
proof
  show "allocate_loop bus br msk ty la st = (case largest_resource (fst st) bus la msk ty of
      None \<Rightarrow> Some st | Some r \<Rightarrow> allocate_loop bus br msk ty (Some r) (allocate_step br r st))" for bus br msk ty la st
    by (rule allocate_loop.simps)
  show "same_shape (fst st) (fst (allocate_step br r st))" for st br r
    by (cases st) (simp add: allocate_step_def same_shape_def Let_def assigned_flags)
  show "same_sizes (fst st) (fst (allocate_step br r st)) x" if "r \<noteq> br" "x \<noteq> br" for st br r x
    using that by (cases st) (simp add: allocate_step_def same_sizes_def Let_def)
qed

section \<open>Plans\<close>

datatype plan = Plan (p_bridge: rid) (p_resources: "rid list") (p_children: "plan list")

function plan_of :: "store \<Rightarrow> bus \<Rightarrow> rid \<Rightarrow> u32 \<Rightarrow> u32 \<Rightarrow> plan option" where
  "plan_of rs bus br msk ty =
     map_option (Plan br (bus_resources rs msk ty bus))
       (foldM (\<lambda>(cb, links) ps.
          if \<not> is_child_bridge rs msk ty cb then Some ps
          else case find_link (IOINDEX_LINK (res_index (rs cb))) links of
                 None \<Rightarrow> None
               | Some link \<Rightarrow> map_option (\<lambda>p. ps @ [p]) (plan_of rs link cb (msk OR IORESOURCE_PREFETCH)
                                (ty OR (res_flags (rs cb) AND IORESOURCE_PREFETCH))))
         (child_bridges bus) [])"
  by pat_completeness auto
termination
  by (relation "measure (\<lambda>(rs, bus, br, msk, ty). size bus)") (auto dest: child_bridges_size find_link_mem)

declare plan_of.simps [simp del]

text \<open>No resource occurs twice on a bus, and no bus contains the resource of its own bridge.\<close>

fun plan_ok :: "plan \<Rightarrow> bool" where
  "plan_ok (Plan br xs ps) \<longleftrightarrow> distinct xs \<and> br \<notin> set xs \<and> (\<forall>p\<in>set ps. plan_ok p)"

fun run_compute :: "plan \<Rightarrow> store \<Rightarrow> store" where
  "run_compute (Plan br xs ps) rs =
     (let base = round_pow (res_base (rs br)) (res_align (rs br));
          rs = fold run_compute ps rs;
          (rs, base) = fold (compute_step br) (placement_order rs xs) (rs, base)
      in rs(br := (rs br)\<lparr>res_size := round_pow base (res_gran (rs br)) - round_pow (res_base (rs br)) (res_align (rs br))\<rparr>))"

fun run_allocate :: "plan \<Rightarrow> store \<Rightarrow> store" where
  "run_allocate (Plan br xs ps) rs =
     (let (rs, base) = fold (allocate_step br) (placement_order rs xs) (rs, res_base (rs br))
      in fold run_allocate ps (rs(br := (rs br)\<lparr>res_flags := res_flags (rs br) OR IORESOURCE_ASSIGNED\<rparr>)))"

lemma compute_fold_shape: "same_shape (fst st) (fst (fold (compute_step br) rs st))"
proof (induction rs arbitrary: st)
  case (Cons r rs)
  show ?case using same_shape_trans [OF compute.step_shape Cons.IH] by simp
qed simp

lemma allocate_fold_shape: "same_shape (fst st) (fst (fold (allocate_step br) rs st))"
proof (induction rs arbitrary: st)
  case (Cons r rs)
  show ?case using same_shape_trans [OF allocate.step_shape Cons.IH] by simp
qed simp

lemma fold_shape:
  assumes "\<And>p rs. p \<in> set ps \<Longrightarrow> same_shape rs (f p rs)"
  shows "same_shape rs (fold f ps rs)"
  using assms by (induction ps arbitrary: rs) (auto intro: same_shape_trans)

lemma same_shape_upd: "same_shape rs rs' \<Longrightarrow> res_flags r = res_flags (rs' b) \<Longrightarrow> res_index r = res_index (rs' b) \<Longrightarrow> same_shape rs (rs'(b := r))"
  by (simp add: same_shape_def)

lemma run_compute_shape: "same_shape rs (run_compute p rs)"
proof (induction p arbitrary: rs)
  case (Plan br xs ps)
  define rs1 st where "rs1 = fold run_compute ps rs"
    and "st = fold (compute_step br) (placement_order rs1 xs) (rs1, round_pow (res_base (rs br)) (res_align (rs br)))"
  have "same_shape rs rs1" unfolding rs1_def by (rule fold_shape) (rule Plan)
  moreover have "same_shape rs1 (fst st)" unfolding st_def by (rule compute_fold_shape [of "(rs1, _)", simplified])
  ultimately have "same_shape rs (fst st)" by (rule same_shape_trans)
  then show ?case
    by (simp add: Let_def rs1_def [symmetric] st_def [symmetric] case_prod_beta same_shape_def)
qed

text \<open>The passes follow the plan of the tree.\<close>

lemma plan_children:
  assumes "foldM (\<lambda>(cb, links) ps. if \<not> is_child_bridge rs msk ty cb then Some ps
      else case find_link (IOINDEX_LINK (res_index (rs cb))) links of None \<Rightarrow> None
        | Some link \<Rightarrow> map_option (\<lambda>p. ps @ [p]) (plan_of rs link cb msk' (ty' cb))) xs ps = Some qs"
    and "same_shape rs s" and "kept_mask msk"
    and "\<And>cb links l p s. (cb, links) \<in> set xs \<Longrightarrow> l \<in> set links \<Longrightarrow> plan_of rs l cb msk' (ty' cb) = Some p \<Longrightarrow> p \<in> set qs \<Longrightarrow>
        same_shape rs s \<Longrightarrow> pass l cb s = Some (run p s) \<and> same_shape rs (run p s)"
  shows "\<exists>rest. qs = ps @ rest \<and> foldM (\<lambda>(cb, links) s. if \<not> is_child_bridge s msk ty cb then Some s
      else case find_link (IOINDEX_LINK (res_index (s cb))) links of None \<Rightarrow> None | Some link \<Rightarrow> pass link cb s) xs s = Some (fold run rest s)"
  using assms
proof (induction xs arbitrary: ps s)
  case (Cons x xs)
  obtain cb links where x: "x = (cb, links)" by force
  have child: "is_child_bridge s msk ty cb = is_child_bridge rs msk ty cb"
    by (simp add: is_child_bridge_def same_shape_flags [OF Cons.prems(2)] Cons.prems(3))
  show ?case
  proof (cases "is_child_bridge rs msk ty cb")
    case False
    have "foldM (\<lambda>(cb, links) ps. if \<not> is_child_bridge rs msk ty cb then Some ps
        else case find_link (IOINDEX_LINK (res_index (rs cb))) links of None \<Rightarrow> None
        | Some link \<Rightarrow> map_option (\<lambda>p. ps @ [p]) (plan_of rs link cb msk' (ty' cb))) xs ps = Some qs"
      using Cons.prems(1) False by (simp add: x)
    from Cons.IH [OF this Cons.prems(2,3) Cons.prems(4) [OF list.set_intros(2)]] show ?thesis using False child by (simp add: x)
  next
    case True
    then obtain link p where l: "find_link (IOINDEX_LINK (res_index (rs cb))) links = Some link"
        "plan_of rs link cb msk' (ty' cb) = Some p"
        "foldM (\<lambda>(cb, links) ps. if \<not> is_child_bridge rs msk ty cb then Some ps
          else case find_link (IOINDEX_LINK (res_index (rs cb))) links of None \<Rightarrow> None
          | Some link \<Rightarrow> map_option (\<lambda>p. ps @ [p]) (plan_of rs link cb msk' (ty' cb))) xs (ps @ [p]) = Some qs"
      using Cons.prems(1) by (auto simp: x split: option.splits)
    have mono: "set ps' \<subseteq> set qs'" if "foldM (\<lambda>(cb, links) ps. if \<not> is_child_bridge rs msk ty cb then Some ps
          else case find_link (IOINDEX_LINK (res_index (rs cb))) links of None \<Rightarrow> None
          | Some link \<Rightarrow> map_option (\<lambda>p. ps @ [p]) (plan_of rs link cb msk' (ty' cb))) ys ps' = Some qs'" for ys ps' qs'
      using that by (induction ys arbitrary: ps') (fastforce split: if_splits option.splits)+
    have step: "pass link cb s = Some (run p s) \<and> same_shape rs (run p s)"
      using Cons.prems(4) [OF _ find_link_mem [OF l(1)] l(2) _ Cons.prems(2)] mono [OF l(3)] by (simp add: x)
    then obtain rest where "qs = (ps @ [p]) @ rest" "foldM (\<lambda>(cb, links) s. if \<not> is_child_bridge s msk ty cb then Some s
        else case find_link (IOINDEX_LINK (res_index (s cb))) links of None \<Rightarrow> None | Some link \<Rightarrow> pass link cb s) xs (run p s)
        = Some (fold run rest (run p s))"
      using Cons.IH [OF l(3) conjunct2 [OF step] Cons.prems(3)] Cons.prems(4) by (fastforce simp: x)
    then show ?thesis using step child True l(1) by (intro exI [of _ "p # rest"]) (simp add: x same_shape_index [OF Cons.prems(2)])
  qed
qed simp

lemma run_allocate_shape: "same_shape rs (run_allocate p rs)"
proof (induction p arbitrary: rs)
  case (Plan br xs ps)
  define st where "st = fold (allocate_step br) (placement_order rs xs) (rs, res_base (rs br))"
  define rs1 where "rs1 = (fst st)(br := (fst st br)\<lparr>res_flags := res_flags (fst st br) OR IORESOURCE_ASSIGNED\<rparr>)"
  have "same_shape rs (fst st)" unfolding st_def by (rule allocate_fold_shape [of "(rs, _)", simplified])
  then have "same_shape rs rs1" by (simp add: rs1_def same_shape_def assigned_flags)
  moreover have "same_shape rs1 (fold run_allocate ps rs1)" by (rule fold_shape) (rule Plan)
  ultimately have "same_shape rs (fold run_allocate ps rs1)" by (rule same_shape_trans)
  then show ?case by (simp add: Let_def st_def [symmetric] rs1_def case_prod_beta)
qed

lemma child_flags: "same_shape rs s \<Longrightarrow> res_flags (s cb) AND IORESOURCE_PREFETCH = res_flags (rs cb) AND IORESOURCE_PREFETCH"
  by (simp add: same_shape_flags)

lemma plan_of_bridge: "plan_of rs bus br msk ty = Some p \<Longrightarrow> p_bridge p = br \<and> p_resources p = bus_resources rs msk ty bus"
  by (auto simp: plan_of.simps [of rs bus])

lemma compute_follows_plan:
  assumes "plan_of rs bus br msk ty = Some p" and "plan_ok p" and "kept_mask msk" and "same_shape rs s"
  shows "compute_resources bus br msk ty s = Some (run_compute p s)"
  using assms
proof (induction bus arbitrary: br msk ty p s rule: measure_induct_rule [of size])
  case (less bus)
  define msk' ty' where "msk' = msk OR IORESOURCE_PREFETCH" and "ty' = (\<lambda>cb. ty OR (res_flags (rs cb) AND IORESOURCE_PREFETCH))"
  obtain ps where p: "p = Plan br (bus_resources rs msk ty bus) ps"
    and ps: "foldM (\<lambda>(cb, links) ps. if \<not> is_child_bridge rs msk ty cb then Some ps
          else case find_link (IOINDEX_LINK (res_index (rs cb))) links of None \<Rightarrow> None
          | Some link \<Rightarrow> map_option (\<lambda>p. ps @ [p]) (plan_of rs link cb msk' (ty' cb))) (child_bridges bus) [] = Some ps"
    using less.prems(1) unfolding msk'_def ty'_def by (auto simp: plan_of.simps [of rs bus])
  have ok: "distinct (bus_resources rs msk ty bus)" "br \<notin> set (bus_resources rs msk ty bus)" "\<forall>q\<in>set ps. plan_ok q"
    using less.prems(2) by (simp_all add: p)
  have sub: "foldM (\<lambda>(cb, links) s. if \<not> is_child_bridge s msk ty cb then Some s
        else case find_link (IOINDEX_LINK (res_index (s cb))) links of None \<Rightarrow> None
        | Some link \<Rightarrow> compute_resources link cb msk' (ty OR (res_flags (s cb) AND IORESOURCE_PREFETCH)) s) (child_bridges bus) s
      = Some (fold run_compute ps s)"
  proof -
    have "\<exists>rest. ps = [] @ rest \<and> foldM (\<lambda>(cb, links) s. if \<not> is_child_bridge s msk ty cb then Some s
        else case find_link (IOINDEX_LINK (res_index (s cb))) links of None \<Rightarrow> None
        | Some link \<Rightarrow> compute_resources link cb msk' (ty OR (res_flags (s cb) AND IORESOURCE_PREFETCH)) s) (child_bridges bus) s
      = Some (fold run_compute rest s)"
    proof (rule plan_children [OF ps less.prems(4,3)])
      fix cb links l q t
      assume a: "(cb, links) \<in> set (child_bridges bus)" "l \<in> set links" "plan_of rs l cb msk' (ty' cb) = Some q" "q \<in> set ps" "same_shape rs t"
      have "compute_resources l cb msk' (ty' cb) t = Some (run_compute q t)"
        using less.IH [OF child_bridges_size [OF a(1,2)] a(3) _ _ a(5)] ok(3) a(4) kept_mask_or [OF less.prems(3) kept_masks(4)] by (auto simp: msk'_def)
      then show "compute_resources l cb msk' (ty OR (res_flags (t cb) AND IORESOURCE_PREFETCH)) t = Some (run_compute q t) \<and> same_shape rs (run_compute q t)"
        using same_shape_trans [OF a(5) run_compute_shape] child_flags [OF a(5)] by (simp add: ty'_def)
    qed
    then show ?thesis by simp
  qed
  have shape: "same_shape rs (fold run_compute ps s)"
    using same_shape_trans [OF less.prems(4) fold_shape [of ps run_compute s]] run_compute_shape by blast
  note xs = bus_resources_shape [OF shape less.prems(3), of ty bus]
  show ?case
    using compute.loop_fold [of "fold run_compute ps s" msk ty bus br] ok(1,2) less.prems(3)
    by (simp add: compute_resources.simps [of bus] sub [unfolded msk'_def] p xs Let_def case_prod_beta fun_upd_def)
qed

lemma allocate_follows_plan:
  assumes "plan_of rs bus br msk ty = Some p" and "plan_ok p" and "kept_mask msk" and "same_shape rs s"
  shows "allocate_resources bus br msk ty s = Some (run_allocate p s)"
  using assms
proof (induction bus arbitrary: br msk ty p s rule: measure_induct_rule [of size])
  case (less bus)
  define msk' ty' where "msk' = msk OR IORESOURCE_PREFETCH" and "ty' = (\<lambda>cb. ty OR (res_flags (rs cb) AND IORESOURCE_PREFETCH))"
  obtain ps where p: "p = Plan br (bus_resources rs msk ty bus) ps"
    and ps: "foldM (\<lambda>(cb, links) ps. if \<not> is_child_bridge rs msk ty cb then Some ps
          else case find_link (IOINDEX_LINK (res_index (rs cb))) links of None \<Rightarrow> None
          | Some link \<Rightarrow> map_option (\<lambda>p. ps @ [p]) (plan_of rs link cb msk' (ty' cb))) (child_bridges bus) [] = Some ps"
    using less.prems(1) unfolding msk'_def ty'_def by (auto simp: plan_of.simps [of rs bus])
  have ok: "distinct (bus_resources rs msk ty bus)" "br \<notin> set (bus_resources rs msk ty bus)" "\<forall>q\<in>set ps. plan_ok q"
    using less.prems(2) by (simp_all add: p)
  note xs = bus_resources_shape [OF less.prems(4,3), of ty bus]
  define st where "st = fold (allocate_step br) (placement_order s (bus_resources rs msk ty bus)) (s, res_base (s br))"
  define s1 where "s1 = (fst st)(br := (fst st br)\<lparr>res_flags := res_flags (fst st br) OR IORESOURCE_ASSIGNED\<rparr>)"
  have loop: "allocate_loop bus br msk ty None (s, res_base (s br)) = Some st"
    using allocate.loop_fold [of s msk ty bus br] ok(1,2) less.prems(3) by (simp add: xs st_def)
  have "same_shape rs (fst st)"
    unfolding st_def using same_shape_trans [OF less.prems(4) allocate_fold_shape [of "(s, _)", simplified]] .
  then have s1: "same_shape rs s1" by (simp add: s1_def same_shape_def assigned_flags)
  have "\<exists>rest. ps = [] @ rest \<and> foldM (\<lambda>(cb, links) s. if \<not> is_child_bridge s msk ty cb then Some s
      else case find_link (IOINDEX_LINK (res_index (s cb))) links of None \<Rightarrow> None
      | Some link \<Rightarrow> allocate_resources link cb msk' (ty OR (res_flags (s cb) AND IORESOURCE_PREFETCH)) s) (child_bridges bus) s1
    = Some (fold run_allocate rest s1)"
  proof (rule plan_children [OF ps s1 less.prems(3)])
    fix cb links l q t
    assume a: "(cb, links) \<in> set (child_bridges bus)" "l \<in> set links" "plan_of rs l cb msk' (ty' cb) = Some q" "q \<in> set ps" "same_shape rs t"
    have "allocate_resources l cb msk' (ty' cb) t = Some (run_allocate q t)"
      using less.IH [OF child_bridges_size [OF a(1,2)] a(3) _ _ a(5)] ok(3) a(4) kept_mask_or [OF less.prems(3) kept_masks(4)] by (auto simp: msk'_def)
    then show "allocate_resources l cb msk' (ty OR (res_flags (t cb) AND IORESOURCE_PREFETCH)) t = Some (run_allocate q t) \<and> same_shape rs (run_allocate q t)"
      using same_shape_trans [OF a(5) run_allocate_shape] child_flags [OF a(5)] by (simp add: ty'_def)
  qed
  then show ?case
    unfolding msk'_def s1_def
    by (simp add: allocate_resources.simps [of bus] loop p Let_def case_prod_beta st_def [symmetric] fun_upd_def)
qed

end
