(* ===== verification/Resource_Placement.thy ===== *)
theory Resource_Placement
  imports Resource_Plan
begin

text \<open>
  Where the allocator puts things. The first pass lays the resources of each bus out from
  zero and sizes its bridge; the second pass repeats the layout from the bridge's final base.
  Layouts are computed on natural numbers; a bound on the sizes of all resources keeps the
  64-bit sums from wrapping.
\<close>

section \<open>Layouts on natural numbers\<close>

definition nround :: "nat \<Rightarrow> nat \<Rightarrow> nat" where
  "nround pos a = (pos + (2 ^ a - 1)) div 2 ^ a * 2 ^ a"

definition nskip :: "bool \<Rightarrow> nat \<Rightarrow> nat" where
  "nskip io pos = (if io \<and> 256 \<le> pos mod 1024 then (pos div 1024 + 1) * 1024 else pos)"

abbreviation is_io :: "resource \<Rightarrow> bool" where
  "is_io r \<equiv> res_flags r AND IORESOURCE_IO \<noteq> 0"

definition start :: "resource \<Rightarrow> nat \<Rightarrow> nat" where
  "start r pos = nround (nskip (is_io r) pos) (unat (res_align r))"

definition nstep :: "store \<Rightarrow> rid \<Rightarrow> nat \<Rightarrow> nat" where
  "nstep rs r pos = (if res_size (rs r) = 0 then pos else start (rs r) pos + unat (res_size (rs r)))"

lemma nround_ge: "pos \<le> nround pos a"
  unfolding nround_def by (rule align_up_ge_nat)

lemma nround_le: "nround pos a \<le> pos + (2 ^ a - 1)"
  unfolding nround_def by (rule align_up_lt_nat)

lemma nround_dvd: "2 ^ a dvd nround pos a"
  by (simp add: nround_def)

lemma nround_shift: "2 ^ a dvd b \<Longrightarrow> nround (b + pos) a = b + nround pos a"
  by (auto simp: nround_def add.assoc elim!: dvdE) (simp add: algebra_simps)

lemma nskip_bounds: "pos \<le> nskip io pos" "nskip io pos \<le> pos + 1024"
proof -
  define q m where "q = pos div 1024" and "m = pos mod 1024"
  have "q * 1024 + m = pos" "m < 1024" by (simp_all add: q_def m_def)
  then have "pos \<le> (q + 1) * 1024 \<and> (q + 1) * 1024 \<le> pos + 1024" by simp
  then show "pos \<le> nskip io pos" "nskip io pos \<le> pos + 1024" by (simp_all add: nskip_def q_def)
qed

lemma nskip_lt: "nskip io pos \<le> pos + 768"
proof -
  have "pos div 1024 * 1024 + 1024 \<le> pos + 768" if "256 \<le> pos mod 1024"
    using that div_mult_mod_eq [of pos 1024] by linarith
  then show ?thesis by (simp add: nskip_def)
qed

lemma dvd_exp_less:
  assumes "2 ^ a dvd x" and "x < 2 ^ n" and "a \<le> n"
  shows "x + 2 ^ a \<le> (2 ^ n :: nat)"
proof -
  obtain k where k: "x = 2 ^ a * k" using assms(1) by blast
  have n: "(2::nat) ^ n = 2 ^ a * 2 ^ (n - a)" using assms(3) by (simp flip: power_add)
  then have "k + 1 \<le> 2 ^ (n - a)" using assms(2) k by simp
  then have "2 ^ a * (k + 1) \<le> 2 ^ a * 2 ^ (n - a)" by (rule mult_le_mono2)
  then show ?thesis using n k by simp
qed

lemma nskip_shift: "io \<longrightarrow> 1024 dvd b \<Longrightarrow> nskip io (b + pos) = b + nskip io pos"
  by (auto simp: nskip_def elim!: dvdE)

lemma start_bounds: "pos \<le> start r pos" "start r pos \<le> pos + 1024 + (2 ^ unat (res_align r) - 1)"
  using nround_ge [of "nskip (is_io r) pos" "unat (res_align r)"] nround_le [of "nskip (is_io r) pos" "unat (res_align r)"]
    nskip_bounds [where pos = pos and io = "is_io r"] by (simp_all add: start_def)

lemma start_dvd: "2 ^ unat (res_align r) dvd start r pos"
  by (simp add: start_def nround_dvd)

lemma start_shift: "2 ^ unat (res_align r) dvd b \<Longrightarrow> is_io r \<longrightarrow> 1024 dvd b \<Longrightarrow> start r (b + pos) = b + start r pos"
  by (simp add: start_def nskip_shift nround_shift)

lemma nstep_ge: "pos \<le> nstep rs r pos"
  using start_bounds(1) [of pos "rs r"] by (simp add: nstep_def)

lemma nstep_fold_ge: "pos \<le> fold (nstep rs) ys pos"
  by (induction ys arbitrary: pos) (auto intro: order_trans [OF nstep_ge])

lemma unat_round_pow:
  assumes "unat pow < 64" and "unat v + 2 ^ unat pow \<le> 2 ^ 64"
  shows "unat (round_pow v pow) = nround (unat v) (unat pow)"
proof -
  have "round_pow v pow = align_up v (2 ^ unat pow)"
    by (simp add: round_pow_def align_up_def push_bit_eq_mult Let_def)
  moreover have "unat v + (2 ^ unat pow - 1) < 2 ^ LENGTH(64)" using assms(2) by (simp add: less_eq_Suc_le)
  ultimately show ?thesis using unat_align_up [of "unat pow" v] assms(1) by (simp add: nround_def)
qed

lemma and_0x300: "(v AND 0x300 \<noteq> 0) = (256 \<le> unat v mod 1024)" for v :: resource_t
proof -
  have "v AND 0x300 = push_bit 8 (take_bit 2 (drop_bit 8 v))"
  proof (rule bit_word_eqI)
    fix n assume "n < LENGTH(64)"
    have *: "(0x300 :: 64 word) = push_bit 8 (mask 2)" by (simp add: mask_eq_exp_minus_1)
    show "bit (v AND 0x300) n = bit (push_bit 8 (take_bit 2 (drop_bit 8 v))) n" unfolding * by (auto simp: bit_simps)
  qed
  moreover have "drop_bit 8 (push_bit 8 (take_bit 2 (drop_bit 8 v))) = take_bit 2 (drop_bit 8 v)"
    by (rule bit_word_eqI) (auto simp: bit_simps)
  ultimately have "v AND 0x300 = 0 \<longleftrightarrow> take_bit 2 (drop_bit 8 v) = 0" by force
  also have "\<dots> \<longleftrightarrow> unat v div 256 mod 4 = 0"
    by (simp add: unat_eq_0 [symmetric] unsigned_take_bit_eq unat_drop_bit_eq take_bit_nat_def drop_bit_nat_def)
  also have "\<dots> \<longleftrightarrow> unat v mod 1024 < 256"
    using mod_mult2_eq [of "unat v" 256 4] by (auto simp: mult.commute)
  finally show ?thesis by auto
qed

lemma unat_skip_legacy_io:
  assumes "nskip (is_io r) (unat v) < 2 ^ 64"
  shows "unat (skip_legacy_io r v) = nskip (is_io r) (unat v)"
proof -
  have "(0x3ff :: resource_t) = 2 ^ 10 - 1" by simp
  then have dn: "unat (v AND NOT 0x3ff) = unat v div 1024 * 1024"
    using unat_align_down [of v 10] by (simp only: align_down_def minus_mod_eq_div_mult) simp
  define u where "u = unat v div 1024 * 1024"
  have up: "unat ((v AND NOT 0x3ff) + 0x400) = u + 1024" if "256 \<le> unat v mod 1024" "is_io r"
  proof -
    have "u + 1024 < 2 ^ 64" using assms that by (simp add: nskip_def u_def)
    then show ?thesis using dn [folded u_def] by (subst unat_add_nowrap) simp_all
  qed
  have vga: "\<not> (v \<ge> 0x3b0 \<and> v \<le> 0x3df)" if "unat v mod 1024 < 256"
    using that by (auto simp: word_le_nat_alt)
  show ?thesis
    unfolding skip_legacy_io_def nskip_def and_0x300 using up vga by (auto simp: u_def)
qed

section \<open>The first pass on one bus\<close>

definition only_base :: "resource \<Rightarrow> resource \<Rightarrow> bool" where
  "only_base r r' \<longleftrightarrow> (\<exists>b. r' = r\<lparr>res_base := b\<rparr>)"

lemma only_baseD: "only_base r r' \<Longrightarrow> res_size r' = res_size r" "only_base r r' \<Longrightarrow> res_align r' = res_align r"
  "only_base r r' \<Longrightarrow> res_limit r' = res_limit r" "only_base r r' \<Longrightarrow> res_flags r' = res_flags r"
  "only_base r r' \<Longrightarrow> res_gran r' = res_gran r" "only_base r r' \<Longrightarrow> res_index r' = res_index r"
  by (auto simp: only_base_def)

lemma only_base_refl [simp]: "only_base r r"
  unfolding only_base_def by (rule exI [of _ "res_base r"]) simp

lemma compute_step_eq:
  fixes rs :: store and v :: resource_t
  assumes "r \<noteq> br" and "res_size (rs r) \<noteq> 0"
  defines "b \<equiv> round_pow (skip_legacy_io (rs r) v) (res_align (rs r))"
  shows "compute_step br r (rs, v) =
    (rs(br := (rs br)\<lparr>res_align := max (res_align (rs br)) (res_align (rs r)), res_limit := min (res_limit (rs br)) (res_limit (rs r))\<rparr>,
        r := (rs r)\<lparr>res_base := b\<rparr>), b + res_size (rs r))"
  using assms by (auto simp: compute_step_def Let_def max_def min_def fun_eq_iff)

lemma start_cong: "res_flags r' = res_flags r \<Longrightarrow> res_align r' = res_align r \<Longrightarrow> start r' pos = start r pos"
  by (simp add: start_def)

lemma nstep_cong:
  assumes "res_flags (rs' r) = res_flags (rs r)" and "res_align (rs' r) = res_align (rs r)" and "res_size (rs' r) = res_size (rs r)"
  shows "nstep rs' r = nstep rs r"
  by (rule ext) (simp add: nstep_def assms(3) start_cong [OF assms(1,2)])

lemma fold_nstep_cong:
  assumes "\<And>r. r \<in> set ys \<Longrightarrow> res_flags (rs' r) = res_flags (rs r) \<and> res_align (rs' r) = res_align (rs r) \<and> res_size (rs' r) = res_size (rs r)"
  shows "fold (nstep rs') ys = fold (nstep rs) ys"
  using assms
proof (induction ys)
  case (Cons y ys)
  have "nstep rs' y = nstep rs y" by (rule nstep_cong) (simp_all add: Cons.prems)
  then show ?case using Cons by simp
qed simp

text \<open>The word arithmetic of placing one resource, without wrap-around.\<close>

lemma unat_placed:
  assumes "unat (res_align r) \<le> A" and "A \<le> 62" and "unat v + (unat (res_size r) + 2 ^ A + 1024) < 2 ^ 64"
  shows "unat (round_pow (skip_legacy_io r v) (res_align r)) = start r (unat v)"
    and "start r (unat v) + unat (res_size r) < 2 ^ 64" and "start r (unat v) < unat v + 2 ^ A + 1024"
proof -
  have a: "(2::nat) ^ unat (res_align r) \<le> 2 ^ A" using assms(1) by (simp add: power_increasing)
  have v: "unat v + 1024 + 2 ^ A \<le> 2 ^ 64" using assms(3) by linarith
  have "nskip (is_io r) (unat v) < 2 ^ 64" using nskip_lt [of "is_io r" "unat v"] v by simp
  then have sk: "unat (skip_legacy_io r v) = nskip (is_io r) (unat v)" by (rule unat_skip_legacy_io)
  have "nskip (is_io r) (unat v) + 2 ^ unat (res_align r) \<le> 2 ^ 64" using a v nskip_bounds(2) [of "is_io r" "unat v"] by linarith
  then show "unat (round_pow (skip_legacy_io r v) (res_align r)) = start r (unat v)"
    unfolding start_def sk [symmetric] by (intro unat_round_pow) (use assms(1,2) in simp_all)
  have "0 < (2::nat) ^ unat (res_align r)" by simp
  then show "start r (unat v) < unat v + 2 ^ A + 1024"
    using start_bounds(2) [of r "unat v"] a by linarith
  then show "start r (unat v) + unat (res_size r) < 2 ^ 64" using assms(3) by linarith
qed

text \<open>What a run of the first loop leaves: \<open>rs'\<close> is the store after placing \<open>ys\<close> below \<open>br\<close>.\<close>

definition laid_out :: "nat \<Rightarrow> rid \<Rightarrow> rid list \<Rightarrow> store \<Rightarrow> store \<Rightarrow> bool" where
  "laid_out A br ys rs rs' \<longleftrightarrow>
    (\<forall>r. r \<notin> insert br (set ys) \<longrightarrow> rs' r = rs r) \<and> (\<forall>r\<in>set ys. only_base (rs r) (rs' r)) \<and>
    res_base (rs' br) = res_base (rs br) \<and> res_size (rs' br) = res_size (rs br) \<and> res_gran (rs' br) = res_gran (rs br) \<and>
    res_flags (rs' br) = res_flags (rs br) \<and> res_align (rs br) \<le> res_align (rs' br) \<and> res_limit (rs' br) \<le> res_limit (rs br) \<and>
    (unat (res_align (rs br)) \<le> A \<longrightarrow> unat (res_align (rs' br)) \<le> A) \<and>
    (\<forall>r\<in>set ys. res_size (rs r) \<noteq> 0 \<longrightarrow> res_align (rs r) \<le> res_align (rs' br) \<and> res_limit (rs' br) \<le> res_limit (rs r))"

lemma compute_fold:
  assumes "distinct ys" and "br \<notin> set ys" and "\<forall>r\<in>set ys. unat (res_align (rs r)) \<le> A" and "A \<le> 62"
    and "unat v + (\<Sum>r\<leftarrow>ys. unat (res_size (rs r)) + 2 ^ A + 1024) < 2 ^ 64"
  shows "\<exists>rs' v'. fold (compute_step br) ys (rs, v) = (rs', v') \<and> unat v' = fold (nstep rs) ys (unat v) \<and>
    unat v' \<le> unat v + (\<Sum>r\<leftarrow>ys. unat (res_size (rs r)) + 2 ^ A + 1024) \<and> laid_out A br ys rs rs'"
  using assms
proof (induction ys arbitrary: rs v)
  case (Cons r ys)
  show ?case
  proof (cases "res_size (rs r) = 0")
    case True
    have "unat v + (\<Sum>r\<leftarrow>ys. unat (res_size (rs r)) + 2 ^ A + 1024) < 2 ^ 64" using Cons.prems(5) by simp
    then obtain rs' v' where IH: "fold (compute_step br) ys (rs, v) = (rs', v')" "unat v' = fold (nstep rs) ys (unat v)"
      "unat v' \<le> unat v + (\<Sum>r\<leftarrow>ys. unat (res_size (rs r)) + 2 ^ A + 1024)" "laid_out A br ys rs rs'"
      using Cons.IH [of rs v] Cons.prems(1-4) by auto
    have "compute_step br r (rs, v) = (rs, v)" using True by (simp add: compute_step_def)
    moreover have "rs' r = rs r" using IH(4) Cons.prems(1,2) by (simp add: laid_out_def)
    moreover have "nstep rs r (unat v) = unat v" using True by (simp add: nstep_def)
    ultimately show ?thesis using IH True Cons.prems(2)
      by (intro exI [of _ rs'] exI [of _ v']) (simp add: laid_out_def)
  next
    case False
    define b where "b = round_pow (skip_legacy_io (rs r) v) (res_align (rs r))"
    define rs1 where "rs1 = rs(br := (rs br)\<lparr>res_align := max (res_align (rs br)) (res_align (rs r)),
      res_limit := min (res_limit (rs br)) (res_limit (rs r))\<rparr>, r := (rs r)\<lparr>res_base := b\<rparr>)"
    have r: "r \<noteq> br" "r \<notin> set ys" using Cons.prems(1,2) by auto
    have step: "compute_step br r (rs, v) = (rs1, b + res_size (rs r))"
      using compute_step_eq [of r br rs v] r(1) False by (simp add: rs1_def b_def)
    define S where "S = (\<Sum>r\<leftarrow>ys. unat (res_size (rs r)) + 2 ^ A + 1024)"
    have sum: "unat v + (unat (res_size (rs r)) + 2 ^ A + 1024) + S < 2 ^ 64" using Cons.prems(5) by (simp add: S_def)
    have pl: "unat b = start (rs r) (unat v)" "start (rs r) (unat v) + unat (res_size (rs r)) < 2 ^ 64" "start (rs r) (unat v) < unat v + 2 ^ A + 1024"
      unfolding b_def by (rule unat_placed [of _ A]; use Cons.prems(3,4) sum in simp)+
    have v1: "unat (b + res_size (rs r)) = nstep rs r (unat v)"
      using pl False by (simp add: unat_add_nowrap nstep_def)
    have v1': "unat (b + res_size (rs r)) \<le> unat v + (unat (res_size (rs r)) + 2 ^ A + 1024)"
      using pl(1,3) v1 False by (simp add: nstep_def)
    have same: "rs1 y = rs y" if "y \<in> set ys" for y using that Cons.prems(2) r(2) by (auto simp: rs1_def)
    have S1: "(\<Sum>r\<leftarrow>ys. unat (res_size (rs1 r)) + 2 ^ A + 1024) = S"
      unfolding S_def by (intro arg_cong [of _ _ sum_list] map_cong refl) (simp add: same)
    have "unat (b + res_size (rs r)) + (\<Sum>r\<leftarrow>ys. unat (res_size (rs1 r)) + 2 ^ A + 1024) < 2 ^ 64"
      using v1' sum S1 by linarith
    moreover have "\<forall>y\<in>set ys. unat (res_align (rs1 y)) \<le> A" using Cons.prems(3) same by simp
    ultimately obtain rs' v' where IH: "fold (compute_step br) ys (rs1, b + res_size (rs r)) = (rs', v')"
      "unat v' = fold (nstep rs1) ys (unat (b + res_size (rs r)))"
      "unat v' \<le> unat (b + res_size (rs r)) + (\<Sum>r\<leftarrow>ys. unat (res_size (rs1 r)) + 2 ^ A + 1024)" "laid_out A br ys rs1 rs'"
      using Cons.IH [of rs1 "b + res_size (rs r)"] Cons.prems(1,2,4) by auto
    have br1: "res_base (rs1 br) = res_base (rs br)" "res_size (rs1 br) = res_size (rs br)" "res_gran (rs1 br) = res_gran (rs br)"
      "res_flags (rs1 br) = res_flags (rs br)" "res_align (rs1 br) = max (res_align (rs br)) (res_align (rs r))"
      "res_limit (rs1 br) = min (res_limit (rs br)) (res_limit (rs r))" "rs1 r = (rs r)\<lparr>res_base := b\<rparr>"
      using r(1) by (simp_all add: rs1_def)
    have "fold (nstep rs1) ys = fold (nstep rs) ys" by (rule fold_nstep_cong) (simp add: same)
    moreover have "rs' r = (rs r)\<lparr>res_base := b\<rparr>" using IH(4) r br1(7) by (simp add: laid_out_def)
    moreover have "rs' x = rs x" if "x \<notin> insert br (set (r # ys))" for x using IH(4) that by (simp add: laid_out_def rs1_def)
    moreover have "unat (res_align (rs1 br)) \<le> A" if "unat (res_align (rs br)) \<le> A"
      using that Cons.prems(3) br1(5) by (simp add: max_def)
    ultimately show ?thesis
      using IH v1 v1' S1 S_def step same
      by (intro exI [of _ rs'] exI [of _ v']) (auto simp: br1 laid_out_def only_base_def)
  qed
qed (simp add: laid_out_def)

section \<open>The first pass on the whole plan\<close>

fun below :: "plan \<Rightarrow> rid list" where
  "below (Plan br xs ps) = xs @ concat (map below ps)"

abbreviation territory :: "plan \<Rightarrow> rid list" where
  "territory p \<equiv> p_bridge p # below p"

fun bridges :: "plan \<Rightarrow> rid list" where
  "bridges (Plan br xs ps) = map p_bridge ps @ concat (map bridges ps)"

text \<open>Every child bridge is a resource of its bus that the passes place, and starts at zero.\<close>

fun plan_wf :: "store \<Rightarrow> plan \<Rightarrow> bool" where
  "plan_wf rs (Plan br xs ps) \<longleftrightarrow> distinct (map p_bridge ps) \<and>
     (\<forall>q\<in>set ps. p_bridge q \<in> set xs \<and> res_flags (rs (p_bridge q)) AND IORESOURCE_FIXED = 0 \<and>
        res_base (rs (p_bridge q)) = 0 \<and> plan_wf rs q)"

fun linked :: "store \<Rightarrow> plan \<Rightarrow> bool" where
  "linked rs (Plan br xs ps) \<longleftrightarrow> distinct (map p_bridge ps) \<and>
     (\<forall>q\<in>set ps. p_bridge q \<in> set xs \<and> res_flags (rs (p_bridge q)) AND IORESOURCE_FIXED = 0 \<and> linked rs q)"

lemma plan_wf_linked: "plan_wf rs p \<Longrightarrow> linked rs p"
  by (induction p) auto

text \<open>What the resources of a plan can take up, with all alignments and granularities at most \<open>2 ^ A\<close>.\<close>

definition weight :: "nat \<Rightarrow> store \<Rightarrow> plan \<Rightarrow> nat" where
  "weight A rs p = (\<Sum>r\<leftarrow>below p. unat (res_size (rs r)) + 2 * 2 ^ A + 1024)"

definition sizeable :: "nat \<Rightarrow> store \<Rightarrow> plan \<Rightarrow> bool" where
  "sizeable A rs p \<longleftrightarrow> distinct (territory p) \<and> plan_wf rs p \<and>
     (\<forall>r\<in>set (territory p). unat (res_align (rs r)) \<le> A \<and> unat (res_gran (rs r)) \<le> A) \<and>
     res_base (rs (p_bridge p)) = 0 \<and> weight A rs p + 2 ^ A < 2 ^ 64"

text \<open>What the first pass leaves in the store, as far as the second relies on it.\<close>

fun computed :: "store \<Rightarrow> plan \<Rightarrow> bool" where
  "computed rs (Plan br xs ps) \<longleftrightarrow>
     fold (nstep rs) (placement_order rs xs) 0 \<le> unat (res_size (rs br)) \<and>
     (\<forall>r\<in>set (placement_order rs xs). res_size (rs r) \<noteq> 0 \<longrightarrow>
        res_align (rs r) \<le> res_align (rs br) \<and> res_limit (rs br) \<le> res_limit (rs r)) \<and>
     (\<forall>q\<in>set ps. computed rs q)"

definition sized :: "nat \<Rightarrow> store \<Rightarrow> store \<Rightarrow> plan \<Rightarrow> bool" where
  "sized A rs rs' p \<longleftrightarrow>
     (\<forall>r\<in>set (territory p). res_flags (rs' r) = res_flags (rs r) \<and> res_gran (rs' r) = res_gran (rs r) \<and>
        res_align (rs r) \<le> res_align (rs' r) \<and> unat (res_align (rs' r)) \<le> A \<and> res_limit (rs' r) \<le> res_limit (rs r)) \<and>
     (\<forall>r\<in>set (below p) - set (bridges p). only_base (rs r) (rs' r)) \<and>
     res_base (rs' (p_bridge p)) = 0 \<and> unat (res_size (rs' (p_bridge p))) \<le> weight A rs p + 2 ^ A \<and> computed rs' p"

lemma bridges_below: "plan_wf rs p \<Longrightarrow> set (bridges p) \<subseteq> set (below p)"
proof (induction p)
  case (Plan br xs ps)
  then show ?case by fastforce
qed

lemma plan_wf_cong: "(\<And>r. r \<in> set (below p) \<Longrightarrow> rs' r = rs r) \<Longrightarrow> plan_wf rs' p = plan_wf rs p"
proof (induction p)
  case (Plan br xs ps)
  have "rs' (p_bridge q) = rs (p_bridge q)" if "p_bridge q \<in> set xs" for q using Plan.prems that by simp
  moreover have "plan_wf rs' q = plan_wf rs q" if "q \<in> set ps" for q
    using that by (intro Plan.IH) (auto intro!: Plan.prems)
  ultimately show ?case by auto
qed

lemma weight_cong: "(\<And>r. r \<in> set (below p) \<Longrightarrow> rs' r = rs r) \<Longrightarrow> weight A rs' p = weight A rs p"
  unfolding weight_def by (intro arg_cong [of _ _ sum_list] map_cong refl) simp

lemma sizeable_cong: "(\<And>r. r \<in> set (territory p) \<Longrightarrow> rs' r = rs r) \<Longrightarrow> sizeable A rs' p = sizeable A rs p"
  unfolding sizeable_def using plan_wf_cong [of p rs' rs] weight_cong [of p rs' rs A] by simp

lemma placement_order_cong:
  assumes "\<And>r. r \<in> set xs \<Longrightarrow> res_flags (rs' r) AND IORESOURCE_FIXED = res_flags (rs r) AND IORESOURCE_FIXED \<and>
      res_align (rs' r) = res_align (rs r) \<and> res_size (rs' r) = res_size (rs r)"
  shows "placement_order rs' xs = placement_order rs xs"
proof -
  have f: "filter (\<lambda>r. res_flags (rs' r) AND IORESOURCE_FIXED = 0) xs = filter (\<lambda>r. res_flags (rs r) AND IORESOURCE_FIXED = 0) xs"
    by (rule filter_cong) (use assms in auto)
  show ?thesis
    unfolding placement_order_def f by (rule sort_key_cong_on) (use assms in \<open>auto simp: size_key_def\<close>)
qed

lemma computed_cong:
  "(\<And>r. r \<in> set (territory p) \<Longrightarrow> res_flags (rs' r) = res_flags (rs r) \<and> res_align (rs' r) = res_align (rs r) \<and>
      res_size (rs' r) = res_size (rs r) \<and> res_limit (rs' r) = res_limit (rs r)) \<Longrightarrow>
    linked rs0 p \<Longrightarrow> computed rs' p = computed rs p"
proof (induction p)
  case (Plan br xs ps)
  have po: "placement_order rs' xs = placement_order rs xs" by (rule placement_order_cong) (simp add: Plan.prems(1))
  have fo: "fold (nstep rs') (placement_order rs xs) = fold (nstep rs) (placement_order rs xs)"
    by (rule fold_nstep_cong) (auto simp: placement_order_set Plan.prems(1))
  have "computed rs' q = computed rs q" if "q \<in> set ps" for q
  proof (rule Plan.IH [OF that])
    show "linked rs0 q" using Plan.prems(2) that by simp
    fix r assume "r \<in> set (territory q)"
    then show "res_flags (rs' r) = res_flags (rs r) \<and> res_align (rs' r) = res_align (rs r) \<and>
      res_size (rs' r) = res_size (rs r) \<and> res_limit (rs' r) = res_limit (rs r)"
      using Plan.prems that by (intro Plan.prems(1)) auto
  qed
  moreover have "res_size (rs' r) = res_size (rs r)" "res_align (rs' r) = res_align (rs r)" "res_limit (rs' r) = res_limit (rs r)"
    if "r = br \<or> r \<in> set (placement_order rs xs)" for r
    using that Plan.prems(1) [of r] by (auto simp: placement_order_set)
  ultimately show ?case by (simp add: po fo)
qed

lemma sized_cong:
  assumes "\<And>r. r \<in> set (territory p) \<Longrightarrow> s r = rs r" and "\<And>r. r \<in> set (territory p) \<Longrightarrow> s' r = rs' r" and "plan_wf rs p"
  shows "sized A s s' p = sized A rs rs' p"
proof -
  have "computed s' p = computed rs' p" by (rule computed_cong [OF _ plan_wf_linked [OF assms(3)]]) (simp add: assms(2))
  moreover have "weight A s p = weight A rs p" by (rule weight_cong) (simp add: assms(1))
  ultimately show ?thesis using assms(1,2) unfolding sized_def by simp
qed

lemma compute_children:
  assumes "distinct (concat (map territory qs))" and "\<And>q. q \<in> set qs \<Longrightarrow> sizeable A rs q"
    and "\<And>q s. q \<in> set qs \<Longrightarrow> sizeable A s q \<Longrightarrow> sized A s (run_compute q s) q \<and> (\<forall>r. r \<notin> set (territory q) \<longrightarrow> run_compute q s r = s r)"
  shows "(\<forall>q\<in>set qs. sized A rs (fold run_compute qs rs) q) \<and>
    (\<forall>r. r \<notin> set (concat (map territory qs)) \<longrightarrow> fold run_compute qs rs r = rs r)"
  using assms
proof (induction qs arbitrary: rs)
  case (Cons q qs)
  define rs1 where "rs1 = run_compute q rs"
  have q: "sized A rs rs1 q" "\<And>r. r \<notin> set (territory q) \<Longrightarrow> rs1 r = rs r"
    using Cons.prems(3) [of q rs] Cons.prems(2) [of q] by (auto simp: rs1_def)
  have apart: "r \<notin> set (territory q)" if "q' \<in> set qs" "r \<in> set (territory q')" for q' r
    using Cons.prems(1) that by auto
  have "sizeable A rs1 q'" if "q' \<in> set qs" for q'
    using Cons.prems(2) [of q'] that sizeable_cong [of q' rs1 rs A] q(2) apart by auto
  then have IH: "\<forall>q\<in>set qs. sized A rs1 (fold run_compute qs rs1) q"
    "\<forall>r. r \<notin> set (concat (map territory qs)) \<longrightarrow> fold run_compute qs rs1 r = rs1 r"
    using Cons.IH [of rs1] Cons.prems(1,3) by auto
  have wf: "plan_wf rs q'" if "q' \<in> set (q # qs)" for q' using Cons.prems(2) [OF that] by (simp add: sizeable_def)
  have "sized A rs (fold run_compute qs rs1) q = sized A rs rs1 q"
    by (rule sized_cong) (use IH(2) apart wf in auto)
  moreover have "sized A rs (fold run_compute qs rs1) q' = sized A rs1 (fold run_compute qs rs1) q'" if "q' \<in> set qs" for q'
    by (rule sized_cong) (use q(2) apart that wf in \<open>auto simp: plan_wf_cong [of q' rs1 rs]\<close>)
  ultimately show ?case using IH q by (auto simp: rs1_def [symmetric])
qed simp

lemma sum_owned:
  assumes "distinct xs" and "\<forall>q\<in>set ps. p_bridge q \<in> set xs"
  shows "(\<Sum>r\<leftarrow>xs. \<Sum>q\<leftarrow>ps. if p_bridge q = r then w q else 0) = (\<Sum>q\<leftarrow>ps. w q :: nat)"
  using assms(2)
proof (induction ps)
  case (Cons q ps)
  have "(\<Sum>r\<leftarrow>xs. if p_bridge q = r then w q else 0) = w q"
    using assms(1) Cons.prems by (simp add: sum_list_distinct_conv_sum_set)
  then show ?case using Cons by (simp add: sum_list_addf)
qed simp

lemma sum_list_concat_map: "sum_list (map f (concat (map g ps))) = (\<Sum>q\<leftarrow>ps. sum_list (map f (g q)) :: nat)"
  by (induction ps) simp_all

lemma weight_Plan: "weight A rs (Plan b xs ps) = (\<Sum>r\<leftarrow>xs. unat (res_size (rs r)) + 2 * 2 ^ A + 1024) + (\<Sum>q\<leftarrow>ps. weight A rs q)"
  by (simp add: weight_def sum_list_concat_map)

text \<open>The sizes of a bus after its child bridges are computed, against the weight of the plan.\<close>

lemma children_weight:
  assumes xs: "distinct xs" and br: "distinct (map p_bridge ps)" "\<forall>q\<in>set ps. p_bridge q \<in> set xs"
    and ys: "distinct ys" "set ys \<subseteq> set xs"
    and sz: "\<And>q. q \<in> set ps \<Longrightarrow> unat (res_size (rs1 (p_bridge q))) \<le> weight A rs q + 2 ^ A"
    and other: "\<And>r. r \<in> set xs \<Longrightarrow> r \<notin> p_bridge ` set ps \<Longrightarrow> rs1 r = rs r"
  shows "(\<Sum>r\<leftarrow>ys. unat (res_size (rs1 r)) + 2 ^ A + 1024) \<le> weight A rs (Plan b xs ps)"
proof -
  define w where "w = (\<lambda>q. weight A rs q + 2 ^ A)"
  have size1: "unat (res_size (rs1 r)) \<le> unat (res_size (rs r)) + (\<Sum>q\<leftarrow>ps. if p_bridge q = r then w q else 0)" if r: "r \<in> set xs" for r
  proof (cases "r \<in> p_bridge ` set ps")
    case True
    then obtain q where q: "q \<in> set ps" "r = p_bridge q" by blast
    then have "unat (res_size (rs1 r)) \<le> w q" using sz by (simp add: w_def)
    also have "w q \<le> (\<Sum>q\<leftarrow>ps. if p_bridge q = r then w q else 0)"
      using q member_le_sum_list [of "if p_bridge q = r then w q else 0" "map (\<lambda>q. if p_bridge q = r then w q else 0) ps"] by force
    finally show ?thesis by simp
  qed (simp add: other [OF r])
  have "(\<Sum>r\<leftarrow>ys. unat (res_size (rs1 r)) + 2 ^ A + 1024) \<le> (\<Sum>r\<leftarrow>xs. unat (res_size (rs1 r)) + 2 ^ A + 1024)"
    using ys xs by (simp add: sum_list_distinct_conv_sum_set sum_mono2)
  also have "\<dots> \<le> (\<Sum>r\<leftarrow>xs. unat (res_size (rs r)) + (\<Sum>q\<leftarrow>ps. if p_bridge q = r then w q else 0) + 2 ^ A + 1024)"
    by (rule sum_list_mono) (use size1 in force)
  also have "\<dots> = (\<Sum>r\<leftarrow>xs. unat (res_size (rs r))) + length xs * (2 ^ A + 1024) + (\<Sum>q\<leftarrow>ps. w q)"
    using sum_owned [OF xs, of ps w] br(2) by (simp add: sum_list_addf sum_list_triv distrib_left)
  also have "(\<Sum>q\<leftarrow>ps. w q) = (\<Sum>q\<leftarrow>ps. weight A rs q) + length ps * 2 ^ A"
    by (simp add: w_def sum_list_addf sum_list_triv)
  finally have "(\<Sum>r\<leftarrow>ys. unat (res_size (rs1 r)) + 2 ^ A + 1024) \<le>
    (\<Sum>r\<leftarrow>xs. unat (res_size (rs r))) + length xs * (2 ^ A + 1024) + ((\<Sum>q\<leftarrow>ps. weight A rs q) + length ps * 2 ^ A)" .
  moreover have "length ps \<le> length xs"
  proof -
    have "length ps = card (p_bridge ` set ps)" using br(1) by (metis distinct_card length_map list.set_map)
    also have "\<dots> \<le> card (set xs)" using br(2) by (intro card_mono) auto
    finally show ?thesis using card_length [of xs] by linarith
  qed
  then have "length ps * 2 ^ A \<le> length xs * 2 ^ A" by simp
  moreover have "weight A rs (Plan b xs ps) = (\<Sum>r\<leftarrow>xs. unat (res_size (rs r))) + length xs * (2 * 2 ^ A + 1024) + (\<Sum>q\<leftarrow>ps. weight A rs q)"
    unfolding weight_Plan by (simp add: sum_list_addf sum_list_triv distrib_left)
  moreover have "length xs * (2 * 2 ^ A + 1024) = 2 * (length xs * 2 ^ A) + length xs * 1024"
    "length xs * (2 ^ A + 1024) = length xs * 2 ^ A + length xs * 1024" by (simp_all add: distrib_left)
  ultimately show ?thesis by linarith
qed

lemma run_compute_sized:
  assumes "sizeable A rs p" and "A \<le> 62"
  shows "sized A rs (run_compute p rs) p \<and> (\<forall>r. r \<notin> set (territory p) \<longrightarrow> run_compute p rs r = rs r)"
  using assms(1)
proof (induction p arbitrary: rs)
  case (Plan br xs ps)
  note sz = Plan.prems [unfolded sizeable_def]
  have wf: "distinct (map p_bridge ps)" "\<forall>q\<in>set ps. p_bridge q \<in> set xs \<and> res_flags (rs (p_bridge q)) AND IORESOURCE_FIXED = 0 \<and>
      res_base (rs (p_bridge q)) = 0 \<and> plan_wf rs q" using sz by simp_all
  have xs: "distinct xs" "br \<notin> set xs" "distinct (concat (map below ps))" "set xs \<inter> set (concat (map below ps)) = {}"
    "br \<notin> set (concat (map below ps))" using sz by auto
  have terr: "distinct (concat (map territory ps))"
    using wf xs(1,3,4) by (induction ps) auto
  have sub: "sizeable A rs q" if "q \<in> set ps" for q
  proof -
    have "weight A rs q \<le> (\<Sum>q\<leftarrow>ps. weight A rs q)" using that by (intro member_le_sum_list) auto
    moreover have "distinct (territory q)" using terr that by (auto simp: distinct_concat_iff)
    ultimately show ?thesis using wf(2) sz that unfolding sizeable_def weight_Plan by auto
  qed
  define rs1 where "rs1 = fold run_compute ps rs"
  have ch: "\<forall>q\<in>set ps. sized A rs rs1 q" "\<And>r. r \<notin> set (concat (map territory ps)) \<Longrightarrow> rs1 r = rs r"
    using compute_children [OF terr sub Plan.IH] unfolding rs1_def by blast+
  have br1: "rs1 br = rs br" using xs(2,5) wf(2) by (intro ch(2)) auto
  define ys where "ys = placement_order rs1 xs"
  have ys: "distinct ys" "set ys \<subseteq> set xs" "br \<notin> set ys" using xs(1,2) by (auto simp: ys_def placement_order_set placement_order_distinct)
  have sum: "(\<Sum>r\<leftarrow>ys. unat (res_size (rs1 r)) + 2 ^ A + 1024) \<le> weight A rs (Plan br xs ps)"
  proof (rule children_weight [OF xs(1) wf(1) _ ys(1,2)])
    show "\<forall>q\<in>set ps. p_bridge q \<in> set xs" using wf(2) by blast
    show "unat (res_size (rs1 (p_bridge q))) \<le> weight A rs q + 2 ^ A" if "q \<in> set ps" for q
      using ch(1) that by (simp add: sized_def)
    show "rs1 r = rs r" if "r \<in> set xs" "r \<notin> p_bridge ` set ps" for r
      using that xs(4) by (intro ch(2)) auto
  qed
  have terr_facts: "res_flags (rs1 r) = res_flags (rs r) \<and> res_gran (rs1 r) = res_gran (rs r) \<and> res_align (rs r) \<le> res_align (rs1 r) \<and>
      unat (res_align (rs1 r)) \<le> A \<and> res_limit (rs1 r) \<le> res_limit (rs r)" if "r \<in> set (territory (Plan br xs ps))" for r
  proof (cases "r \<in> set (concat (map territory ps))")
    case True
    then show ?thesis using ch(1) by (auto simp: sized_def)
  next
    case False
    have "unat (res_align (rs r)) \<le> A" "unat (res_gran (rs r)) \<le> A" using sz that by blast+
    then show ?thesis using ch(2) [OF False] by simp
  qed
  have v0: "round_pow (res_base (rs br)) a = 0" for a
  proof -
    have "res_base (rs br) = 0" using sz by simp
    moreover have "m AND NOT m = 0" for m :: resource_t by simp
    ultimately show ?thesis unfolding round_pow_def Let_def by simp
  qed
  have sum64: "(\<Sum>r\<leftarrow>ys. unat (res_size (rs1 r)) + 2 ^ A + 1024) + 2 ^ A < 2 ^ 64" using sum sz by linarith
  have al: "\<forall>r\<in>set ys. unat (res_align (rs1 r)) \<le> A" using terr_facts ys(2) by auto
  obtain rs2 v where st: "fold (compute_step br) ys (rs1, 0) = (rs2, v)" "unat v = fold (nstep rs1) ys 0"
    "unat v \<le> (\<Sum>r\<leftarrow>ys. unat (res_size (rs1 r)) + 2 ^ A + 1024)" "laid_out A br ys rs1 rs2"
    using compute_fold [OF ys(1,3) al assms(2), of 0] sum64 by auto
  note lo = st(4) [unfolded laid_out_def]
  have gran: "unat (res_gran (rs2 br)) \<le> A" "res_base (rs2 br) = 0" using lo br1 sz by simp_all
  have v2: "round_pow (res_base (rs2 br)) a = 0" for a using v0 gran(2) sz by simp
  have g: "(2::nat) ^ unat (res_gran (rs2 br)) \<le> 2 ^ A" using gran(1) by (simp add: power_increasing)
  have size: "unat (round_pow v (res_gran (rs2 br))) = nround (unat v) (unat (res_gran (rs2 br)))"
    by (rule unat_round_pow) (use gran(1) assms(2) g st(3) sum64 in linarith)+
  define rs3 where "rs3 = rs2(br := (rs2 br)\<lparr>res_size := round_pow v (res_gran (rs2 br))\<rparr>)"
  have run: "run_compute (Plan br xs ps) rs = rs3"
    using st(1) v0 v2 by (simp add: Let_def rs1_def [symmetric] ys_def [symmetric] rs3_def)
  have ob: "only_base (rs1 r) (rs3 r)" if "r \<noteq> br" for r
    using lo that by (cases "r \<in> set ys") (simp_all add: rs3_def)
  have away: "rs3 r = rs1 r" if "r \<noteq> br" "r \<notin> set ys" for r using lo that by (simp add: rs3_def)
  note obD = only_baseD [OF ob]
  have br3: "res_size (rs3 br) = round_pow v (res_gran (rs2 br))" "res_flags (rs3 br) = res_flags (rs br)" "res_gran (rs3 br) = res_gran (rs br)"
    "res_align (rs br) \<le> res_align (rs3 br)" "unat (res_align (rs3 br)) \<le> A" "res_limit (rs3 br) \<le> res_limit (rs br)" "res_base (rs3 br) = 0"
    using lo br1 sz gran(2) by (simp_all add: rs3_def)
  have "\<forall>r\<in>set (territory (Plan br xs ps)). res_flags (rs3 r) = res_flags (rs r) \<and> res_gran (rs3 r) = res_gran (rs r) \<and>
        res_align (rs r) \<le> res_align (rs3 r) \<and> unat (res_align (rs3 r)) \<le> A \<and> res_limit (rs3 r) \<le> res_limit (rs r)"
  proof
    fix r assume r: "r \<in> set (territory (Plan br xs ps))"
    show "res_flags (rs3 r) = res_flags (rs r) \<and> res_gran (rs3 r) = res_gran (rs r) \<and>
        res_align (rs r) \<le> res_align (rs3 r) \<and> unat (res_align (rs3 r)) \<le> A \<and> res_limit (rs3 r) \<le> res_limit (rs r)"
      using terr_facts [OF r] br3 obD by (cases "r = br") simp_all
  qed
  moreover have "\<forall>r\<in>set (below (Plan br xs ps)) - set (bridges (Plan br xs ps)). only_base (rs r) (rs3 r)"
  proof
    fix r assume r: "r \<in> set (below (Plan br xs ps)) - set (bridges (Plan br xs ps))"
    then have "r \<noteq> br" using xs(2,5) by auto
    show "only_base (rs r) (rs3 r)"
    proof (cases "r \<in> set xs")
      case True
      then have "rs1 r = rs r" using r xs(4) by (intro ch(2)) auto
      then show ?thesis using ob [OF \<open>r \<noteq> br\<close>] by simp
    next
      case False
      then obtain q where "q \<in> set ps" "r \<in> set (below q) - set (bridges q)" using r by auto
      then have "only_base (rs r) (rs1 r)" using ch(1) unfolding sized_def by blast
      moreover have "rs3 r = rs1 r" using away [OF \<open>r \<noteq> br\<close>] False ys(2) by blast
      ultimately show ?thesis by simp
    qed
  qed
  moreover have "unat (res_size (rs3 br)) \<le> weight A rs (Plan br xs ps) + 2 ^ A"
    using nround_le [of "unat v" "unat (res_gran (rs2 br))"] g st(3) sum by (simp only: br3(1) size)
  moreover have "computed rs3 (Plan br xs ps)"
  proof -
    have nb: "r \<noteq> br" if "r \<in> set xs" for r using that xs(2) by blast
    have po: "placement_order rs3 xs = ys"
      unfolding ys_def by (rule placement_order_cong) (use obD nb in simp)
    have "fold (nstep rs3) ys 0 = unat v"
      unfolding st(2) by (intro fun_cong [OF fold_nstep_cong]) (use obD ys(3) in metis)
    moreover have "\<forall>r\<in>set ys. res_size (rs3 r) \<noteq> 0 \<longrightarrow> res_align (rs3 r) \<le> res_align (rs3 br) \<and> res_limit (rs3 br) \<le> res_limit (rs3 r)"
    proof (intro ballI impI)
      fix r assume r: "r \<in> set ys" "res_size (rs3 r) \<noteq> 0"
      then have "r \<noteq> br" using ys(3) by blast
      then show "res_align (rs3 r) \<le> res_align (rs3 br) \<and> res_limit (rs3 br) \<le> res_limit (rs3 r)"
        using lo r obD [OF \<open>r \<noteq> br\<close>] by (simp add: rs3_def)
    qed
    moreover have "computed rs3 q" if "q \<in> set ps" for q
    proof -
      have "computed rs3 q = computed rs1 q"
      proof (rule computed_cong)
        show "linked rs q" using wf(2) that plan_wf_linked by blast
        fix r assume "r \<in> set (territory q)"
        then have "r \<noteq> br" using that wf(2) xs(2,5) by auto
        then show "res_flags (rs3 r) = res_flags (rs1 r) \<and> res_align (rs3 r) = res_align (rs1 r) \<and>
          res_size (rs3 r) = res_size (rs1 r) \<and> res_limit (rs3 r) = res_limit (rs1 r)" using obD by simp
      qed
      then show ?thesis using ch(1) that by (simp add: sized_def)
    qed
    moreover have "unat v \<le> unat (res_size (rs3 br))" unfolding br3(1) size by (rule nround_ge)
    ultimately show ?thesis by (simp add: po)
  qed
  moreover have "rs3 r = rs r" if "r \<notin> set (territory (Plan br xs ps))" for r
  proof -
    have "rs1 r = rs r" using that wf(2) by (intro ch(2)) auto
    then show ?thesis using away [of r] that ys(2) by auto
  qed
  ultimately show ?case
    unfolding run using br3(7) by (simp add: sized_def)
qed

section \<open>The second pass on one bus\<close>

text \<open>
  \<open>ranged rs r\<close>: the second pass has given \<open>r\<close> the base it has in \<open>rs\<close>.
  \<open>spread rs R\<close>: the non-empty resources of \<open>R\<close> do not overlap.
\<close>

definition ends :: "store \<Rightarrow> rid \<Rightarrow> nat" where
  "ends rs r = unat (res_base (rs r)) + unat (res_size (rs r))"

definition ranged :: "store \<Rightarrow> rid \<Rightarrow> bool" where
  "ranged rs r \<longleftrightarrow> res_flags (rs r) AND IORESOURCE_ASSIGNED \<noteq> 0 \<and> 2 ^ unat (res_align (rs r)) dvd unat (res_base (rs r)) \<and>
     ends rs r \<le> 2 ^ 64 \<and> res_limit (rs r) = res_base (rs r) + res_size (rs r) - 1"

definition spread :: "store \<Rightarrow> rid set \<Rightarrow> bool" where
  "spread rs R \<longleftrightarrow> (\<forall>r\<in>R. \<forall>r'\<in>R. r \<noteq> r' \<and> res_size (rs r) \<noteq> 0 \<and> res_size (rs r') \<noteq> 0 \<longrightarrow>
     ends rs r \<le> unat (res_base (rs r')) \<or> ends rs r' \<le> unat (res_base (rs r)))"

lemma allocate_step_zero:
  assumes "res_size (rs r) = 0" and "r \<noteq> br"
  shows "\<exists>l. l \<le> res_limit (rs r) \<and> l \<le> res_limit (rs br) \<and>
    allocate_step br r (rs, v) = (rs(r := (rs r)\<lparr>res_limit := l, res_base := l, res_flags := res_flags (rs r) OR IORESOURCE_ASSIGNED\<rparr>), v)"
proof (cases "res_limit (rs r) > res_limit (rs br)")
  case True
  then show ?thesis using assms by (intro exI [of _ "res_limit (rs br)"]) (simp add: allocate_step_def)
next
  case False
  have "rs r\<lparr>res_base := res_limit (rs r), res_flags := f\<rparr> = rs r\<lparr>res_limit := res_limit (rs r), res_base := res_limit (rs r), res_flags := f\<rparr>" for f
    by simp
  then show ?thesis using False assms by (intro exI [of _ "res_limit (rs r)"]) (simp add: allocate_step_def)
qed

lemma allocate_step_fits:
  assumes "res_size (rs r) \<noteq> 0" and "r \<noteq> br" and "res_limit (rs br) \<le> res_limit (rs r)"
    and "b = round_pow (skip_legacy_io (rs r) v) (res_align (rs r))" and "b + res_size (rs r) - 1 \<le> res_limit (rs br)"
  shows "allocate_step br r (rs, v) = (rs(r := (rs r)\<lparr>res_base := b, res_limit := b + res_size (rs r) - 1,
    res_flags := (res_flags (rs r) OR IORESOURCE_ASSIGNED) AND NOT IORESOURCE_STORED\<rparr>), b + res_size (rs r))"
proof (cases "res_limit (rs r) > res_limit (rs br)")
  case True
  have sk: "skip_legacy_io (rs r\<lparr>res_limit := l\<rparr>) v = skip_legacy_io (rs r) v" for l by (simp add: skip_legacy_io_def)
  show ?thesis using True assms by (simp add: allocate_step_def Let_def sk assms(4) [symmetric])
next
  case False
  then have "res_limit (rs r) = res_limit (rs br)" using assms(3) by simp
  then show ?thesis using assms by (simp add: allocate_step_def Let_def assms(4) [symmetric])
qed

lemma dvd_exp_mono: "2 ^ n dvd b \<Longrightarrow> m \<le> n \<Longrightarrow> 2 ^ m dvd (b :: nat)"
  using dvd_trans [OF le_imp_power_dvd] by blast

text \<open>The same placement from a base that respects the alignments: everything moves by that base.\<close>

lemma unat_placed_at:
  assumes "2 ^ unat (res_align r) dvd B" and "is_io r \<longrightarrow> 1024 dvd B" and "unat v = B + pos"
    and "start r pos + unat (res_size r) \<le> S" and "B + S \<le> 2 ^ 64" and "unat (res_align r) < 64" and "res_size r \<noteq> 0"
  shows "unat (round_pow (skip_legacy_io r v) (res_align r)) = B + start r pos"
proof -
  define a where "a = unat (res_align r)"
  have sz: "0 < unat (res_size r)" using assms(7) by (simp add: unat_gt_0)
  have st: "start r (unat v) = B + start r pos" using start_shift [of r B pos] assms(1-3) by simp
  have lt: "start r (unat v) < 2 ^ 64" using st assms(4,5) sz by linarith
  have nsk: "nskip (is_io r) (unat v) \<le> start r (unat v)" unfolding start_def by (rule nround_ge)
  have sk: "unat (skip_legacy_io r v) = nskip (is_io r) (unat v)"
    by (rule unat_skip_legacy_io) (use nsk lt in linarith)
  have "start r (unat v) + 2 ^ a \<le> 2 ^ 64"
    using dvd_exp_less [OF start_dvd lt] assms(6) by (simp add: a_def)
  then have "unat (skip_legacy_io r v) + 2 ^ a \<le> 2 ^ 64" using nsk sk by linarith
  then have "unat (round_pow (skip_legacy_io r v) (res_align r)) = nround (unat (skip_legacy_io r v)) a"
    unfolding a_def by (rule unat_round_pow [OF assms(6)])
  then show ?thesis by (simp add: sk a_def flip: start_def st)
qed

lemma assigned_bits:
  "(f OR IORESOURCE_ASSIGNED) AND IORESOURCE_ASSIGNED \<noteq> 0"
  "((f OR IORESOURCE_ASSIGNED) AND NOT IORESOURCE_STORED) AND IORESOURCE_ASSIGNED \<noteq> 0"
proof -
  have "NOT IORESOURCE_STORED AND IORESOURCE_ASSIGNED = IORESOURCE_ASSIGNED"
    by (simp add: IORESOURCE_ASSIGNED_def IORESOURCE_STORED_def)
  then have "((f OR IORESOURCE_ASSIGNED) AND IORESOURCE_ASSIGNED) = IORESOURCE_ASSIGNED"
    "((f OR IORESOURCE_ASSIGNED) AND NOT IORESOURCE_STORED) AND IORESOURCE_ASSIGNED = IORESOURCE_ASSIGNED"
    by (simp_all add: and.assoc word_bw_comms) (simp_all add: bit_eq_iff bit_simps, blast?)
  then show "(f OR IORESOURCE_ASSIGNED) AND IORESOURCE_ASSIGNED \<noteq> 0"
    "((f OR IORESOURCE_ASSIGNED) AND NOT IORESOURCE_STORED) AND IORESOURCE_ASSIGNED \<noteq> 0"
    by (simp_all add: IORESOURCE_ASSIGNED_def)
qed

text \<open>What a run of the second loop over \<open>ys\<close> makes of the store, \<open>lo\<close> to \<open>hi\<close> being the addresses it uses.\<close>

definition given_out :: "rid list \<Rightarrow> store \<Rightarrow> store \<Rightarrow> nat \<Rightarrow> nat \<Rightarrow> bool" where
  "given_out ys rs rs' lo hi \<longleftrightarrow>
    (\<forall>r. r \<notin> set ys \<longrightarrow> rs' r = rs r) \<and>
    (\<forall>r\<in>set ys. res_size (rs' r) = res_size (rs r) \<and> res_align (rs' r) = res_align (rs r) \<and> res_limit (rs' r) \<le> res_limit (rs r)) \<and>
    (\<forall>r\<in>set ys. res_size (rs r) \<noteq> 0 \<longrightarrow> ranged rs' r \<and> lo \<le> unat (res_base (rs' r)) \<and> ends rs' r \<le> hi) \<and>
    spread rs' (set ys)"

lemma allocate_fold:
  assumes "distinct ys" and "br \<notin> set ys" and "\<forall>r\<in>set ys. unat (res_align (rs r)) < 64"
    and "\<forall>r\<in>set ys. res_size (rs r) \<noteq> 0 \<longrightarrow> 2 ^ unat (res_align (rs r)) dvd B \<and> (is_io (rs r) \<longrightarrow> 1024 dvd B) \<and>
           res_limit (rs br) \<le> res_limit (rs r)"
    and "fold (nstep rs) ys pos \<le> S" and "B + S \<le> 2 ^ 64" and "S = 0 \<or> B + S \<le> unat (res_limit (rs br)) + 1"
  shows "\<exists>rs' v'. fold (allocate_step br) ys (rs, of_nat (B + pos)) = (rs', v') \<and>
    given_out ys rs rs' (B + pos) (B + fold (nstep rs) ys pos)"
  using assms
proof (induction ys arbitrary: rs pos)
  case Nil
  then show ?case by (simp add: given_out_def spread_def)
next
  case (Cons r ys)
  have r: "r \<noteq> br" "r \<notin> set ys" using Cons.prems(1,2) by auto
  have *: "\<exists>rs1. allocate_step br r (rs, of_nat (B + pos)) = (rs1, of_nat (B + nstep rs r pos)) \<and>
     (\<forall>x. x \<noteq> r \<longrightarrow> rs1 x = rs x) \<and> res_size (rs1 r) = res_size (rs r) \<and> res_align (rs1 r) = res_align (rs r) \<and>
     res_limit (rs1 r) \<le> res_limit (rs r) \<and>
     (res_size (rs r) \<noteq> 0 \<longrightarrow> ranged rs1 r \<and> B + pos \<le> unat (res_base (rs1 r)) \<and> ends rs1 r = B + nstep rs r pos)"
  proof (cases "res_size (rs r) = 0")
    case True
    then show ?thesis using allocate_step_zero [of rs r br "of_nat (B + pos)"] r(1) by (auto simp: nstep_def)
  next
    case False
    define b where "b = round_pow (skip_legacy_io (rs r) (of_nat (B + pos))) (res_align (rs r))"
    have sz: "0 < unat (res_size (rs r))" using False by (simp add: unat_gt_0)
    have ns: "nstep rs r pos = start (rs r) pos + unat (res_size (rs r))" using False by (simp add: nstep_def)
    have S: "start (rs r) pos + unat (res_size (rs r)) \<le> S"
      using Cons.prems(5) nstep_fold_ge [of "nstep rs r pos" rs ys] by (simp add: ns)
    have fit: "B + pos < 2 ^ 64" using S Cons.prems(6) start_bounds(1) [of pos "rs r"] sz by linarith
    have b: "unat b = B + start (rs r) pos"
      unfolding b_def
    proof (rule unat_placed_at)
      show "unat (of_nat (B + pos) :: resource_t) = B + pos" using fit by (intro unat_of_nat_id) simp
      show "2 ^ unat (res_align (rs r)) dvd B" "is_io (rs r) \<longrightarrow> 1024 dvd B" "unat (res_align (rs r)) < 64"
        using Cons.prems(3,4) False by auto
    qed (use S Cons.prems(6) False in auto)
    have last: "unat (b + res_size (rs r) - 1) = B + start (rs r) pos + (unat (res_size (rs r)) - 1)"
    proof -
      have "unat (res_size (rs r) - 1) = unat (res_size (rs r)) - 1" using sz by (subst unat_sub_nowrap) auto
      moreover have eq: "b + res_size (rs r) - 1 = b + (res_size (rs r) - 1)" by simp
      ultimately show ?thesis unfolding eq by (subst unat_add_nowrap) (use S Cons.prems(6) sz b in auto)
    qed
    have fits: "b + res_size (rs r) - 1 \<le> res_limit (rs br)"
      unfolding word_le_nat_alt last using S Cons.prems(7) sz by linarith
    have "of_nat (unat b + unat (res_size (rs r))) = b + res_size (rs r)" by simp
    then have v: "b + res_size (rs r) = of_nat (B + nstep rs r pos)"
      by (simp add: ns b add.assoc)
    define rs1 where "rs1 = rs(r := (rs r)\<lparr>res_base := b, res_limit := b + res_size (rs r) - 1,
      res_flags := (res_flags (rs r) OR IORESOURCE_ASSIGNED) AND NOT IORESOURCE_STORED\<rparr>)"
    have lim: "res_limit (rs br) \<le> res_limit (rs r)" using Cons.prems(4) False by simp
    have step: "allocate_step br r (rs, of_nat (B + pos)) = (rs1, of_nat (B + nstep rs r pos))"
      using allocate_step_fits [where v = "of_nat (B + pos)", OF False r(1) lim b_def fits] unfolding rs1_def v .
    have "2 ^ unat (res_align (rs r)) dvd unat b"
      unfolding b using Cons.prems(4) False start_dvd by (intro dvd_add) auto
    then have "ranged rs1 r \<and> B + pos \<le> unat (res_base (rs1 r)) \<and> ends rs1 r = B + nstep rs r pos"
      using S Cons.prems(6) start_bounds(1) [of pos "rs r"] b ns
      by (simp add: ranged_def ends_def rs1_def assigned_bits)
    moreover have "res_limit (rs1 r) \<le> res_limit (rs r)" using fits lim by (simp add: rs1_def)
    ultimately show ?thesis using step by (intro exI [of _ rs1]) (simp add: rs1_def)
  qed
  then obtain rs1 where rs1: "allocate_step br r (rs, of_nat (B + pos)) = (rs1, of_nat (B + nstep rs r pos))"
    "\<And>x. x \<noteq> r \<Longrightarrow> rs1 x = rs x" "res_size (rs1 r) = res_size (rs r)" "res_align (rs1 r) = res_align (rs r)"
    "res_limit (rs1 r) \<le> res_limit (rs r)"
    "res_size (rs r) \<noteq> 0 \<Longrightarrow> ranged rs1 r \<and> B + pos \<le> unat (res_base (rs1 r)) \<and> ends rs1 r = B + nstep rs r pos" by blast
  have same: "rs1 x = rs x" if "x \<in> insert br (set ys)" for x using that r by (intro rs1(2)) auto
  have fo: "fold (nstep rs1) ys = fold (nstep rs) ys" by (rule fold_nstep_cong) (simp add: same)
  obtain rs' v' where IH: "fold (allocate_step br) ys (rs1, of_nat (B + nstep rs r pos)) = (rs', v')"
    "given_out ys rs1 rs' (B + nstep rs r pos) (B + fold (nstep rs) ys (nstep rs r pos))"
    using Cons.IH [of rs1 "nstep rs r pos"] Cons.prems same fo by (fastforce simp del: of_nat_add)
  have r': "rs' r = rs1 r" using IH(2) r(2) by (simp add: given_out_def)
  have hi: "nstep rs r pos \<le> fold (nstep rs) ys (nstep rs r pos)" by (rule nstep_fold_ge)
  have lo: "pos \<le> nstep rs r pos" by (rule nstep_ge)
  note go = IH(2) [unfolded given_out_def]
  have ys: "x \<in> set ys \<Longrightarrow> x \<noteq> r \<and> rs1 x = rs x" for x using r(2) same by blast
  have hd: "ranged rs' r \<and> B + pos \<le> unat (res_base (rs' r)) \<and> ends rs' r = B + nstep rs r pos" if "res_size (rs r) \<noteq> 0"
    using rs1(6) [OF that] r' by (simp add: ranged_def ends_def)
  have tl: "ranged rs' x \<and> B + nstep rs r pos \<le> unat (res_base (rs' x)) \<and> ends rs' x \<le> B + fold (nstep rs) ys (nstep rs r pos)"
    if "x \<in> set ys" "res_size (rs x) \<noteq> 0" for x using go that ys by auto
  have size: "res_size (rs' x) = res_size (rs x)" if "x \<in> set (r # ys)" for x using go that ys r' rs1(3) by auto
  have "spread rs' (set (r # ys))"
    unfolding spread_def
  proof (intro ballI impI)
    fix x y assume xy: "x \<in> set (r # ys)" "y \<in> set (r # ys)" "x \<noteq> y \<and> res_size (rs' x) \<noteq> 0 \<and> res_size (rs' y) \<noteq> 0"
    then consider "x = r" "y \<in> set ys" | "y = r" "x \<in> set ys" | "x \<in> set ys" "y \<in> set ys" by auto
    then show "ends rs' x \<le> unat (res_base (rs' y)) \<or> ends rs' y \<le> unat (res_base (rs' x))"
    proof cases
      case 3
      then show ?thesis using go xy(3) by (auto simp: spread_def)
    qed (use hd tl xy size in force)+
  qed
  moreover have "\<forall>x\<in>set (r # ys). res_size (rs x) \<noteq> 0 \<longrightarrow> ranged rs' x \<and> B + pos \<le> unat (res_base (rs' x)) \<and>
      ends rs' x \<le> B + fold (nstep rs) (r # ys) pos"
    using hd tl hi lo by fastforce
  moreover have "\<forall>x\<in>set (r # ys). res_size (rs' x) = res_size (rs x) \<and> res_align (rs' x) = res_align (rs x) \<and> res_limit (rs' x) \<le> res_limit (rs x)"
    using go ys r' rs1(3-5) by auto
  moreover have "\<forall>x. x \<notin> set (r # ys) \<longrightarrow> rs' x = rs x" using go rs1(2) by auto
  ultimately have "given_out (r # ys) rs rs' (B + pos) (B + fold (nstep rs) (r # ys) pos)"
    unfolding given_out_def by blast
  then show ?case using rs1(1) IH(1) by auto
qed

section \<open>The second pass on the whole plan\<close>

definition uses_io :: "store \<Rightarrow> plan \<Rightarrow> bool" where
  "uses_io rs p \<longleftrightarrow> (\<exists>r\<in>set (p_resources p). is_io (rs r))"

text \<open>A child bridge in front of I/O resources has at least the 1 KiB alignment of the legacy decoders.\<close>

fun io_ok :: "store \<Rightarrow> plan \<Rightarrow> bool" where
  "io_ok rs (Plan br xs ps) \<longleftrightarrow> (\<forall>q\<in>set ps. (uses_io rs q \<longrightarrow> 10 \<le> unat (res_align (rs (p_bridge q)))) \<and> io_ok rs q)"

text \<open>The window of a bridge can take what was computed for it.\<close>

definition window_ok :: "store \<Rightarrow> plan \<Rightarrow> bool" where
  "window_ok rs p \<longleftrightarrow> (let b = p_bridge p in res_size (rs b) = 0 \<or>
     2 ^ unat (res_align (rs b)) dvd unat (res_base (rs b)) \<and> (uses_io rs p \<longrightarrow> 1024 dvd unat (res_base (rs b))) \<and>
     ends rs b \<le> 2 ^ 64 \<and> ends rs b \<le> unat (res_limit (rs b)) + 1)"

text \<open>Every bus is packed into the window of its bridge: assigned, aligned and without overlap.\<close>

fun placed :: "store \<Rightarrow> plan \<Rightarrow> bool" where
  "placed rs (Plan br xs ps) \<longleftrightarrow>
     (\<forall>r\<in>set (placement_order rs xs). res_size (rs r) \<noteq> 0 \<longrightarrow>
        ranged rs r \<and> res_base (rs br) \<le> res_base (rs r) \<and> ends rs r \<le> ends rs br) \<and>
     spread rs (set (placement_order rs xs)) \<and> (\<forall>q\<in>set ps. placed rs q)"

lemma linked_cong: "(\<And>r. r \<in> set (below p) \<Longrightarrow> res_flags (rs' r) AND IORESOURCE_FIXED = res_flags (rs r) AND IORESOURCE_FIXED) \<Longrightarrow>
    linked rs' p = linked rs p"
proof (induction p)
  case (Plan br xs ps)
  have "res_flags (rs' (p_bridge q)) AND IORESOURCE_FIXED = res_flags (rs (p_bridge q)) AND IORESOURCE_FIXED" if "p_bridge q \<in> set xs" for q
    using Plan.prems that by simp
  moreover have "linked rs' q = linked rs q" if "q \<in> set ps" for q
    using that by (intro Plan.IH) (auto intro!: Plan.prems)
  ultimately show ?case by auto
qed

lemma p_resources_below: "set (p_resources p) \<subseteq> set (below p)"
  by (cases p) simp

lemma uses_io_cong: "(\<And>r. r \<in> set (below p) \<Longrightarrow> is_io (rs' r) = is_io (rs r)) \<Longrightarrow> uses_io rs' p = uses_io rs p"
  unfolding uses_io_def using p_resources_below [of p] by blast

lemma io_ok_mono: "(\<And>r. r \<in> set (below p) \<Longrightarrow> is_io (rs' r) = is_io (rs r) \<and> res_align (rs r) \<le> res_align (rs' r)) \<Longrightarrow>
    linked rs0 p \<Longrightarrow> io_ok rs p \<Longrightarrow> io_ok rs' p"
proof (induction p)
  case (Plan br xs ps)
  have "uses_io rs' q = uses_io rs q" "io_ok rs' q" if "q \<in> set ps" for q
  proof -
    show "uses_io rs' q = uses_io rs q" using that by (intro uses_io_cong) (use Plan.prems(1) in auto)
    have "is_io (rs' r) = is_io (rs r) \<and> res_align (rs r) \<le> res_align (rs' r)" if "r \<in> set (below q)" for r
      by (rule Plan.prems(1)) (use that \<open>q \<in> set ps\<close> in auto)
    then show "io_ok rs' q" using that Plan.prems(2,3) by (intro Plan.IH [OF that]) auto
  qed
  moreover have "res_align (rs (p_bridge q)) \<le> res_align (rs' (p_bridge q))" if "q \<in> set ps" for q
    using Plan.prems(1,2) that by simp
  ultimately show ?case using Plan.prems(3) by (fastforce simp: word_le_nat_alt)
qed

lemma placed_cong: "(\<And>r. r \<in> set (territory p) \<Longrightarrow> rs' r = rs r) \<Longrightarrow> linked rs0 p \<Longrightarrow> placed rs' p = placed rs p"
proof (induction p)
  case (Plan br xs ps)
  have po: "placement_order rs' xs = placement_order rs xs" by (rule placement_order_cong) (simp add: Plan.prems(1))
  have "placed rs' q = placed rs q" if "q \<in> set ps" for q
    using that Plan.prems(2) by (intro Plan.IH) (auto intro!: Plan.prems(1))
  moreover have "rs' r = rs r" if "r = br \<or> r \<in> set (placement_order rs xs)" for r
    using that by (intro Plan.prems(1)) (auto simp: placement_order_set)
  ultimately show ?case by (auto simp: po ranged_def spread_def ends_def)
qed

lemma allocate_children:
  assumes "distinct (concat (map territory qs))" and "\<And>q. q \<in> set qs \<Longrightarrow> ok rs q"
    and "\<And>q s s'. (\<And>r. r \<in> set (territory q) \<Longrightarrow> s' r = s r) \<Longrightarrow> ok s q \<Longrightarrow> ok s' q"
    and "\<And>q. q \<in> set qs \<Longrightarrow> linked rs q"
    and "\<And>q s. q \<in> set qs \<Longrightarrow> ok s q \<Longrightarrow> placed (run_allocate q s) q \<and> (\<forall>r. r \<notin> set (territory q) \<longrightarrow> run_allocate q s r = s r) \<and>
        run_allocate q s (p_bridge q) = (s (p_bridge q))\<lparr>res_flags := res_flags (s (p_bridge q)) OR IORESOURCE_ASSIGNED\<rparr>"
  shows "(\<forall>q\<in>set qs. placed (fold run_allocate qs rs) q \<and>
        fold run_allocate qs rs (p_bridge q) = (rs (p_bridge q))\<lparr>res_flags := res_flags (rs (p_bridge q)) OR IORESOURCE_ASSIGNED\<rparr>) \<and>
    (\<forall>r. r \<notin> set (concat (map territory qs)) \<longrightarrow> fold run_allocate qs rs r = rs r)"
  using assms(1,2,4,5)
proof (induction qs arbitrary: rs)
  case (Cons q qs)
  define rs1 where "rs1 = run_allocate q rs"
  have q: "placed rs1 q" "\<And>r. r \<notin> set (territory q) \<Longrightarrow> rs1 r = rs r"
    "rs1 (p_bridge q) = (rs (p_bridge q))\<lparr>res_flags := res_flags (rs (p_bridge q)) OR IORESOURCE_ASSIGNED\<rparr>"
    using Cons.prems(4) [of q rs] Cons.prems(2) [of q] by (auto simp: rs1_def)
  have apart: "r \<notin> set (territory q)" if "q' \<in> set qs" "r \<in> set (territory q')" for q' r
    using Cons.prems(1) that by auto
  have same: "rs1 r = rs r" if "q' \<in> set qs" "r \<in> set (territory q')" for q' r using q(2) apart that by blast
  have "ok rs1 q'" if "q' \<in> set qs" for q' using assms(3) [of q' rs1 rs] same Cons.prems(2) that by auto
  moreover have "linked rs1 q'" if "q' \<in> set qs" for q'
    using linked_cong [of q' rs1 rs] same [OF that] Cons.prems(3) that by simp
  ultimately have IH: "\<forall>q\<in>set qs. placed (fold run_allocate qs rs1) q \<and>
        fold run_allocate qs rs1 (p_bridge q) = (rs1 (p_bridge q))\<lparr>res_flags := res_flags (rs1 (p_bridge q)) OR IORESOURCE_ASSIGNED\<rparr>"
    "\<forall>r. r \<notin> set (concat (map territory qs)) \<longrightarrow> fold run_allocate qs rs1 r = rs1 r"
    using Cons.IH [of rs1] Cons.prems(1,4) by auto
  have keep: "fold run_allocate qs rs1 r = rs1 r" if "r \<in> set (territory q)" for r
  proof -
    have "r \<notin> set (concat (map territory qs))" using that apart by (auto simp del: list.set)
    then show ?thesis using IH(2) by blast
  qed
  have "placed (fold run_allocate qs rs1) q" using placed_cong [of q _ rs1 rs, OF keep] Cons.prems(3) [of q] q(1) by simp
  moreover have "fold run_allocate qs rs1 (p_bridge q) = rs1 (p_bridge q)" by (rule keep) simp
  ultimately show ?case using IH q same by (auto simp: rs1_def [symmetric])
qed simp

definition prepared :: "store \<Rightarrow> plan \<Rightarrow> bool" where
  "prepared rs p \<longleftrightarrow> distinct (territory p) \<and> linked rs p \<and> (\<forall>r\<in>set (territory p). unat (res_align (rs r)) < 64) \<and>
     computed rs p \<and> io_ok rs p \<and> window_ok rs p"

lemma prepared_cong: "(\<And>r. r \<in> set (territory p) \<Longrightarrow> rs' r = rs r) \<Longrightarrow> prepared rs p \<Longrightarrow> prepared rs' p"
  unfolding prepared_def window_ok_def ends_def
  using linked_cong [of p rs' rs] computed_cong [of p rs' rs rs] io_ok_mono [of p rs' rs rs] uses_io_cong [of p rs' rs]
  by (simp add: Let_def)

lemma fold_nstep_size: "r \<in> set ys \<Longrightarrow> pos + unat (res_size (rs r)) \<le> fold (nstep rs) ys pos"
proof (induction ys arbitrary: pos)
  case (Cons y ys)
  have y: "pos + unat (res_size (rs y)) \<le> nstep rs y pos" using start_bounds(1) [of pos "rs y"] by (simp add: nstep_def)
  show ?case
  proof (cases "r = y")
    case True
    then show ?thesis using order_trans [OF y nstep_fold_ge [of "nstep rs y pos" rs ys]] by simp
  next
    case False
    then have "nstep rs y pos + unat (res_size (rs r)) \<le> fold (nstep rs) (y # ys) pos" using Cons by simp
    then show ?thesis using y by linarith
  qed
qed simp

text \<open>Lowering the limit of the bridge keeps what was computed.\<close>

lemma computed_limit:
  assumes "computed rs p" and "linked rs p" and "p_bridge p \<notin> set (below p)"
    and "\<And>r. r \<in> set (below p) \<Longrightarrow> rs' r = rs r"
    and "res_size (rs' (p_bridge p)) = res_size (rs (p_bridge p))" and "res_align (rs' (p_bridge p)) = res_align (rs (p_bridge p))"
    and "res_limit (rs' (p_bridge p)) \<le> res_limit (rs (p_bridge p))"
  shows "computed rs' p"
proof (cases p)
  case (Plan br xs ps)
  have xs: "rs' r = rs r" if "r \<in> set xs" for r using assms(4) that by (simp add: Plan)
  have po: "placement_order rs' xs = placement_order rs xs" by (rule placement_order_cong) (simp add: xs)
  have in_xs: "r \<in> set xs" if "r \<in> set (placement_order rs xs)" for r using that by (simp add: placement_order_set)
  have fo: "fold (nstep rs') (placement_order rs xs) = fold (nstep rs) (placement_order rs xs)"
    by (rule fold_nstep_cong) (simp add: xs in_xs)
  have "computed rs' q = computed rs q" if "q \<in> set ps" for q
  proof (rule computed_cong)
    show "linked rs q" using assms(2) that by (simp add: Plan)
    fix r assume r: "r \<in> set (territory q)"
    have "rs' r = rs r" by (rule assms(4)) (use that r assms(2) in \<open>auto simp: Plan\<close>)
    then show "res_flags (rs' r) = res_flags (rs r) \<and> res_align (rs' r) = res_align (rs r) \<and>
      res_size (rs' r) = res_size (rs r) \<and> res_limit (rs' r) = res_limit (rs r)" by simp
  qed
  then show ?thesis
    using assms(1,5-7) in_xs by (auto simp: Plan po fo xs intro: order_trans)
qed

lemma ends_limit: "ranged rs r \<Longrightarrow> res_size (rs r) \<noteq> 0 \<Longrightarrow> ends rs r \<le> unat (res_limit (rs r)) + 1"
proof -
  assume a: "ranged rs r" "res_size (rs r) \<noteq> 0"
  have sz: "0 < unat (res_size (rs r))" using a(2) by (simp add: unat_gt_0)
  have l: "unat (res_size (rs r) - 1) = unat (res_size (rs r)) - 1" using sz by (subst unat_sub_nowrap) auto
  have e: "res_limit (rs r) = res_base (rs r) + (res_size (rs r) - 1)" using a(1) by (simp add: ranged_def)
  have "ends rs r \<le> 2 ^ 64" using a(1) by (simp add: ranged_def)
  then show ?thesis unfolding e ends_def by (subst unat_add_nowrap) (use sz l in auto)
qed

lemma run_allocate_placed:
  assumes "prepared s p"
  shows "placed (run_allocate p s) p \<and> (\<forall>r. r \<notin> set (territory p) \<longrightarrow> run_allocate p s r = s r) \<and>
    run_allocate p s (p_bridge p) = (s (p_bridge p))\<lparr>res_flags := res_flags (s (p_bridge p)) OR IORESOURCE_ASSIGNED\<rparr>"
  using assms
proof (induction p arbitrary: s)
  case (Plan br xs ps)
  note pr = Plan.prems [unfolded prepared_def]
  have xs: "distinct xs" "br \<notin> set xs" "distinct (concat (map below ps))" "set xs \<inter> set (concat (map below ps)) = {}"
    "br \<notin> set (concat (map below ps))" using pr by auto
  have lk: "distinct (map p_bridge ps)" "\<forall>q\<in>set ps. p_bridge q \<in> set xs \<and> res_flags (s (p_bridge q)) AND IORESOURCE_FIXED = 0 \<and> linked s q"
    using pr by simp_all
  have terr: "distinct (concat (map territory ps))" using lk xs(1,3,4) by (induction ps) auto
  define ys where "ys = placement_order s xs"
  have ys: "distinct ys" "set ys \<subseteq> set xs" "br \<notin> set ys" using xs(1,2) by (auto simp: ys_def placement_order_set placement_order_distinct)
  define B S where "B = unat (res_base (s br))" and "S = fold (nstep s) ys 0"
  have comp: "S \<le> unat (res_size (s br))" "\<forall>r\<in>set ys. res_size (s r) \<noteq> 0 \<longrightarrow> res_align (s r) \<le> res_align (s br) \<and> res_limit (s br) \<le> res_limit (s r)"
    "\<forall>q\<in>set ps. computed s q" using pr by (simp_all add: ys_def S_def)
  have zero: "res_size (s r) = 0" if "S = 0" "r \<in> set ys" for r
    using fold_nstep_size [OF that(2), of 0 s] that(1) by (simp add: S_def unat_eq_0)
  have win: "S \<noteq> 0 \<Longrightarrow> 2 ^ unat (res_align (s br)) dvd B \<and> (uses_io s (Plan br xs ps) \<longrightarrow> 1024 dvd B) \<and>
      ends s br \<le> 2 ^ 64 \<and> ends s br \<le> unat (res_limit (s br)) + 1"
    using pr comp(1) by (auto simp: window_ok_def B_def)
  have B: "B + S \<le> 2 ^ 64" "S = 0 \<or> B + S \<le> unat (res_limit (s br)) + 1"
    using win comp(1) unat_lt_exp [of "res_base (s br)"] unfolding ends_def B_def by (cases "S = 0"; simp)+
  have al: "\<forall>r\<in>set ys. unat (res_align (s r)) < 64" using pr ys(2) by auto
  have dv: "\<forall>r\<in>set ys. res_size (s r) \<noteq> 0 \<longrightarrow> 2 ^ unat (res_align (s r)) dvd B \<and> (is_io (s r) \<longrightarrow> 1024 dvd B) \<and> res_limit (s br) \<le> res_limit (s r)"
  proof (intro ballI impI)
    fix r assume r: "r \<in> set ys" "res_size (s r) \<noteq> 0"
    then have "S \<noteq> 0" using zero by blast
    moreover have "is_io (s r) \<longrightarrow> uses_io s (Plan br xs ps)" using r ys(2) by (auto simp: uses_io_def)
    moreover have "unat (res_align (s r)) \<le> unat (res_align (s br))" using comp(2) r by (simp add: word_le_nat_alt)
    ultimately show "2 ^ unat (res_align (s r)) dvd B \<and> (is_io (s r) \<longrightarrow> 1024 dvd B) \<and> res_limit (s br) \<le> res_limit (s r)"
      using win comp(2) r dvd_exp_mono by blast
  qed
  obtain s0 v where st: "fold (allocate_step br) ys (s, res_base (s br)) = (s0, v)" "given_out ys s s0 B (B + S)"
    using allocate_fold [OF ys(1,3) al dv, of 0 S] B by (auto simp: S_def B_def)
  note go = st(2) [unfolded given_out_def]
  define s1 where "s1 = s0(br := (s0 br)\<lparr>res_flags := res_flags (s0 br) OR IORESOURCE_ASSIGNED\<rparr>)"
  have s1: "s1 r = s r" if "r \<noteq> br" "r \<notin> set ys" for r using go that by (simp add: s1_def)
  have s1ys: "s1 r = s0 r" if "r \<noteq> br" for r using that by (simp add: s1_def)
  have bel: "s1 r = s r" if "q \<in> set ps" "r \<in> set (below q)" for q r
    using that xs(4,5) ys(2) by (intro s1) auto
  have cb: "p_bridge q \<in> set ys" if "q \<in> set ps" for q using lk(2) that by (simp add: ys_def placement_order_set)
  have sub: "prepared s1 q" if q: "q \<in> set ps" for q
  proof -
    define b where "b = p_bridge q"
    have b: "b \<in> set ys" "b \<noteq> br" using cb [OF q] ys(3) by (auto simp: b_def)
    have b1: "res_size (s1 b) = res_size (s b)" "res_align (s1 b) = res_align (s b)" "res_limit (s1 b) \<le> res_limit (s b)"
      using go b by (simp_all add: s1ys)
    have dis: "distinct (territory q)" using terr q by (auto simp: distinct_concat_iff)
    have "linked s1 q" using linked_cong [of q s1 s] bel [OF q] lk(2) q by simp
    moreover have "\<forall>r\<in>set (territory q). unat (res_align (s1 r)) < 64"
      using pr q b1(2) bel [OF q] lk(2) by (auto simp: b_def)
    moreover have "computed s1 q"
      by (rule computed_limit [of s]) (use comp(3) lk(2) q dis bel [OF q] b1 in \<open>auto simp: b_def\<close>)
    moreover have io: "uses_io s1 q = uses_io s q" by (rule uses_io_cong) (simp add: bel [OF q])
    have "io_ok s q" and ten: "uses_io s q \<longrightarrow> 10 \<le> unat (res_align (s b))" using pr q by (auto simp: b_def)
    then have "io_ok s1 q" using io_ok_mono [of q s1 s s] bel [OF q] lk(2) q by simp
    moreover have "window_ok s1 q"
    proof (cases "res_size (s b) = 0")
      case True
      then show ?thesis using b1(1) by (simp add: window_ok_def b_def)
    next
      case False
      then have "ranged s0 b" using go b by blast
      then have r: "ranged s1 b" using b(2) by (simp add: ranged_def ends_def s1ys)
      have "1024 dvd unat (res_base (s1 b))" if "uses_io s q"
        using dvd_exp_mono [of "unat (res_align (s1 b))" "unat (res_base (s1 b))" 10] r ten b1(2) that by (simp add: ranged_def)
      then show ?thesis using r ends_limit [OF r] False b1(1) io by (simp add: window_ok_def ranged_def b_def [symmetric])
    qed
    ultimately show ?thesis using dis by (simp add: prepared_def)
  qed
  define s2 where "s2 = fold run_allocate ps s1"
  have ch: "\<forall>q\<in>set ps. placed s2 q \<and> s2 (p_bridge q) = (s1 (p_bridge q))\<lparr>res_flags := res_flags (s1 (p_bridge q)) OR IORESOURCE_ASSIGNED\<rparr>"
    "\<forall>r. r \<notin> set (concat (map territory ps)) \<longrightarrow> s2 r = s1 r"
    using allocate_children [OF terr, of prepared s1] sub prepared_cong Plan.IH unfolding s2_def prepared_def [of s1] by blast+
  have run: "run_allocate (Plan br xs ps) s = s2"
    by (simp add: Let_def ys_def [symmetric] st(1) s2_def s1_def)
  have br2: "s2 br = (s br)\<lparr>res_flags := res_flags (s br) OR IORESOURCE_ASSIGNED\<rparr>"
  proof -
    have "br \<notin> set (concat (map territory ps))" using lk(2) xs(2,5) by auto
    then show ?thesis using ch(2) go ys(3) by (simp add: s1_def)
  qed
  have s2: "s2 r = s0 r \<or> s2 r = (s0 r)\<lparr>res_flags := res_flags (s0 r) OR IORESOURCE_ASSIGNED\<rparr>" if r: "r \<in> set xs" for r
  proof -
    have "s1 r = s0 r" using r xs(2) by (intro s1ys) auto
    moreover have "r \<in> p_bridge ` set ps \<or> r \<notin> set (concat (map territory ps))" using r xs(4) by auto
    ultimately show ?thesis using ch by auto
  qed
  then have s2': "res_base (s2 r) = res_base (s0 r) \<and> res_size (s2 r) = res_size (s0 r) \<and> res_align (s2 r) = res_align (s0 r) \<and>
      res_limit (s2 r) = res_limit (s0 r) \<and> (res_flags (s0 r) AND IORESOURCE_ASSIGNED \<noteq> 0 \<longrightarrow> res_flags (s2 r) AND IORESOURCE_ASSIGNED \<noteq> 0)"
    if "r \<in> set xs" for r using that assigned_bits(1) by force
  have s0: "res_size (s0 r) = res_size (s r) \<and> res_align (s0 r) = res_align (s r)" if "r \<in> set xs" for r
    using go by (cases "r \<in> set ys") auto
  have "placement_order s2 xs = ys"
    unfolding ys_def
    by (rule placement_order_cong) (use s2' s0 same_shape_flags [OF run_allocate_shape kept_masks(1)] in \<open>simp add: run [symmetric] del: run_allocate.simps\<close>)
  moreover have "ranged s2 r \<and> res_base (s2 br) \<le> res_base (s2 r) \<and> ends s2 r \<le> ends s2 br"
    if r: "r \<in> set ys" "res_size (s2 r) \<noteq> 0" for r
  proof -
    have x: "r \<in> set xs" using r ys(2) by blast
    have "res_size (s r) \<noteq> 0" using r(2) s2' [OF x] s0 [OF x] by simp
    then have "ranged s0 r" "B \<le> unat (res_base (s0 r))" "ends s0 r \<le> B + S" using go r(1) by blast+
    then show ?thesis
      using s2' [OF x] comp(1) br2 by (simp add: ranged_def ends_def B_def word_le_nat_alt)
  qed
  moreover have "spread s2 (set ys)"
  proof -
    have "ends s2 r = ends s0 r" "res_base (s2 r) = res_base (s0 r)" "res_size (s2 r) = res_size (s0 r)" if "r \<in> set ys" for r
      using s2' [of r] that ys(2) by (auto simp: ends_def)
    then show ?thesis using go unfolding spread_def by metis
  qed
  moreover have "s2 r = s r" if "r \<notin> set (territory (Plan br xs ps))" for r
  proof -
    have "r \<notin> set (concat (map territory ps))" using that lk(2) by auto
    then show ?thesis using ch(2) s1 that ys(2) by auto
  qed
  ultimately show ?case unfolding run using ch(1) br2 by simp
qed

section \<open>Both passes together\<close>

lemma territory_plan_ok: "distinct (territory p) \<Longrightarrow> linked rs p \<Longrightarrow> plan_ok p"
proof (induction p)
  case (Plan br xs ps)
  have "plan_ok q" if "q \<in> set ps" for q
    using Plan.prems that by (intro Plan.IH) (auto simp: distinct_concat_iff)
  then show ?case using Plan.prems(1) by simp
qed

lemma allocate_step_size: "res_size (fst (allocate_step br r st) x) = res_size (fst st x)"
  by (cases st) (simp add: allocate_step_def Let_def)

lemma allocate_fold_size: "res_size (fst (fold (allocate_step br) ys st) x) = res_size (fst st x)"
  by (induction ys arbitrary: st) (simp_all add: allocate_step_size)

lemma run_allocate_size: "res_size (run_allocate p s x) = res_size (s x)"
proof (induction p arbitrary: s)
  case (Plan br xs ps)
  have "res_size (fold run_allocate qs t x) = res_size (t x)" if "set qs \<subseteq> set ps" for qs t
    using that by (induction qs arbitrary: t) (simp_all add: Plan)
  from this [of ps] show ?case
    using allocate_fold_size [of br _ "(s, res_base (s br))"]
    by (simp add: case_prod_beta Let_def)
qed

lemma prepared_window:
  assumes "sized A rs rs1 p" and "sizeable A rs p" and "A \<le> 62" and "io_ok rs p"
    and "rs2 = rs1(p_bridge p := (rs1 (p_bridge p))\<lparr>res_base := B, res_limit := L\<rparr>)"
    and "L \<le> res_limit (rs1 (p_bridge p))" and "window_ok rs2 p"
  shows "prepared rs2 p"
proof -
  have sz: "distinct (territory p)" "plan_wf rs p" using assms(2) by (simp_all add: sizeable_def)
  have t: "res_flags (rs1 r) = res_flags (rs r) \<and> res_align (rs r) \<le> res_align (rs1 r) \<and> unat (res_align (rs1 r)) \<le> A"
    if "r \<in> set (territory p)" for r using assms(1) that unfolding sized_def by blast
  have bel: "rs2 r = rs1 r" if "r \<in> set (below p)" for r using that sz(1) by (auto simp: assms(5))
  have "linked rs1 p" using linked_cong [of p rs1 rs] t plan_wf_linked [OF sz(2)] by simp
  moreover have "computed rs1 p" using assms(1) by (simp add: sized_def)
  ultimately have "computed rs2 p"
    by (intro computed_limit [of rs1 p rs2]) (use sz(1) bel assms(5,6) in auto)
  moreover have "linked rs2 p" using linked_cong [of p rs2 rs1] bel \<open>linked rs1 p\<close> by simp
  moreover have "io_ok rs2 p" using io_ok_mono [of p rs2 rs rs] bel t plan_wf_linked [OF sz(2)] assms(4) by simp
  moreover have "unat (res_align (rs2 r)) < 64" if "r \<in> set (territory p)" for r
    using t [OF that] assms(3,5) by (cases "r = p_bridge p") auto
  ultimately show ?thesis using sz(1) assms(7) by (simp add: prepared_def)
qed

section \<open>Properties\<close>

text \<open>
  C15: Both passes of the allocator, which look for the next largest resource by walking the
  whole bus again each time, do what a structural recursion over the plan of the tree does that
  handles the resources of each bus in the order of a stable sort, by alignment and size. In
  particular both loops end, and the passes return.
\<close>

theorem allocator_follows_plan:
  assumes "plan_of rs bus br msk ty = Some p" and "plan_ok p" and "kept_mask msk"
  shows "compute_resources bus br msk ty rs = Some (run_compute p rs) \<and>
    (same_shape rs rs' \<longrightarrow> allocate_resources bus br msk ty rs' = Some (run_allocate p rs'))"
  using compute_follows_plan [OF assms same_shape_refl] allocate_follows_plan [OF assms] by blast

text \<open>A domain with one device and a bridge that has two devices behind it.\<close>

definition ex_bus :: bus where
  "ex_bus = Bus 0 [Dev True 2 [1] [], Dev True 2 [2] [Bus 0 [Dev True 2 [3] [], Dev True 2 [4] []]]]"

definition ex_bar :: "resource_t \<Rightarrow> u8 \<Rightarrow> resource" where
  "ex_bar sz al = \<lparr>res_base = 0, res_size = sz, res_limit = 0xffffffff, res_flags = 0x200, res_index = 0x10, res_align = al, res_gran = al\<rparr>"

definition ex_store :: store where
  "ex_store r = (if r = 0 then \<lparr>res_base = 0, res_size = 0, res_limit = 0xffffffff, res_flags = 0x200, res_index = 0, res_align = 0, res_gran = 0\<rparr>
     else if r = 1 then ex_bar 0x100 8
     else if r = 2 then \<lparr>res_base = 0, res_size = 0, res_limit = 0xffffffff, res_flags = 0x80200, res_index = 0x20, res_align = 20, res_gran = 20\<rparr>
     else if r = 3 then ex_bar 0x1000 12 else ex_bar 0x400000 22)"

definition ex_plan :: plan where
  "ex_plan = Plan 0 [1, 2] [Plan 2 [3, 4] []]"

lemma ex_plan_of: "plan_of ex_store ex_bus 0 IORESOURCE_TYPE_MASK IORESOURCE_MEM = Some ex_plan"
  by code_simp

theorem allocator_follows_plan_witness:
  "compute_resources ex_bus 0 IORESOURCE_TYPE_MASK IORESOURCE_MEM ex_store = Some (run_compute ex_plan ex_store) \<and>
   allocate_resources ex_bus 0 IORESOURCE_TYPE_MASK IORESOURCE_MEM ex_store = Some (run_allocate ex_plan ex_store)"
  using allocator_follows_plan [OF ex_plan_of, of ex_store] by (simp add: ex_plan_def)

text \<open>
  C3: Computing the resources below a bridge and then allocating them from any window that can
  take the computed size packs every bus of the tree into the window of its bridge: every
  resource is assigned at a base with its alignment, inside the window, without overlap, and
  with its own size. Bridges in front of port resources are assumed to be aligned to at least the
  1 KiB in which legacy decoders repeat (\<open>io_ok\<close>).
\<close>

theorem allocator_packs_windows:
  assumes "plan_of rs bus br msk ty = Some p" and "kept_mask msk" and "sizeable A rs p" and "A \<le> 62" and "io_ok rs p"
  shows "\<exists>rs1. compute_resources bus br msk ty rs = Some rs1 \<and>
    (\<forall>B L rs2. rs2 = rs1(br := (rs1 br)\<lparr>res_base := B, res_limit := L\<rparr>) \<and> L \<le> res_limit (rs1 br) \<and> window_ok rs2 p \<longrightarrow>
      (\<exists>rs3. allocate_resources bus br msk ty rs2 = Some rs3 \<and> placed rs3 p \<and>
         (\<forall>r\<in>set (below p) - set (bridges p). res_size (rs3 r) = res_size (rs r))))"
proof -
  have br: "p_bridge p = br" using plan_of_bridge [OF assms(1)] by simp
  define rs1 where "rs1 = run_compute p rs"
  have sz: "sized A rs rs1 p" using run_compute_sized [OF assms(3,4)] by (simp add: rs1_def)
  have ok: "plan_ok p" using territory_plan_ok [of p rs] plan_wf_linked [of rs p] assms(3) by (simp add: sizeable_def)
  have "compute_resources bus br msk ty rs = Some rs1"
    unfolding rs1_def by (rule compute_follows_plan [OF assms(1) ok assms(2) same_shape_refl])
  moreover have "\<exists>rs3. allocate_resources bus br msk ty rs2 = Some rs3 \<and> placed rs3 p \<and>
      (\<forall>r\<in>set (below p) - set (bridges p). res_size (rs3 r) = res_size (rs r))"
    if w: "rs2 = rs1(br := (rs1 br)\<lparr>res_base := B, res_limit := L\<rparr>)" "L \<le> res_limit (rs1 br)" "window_ok rs2 p" for B L rs2
  proof -
    have "same_shape rs rs1" unfolding rs1_def by (rule run_compute_shape)
    then have "same_shape rs rs2" by (simp add: w(1) same_shape_def)
    then have "allocate_resources bus br msk ty rs2 = Some (run_allocate p rs2)"
      by (rule allocate_follows_plan [OF assms(1) ok assms(2)])
    moreover have "placed (run_allocate p rs2) p"
      using run_allocate_placed [OF prepared_window [OF sz assms(3-5), of rs2 L B]] w br by simp
    moreover have "res_size (run_allocate p rs2 r) = res_size (rs r)" if "r \<in> set (below p) - set (bridges p)" for r
    proof -
      have "only_base (rs r) (rs1 r)" using sz that unfolding sized_def by blast
      moreover have "r \<noteq> br" using that assms(3) br by (auto simp: sizeable_def)
      ultimately show ?thesis using only_baseD(1) by (simp add: run_allocate_size w(1))
    qed
    ultimately show ?thesis by blast
  qed
  ultimately show ?thesis by blast
qed

theorem allocator_packs_windows_witness:
  "\<exists>rs1 rs3. compute_resources ex_bus 0 IORESOURCE_TYPE_MASK IORESOURCE_MEM ex_store = Some rs1 \<and>
     allocate_resources ex_bus 0 IORESOURCE_TYPE_MASK IORESOURCE_MEM
       (rs1(0 := (rs1 0)\<lparr>res_base := 0xe0000000, res_limit := 0xefffffff\<rparr>)) = Some rs3 \<and> placed rs3 ex_plan"
proof -
  have "sizeable 22 ex_store ex_plan" "io_ok ex_store ex_plan"
    by (simp_all add: sizeable_def weight_def uses_io_def ex_plan_def ex_store_def ex_bar_def IORESOURCE_FIXED_def IORESOURCE_IO_def)
  from allocator_packs_windows [OF ex_plan_of kept_masks(6) this(1) _ this(2)] obtain rs1 where
    rs1: "compute_resources ex_bus 0 IORESOURCE_TYPE_MASK IORESOURCE_MEM ex_store = Some rs1"
    "\<forall>B L rs2. rs2 = rs1(0 := (rs1 0)\<lparr>res_base := B, res_limit := L\<rparr>) \<and> L \<le> res_limit (rs1 0) \<and> window_ok rs2 ex_plan \<longrightarrow>
      (\<exists>rs3. allocate_resources ex_bus 0 IORESOURCE_TYPE_MASK IORESOURCE_MEM rs2 = Some rs3 \<and> placed rs3 ex_plan \<and>
         (\<forall>r\<in>set (below ex_plan) - set (bridges ex_plan). res_size (rs3 r) = res_size (ex_store r)))"
    by force
  have "rs1 = run_compute ex_plan ex_store" using rs1(1) compute_follows_plan [OF ex_plan_of _ _ same_shape_refl] by (simp add: ex_plan_def)
  moreover have "let b = run_compute ex_plan ex_store 0 in res_limit b = 0xffffffff \<and> res_size b = 0x500100 \<and> res_align b = 22"
    by code_simp
  ultimately have b: "res_limit (rs1 0) = 0xffffffff" "res_size (rs1 0) = 0x500100" "res_align (rs1 0) = 22" by (simp_all add: Let_def)
  have "same_shape ex_store rs1" using \<open>rs1 = _\<close> run_compute_shape by simp
  then have "\<not> uses_io (rs1(0 := b)) ex_plan" for b
    using same_shape_flags [OF _ kept_masks(5), of ex_store rs1]
    by (simp add: uses_io_def ex_plan_def) (simp add: ex_store_def ex_bar_def IORESOURCE_IO_def)
  then have "window_ok (rs1(0 := (rs1 0)\<lparr>res_base := 0xe0000000, res_limit := 0xefffffff\<rparr>)) ex_plan"
    by (simp add: window_ok_def ends_def b) (simp add: ex_plan_def b)
  moreover have "0xefffffff \<le> res_limit (rs1 0)" by (simp add: b(1))
  ultimately show ?thesis using rs1 by blast
qed

end
