(* ===== verification/Resource_Fixed.thy ===== *)
theory Resource_Fixed
  imports Resource_Placement
begin

text \<open>
  How the allocator keeps out of the way of resources that cannot move: the window of a domain
  is cut back, below or above every fixed resource of the enabled devices in its tree. One case
  goes wrong: a fixed resource that starts at zero and fills the window.
\<close>

section \<open>The tree as a list\<close>

function tree_resources :: "dev \<Rightarrow> rid list" where
  "tree_resources d = d_resources d @
     concat (map (\<lambda>l. concat (map (\<lambda>c. if d_enabled c then tree_resources c else []) (bus_children l))) (d_links d))"
  by pat_completeness auto
termination
  by (relation "measure size") (auto intro: less_trans [OF size_child size_link])

declare tree_resources.simps [simp del]

lemma fold_concat_map: "fold f (concat (map g xs)) s = fold (\<lambda>x. fold f (g x)) xs s"
  by (induction xs arbitrary: s) simp_all

lemma constrain_resources_fold:
  "constrain_resources rs d limits = fold (\<lambda>r. constrain_one (rs r)) (tree_resources d) limits"
proof (induction d arbitrary: limits rule: measure_induct_rule [of size])
  case (less d)
  have "fold (\<lambda>link limits. fold (\<lambda>child limits. if d_enabled child then constrain_resources rs child limits else limits) (bus_children link) limits) (d_links d) c =
     fold (\<lambda>r. constrain_one (rs r)) (concat (map (\<lambda>l. concat (map (\<lambda>c. if d_enabled c then tree_resources c else []) (bus_children l))) (d_links d))) c" for c
    unfolding fold_concat_map
    by (intro fold_cong_state refl) (auto intro: less less_trans [OF size_child size_link])
  then show ?case
    unfolding constrain_resources.simps [of rs d] tree_resources.simps [of d] by simp
qed

section \<open>Cutting a window back\<close>

definition res_stop :: "resource \<Rightarrow> nat" where
  "res_stop r = unat (res_base r) + unat (res_size r)"

definition free_of :: "resource \<Rightarrow> window \<Rightarrow> bool" where
  "free_of r w \<longleftrightarrow> res_stop r \<le> unat (w_base w) \<or> unat (w_limit w) < unat (res_base r)"

definition inside :: "window \<Rightarrow> window \<Rightarrow> bool" where
  "inside w' w \<longleftrightarrow> w_base w \<le> w_base w' \<and> w_limit w' \<le> w_limit w"

lemma inside_refl [simp]: "inside w w" and inside_trans: "inside a b \<Longrightarrow> inside b c \<Longrightarrow> inside a c"
  by (auto simp: inside_def)

lemma free_of_inside: "free_of r w \<Longrightarrow> inside w' w \<Longrightarrow> free_of r w'"
  by (auto simp: free_of_def inside_def word_le_nat_alt)

lemma sint_small: "unat (w :: 64 word) < 2 ^ 63 \<Longrightarrow> sint w = int (unat w)"
proof -
  assume "unat w < 2 ^ 63"
  then have "int (unat w) < int (2 ^ 63)" by (simp only: of_nat_less_iff)
  then have "uint w < 2 ^ 63" by simp
  moreover have "- (2 ^ 63) \<le> uint w" by (rule order_trans [OF _ uint_nonnegative]) simp
  ultimately have "signed_take_bit 63 (uint w) = uint w" by (intro signed_take_bit_int_eq_self)
  then show ?thesis by (simp add: sint_uint)
qed

lemma sint_uminus_small:
  assumes "unat (w :: 64 word) < 2 ^ 63"
  shows "sint (- w) = - int (unat w)"
proof -
  have "signed_take_bit 63 (- int (unat w)) = - int (unat w)"
  proof (rule signed_take_bit_int_eq_self)
    have "int (unat w) < int (2 ^ 63)" using assms by (simp only: of_nat_less_iff)
    then show "- (2 ^ 63) \<le> - int (unat w)" by simp
    have "0 \<le> int (unat w)" by (rule of_nat_0_le_iff)
    then show "- int (unat w) < 2 ^ 63" by (rule le_less_trans [OF iffD2 [OF neg_le_0_iff_le]]) simp
  qed
  then show ?thesis using sint_small [OF assms] by (simp add: sint_word_ariths)
qed

lemma sint_diff_small:
  assumes "unat (x :: 64 word) < 2 ^ 63" and "unat y < 2 ^ 63"
  shows "sint (x - y) = int (unat x) - int (unat y)"
proof -
  have "int (unat x) < int (2 ^ 63)" "int (unat y) < int (2 ^ 63)" using assms by (simp_all only: of_nat_less_iff)
  then have "uint x < 2 ^ 63" "uint y < 2 ^ 63" by simp_all
  moreover have "signed_take_bit 63 (i - j) = i - j" if "0 \<le> i" "i < 2 ^ 63" "0 \<le> j" "j < 2 ^ 63" for i j :: int
    using that by (intro signed_take_bit_int_eq_self) simp_all
  ultimately have "signed_take_bit 63 (uint x - uint y) = uint x - uint y" using uint_nonnegative [of x] uint_nonnegative [of y] by blast
  then show ?thesis using sint_small [OF assms(1)] sint_small [OF assms(2)] by (simp add: sint_word_ariths)
qed

text \<open>A window that holds a stretch of addresses.\<close>

definition holds_stretch :: "nat \<Rightarrow> nat \<Rightarrow> window \<Rightarrow> bool" where
  "holds_stretch a b w \<longleftrightarrow> unat (w_base w) \<le> a \<and> a \<le> b \<and> b \<le> unat (w_limit w) \<and> unat (w_limit w) < 2 ^ 63"

text \<open>
  A fixed resource beside the stretch: below it, and with less room below itself in the window
  than from its end to the end of the stretch; or above it, and with no more room above itself
  than from the start of the stretch to its own.
\<close>

definition beside :: "window \<Rightarrow> nat \<Rightarrow> nat \<Rightarrow> resource \<Rightarrow> bool" where
  "beside w a b r \<longleftrightarrow> res_stop r < 2 ^ 63 \<and>
     (res_stop r \<le> a \<and> unat (res_base r) + res_stop r \<le> unat (w_base w) + b \<or>
      b < unat (res_base r) \<and> unat (w_limit w) + a < unat (res_base r) + res_stop r)"

lemma constrain_window_free:
  assumes "beside w0 a b r" and "res_size r \<noteq> 0" and "holds_stretch a b w" and "inside w w0"
  shows "holds_stretch a b (constrain_window r w) \<and> inside (constrain_window r w) w \<and> free_of r (constrain_window r w)"
proof -
  define b' e lo hi where "b' = unat (res_base r)" and "e = res_stop r - 1" and "lo = unat (w_base w)" and "hi = unat (w_limit w)"
  have sz: "0 < unat (res_size r)" using assms(2) by (simp add: unat_gt_0)
  have s63: "res_stop r < 2 ^ 63" using assms(1) by (simp add: beside_def)
  have szm: "unat (res_size r - 1) = unat (res_size r) - 1" using sz by (subst unat_sub_nowrap) auto
  have last: "res_base r + res_size r - 1 = res_base r + (res_size r - 1)" by simp
  have e: "unat (res_base r + res_size r - 1) = e"
    unfolding last e_def res_stop_def using s63 sz szm by (subst unat_add_nowrap) (auto simp: res_stop_def)
  have nx: "unat (res_base r + res_size r) = res_stop r"
    using s63 by (subst unat_add_nowrap) (auto simp: res_stop_def)
  have bounds: "lo \<le> a" "a \<le> b" "b \<le> hi" "hi < 2 ^ 63" "b' \<le> e" "e + 1 = res_stop r" "unat (w_base w0) \<le> lo" "hi \<le> unat (w_limit w0)"
    using assms(3,4) sz by (auto simp: holds_stretch_def inside_def word_le_nat_alt hi_def lo_def b'_def e_def res_stop_def)
  then have small: "lo < 2 ^ 63" "b' < 2 ^ 63" "e < 2 ^ 63" using s63 by linarith+
  have above: "sint (w_limit w - (res_base r + res_size r - 1)) = int hi - int e"
    using small(3) bounds(4) by (subst sint_diff_small) (simp_all add: hi_def e)
  have below: "sint (res_base r - w_base w) = int b' - int lo"
    using small by (subst sint_diff_small) (simp_all add: b'_def lo_def)
  show ?thesis
  proof (cases "e < lo \<or> hi < b'")
    case True
    then have "constrain_window r w = w"
      by (auto simp: constrain_window_def word_less_nat_alt e b'_def lo_def hi_def)
    moreover have "free_of r w" using True bounds(6) by (auto simp: free_of_def b'_def lo_def hi_def)
    ultimately show ?thesis using assms(3) by simp
  next
    case False
    then have c: "\<not> (res_base r + res_size r - 1 < w_base w \<or> res_base r > w_limit w)"
      by (simp add: word_less_nat_alt e b'_def lo_def hi_def)
    from assms(1) consider (low) "res_stop r \<le> a" "b' + res_stop r \<le> unat (w_base w0) + b"
      | (high) "b < b'" "unat (w_limit w0) + a < b' + res_stop r"
      unfolding beside_def b'_def by blast
    then show ?thesis
    proof cases
      case low
      then have "int b' - int lo < int hi - int e" using bounds by linarith
      then have cw: "constrain_window r w = w\<lparr>w_base := res_base r + res_size r\<rparr>"
        using c by (simp add: constrain_window_def above below)
      show ?thesis
        unfolding cw using bounds False low assms(3) nx
        by (simp add: holds_stretch_def inside_def free_of_def word_le_nat_alt lo_def)
    next
      case high
      then have "\<not> int b' - int lo < int hi - int e" using bounds by linarith
      then have cw: "constrain_window r w = w\<lparr>w_limit := res_base r - 1\<rparr>"
        using c by (simp add: constrain_window_def above below)
      have "unat (res_base r - 1) = b' - 1" using high(1) by (subst unat_sub_nowrap) (auto simp: b'_def)
      then show ?thesis
        unfolding cw using bounds False high(1) assms(3)
        by (auto simp: holds_stretch_def inside_def free_of_def word_le_nat_alt hi_def b'_def)
    qed
  qed
qed

section \<open>The window of a type\<close>

definition window_for :: "u32 \<Rightarrow> constraints \<Rightarrow> window" where
  "window_for ty c = (if ty = IORESOURCE_MEM then c_mem c else c_io c)"

abbreviation io_or_mem :: "u32 \<Rightarrow> bool" where
  "io_or_mem ty \<equiv> ty = IORESOURCE_IO \<or> ty = IORESOURCE_MEM"

lemma io_not_mem: "IORESOURCE_IO \<noteq> IORESOURCE_MEM"
  by (simp add: IORESOURCE_IO_def IORESOURCE_MEM_def)

lemma window_resource_limit:
  "io_or_mem ty \<Longrightarrow> window_for ty (resource_limit r f c) = (if resource_is r ty then f (window_for ty c) else window_for ty c)"
  using io_not_mem by (auto simp: window_for_def resource_limit_def resource_is_def)

definition obstacle :: "store \<Rightarrow> u32 \<Rightarrow> rid \<Rightarrow> bool" where
  "obstacle rs ty f \<longleftrightarrow> res_flags (rs f) AND IORESOURCE_FIXED \<noteq> 0 \<and> resource_is (rs f) ty \<and> res_size (rs f) \<noteq> 0"

definition movable :: "store \<Rightarrow> u32 \<Rightarrow> rid \<Rightarrow> bool" where
  "movable rs ty r \<longleftrightarrow> res_flags (rs r) AND IORESOURCE_FIXED = 0 \<and> resource_is (rs r) ty"

lemma window_constrain_one:
  "io_or_mem ty \<Longrightarrow> window_for ty (constrain_one (rs f) c) = (if obstacle rs ty f then constrain_window (rs f) (window_for ty c) else window_for ty c)"
  by (auto simp: constrain_one_def window_resource_limit obstacle_def)

lemma constrain_fold_free:
  assumes "io_or_mem ty" and "\<forall>f\<in>set fs. obstacle rs ty f \<longrightarrow> beside w0 a b (rs f)"
    and "holds_stretch a b (window_for ty c)" and "inside (window_for ty c) w0"
  shows "holds_stretch a b (window_for ty (fold (\<lambda>r. constrain_one (rs r)) fs c)) \<and>
    inside (window_for ty (fold (\<lambda>r. constrain_one (rs r)) fs c)) (window_for ty c) \<and>
    (\<forall>f\<in>set fs. obstacle rs ty f \<longrightarrow> free_of (rs f) (window_for ty (fold (\<lambda>r. constrain_one (rs r)) fs c)))"
  using assms(2-4)
proof (induction fs arbitrary: c)
  case (Cons f fs)
  define w where "w = window_for ty (constrain_one (rs f) c)"
  have w: "holds_stretch a b w" "inside w (window_for ty c)" "obstacle rs ty f \<longrightarrow> free_of (rs f) w"
    using constrain_window_free [of w0 a b "rs f" "window_for ty c"] Cons.prems
    by (auto simp: w_def window_constrain_one [OF assms(1)] obstacle_def)
  have "inside w w0" using w(2) Cons.prems(3) by (rule inside_trans)
  then have "holds_stretch a b (window_for ty (fold (\<lambda>r. constrain_one (rs r)) fs (constrain_one (rs f) c))) \<and>
      inside (window_for ty (fold (\<lambda>r. constrain_one (rs r)) fs (constrain_one (rs f) c))) w \<and>
      (\<forall>q\<in>set fs. obstacle rs ty q \<longrightarrow> free_of (rs q) (window_for ty (fold (\<lambda>r. constrain_one (rs r)) fs (constrain_one (rs f) c))))"
    using Cons.IH [of "constrain_one (rs f) c"] Cons.prems(1) w(1) by (simp add: w_def)
  then show ?case
    using w inside_trans [of _ w "window_for ty c"] free_of_inside [of "rs f" w] by simp
qed simp

lemma narrow_fold:
  fixes rs :: store
  assumes "io_or_mem ty"
  defines "step \<equiv> \<lambda>r limits. if res_flags (rs r) AND IORESOURCE_FIXED \<noteq> 0 then limits else resource_limit (rs r) (narrow (rs r)) limits"
  shows "(\<forall>r\<in>set xs. movable rs ty r \<longrightarrow> res_base (rs r) \<le> w_base (window_for ty (fold step xs c)) \<and> w_limit (window_for ty (fold step xs c)) \<le> res_limit (rs r)) \<and>
    (w_base (window_for ty (fold step xs c)) = w_base (window_for ty c) \<or> (\<exists>r\<in>set xs. movable rs ty r \<and> w_base (window_for ty (fold step xs c)) = res_base (rs r))) \<and>
    (w_limit (window_for ty (fold step xs c)) = w_limit (window_for ty c) \<or> (\<exists>r\<in>set xs. movable rs ty r \<and> w_limit (window_for ty (fold step xs c)) = res_limit (rs r))) \<and>
    inside (window_for ty (fold step xs c)) (window_for ty c)"
proof (induction xs arbitrary: c)
  case (Cons r xs)
  have st: "window_for ty (step r c) = (if movable rs ty r then narrow (rs r) (window_for ty c) else window_for ty c)"
    by (simp add: step_def window_resource_limit [OF assms(1)] movable_def)
  have nw: "w_base (narrow q w) = max (w_base w) (res_base q)" "w_limit (narrow q w) = min (w_limit w) (res_limit q)" for q w
    by (auto simp: narrow_def Let_def max_def min_def)
  show ?case
    using Cons.IH [of "step r c"] unfolding inside_def st
    by (cases "movable rs ty r") (auto simp: nw max_def min_def split: if_splits)
qed simp

lemma domain_inside:
  assumes "io_or_mem ty" and "r \<in> set (d_resources d)" and "movable rs ty r"
  shows "res_base (rs r) \<le> w_base (window_for ty (domain_limits rs d)) \<and> w_limit (window_for ty (domain_limits rs d)) \<le> res_limit (rs r)"
  using narrow_fold [OF assms(1), of "d_resources d" rs, THEN conjunct1] assms(2,3)
  by (simp add: domain_limits_def)

lemma fold_update:
  "distinct xs \<Longrightarrow> fold (\<lambda>r s. s(r := g (s r))) xs s r = (if r \<in> set xs then g (s r) else s r)"
  by (induction xs arbitrary: s) auto

lemma avoid_fixed_resources_at:
  assumes "distinct (d_resources d)" and "r \<in> set (d_resources d)" and "io_or_mem ty" and "movable rs ty r"
  shows "avoid_fixed_resources d rs r = apply_window (window_for ty (constrain_resources rs d (domain_limits rs d))) (rs r)"
proof -
  define limits where "limits = constrain_resources rs d (domain_limits rs d)"
  define g where "g x = (if res_flags x AND IORESOURCE_FIXED \<noteq> 0 then x
    else if resource_is x IORESOURCE_MEM then apply_window (c_mem limits) x
    else if resource_is x IORESOURCE_IO then apply_window (c_io limits) x else x)" for x
  have "avoid_fixed_resources d rs = fold (\<lambda>r s. s(r := g (s r))) (d_resources d) rs"
    unfolding avoid_fixed_resources_def limits_def [symmetric] Let_def
    by (intro fold_cong_state refl) (simp add: g_def)
  then have "avoid_fixed_resources d rs r = g (rs r)" using assms(2) by (simp add: fold_update [OF assms(1)])
  then show ?thesis using assms(3,4) io_not_mem by (auto simp: g_def window_for_def resource_is_def movable_def limits_def)
qed

lemma io_bits: "x AND IORESOURCE_TYPE_MASK = IORESOURCE_IO \<Longrightarrow> x AND IORESOURCE_MEM = 0"
proof -
  assume x: "x AND IORESOURCE_TYPE_MASK = IORESOURCE_IO"
  have "x AND IORESOURCE_MEM = (x AND IORESOURCE_TYPE_MASK) AND IORESOURCE_MEM"
    by (simp add: and.assoc IORESOURCE_TYPE_MASK_def IORESOURCE_MEM_def)
  then show ?thesis by (simp add: x) (simp add: IORESOURCE_IO_def IORESOURCE_MEM_def)
qed

lemma mem_bits: "x AND IORESOURCE_TYPE_MASK = IORESOURCE_MEM \<Longrightarrow> x AND IORESOURCE_MEM \<noteq> 0"
proof -
  assume x: "x AND IORESOURCE_TYPE_MASK = IORESOURCE_MEM"
  have "x AND IORESOURCE_MEM = (x AND IORESOURCE_TYPE_MASK) AND IORESOURCE_MEM"
    by (simp add: and.assoc IORESOURCE_TYPE_MASK_def IORESOURCE_MEM_def)
  then show ?thesis by (simp add: x) (simp add: IORESOURCE_MEM_def)
qed

lemma apply_window_at:
  assumes "io_or_mem ty" and "resource_is r ty" and "res_base r \<le> w_base w" and "w_limit w \<le> res_limit r"
  shows "res_limit (apply_window w r) = w_limit w \<and>
    (ty = IORESOURCE_IO \<longrightarrow> res_base (apply_window w r) = w_base w) \<and>
    (ty = IORESOURCE_MEM \<longrightarrow> res_base (apply_window w r) = resource_max (apply_window w r))"
proof -
  have "res_flags r AND IORESOURCE_MEM = 0 \<longleftrightarrow> ty = IORESOURCE_IO"
    using assms(1,2) io_bits mem_bits by (auto simp: resource_is_def)
  then show ?thesis
    using assms(3,4) io_not_mem by (auto simp: apply_window_def Let_def resource_max_def)
qed

section \<open>Properties\<close>

text \<open>The memory window's new base: the highest aligned address with room for the resource up to the limit.\<close>

lemma resource_max_room:
  assumes "unat (res_limit r) < 2 ^ 63" and "a + unat (res_size r) + 2 ^ unat (res_align r) \<le> unat (res_limit r) + 2"
  shows "a \<le> unat (resource_max r)" and "unat (resource_max r) + unat (res_size r) \<le> unat (res_limit r) + 1"
    and "2 ^ unat (res_align r) dvd unat (resource_max r)"
proof -
  define k x where "k = unat (res_align r)" and "x = res_limit r - res_size r + 1"
  have "(1 :: nat) \<le> 2 ^ k" by simp
  then have sz: "unat (res_size r) \<le> unat (res_limit r) + 1" using assms(2) unfolding k_def [symmetric] by linarith
  have x: "unat x = unat (res_limit r) + 1 - unat (res_size r)"
  proof -
    have "unat (res_limit r + 1) = unat (res_limit r) + 1" using assms(1) by (subst unat_add_nowrap) auto
    moreover have "x = res_limit r + 1 - res_size r" by (simp add: x_def)
    ultimately show ?thesis using sz by (simp add: unat_sub_nowrap)
  qed
  have m: "unat (resource_max r) = unat x - unat x mod 2 ^ k"
    using unat_and_not_mask [of x k] by (simp add: resource_max_def Let_def k_def x_def mask_eq_exp_minus_1 push_bit_eq_mult)
  show "2 ^ unat (res_align r) dvd unat (resource_max r)" unfolding m k_def [symmetric] by (rule dvd_minus_mod)
  show "unat (resource_max r) + unat (res_size r) \<le> unat (res_limit r) + 1" unfolding m using x sz by linarith
  have "unat x mod 2 ^ k < 2 ^ k" by simp
  then show "a \<le> unat (resource_max r)" unfolding m using x sz assms(2) [folded k_def] by linarith
qed

text \<open>
  C16: Let a stretch of addresses in a domain's port or memory window be free of fixed resources,
  large enough that at every fixed resource the room on the side of the stretch is the larger one,
  and, for memory, that the aligned resource fits in. Then the window of the domain that the
  avoidance leaves is clear of every fixed resource of the enabled devices below the domain, lies
  inside the old one and reaches up to the end of the stretch; a port window also starts no later
  than the stretch, and a memory window starts at an aligned address with room for the resource.
\<close>

theorem fixed_resources_avoided:
  assumes "distinct (d_resources d)" and "r \<in> set (d_resources d)" and "io_or_mem ty" and "movable rs ty r"
    and "holds_stretch a b (window_for ty (domain_limits rs d))"
    and "\<forall>f\<in>set (tree_resources d). obstacle rs ty f \<longrightarrow> beside (window_for ty (domain_limits rs d)) a b (rs f)"
    and "ty = IORESOURCE_MEM \<longrightarrow> a + unat (res_size (rs r)) + 2 ^ unat (res_align (rs r)) \<le> b + 2"
  shows "let r' = avoid_fixed_resources d rs r in
    (\<forall>f\<in>set (tree_resources d). obstacle rs ty f \<longrightarrow>
       res_stop (rs f) \<le> unat (res_base r') \<or> unat (res_limit r') < unat (res_base (rs f))) \<and>
    res_base (rs r) \<le> res_base r' \<and> res_limit r' \<le> res_limit (rs r) \<and> b \<le> unat (res_limit r') \<and>
    (ty = IORESOURCE_IO \<longrightarrow> unat (res_base r') \<le> a) \<and>
    (ty = IORESOURCE_MEM \<longrightarrow> 2 ^ unat (res_align (rs r)) dvd unat (res_base r') \<and>
       unat (res_base r') + unat (res_size (rs r)) \<le> unat (res_limit r') + 1)"
proof -
  define w r' where "w = window_for ty (constrain_resources rs d (domain_limits rs d))" and "r' = avoid_fixed_resources d rs r"
  have w: "holds_stretch a b w" "inside w (window_for ty (domain_limits rs d))"
      "\<forall>f\<in>set (tree_resources d). obstacle rs ty f \<longrightarrow> free_of (rs f) w"
    using constrain_fold_free [OF assms(3,6,5)] by (simp_all add: w_def constrain_resources_fold)
  then have r: "res_base (rs r) \<le> w_base w" "w_limit w \<le> res_limit (rs r)"
    using domain_inside [OF assms(3,2,4)] by (auto simp: inside_def)
  have is_ty: "resource_is (rs r) ty" using assms(4) by (simp add: movable_def)
  have r': "r' = apply_window w (rs r)" using avoid_fixed_resources_at [OF assms(1-4)] by (simp add: r'_def w_def)
  note at = apply_window_at [OF assms(3) is_ty r, folded r']
  have same: "res_size r' = res_size (rs r)" "res_align r' = res_align (rs r)" by (simp_all add: r' apply_window_def Let_def)
  have st: "unat (w_base w) \<le> a" "b \<le> unat (w_limit w)" "unat (w_limit w) < 2 ^ 63" using w(1) by (simp_all add: holds_stretch_def)
  have mem: "a \<le> unat (res_base r')" "unat (res_base r') + unat (res_size (rs r)) \<le> unat (res_limit r') + 1"
      "2 ^ unat (res_align (rs r)) dvd unat (res_base r')" if "ty = IORESOURCE_MEM"
    using resource_max_room [of r' a] at st assms(7) that by (simp_all add: same)
  have base: "w_base w \<le> res_base r'"
    using assms(3) at st(1) mem(1) by (auto simp: word_le_nat_alt)
  have "free_of (rs f) w \<Longrightarrow> res_stop (rs f) \<le> unat (res_base r') \<or> unat (res_limit r') < unat (res_base (rs f))" for f
    using base at by (auto simp: free_of_def word_le_nat_alt)
  moreover have "res_base (rs r) \<le> res_base r'" using r(1) base by (rule order_trans)
  ultimately show ?thesis
    unfolding Let_def r'_def [symmetric] using w(3) at r(2) st mem(2,3) by auto
qed

text \<open>A domain with a port window and a memory window, and a device with fixed ports and fixed memory.\<close>

definition ex_domain :: dev where
  "ex_domain = Dev True 6 [0, 1] [Bus 0 [Dev True 2 [2, 3] [], Dev False 2 [4] []]]"

definition ex_fixed :: "resource_t \<Rightarrow> resource_t \<Rightarrow> resource_t \<Rightarrow> u32 \<Rightarrow> resource" where
  "ex_fixed b sz l fl = \<lparr>res_base = b, res_size = sz, res_limit = l, res_flags = fl, res_index = 0, res_align = 12, res_gran = 12\<rparr>"

definition ex_domain_store :: store where
  "ex_domain_store r = (if r = 0 then ex_fixed 0 0x2000 0xffff 0x100
     else if r = 1 then ex_fixed 0 0x100000 0xffffffff 0x200
     else if r = 2 then ex_fixed 0 0x1000 0 0x80000100
     else ex_fixed 0xfec00000 0x1000 0 0x80000200)"

theorem fixed_resources_avoided_witness:
  "res_stop (ex_domain_store 2) \<le> unat (res_base (avoid_fixed_resources ex_domain ex_domain_store 0)) \<and>
   unat (res_limit (avoid_fixed_resources ex_domain ex_domain_store 1)) < unat (res_base (ex_domain_store 3))"
proof -
  note ex = ex_domain_def ex_domain_store_def ex_fixed_def movable_def obstacle_def beside_def res_stop_def resource_is_def
    IORESOURCE_IO_def IORESOURCE_MEM_def IORESOURCE_FIXED_def IORESOURCE_TYPE_MASK_def tree_resources.simps holds_stretch_def
  have "window_for IORESOURCE_IO (domain_limits ex_domain_store ex_domain) = \<lparr>w_base = 0, w_limit = 0xffff\<rparr>"
    and "window_for IORESOURCE_MEM (domain_limits ex_domain_store ex_domain) = \<lparr>w_base = 0, w_limit = 0xffffffff\<rparr>"
    by code_simp+
  note win = this
  note io = fixed_resources_avoided [of ex_domain 0 IORESOURCE_IO ex_domain_store "0x1000" "0xffff", unfolded Let_def]
  note mem = fixed_resources_avoided [of ex_domain 1 IORESOURCE_MEM ex_domain_store 0 "0xfebfffff", unfolded Let_def]
  have fixed: "2 \<in> set (tree_resources ex_domain)" "3 \<in> set (tree_resources ex_domain)"
    "obstacle ex_domain_store IORESOURCE_IO 2" "obstacle ex_domain_store IORESOURCE_MEM 3" by (simp_all add: ex)
  have "res_stop (ex_domain_store 2) \<le> unat (res_base (avoid_fixed_resources ex_domain ex_domain_store 0)) \<or>
      unat (res_limit (avoid_fixed_resources ex_domain ex_domain_store 0)) < unat (res_base (ex_domain_store 2))"
    using io fixed(1,3) unfolding win by (simp add: ex)
  moreover have "res_stop (ex_domain_store 3) \<le> unat (res_base (avoid_fixed_resources ex_domain ex_domain_store 1)) \<or>
      unat (res_limit (avoid_fixed_resources ex_domain ex_domain_store 1)) < unat (res_base (ex_domain_store 3))"
    using mem fixed(2,4) unfolding win by (simp add: ex)
  moreover have "res_base (avoid_fixed_resources ex_domain ex_domain_store 1) = 0xfeb00000" by code_simp
  ultimately show ?thesis by (simp add: ex)
qed

text \<open>
  C36: A fixed memory resource of a child that starts at zero and ends beyond the domain's memory
  window is not avoided: no room is left above it, and cutting the window below it subtracts one
  from zero, so the new limit is the largest address. The window keeps its limit and starts
  inside the fixed resource.
\<close>

theorem fixed_resource_at_zero_not_avoided:
  assumes "d = Dev en ty [r] [Bus n [Dev True ty' [f] []]]"
    and "obstacle rs IORESOURCE_MEM f" and "res_base (rs f) = 0" and "res_stop (rs f) < 2 ^ 63"
    and "movable rs IORESOURCE_MEM r" and "res_base (rs r) = 0" and "unat (res_limit (rs r)) < res_stop (rs f)"
    and "res_size (rs r) \<noteq> 0" and "res_size (rs r) - 1 \<le> res_limit (rs r)"
  shows "c_mem (constrain_resources rs d (domain_limits rs d)) = \<lparr>w_base = 0, w_limit = -1\<rparr> \<and>
    res_limit (avoid_fixed_resources d rs r) = res_limit (rs r) \<and>
    unat (res_base (avoid_fixed_resources d rs r)) < res_stop (rs f)"
proof -
  have mem: "io_or_mem IORESOURCE_MEM" by simp
  have win: "window_for IORESOURCE_MEM c = c_mem c" for c by (simp add: window_for_def)
  have dom: "c_mem (domain_limits rs d) = \<lparr>w_base = 0, w_limit = res_limit (rs r)\<rparr>"
    using assms(5,6) by (simp add: assms(1) domain_limits_def movable_def resource_limit_def narrow_def Let_def
        word_order.not_eq_extremum [symmetric])
  have movf: "\<not> obstacle rs IORESOURCE_MEM r" using assms(5) by (simp add: movable_def obstacle_def)
  have "constrain_resources rs d (domain_limits rs d) = constrain_one (rs f) (constrain_one (rs r) (domain_limits rs d))"
    by (simp add: constrain_resources_fold assms(1) tree_resources.simps)
  then have con: "c_mem (constrain_resources rs d (domain_limits rs d)) = constrain_window (rs f) (c_mem (domain_limits rs d))"
    using window_constrain_one [OF mem] movf assms(2) by (simp add: win)
  have sz: "0 < unat (res_size (rs f))" using assms(2) by (simp add: obstacle_def unat_gt_0)
  define e where "e = res_size (rs f) - 1"
  have e: "unat e = res_stop (rs f) - 1" unfolding e_def res_stop_def using sz assms(3) by (subst unat_sub_nowrap) auto
  then have le: "res_limit (rs r) \<le> e" "unat e < 2 ^ 63" using assms(4,7) by (simp_all add: word_le_nat_alt)
  have "unat (e - res_limit (rs r)) = unat e - unat (res_limit (rs r))"
    using le(1) by (subst unat_sub_nowrap) (auto simp: word_le_nat_alt)
  then have "sint (- (e - res_limit (rs r))) \<le> 0"
    using sint_uminus_small [of "e - res_limit (rs r)"] le(2) by simp
  then have cw: "constrain_window (rs f) \<lparr>w_base = 0, w_limit = res_limit (rs r)\<rparr> = \<lparr>w_base = 0, w_limit = -1\<rparr>"
    using assms(3) by (simp add: constrain_window_def e_def)
  define lim where "lim = \<lparr>w_base = (0 :: resource_t), w_limit = (-1 :: resource_t)\<rparr>"
  have r': "avoid_fixed_resources d rs r = apply_window lim (rs r)"
    using avoid_fixed_resources_at [OF _ _ mem assms(5), of d] by (simp add: win con dom cw lim_def) (simp add: assms(1))
  have "res_base (rs r) \<le> w_base lim" "\<not> res_limit (rs r) > w_limit lim"
    using assms(6) by (simp_all add: lim_def)
  have bit: "res_flags (rs r) AND IORESOURCE_MEM \<noteq> 0"
    using assms(5) mem_bits by (simp add: movable_def resource_is_def)
  have "apply_window lim (rs r) = (rs r)\<lparr>res_base := resource_max (rs r)\<rparr>"
    using bit by (simp add: apply_window_def lim_def Let_def)
  moreover have "unat (resource_max (rs r)) < res_stop (rs f)"
  proof -
    have "res_limit (rs r) - (res_size (rs r) - 1) = res_limit (rs r) - res_size (rs r) + 1" by simp
    then have "resource_max (rs r) \<le> res_limit (rs r) - (res_size (rs r) - 1)"
      by (simp only: resource_max_def Let_def word_and_le2)
    also have "\<dots> \<le> res_limit (rs r)" using assms(9) by (rule word_sub_le)
    finally show ?thesis using assms(7) by (simp add: word_le_nat_alt)
  qed
  ultimately show ?thesis by (simp add: con dom cw r')
qed

theorem fixed_resource_at_zero_not_avoided_witness:
  "res_limit (avoid_fixed_resources (Dev True 6 [1] [Bus 0 [Dev True 2 [2] []]])
     ((\<lambda>_. ex_fixed 0 0x100000000 0 0x80000200)(1 := ex_fixed 0 0x100000 0xffffffff 0x200)) 1) = 0xffffffff"
proof -
  have "res_limit (((\<lambda>_. ex_fixed 0 0x100000000 0 0x80000200)(1 := ex_fixed 0 0x100000 0xffffffff 0x200)) (1 :: rid)) = 0xffffffff"
    by (simp add: ex_fixed_def)
  then show ?thesis
    using fixed_resource_at_zero_not_avoided [OF refl, where r = 1 and f = 2
        and rs = "(\<lambda>_. ex_fixed 0 0x100000000 0 0x80000200)(1 := ex_fixed 0 0x100000 0xffffffff 0x200)"]
    by (simp add: ex_fixed_def movable_def obstacle_def res_stop_def resource_is_def
        IORESOURCE_MEM_def IORESOURCE_FIXED_def IORESOURCE_TYPE_MASK_def)
qed

end
