(* ===== verification/Cmos.thy ===== *)
theory Cmos
  imports Memory "HOL-Library.Signed_Division"
begin

text \<open>
  The battery-backed memory of the real-time clock: the port accessors of
  \<^verbatim>\<open>src/include/pc80/mc146818rtc.h\<close>, and the options, checksums and clock of
  \<^verbatim>\<open>src/drivers/pc80/rtc/mc146818rtc.c\<close>. The chip is storage behind index and data ports;
  its clock does not tick during an operation, except while \<open>wait_uip\<close> polls it. The option
  table lies in the flat memory; what finds it in CBFS is a parameter.
\<close>

section \<open>The ports\<close>

text \<open>The byte at an index of the bank selected by an index port.\<close>

type_synonym nvram = "u16 \<Rightarrow> u8 \<Rightarrow> u8"

definition RTC_BASE_PORT :: u16 where "RTC_BASE_PORT = 0x70"
definition RTC_REG_A :: u8 where "RTC_REG_A = 10"
definition RTC_CONTROL :: u8 where "RTC_CONTROL = 11"
definition RTC_INTR_FLAGS :: u8 where "RTC_INTR_FLAGS = 12"
definition RTC_VALID :: u8 where "RTC_VALID = 13"
definition RTC_SET :: u8 where "RTC_SET = 0x80"
definition RTC_UIP :: u8 where "RTC_UIP = 0x80"
definition RTC_VRT :: u8 where "RTC_VRT = 0x80"
definition RTC_BOOT_NORMAL :: u8 where "RTC_BOOT_NORMAL = 1"
definition RTC_CLK_SECOND :: u8 where "RTC_CLK_SECOND = 0"
definition RTC_CLK_MINUTE :: u8 where "RTC_CLK_MINUTE = 2"
definition RTC_CLK_HOUR :: u8 where "RTC_CLK_HOUR = 4"
definition RTC_CLK_DAYOFWEEK :: u8 where "RTC_CLK_DAYOFWEEK = 6"
definition RTC_CLK_DAYOFMONTH :: u8 where "RTC_CLK_DAYOFMONTH = 7"
definition RTC_CLK_MONTH :: u8 where "RTC_CLK_MONTH = 8"
definition RTC_CLK_YEAR :: u8 where "RTC_CLK_YEAR = 9"
definition RTC_CLK_ALTCENTURY :: u8 where "RTC_CLK_ALTCENTURY = 0x32"
definition RTC_CONTROL_DEFAULT :: u8 where "RTC_CONTROL_DEFAULT = 2"
definition RTC_FREQ_SELECT_DEFAULT :: u8 where "RTC_FREQ_SELECT_DEFAULT = 0x20 OR 0x06"

lemmas rtc_registers = RTC_REG_A_def RTC_CONTROL_def RTC_INTR_FLAGS_def RTC_VALID_def
  RTC_CLK_SECOND_def RTC_CLK_MINUTE_def RTC_CLK_HOUR_def RTC_CLK_DAYOFWEEK_def
  RTC_CLK_DAYOFMONTH_def RTC_CLK_MONTH_def RTC_CLK_YEAR_def RTC_CLK_ALTCENTURY_def

definition cmos_read :: "nvram \<Rightarrow> u8 \<Rightarrow> u8" where
  "cmos_read c addr =
     (let (offs, addr) = (if addr \<ge> 128 then (2, addr - 128) else (0, addr))
      in c (RTC_BASE_PORT + offs) addr)"

definition cmos_write_inner :: "u8 \<Rightarrow> u8 \<Rightarrow> nvram \<Rightarrow> nvram" where
  "cmos_write_inner val addr c =
     (let (offs, addr) = (if addr \<ge> 128 then (2, addr - 128) else (0, addr))
      in c(RTC_BASE_PORT + offs := (c (RTC_BASE_PORT + offs))(addr := val)))"

text \<open>Writing stops the clock, unless it is stopped already or the control register is written.\<close>

definition cmos_write :: "u8 \<Rightarrow> u8 \<Rightarrow> nvram \<Rightarrow> nvram" where
  "cmos_write val addr c =
     (let control_state = cmos_read c RTC_CONTROL;
          c = (if addr \<noteq> RTC_CONTROL \<and> control_state AND RTC_SET = 0
               then cmos_write_inner (control_state OR RTC_SET) RTC_CONTROL c else c);
          c = cmos_write_inner val addr c
      in if addr \<noteq> RTC_CONTROL \<and> control_state AND RTC_SET = 0
         then cmos_write_inner control_state RTC_CONTROL c else c)"

definition cmos_disable_rtc :: "nvram \<Rightarrow> nvram" where
  "cmos_disable_rtc c = cmos_write (cmos_read c RTC_CONTROL OR RTC_SET) RTC_CONTROL c"

definition cmos_enable_rtc :: "nvram \<Rightarrow> nvram" where
  "cmos_enable_rtc c = cmos_write (cmos_read c RTC_CONTROL AND NOT RTC_SET) RTC_CONTROL c"

lemma cmos_read_write_inner [simp]:
  "cmos_read (cmos_write_inner val a c) b = (if a = b then val else cmos_read c b)"
  by (auto simp: cmos_read_def cmos_write_inner_def RTC_BASE_PORT_def)

text \<open>Whatever happens to the clock in between, a write changes the byte it names and nothing else.\<close>

lemma cmos_read_write [simp]: "cmos_read (cmos_write val a c) b = (if a = b then val else cmos_read c b)"
  by (auto simp: cmos_write_def Let_def)

section \<open>Configuration\<close>

text \<open>
  The \<^verbatim>\<open>CONFIG_\<close> switches and the constants of the generated \<^verbatim>\<open>option_table.h\<close>.
\<close>

record cmos_config =
  use_option_table :: bool
  static_option_table :: bool
  lb_cks_range_start :: int
  lb_cks_range_end :: int
  lb_cks_loc :: int

definition PC_CKS_RANGE_START :: int where "PC_CKS_RANGE_START = 16"
definition PC_CKS_RANGE_END :: int where "PC_CKS_RANGE_END = 45"
definition PC_CKS_LOC :: int where "PC_CKS_LOC = 46"

datatype cb_err = CB_SUCCESS | CB_ERR_ARG | CB_CMOS_OTABLE_DISABLED | CB_CMOS_LAYOUT_NOT_FOUND |
  CB_CMOS_OPTION_NOT_FOUND | CB_CMOS_ACCESS_ERROR | CB_CMOS_CHECKSUM_INVALID

section \<open>Checksums\<close>

definition cmos_sum :: "nvram \<Rightarrow> int \<Rightarrow> int \<Rightarrow> u16" where
  "cmos_sum c range_start range_end =
     fold (\<lambda>i sum. sum + ucast (cmos_read c (word_of_int i))) [range_start..range_end] 0"

definition cmos_stored_sum :: "nvram \<Rightarrow> int \<Rightarrow> u16" where
  "cmos_stored_sum c cks_loc =
     push_bit 8 (ucast (cmos_read c (word_of_int cks_loc))) OR ucast (cmos_read c (word_of_int (cks_loc + 1)))"

definition cmos_checksum_valid :: "cmos_config \<Rightarrow> nvram \<Rightarrow> int \<Rightarrow> int \<Rightarrow> int \<Rightarrow> bool" where
  "cmos_checksum_valid cfg c range_start range_end cks_loc \<longleftrightarrow>
     static_option_table cfg \<or> cmos_sum c range_start range_end = cmos_stored_sum c cks_loc"

definition cmos_set_checksum :: "int \<Rightarrow> int \<Rightarrow> int \<Rightarrow> nvram \<Rightarrow> nvram" where
  "cmos_set_checksum range_start range_end cks_loc c =
     (let sum = cmos_sum c range_start range_end;
          c = cmos_write (ucast (drop_bit 8 sum AND 0xff)) (word_of_int cks_loc) c
      in cmos_write (ucast (sum AND 0xff)) (word_of_int (cks_loc + 1)) c)"

section \<open>Option values\<close>

text \<open>
  The number of whole bytes transferred for a value longer than eight bits: the loop subtracts
  eight from an unsigned length until it is zero, which never happens when the length is no
  multiple of eight.
\<close>

partial_function (option) get_cmos_bytes ::
    "nvram \<Rightarrow> ptr \<Rightarrow> u32 \<Rightarrow> u32 \<Rightarrow> u32 \<Rightarrow> mem \<Rightarrow> mem option" where
  "get_cmos_bytes c ret i len byte m =
     (if len = 0 then Some m
      else get_cmos_bytes c ret (i + 1) (len - 8) (byte + 1) (m(ret + i := cmos_read c (ucast byte))))"

definition get_cmos_value :: "nvram \<Rightarrow> u32 \<Rightarrow> u32 \<Rightarrow> ptr \<Rightarrow> mem \<Rightarrow> (cb_err \<times> mem) option" where
  "get_cmos_value c start len ret m =
     (let byte = start div 8; byte_bit = start mod 8 in
      if len < 9 then
        let uchar = drop_bit (unat byte_bit) (cmos_read c (ucast byte))
        in Some (CB_SUCCESS, m(ret := uchar AND ucast (push_bit (unat len) 1 - 1 :: u32)))
      else map_option (\<lambda>m. (CB_SUCCESS, m)) (get_cmos_bytes c ret 0 len byte m))"

definition in_cks_range :: "cmos_config \<Rightarrow> u32 \<Rightarrow> bool" where
  "in_cks_range cfg byte \<longleftrightarrow>
     byte \<ge> word_of_int (lb_cks_range_start cfg) \<and> byte \<le> word_of_int (lb_cks_range_end cfg)"

partial_function (option) set_cmos_bytes ::
    "cmos_config \<Rightarrow> (u32 \<Rightarrow> u8) \<Rightarrow> u32 \<Rightarrow> u32 \<Rightarrow> u32 \<Rightarrow> nvram \<times> bool \<Rightarrow> (nvram \<times> bool) option" where
  "set_cmos_bytes cfg ret i len byte st =
     (if len = 0 then Some st
      else set_cmos_bytes cfg ret (i + 1) (len - 8) (byte + 1)
             (cmos_write (ret i) (ucast byte) (fst st), snd st \<or> in_cks_range cfg byte))"

text \<open>The value is a byte array \<open>ret\<close>. The bits beyond \<open>len\<close> of a short value are not cut off.\<close>

definition set_cmos_value :: "cmos_config \<Rightarrow> u32 \<Rightarrow> u32 \<Rightarrow> (u32 \<Rightarrow> u8) \<Rightarrow> nvram \<Rightarrow> (cb_err \<times> nvram) option" where
  "set_cmos_value cfg start len ret c =
     (let byte = start div 8; byte_bit = start mod 8;
          finish = (\<lambda>(c, chksum_update_needed).
            (CB_SUCCESS, if chksum_update_needed
                         then cmos_set_checksum (lb_cks_range_start cfg) (lb_cks_range_end cfg) (lb_cks_loc cfg) c
                         else c))
      in if len \<le> 8 then
           let mask8 = push_bit (unat byte_bit) (ucast (push_bit (unat len) 1 - 1 :: u32) :: u8);
               uchar = (cmos_read c (ucast byte) AND NOT mask8) OR push_bit (unat byte_bit) (ret 0)
           in Some (finish (cmos_write uchar (ucast byte) c, in_cks_range cfg byte))
         else if byte_bit \<noteq> 0 \<or> len mod 8 \<noteq> 0 then Some (CB_ERR_ARG, c)
         else map_option finish (set_cmos_bytes cfg ret 0 len byte (c, False)))"

section \<open>The option table\<close>

definition LB_TAG_OPTION :: u32 where "LB_TAG_OPTION = 201"
definition CMOS_MAX_NAME_LENGTH :: nat where "CMOS_MAX_NAME_LENGTH = 32"

definition ct_header_length :: "mem \<Rightarrow> ptr \<Rightarrow> u32" where "ct_header_length m ct = load32 m (ct + 8)"

definition ce_tag :: "mem \<Rightarrow> ptr \<Rightarrow> u32" where "ce_tag m ce = load32 m ce"
definition ce_size :: "mem \<Rightarrow> ptr \<Rightarrow> u32" where "ce_size m ce = load32 m (ce + 4)"
definition ce_bit :: "mem \<Rightarrow> ptr \<Rightarrow> u32" where "ce_bit m ce = load32 m (ce + 8)"
definition ce_length :: "mem \<Rightarrow> ptr \<Rightarrow> u32" where "ce_length m ce = load32 m (ce + 12)"
definition ce_config :: "mem \<Rightarrow> ptr \<Rightarrow> u32" where "ce_config m ce = load32 m (ce + 16)"
definition ce_name :: "ptr \<Rightarrow> ptr" where "ce_name ce = ce + 24"

text \<open>\<^verbatim>\<open>strnlen\<close> and \<^verbatim>\<open>strlen\<close> of the C library; a string need not end.\<close>

primrec strnlen :: "mem \<Rightarrow> ptr \<Rightarrow> nat \<Rightarrow> nat" where
  "strnlen m p 0 = 0"
| "strnlen m p (Suc n) = (if m p = 0 then 0 else Suc (strnlen m (p + 1) n))"

partial_function (option) strlen_from :: "mem \<Rightarrow> ptr \<Rightarrow> u32 \<Rightarrow> u32 option" where
  "strlen_from m p n = (if m (p + n) = 0 then Some n else strlen_from m p (n + 1))"

text \<open>The first entry whose name starts with the first \<open>n\<close> bytes of \<open>name\<close>.\<close>

partial_function (option) find_entry :: "mem \<Rightarrow> ptr \<Rightarrow> nat \<Rightarrow> ptr \<Rightarrow> ptr option option" where
  "find_entry m name n ce =
     (if ce_tag m ce \<noteq> LB_TAG_OPTION then Some None
      else if mem_read m (ce_name ce) n = mem_read m name n then Some (Some ce)
      else find_entry m name n (ce + ce_size m ce))"

text \<open>
  \<open>layout\<close> is where \<^verbatim>\<open>locate_cmos_layout\<close> and \<^verbatim>\<open>rdev_mmap_full\<close> find the option table, \<open>None\<close>
  when either fails. The outer option is \<open>None\<close> when a loop does not end.
\<close>

definition locate_entry :: "mem \<Rightarrow> ptr \<Rightarrow> ptr \<Rightarrow> ptr option option" where
  "locate_entry m ct name = find_entry m name (strnlen m name CMOS_MAX_NAME_LENGTH) (ct + ct_header_length m ct)"

definition get_option :: "cmos_config \<Rightarrow> ptr option \<Rightarrow> nvram \<Rightarrow> ptr \<Rightarrow> ptr \<Rightarrow> mem \<Rightarrow> (cb_err \<times> mem) option" where
  "get_option cfg layout c dest name m =
     (if \<not> use_option_table cfg then Some (CB_CMOS_OTABLE_DISABLED, m)
      else case layout of
        None \<Rightarrow> Some (CB_CMOS_LAYOUT_NOT_FOUND, m)
      | Some ct \<Rightarrow>
          (case locate_entry m ct name of
             None \<Rightarrow> None
           | Some None \<Rightarrow> Some (CB_CMOS_OPTION_NOT_FOUND, m)
           | Some (Some ce) \<Rightarrow>
               if \<not> cmos_checksum_valid cfg c (lb_cks_range_start cfg) (lb_cks_range_end cfg) (lb_cks_loc cfg)
               then Some (CB_CMOS_CHECKSUM_INVALID, m)
               else (case get_cmos_value c (ce_bit m ce) (ce_length m ce) dest m of
                       None \<Rightarrow> None
                     | Some (CB_SUCCESS, m) \<Rightarrow> Some (CB_SUCCESS, m)
                     | Some (_, m) \<Rightarrow> Some (CB_CMOS_ACCESS_ERROR, m))))"

definition set_option :: "cmos_config \<Rightarrow> ptr option \<Rightarrow> mem \<Rightarrow> ptr \<Rightarrow> ptr \<Rightarrow> nvram \<Rightarrow> (cb_err \<times> nvram) option" where
  "set_option cfg layout m name val c =
     (if \<not> use_option_table cfg then Some (CB_CMOS_OTABLE_DISABLED, c)
      else case layout of
        None \<Rightarrow> Some (CB_CMOS_LAYOUT_NOT_FOUND, c)
      | Some ct \<Rightarrow>
          (case locate_entry m ct name of
             None \<Rightarrow> None
           | Some None \<Rightarrow> Some (CB_CMOS_OPTION_NOT_FOUND, c)
           | Some (Some ce) \<Rightarrow>
               let put = (\<lambda>len c. case set_cmos_value cfg (ce_bit m ce) len (\<lambda>i. m (val + i)) c of
                      None \<Rightarrow> None
                    | Some (CB_SUCCESS, c) \<Rightarrow> Some (CB_SUCCESS, c)
                    | Some (_, c) \<Rightarrow> Some (CB_CMOS_ACCESS_ERROR, c))
               in if ce_config m ce = 0x73 then
                    (case strlen_from m val 0 of
                       None \<Rightarrow> None
                     | Some n \<Rightarrow>
                         (case set_cmos_value cfg (ce_bit m ce + ce_length m ce - 8) 8 (\<lambda>_. 0) c of
                            None \<Rightarrow> None
                          | Some (CB_SUCCESS, c) \<Rightarrow> put (max (n * 8) (ce_length m ce - 8)) c
                          | Some (_, c) \<Rightarrow> Some (CB_CMOS_ACCESS_ERROR, c)))
                  else put (ce_length m ce) c))"

definition read_option_lowlevel :: "cmos_config \<Rightarrow> nvram \<Rightarrow> u32 \<Rightarrow> u32 \<Rightarrow> u32 \<Rightarrow> u32" where
  "read_option_lowlevel cfg c start sz def =
     (if use_option_table cfg
      then drop_bit (unat (start AND 7)) (ucast (cmos_read c (ucast (start div 8)))) AND (push_bit (unat sz) 1 - 1)
      else def)"

section \<open>The clock\<close>

definition bcd2bin :: "u8 \<Rightarrow> u8" where "bcd2bin val = (drop_bit 4 val AND 0xf) * 10 + (val AND 0xf)"
definition bin2bcd :: "u8 \<Rightarrow> u8" where "bin2bcd val = push_bit 4 (val div 10) OR (val mod 10)"

text \<open>The fields are C integers.\<close>

record rtc_time =
  tm_sec :: int
  tm_min :: int
  tm_hour :: int
  tm_mday :: int
  tm_mon :: int
  tm_year :: int
  tm_wday :: int

definition rtc_set :: "rtc_time \<Rightarrow> nvram \<Rightarrow> nvram" where
  "rtc_set t c =
     (let c = cmos_write (bin2bcd (word_of_int (tm_sec t))) RTC_CLK_SECOND c;
          c = cmos_write (bin2bcd (word_of_int (tm_min t))) RTC_CLK_MINUTE c;
          c = cmos_write (bin2bcd (word_of_int (tm_hour t))) RTC_CLK_HOUR c;
          c = cmos_write (bin2bcd (word_of_int (tm_mday t))) RTC_CLK_DAYOFMONTH c;
          c = cmos_write (bin2bcd (word_of_int (tm_mon t))) RTC_CLK_MONTH c;
          c = cmos_write (bin2bcd (word_of_int (tm_year t smod 100))) RTC_CLK_YEAR c;
          c = cmos_write (bin2bcd (word_of_int (tm_year t sdiv 100))) RTC_CLK_ALTCENTURY c
      in cmos_write (bin2bcd (word_of_int (tm_wday t + 1))) RTC_CLK_DAYOFWEEK c)"

text \<open>
  \<open>reg_a i\<close> is what the \<open>i\<close>-th reading of register A returns; the wait ends at the first one
  that shows no update in progress.
\<close>

partial_function (option) wait_uip :: "(nat \<Rightarrow> u8) \<Rightarrow> nat \<Rightarrow> nat option" where
  "wait_uip reg_a i = (if reg_a i AND RTC_UIP \<noteq> 0 then wait_uip reg_a (i + 1) else Some i)"

definition rtc_get :: "(nat \<Rightarrow> u8) \<Rightarrow> nvram \<Rightarrow> rtc_time option" where
  "rtc_get reg_a c =
     map_option (\<lambda>_. \<lparr>tm_sec = uint (bcd2bin (cmos_read c RTC_CLK_SECOND)),
         tm_min = uint (bcd2bin (cmos_read c RTC_CLK_MINUTE)),
         tm_hour = uint (bcd2bin (cmos_read c RTC_CLK_HOUR)),
         tm_mday = uint (bcd2bin (cmos_read c RTC_CLK_DAYOFMONTH)),
         tm_mon = uint (bcd2bin (cmos_read c RTC_CLK_MONTH)),
         tm_year = uint (bcd2bin (cmos_read c RTC_CLK_YEAR)) + uint (bcd2bin (cmos_read c RTC_CLK_ALTCENTURY)) * 100,
         tm_wday = uint (bcd2bin (cmos_read c RTC_CLK_DAYOFWEEK)) - 1\<rparr>) (wait_uip reg_a 0)"

text \<open>\<^verbatim>\<open>coreboot_build_date\<close>, generated by the build, in BCD.\<close>

record build_date =
  bd_century :: u8
  bd_year :: u8
  bd_month :: u8
  bd_day :: u8
  bd_weekday :: u8

definition cmos_reset_date :: "build_date \<Rightarrow> nvram \<Rightarrow> nvram" where
  "cmos_reset_date bd =
     rtc_set \<lparr>tm_sec = 0, tm_min = 0, tm_hour = 1, tm_mday = uint (bcd2bin (bd_day bd)), tm_mon = uint (bcd2bin (bd_month bd)),
              tm_year = uint (bcd2bin (bd_century bd)) * 100 + uint (bcd2bin (bd_year bd)),
              tm_wday = uint (bcd2bin (bd_weekday bd))\<rparr>"

definition cmos_check_update_date :: "build_date \<Rightarrow> (nat \<Rightarrow> u8) \<Rightarrow> nvram \<Rightarrow> nvram option" where
  "cmos_check_update_date bd reg_a c =
     (case wait_uip reg_a 0 of
        None \<Rightarrow> None
      | Some _ \<Rightarrow>
          let century = cmos_read c RTC_CLK_ALTCENTURY;
              yr = cmos_read c RTC_CLK_YEAR
          in Some (if century > 0x99 \<or> yr > 0x99 then cmos_reset_date bd c else c))"

section \<open>Initialisation\<close>

text \<open>\<open>resume\<close> is \<^verbatim>\<open>acpi_is_wakeup_s3()\<close>. The result says whether the memory was cleared.\<close>

definition cmos_init_inner :: "cmos_config \<Rightarrow> build_date \<Rightarrow> bool \<Rightarrow> bool \<Rightarrow> nvram \<Rightarrow> bool \<times> nvram" where
  "cmos_init_inner cfg bd resume invalid c =
     (if resume then (False, c)
      else let x = cmos_read c RTC_VALID;
               cmos_invalid = (x AND RTC_VRT = 0);
               checksum_invalid = (use_option_table cfg \<and>
                 \<not> cmos_checksum_valid cfg c PC_CKS_RANGE_START PC_CKS_RANGE_END PC_CKS_LOC);
               clear_cmos = (\<not> use_option_table cfg);
               c = (if cmos_invalid \<or> invalid
                    then cmos_write (cmos_read c RTC_CONTROL OR RTC_SET) RTC_CONTROL c else c);
               (clear_cmos, c) =
                 (if invalid \<or> cmos_invalid \<or> checksum_invalid
                  then let c = (if clear_cmos
                                then fold (\<lambda>i. cmos_write 0 (of_nat i)) [10..<128]
                                       (cmos_write 0 5 (cmos_write 0 3 (cmos_write 0 1 c)))
                                else c)
                       in (clear_cmos, if cmos_invalid then cmos_reset_date bd c else c)
                  else (False, c));
               c = cmos_write RTC_CONTROL_DEFAULT RTC_CONTROL c;
               c = cmos_write RTC_FREQ_SELECT_DEFAULT RTC_REG_A c;
               c = cmos_write RTC_VRT RTC_VALID c
           in (clear_cmos,
               if use_option_table cfg
               then cmos_set_checksum PC_CKS_RANGE_START PC_CKS_RANGE_END PC_CKS_LOC c else c))"

section \<open>Choosing the boot path\<close>

text \<open>
  \<^verbatim>\<open>mc146818rtc_boot.c\<close> and \<^verbatim>\<open>mc146818rtc_romcc.c\<close>: the boot byte counts attempts to boot the
  normal image in its upper half; the least bit asks for the normal image.
\<close>

definition RTC_BOOT_BYTE :: u8 where "RTC_BOOT_BYTE = 48"

record boot_config =
  MAX_REBOOT_CNT :: nat
  SKIP_MAX_REBOOT_CNT_CLEAR :: bool

definition cmos_error :: "nvram \<Rightarrow> bool" where
  "cmos_error c \<longleftrightarrow> cmos_read c RTC_VALID AND RTC_VRT = 0"

text \<open>Here the loop counter is a byte: it wraps around when the range ends at 255.\<close>

partial_function (option) cmos_chksum_loop :: "cmos_config \<Rightarrow> nvram \<Rightarrow> u8 \<Rightarrow> u16 \<Rightarrow> u16 option" where
  "cmos_chksum_loop cfg c addr s =
     (if uint addr \<le> lb_cks_range_end cfg
      then cmos_chksum_loop cfg c (addr + 1) (s + ucast (cmos_read c addr)) else Some s)"

definition cmos_chksum_valid :: "cmos_config \<Rightarrow> nvram \<Rightarrow> bool option" where
  "cmos_chksum_valid cfg c =
     (if use_option_table cfg
      then map_option (\<lambda>s. s = cmos_stored_sum c (lb_cks_loc cfg))
             (cmos_chksum_loop cfg c (word_of_int (lb_cks_range_start cfg)) 0)
      else Some False)"

text \<open>\<open>cmos_default\<close> is the file of that name in CBFS.\<close>

definition sanitize_cmos :: "cmos_config \<Rightarrow> u8 list option \<Rightarrow> nvram \<Rightarrow> nvram option" where
  "sanitize_cmos cfg cmos_default c =
     (case (if cmos_error c then Some False else cmos_chksum_valid cfg c) of
        None \<Rightarrow> None
      | Some ok \<Rightarrow>
          (if \<not> ok \<or> static_option_table cfg
           then case cmos_default of
                  None \<Rightarrow> Some c
                | Some bs \<Rightarrow>
                    Some (cmos_enable_rtc
                      (fold (\<lambda>i. cmos_write_inner (bs ! i) (of_nat i)) [14..<min 128 (length bs)] (cmos_disable_rtc c)))
           else Some c))"

definition boot_count :: "u8 \<Rightarrow> nat" where "boot_count rtc_byte = unat (drop_bit 4 rtc_byte)"
definition increment_boot_count :: "u8 \<Rightarrow> u8" where "increment_boot_count rtc_byte = rtc_byte + push_bit 4 1"
definition boot_set_fallback :: "u8 \<Rightarrow> u8" where "boot_set_fallback rtc_byte = rtc_byte AND NOT RTC_BOOT_NORMAL"
definition boot_use_normal :: "u8 \<Rightarrow> bool" where "boot_use_normal rtc_byte \<longleftrightarrow> rtc_byte AND RTC_BOOT_NORMAL \<noteq> 0"

definition do_normal_boot :: "cmos_config \<Rightarrow> boot_config \<Rightarrow> nvram \<Rightarrow> (bool \<times> nvram) option" where
  "do_normal_boot cfg bc c =
     (case (if cmos_error c then Some False else cmos_chksum_valid cfg c) of
        None \<Rightarrow> None
      | Some ok \<Rightarrow>
          (let c = (if ok then c
                    else let byte = cmos_read c RTC_BOOT_BYTE;
                             byte = byte AND (boot_set_fallback byte AND 0x0f);
                             byte = byte OR push_bit 4 0xf
                         in cmos_write byte RTC_BOOT_BYTE c);
               byte = cmos_read c RTC_BOOT_BYTE;
               byte = (if boot_use_normal byte
                       then if boot_count byte < MAX_REBOOT_CNT bc then increment_boot_count byte
                            else boot_set_fallback byte
                       else byte)
           in Some (boot_use_normal byte, cmos_write byte RTC_BOOT_BYTE c)))"

text \<open>The top bit of the first index port masks interrupts and is no part of the index.\<close>

definition set_boot_successful :: "boot_config \<Rightarrow> nvram \<Rightarrow> nvram" where
  "set_boot_successful bc c =
     (let index = RTC_BOOT_BYTE;
          byte = c RTC_BASE_PORT index;
          byte = (if SKIP_MAX_REBOOT_CNT_CLEAR bc then byte AND NOT RTC_BOOT_NORMAL
                  else if byte AND RTC_BOOT_NORMAL \<noteq> 0 then byte AND 0x0f else byte)
      in c(RTC_BASE_PORT := (c RTC_BASE_PORT)(index := byte)))"

end
