(* ===== verification/Cmos_Options.thy ===== *)
theory Cmos_Options
  imports Cmos
begin

text \<open>
  What the operations of \<^verbatim>\<open>Cmos\<close> do to the bytes of the chip: setting an option and getting it
  back, the checksum over the options, strings that do not fit, the clock, and the counting of
  boot attempts.
\<close>

section \<open>Bytes\<close>

lemma unat_pred:
  fixes a b :: "'a::len word"
  assumes "a \<noteq> b"
  shows "unat (a - b) = Suc (unat (a - (b + 1)))"
proof -
  have "0 < unat (a - b)" using assms by (simp add: unat_gt_0)
  moreover have "unat ((a - b) - 1) = unat (a - b) - 1"
    using \<open>0 < unat (a - b)\<close> by (intro unat_sub_nowrap [THEN trans]) auto
  moreover have "a - (b + 1) = (a - b) - 1" by simp
  ultimately show ?thesis by (simp only:)
qed

lemma length_step: "n < 2 ^ 29 - 1 \<Longrightarrow> of_nat (8 * Suc n) \<noteq> (0 :: u32) \<and> of_nat (8 * Suc n) - 8 = (of_nat (8 * n) :: u32)"
proof -
  assume n: "n < 2 ^ 29 - 1"
  have "unat (of_nat (8 * Suc n) :: u32) = 8 * Suc n" by (rule unat_of_nat_id) (use n in simp)
  then have "of_nat (8 * Suc n) \<noteq> (0 :: u32)" by (metis unat_0 mult_is_0 nat.distinct(1) zero_neq_numeral)
  then show ?thesis by simp
qed

lemma mem_write_Cons:
  assumes "length bs < 2 ^ 32"
  shows "mem_write m a (x # bs) = mem_write (m(a := x)) (a + 1) bs"
proof
  fix p
  have "unat (a - (a + 1)) = 2 ^ 32 - 1" by (simp add: unsigned_minus_1_eq_mask mask_eq_exp_minus_1)
  then show "mem_write m a (x # bs) p = mem_write (m(a := x)) (a + 1) bs p"
    using assms unat_pred [of p a] by (cases "p = a") (auto simp: mem_write_def Let_def)
qed

lemma get_cmos_bytes_run:
  "n < 2 ^ 29 \<Longrightarrow> get_cmos_bytes c ret i (of_nat (8 * n)) byte m =
     Some (mem_write m (ret + i) (map (\<lambda>k. cmos_read c (ucast (byte + of_nat k))) [0..<n]))"
proof (induction n arbitrary: i byte m)
  case (Suc n)
  have "of_nat (8 * Suc n) \<noteq> (0 :: u32)" "of_nat (8 * Suc n) - 8 = (of_nat (8 * n) :: u32)"
    using length_step [of n] Suc.prems by simp_all
  then have "get_cmos_bytes c ret i (of_nat (8 * Suc n)) byte m =
      get_cmos_bytes c ret (i + 1) (of_nat (8 * n)) (byte + 1) (m(ret + i := cmos_read c (ucast byte)))"
    by (subst get_cmos_bytes.simps) (simp del: of_nat_mult)
  also have "\<dots> = Some (mem_write (m(ret + i := cmos_read c (ucast byte))) (ret + i + 1)
      (map (\<lambda>k. cmos_read c (ucast (byte + 1 + of_nat k))) [0..<n]))"
    using Suc by (simp add: add.assoc)
  also have "\<dots> = Some (mem_write m (ret + i) (map (\<lambda>k. cmos_read c (ucast (byte + of_nat k))) [0..<Suc n]))"
  proof -
    have "map (\<lambda>k. cmos_read c (ucast (byte + of_nat k))) [0..<Suc n] =
        cmos_read c (ucast byte) # map (\<lambda>k. cmos_read c (ucast (byte + 1 + of_nat k))) [0..<n]"
      by (rule nth_equalityI) (auto simp: nth_Cons' nth_append add.assoc simp del: upt_Suc split: if_splits)
    then show ?thesis using Suc.prems by (simp add: mem_write_Cons add.assoc del: upt_Suc)
  qed
  finally show ?case .
qed (simp add: get_cmos_bytes.simps)

text \<open>The bytes from \<open>byte\<close> on replaced by \<open>n\<close> bytes of \<open>ret\<close>.\<close>

definition overlaid :: "nvram \<Rightarrow> u8 \<Rightarrow> nat \<Rightarrow> (nat \<Rightarrow> u8) \<Rightarrow> nvram \<Rightarrow> bool" where
  "overlaid c byte n ret c' \<longleftrightarrow>
     (\<forall>a. cmos_read c' a = (if unat (a - byte) < n then ret (unat (a - byte)) else cmos_read c a))"

lemma ucast_down_plus_1: "ucast (x + 1 :: u32) = (ucast x + 1 :: u8)"
  proof (transfer, goal_cases)
  case (1 x)
  have "take_bit 8 (take_bit 32 x + 1) = take_bit 8 (take_bit 8 (take_bit 32 x) + take_bit 8 1)" by (rule take_bit_add [symmetric])
  also have "\<dots> = take_bit 8 (take_bit 8 x + take_bit 8 1)" by (simp only: take_bit_take_bit)
  also have "\<dots> = take_bit 8 (x + 1)" by (rule take_bit_add)
  finally show ?case by simp
qed

lemma ucast_down_plus: "ucast (x + of_nat k :: u32) = (ucast x + of_nat k :: u8)"
proof (induction k)
  case (Suc k)
  have "ucast (x + of_nat (Suc k)) = (ucast ((x + of_nat k) + 1) :: u8)" by (simp add: add.assoc add.commute [of 1])
  also have "\<dots> = ucast x + of_nat (Suc k)" unfolding ucast_down_plus_1 Suc.IH by simp
  finally show ?case .
qed simp

lemma set_cmos_bytes_run:
  "n \<le> 256 \<Longrightarrow> \<exists>c'. set_cmos_bytes cfg ret i (of_nat (8 * n)) byte (c, b) =
     Some (c', b \<or> (\<exists>k<n. in_cks_range cfg (byte + of_nat k))) \<and> overlaid c (ucast byte) n (\<lambda>k. ret (i + of_nat k)) c'"
proof (induction n arbitrary: i byte c b)
  case (Suc n)
  define c1 where "c1 = cmos_write (ret i) (ucast byte) c"
  have "of_nat (8 * Suc n) \<noteq> (0 :: u32)" "of_nat (8 * Suc n) - 8 = (of_nat (8 * n) :: u32)"
    using length_step [of n] Suc.prems by simp_all
  then have step: "set_cmos_bytes cfg ret i (of_nat (8 * Suc n)) byte (c, b) =
      set_cmos_bytes cfg ret (i + 1) (of_nat (8 * n)) (byte + 1) (c1, b \<or> in_cks_range cfg byte)"
    by (subst set_cmos_bytes.simps) (simp add: c1_def del: of_nat_mult)
  obtain c' where c': "set_cmos_bytes cfg ret (i + 1) (of_nat (8 * n)) (byte + 1) (c1, b \<or> in_cks_range cfg byte) =
      Some (c', (b \<or> in_cks_range cfg byte) \<or> (\<exists>k<n. in_cks_range cfg (byte + 1 + of_nat k)))"
    "overlaid c1 (ucast (byte + 1)) n (\<lambda>k. ret (i + 1 + of_nat k)) c'"
    using Suc.IH [of "i + 1" "byte + 1" c1 "b \<or> in_cks_range cfg byte"] Suc.prems by auto
  have range: "(\<exists>k<Suc n. in_cks_range cfg (byte + of_nat k)) \<longleftrightarrow>
      in_cks_range cfg byte \<or> (\<exists>k<n. in_cks_range cfg (byte + 1 + of_nat k))"
    by (simp add: Ex_less_Suc2 add.assoc)
  have "overlaid c (ucast byte) (Suc n) (\<lambda>k. ret (i + of_nat k)) c'"
    unfolding overlaid_def
  proof
    fix a :: u8
    have u: "ucast (byte + 1) = (ucast byte + 1 :: u8)" by (rule ucast_down_plus_1)
    show "cmos_read c' a = (if unat (a - ucast byte) < Suc n then ret (i + of_nat (unat (a - ucast byte))) else cmos_read c a)"
    proof (cases "a = ucast byte")
      case True
      have "unat (a - (ucast byte + 1)) = 255" using True by (simp add: unsigned_minus_1_eq_mask mask_eq_exp_minus_1)
      then show ?thesis using c'(2) True Suc.prems by (simp add: overlaid_def u c1_def)
    next
      case False
      then show ?thesis using c'(2) unat_pred [OF False] by (auto simp: overlaid_def u c1_def add.assoc)
    qed
  qed
  then show ?case unfolding step c'(1) range by (intro exI [of _ c']) (simp add: disj_assoc)
qed (simp add: set_cmos_bytes.simps overlaid_def)

section \<open>Checksums\<close>

lemma cmos_sum_cong:
  assumes "\<And>i. s \<le> i \<Longrightarrow> i \<le> e \<Longrightarrow> cmos_read c (word_of_int i) = cmos_read c' (word_of_int i)"
  shows "cmos_sum c s e = cmos_sum c' s e"
  unfolding cmos_sum_def by (rule List.fold_cong) (use assms in auto)

lemma split_sum: "push_bit 8 (ucast (ucast (drop_bit 8 s AND 0xff) :: u8)) OR ucast (ucast (s AND 0xff) :: u8) = (s :: u16)"
proof (rule bit_word_eqI)
  fix n assume n: "n < LENGTH(16)"
  have m: "(0xff :: u16) = mask 8" by (simp add: mask_eq_exp_minus_1)
  show "bit (push_bit 8 (ucast (ucast (drop_bit 8 s AND 0xff) :: u8)) OR ucast (ucast (s AND 0xff) :: u8) :: u16) n = bit s n"
    using n unfolding m by (auto simp: bit_simps)
qed

text \<open>The range and the place of the checksum fit the chip and do not overlap.\<close>

definition cks_ok :: "int \<Rightarrow> int \<Rightarrow> int \<Rightarrow> bool" where
  "cks_ok s e l \<longleftrightarrow> 0 \<le> s \<and> s \<le> e \<and> e < 256 \<and> 0 \<le> l \<and> l < 255 \<and> (l + 1 < s \<or> e < l)"

lemma byte_of_int_eq: "0 \<le> i \<Longrightarrow> i < 256 \<Longrightarrow> 0 \<le> j \<Longrightarrow> j < 256 \<Longrightarrow> word_of_int i = (word_of_int j :: u8) \<longleftrightarrow> i = j"
  by (simp add: word_of_int_eq_iff take_bit_int_eq_self)

lemma cmos_set_checksum_valid:
  assumes "cks_ok s e l"
  shows "cmos_checksum_valid cfg (cmos_set_checksum s e l c) s e l"
proof -
  define c' where "c' = cmos_set_checksum s e l c"
  have r: "cmos_read c' a = (if a = word_of_int (l + 1) then ucast (cmos_sum c s e AND 0xff)
      else if a = word_of_int l then ucast (drop_bit 8 (cmos_sum c s e) AND 0xff) else cmos_read c a)" for a
    by (auto simp: c'_def cmos_set_checksum_def Let_def)
  have "cmos_sum c' s e = cmos_sum c s e"
    by (rule cmos_sum_cong) (use assms in \<open>auto simp: r cks_ok_def byte_of_int_eq simp del: of_int_add\<close>)
  moreover have "word_of_int l \<noteq> (word_of_int (l + 1) :: u8)"
    using assms by (subst byte_of_int_eq) (auto simp: cks_ok_def)
  ultimately show ?thesis
    using split_sum [of "cmos_sum c s e"] by (simp add: cmos_checksum_valid_def cmos_stored_sum_def r c'_def [symmetric])
qed

lemma cmos_set_checksum_other:
  "a \<noteq> word_of_int l \<Longrightarrow> a \<noteq> word_of_int (l + 1) \<Longrightarrow> cmos_read (cmos_set_checksum s e l c) a = cmos_read c a"
  by (simp add: cmos_set_checksum_def Let_def)

lemma cmos_checksum_valid_cong:
  assumes "cks_ok s e l" and "\<And>i. s \<le> i \<and> i \<le> e \<or> i = l \<or> i = l + 1 \<Longrightarrow> cmos_read c (word_of_int i) = cmos_read c' (word_of_int i)"
  shows "cmos_checksum_valid cfg c s e l = cmos_checksum_valid cfg c' s e l"
  using cmos_sum_cong [of s e c c'] assms(2) by (simp add: cmos_checksum_valid_def cmos_stored_sum_def del: of_int_add)

section \<open>Options\<close>

text \<open>The bytes that hold an option, and their values as \<^verbatim>\<open>get_cmos_value\<close> delivers them.\<close>

definition option_size :: "u32 \<Rightarrow> nat" where
  "option_size len = (if len \<le> 8 then 1 else unat len div 8)"

definition option_bytes :: "nvram \<Rightarrow> u32 \<Rightarrow> u32 \<Rightarrow> u8 list" where
  "option_bytes c start len =
     (if len \<le> 8 then [take_bit (unat len) (drop_bit (unat (start mod 8)) (cmos_read c (ucast (start div 8))))]
      else map (\<lambda>k. cmos_read c (ucast (start div 8) + of_nat k)) [0..<unat len div 8])"

text \<open>
  What the build checks of an option: a short one stays in its byte, a long one consists of whole
  bytes, and it lies in the chip, beside the checksum.
\<close>

definition option_ok :: "cmos_config \<Rightarrow> u32 \<Rightarrow> u32 \<Rightarrow> bool" where
  "option_ok cfg start len \<longleftrightarrow>
     0 < len \<and> unat start div 8 + option_size len \<le> 256 \<and>
     (if len \<le> 8 then unat start mod 8 + unat len \<le> 8 else 8 dvd unat start \<and> 8 dvd unat len) \<and>
     (\<forall>k<option_size len. int (unat start div 8 + k) \<noteq> lb_cks_loc cfg \<and> int (unat start div 8 + k) \<noteq> lb_cks_loc cfg + 1)"

lemma whole_bytes: "8 dvd unat (len :: u32) \<Longrightarrow> len = of_nat (8 * (unat len div 8))"
  by simp

lemma mod8_eq_0: "(x :: u32) mod 8 = 0 \<longleftrightarrow> 8 dvd unat x"
  by (simp add: word_unat_eq_iff unat_mod dvd_eq_mod_eq_0)

lemma small_mask: "ucast (push_bit n 1 - 1 :: u32) = (mask n :: u8)" if "n \<le> 8"
proof (rule bit_word_eqI)
  fix k assume "k < LENGTH(8)"
  then show "bit (ucast (push_bit n 1 - 1 :: u32) :: u8) k = bit (mask n :: u8) k"
    by (auto simp: bit_simps push_bit_eq_mult simp flip: mask_eq_exp_minus_1)
qed

lemma get_cmos_value_ok:
  assumes "option_ok cfg start len"
  shows "get_cmos_value c start len ret m = Some (CB_SUCCESS, mem_write m ret (option_bytes c start len))"
proof (cases "len \<le> 8")
  case True
  have "m(ret := x) = mem_write m ret [x]" for x by (simp add: mem_write_Cons)
  moreover have "unat len \<le> 8" "len < 9" using True by (simp_all add: word_le_nat_alt word_less_nat_alt)
  ultimately show ?thesis
    using small_mask [of "unat len"] True
    by (simp add: get_cmos_value_def option_bytes_def Let_def take_bit_eq_mask)
next
  case False
  then have "unat len div 8 < 2 ^ 29" "8 dvd unat len" using assms unat_lt32 [of len] by (auto simp: option_ok_def)
  moreover have "\<not> len < 9" using False by (simp add: word_le_nat_alt word_less_nat_alt)
  ultimately show ?thesis
    using get_cmos_bytes_run [of "unat len div 8" c ret 0 "start div 8" m] False
    by (simp add: get_cmos_value_def option_bytes_def ucast_down_plus flip: whole_bytes)
qed

abbreviation lb_cks_ok :: "cmos_config \<Rightarrow> bool" where
  "lb_cks_ok cfg \<equiv> cks_ok (lb_cks_range_start cfg) (lb_cks_range_end cfg) (lb_cks_loc cfg)"

abbreviation lb_cks_valid :: "cmos_config \<Rightarrow> nvram \<Rightarrow> bool" where
  "lb_cks_valid cfg c \<equiv> cmos_checksum_valid cfg c (lb_cks_range_start cfg) (lb_cks_range_end cfg) (lb_cks_loc cfg)"

text \<open>The byte of the checksum, and an option that is covered by it.\<close>

definition cks_byte :: "cmos_config \<Rightarrow> u8 \<Rightarrow> bool" where
  "cks_byte cfg a \<longleftrightarrow> a = word_of_int (lb_cks_loc cfg) \<or> a = word_of_int (lb_cks_loc cfg + 1)"

definition covered :: "cmos_config \<Rightarrow> u32 \<Rightarrow> u32 \<Rightarrow> bool" where
  "covered cfg start len \<longleftrightarrow> (\<exists>k<option_size len. in_cks_range cfg (start div 8 + of_nat k))"

text \<open>The \<open>k\<close>-th byte an option leaves behind.\<close>

definition option_written :: "nvram \<Rightarrow> u32 \<Rightarrow> u32 \<Rightarrow> (u32 \<Rightarrow> u8) \<Rightarrow> nat \<Rightarrow> u8" where
  "option_written c start len ret k =
     (if len \<le> 8 then (cmos_read c (ucast (start div 8)) AND NOT (push_bit (unat (start mod 8)) (mask (unat len))))
                        OR push_bit (unat (start mod 8)) (ret 0)
      else ret (of_nat k))"

lemma set_cmos_value_run:
  assumes "option_ok cfg start len"
  shows "\<exists>c1. overlaid c (ucast (start div 8)) (option_size len) (option_written c start len ret) c1 \<and>
    set_cmos_value cfg start len ret c = Some (CB_SUCCESS,
      if covered cfg start len then cmos_set_checksum (lb_cks_range_start cfg) (lb_cks_range_end cfg) (lb_cks_loc cfg) c1 else c1)"
proof (cases "len \<le> 8")
  case True
  then have "unat len \<le> 8" by (simp add: word_le_nat_alt)
  note mk = small_mask [OF this]
  have "unat (a - b) < 1 \<longleftrightarrow> a = b" for a b :: u8 by (simp add: unat_eq_0)
  then have "overlaid c (ucast (start div 8)) (option_size len) (option_written c start len ret)
      (cmos_write (option_written c start len ret 0) (ucast (start div 8)) c)"
    using True by (simp add: overlaid_def option_size_def option_written_def)
  then show ?thesis
    using True mk by (auto simp: set_cmos_value_def covered_def option_size_def option_written_def Let_def)
next
  case False
  then have ok: "8 dvd unat len" "start mod 8 = 0" "len mod 8 = 0" "unat len div 8 \<le> 256"
    using assms by (auto simp: option_ok_def option_size_def mod8_eq_0)
  obtain c1 where c1: "set_cmos_bytes cfg ret 0 len (start div 8) (c, False) =
      Some (c1, \<exists>k<unat len div 8. in_cks_range cfg (start div 8 + of_nat k))"
    "overlaid c (ucast (start div 8)) (unat len div 8) (\<lambda>k. ret (of_nat k)) c1"
    using set_cmos_bytes_run [OF ok(4), of cfg ret 0 "start div 8" c False]
    unfolding whole_bytes [OF ok(1), symmetric] by auto
  have "option_written c start len ret = (\<lambda>k. ret (of_nat k))" using False by (simp add: option_written_def fun_eq_iff)
  then show ?thesis
    using c1 ok(2,3) False by (auto simp: set_cmos_value_def covered_def option_size_def Let_def)
qed

text \<open>The bits of the chip as the options count them.\<close>

definition cmos_bit :: "nvram \<Rightarrow> nat \<Rightarrow> bool" where
  "cmos_bit c i = bit (cmos_read c (of_nat (i div 8))) (i mod 8)"

lemma ucast_byte: "(ucast (start div 8 :: u32) :: u8) = of_nat (unat start div 8)"
proof -
  have "unat (start div 8) = unat start div 8" by (simp add: unat_div)
  then show ?thesis by (metis of_nat_unat)
qed

lemma byte_distance:
  assumes "i < 256" and "b < 256" and "b + n \<le> 256"
  shows "unat (of_nat i - of_nat b :: u8) < n \<longleftrightarrow> b \<le> i \<and> i < b + n"
    and "b \<le> i \<Longrightarrow> unat (of_nat i - of_nat b :: u8) = i - b"
proof -
  have u: "unat (of_nat i :: u8) = i" "unat (of_nat b :: u8) = b" using assms by (simp_all add: unat_of_nat_id)
  then show d: "b \<le> i \<Longrightarrow> unat (of_nat i - of_nat b :: u8) = i - b" by (subst unat_sub_nowrap) auto
  show "unat (of_nat i - of_nat b :: u8) < n \<longleftrightarrow> b \<le> i \<and> i < b + n"
  proof (cases "b \<le> i")
    case True then show ?thesis using d by auto
  next
    case False
    then have "unat (of_nat i - of_nat b :: u8) = 256 - (b - i)"
      using u assms by (simp add: unat_sub_if_size word_size)
    then show ?thesis using False assms by simp
  qed
qed

lemma in_byte: "s mod 8 + k < 8 \<Longrightarrow> (s + k) div 8 = s div 8 \<and> (s + k) mod 8 = s mod 8 + k" for s k :: nat
proof -
  assume "s mod 8 + k < 8"
  moreover have "s + k = s div 8 * 8 + (s mod 8 + k)" by simp
  ultimately show ?thesis by (metis add.commute div_mult_self3 mod_mult_self3 div_less mod_less add.right_neutral zero_neq_numeral)
qed

lemma option_bytes_bits:
  assumes "option_ok cfg start len" and "\<And>i. unat start \<le> i \<Longrightarrow> i < unat start + unat len \<Longrightarrow> cmos_bit c i = cmos_bit c' i"
  shows "option_bytes c start len = option_bytes c' start len"
proof (cases "len \<le> 8")
  case True
  define b where "b = unat start mod 8"
  have "take_bit (unat len) (drop_bit b (cmos_read c (of_nat (unat start div 8)))) =
      take_bit (unat len) (drop_bit b (cmos_read c' (of_nat (unat start div 8))))"
  proof (rule bit_word_eqI)
    fix k assume "k < LENGTH(8)"
    have "b + unat len \<le> 8" using assms(1) True by (simp add: option_ok_def b_def)
    then have "(unat start + k) div 8 = unat start div 8" "(unat start + k) mod 8 = b + k" if "k < unat len"
      using that in_byte [of "unat start" k] unfolding b_def by simp_all
    then have "bit (cmos_read c (of_nat (unat start div 8))) (b + k) = bit (cmos_read c' (of_nat (unat start div 8))) (b + k)" if "k < unat len"
      using assms(2) [of "unat start + k"] that by (simp add: cmos_bit_def)
    then show "bit (take_bit (unat len) (drop_bit b (cmos_read c (of_nat (unat start div 8))))) k =
        bit (take_bit (unat len) (drop_bit b (cmos_read c' (of_nat (unat start div 8))))) k"
      by (auto simp: bit_simps)
  qed
  then show ?thesis using True by (simp add: option_bytes_def ucast_byte b_def unat_mod)
next
  case False
  then have d: "8 dvd unat start" "8 dvd unat len" using assms(1) by (auto simp: option_ok_def)
  have "cmos_read c (of_nat (unat start div 8) + of_nat k) = cmos_read c' (of_nat (unat start div 8) + of_nat k)"
    if k: "k < unat len div 8" for k
  proof (rule bit_word_eqI)
    fix j assume j: "j < LENGTH(8)"
    define i where "i = unat start + 8 * k + j"
    define q where "q = unat start div 8 + k"
    have "i = q * 8 + j" using d(1) by (auto simp: i_def q_def elim!: dvdE)
    then have i: "i div 8 = unat start div 8 + k" "i mod 8 = j" using j by (simp_all add: q_def [symmetric])
    have "unat start \<le> i" "i < unat start + unat len" using k j d(2) by (auto simp: i_def elim!: dvdE)
    then have "cmos_bit c i = cmos_bit c' i" by (rule assms(2))
    then show "bit (cmos_read c (of_nat (unat start div 8) + of_nat k)) j = bit (cmos_read c' (of_nat (unat start div 8) + of_nat k)) j"
      by (simp add: cmos_bit_def i)
  qed
  then show ?thesis using False by (simp add: option_bytes_def ucast_byte)
qed

text \<open>A short value has no bits beyond the length of its option.\<close>

definition value_fits :: "u32 \<Rightarrow> (u32 \<Rightarrow> u8) \<Rightarrow> bool" where
  "value_fits len ret \<longleftrightarrow> (len \<le> 8 \<longrightarrow> unat (ret 0) < 2 ^ unat len)"

lemma short_value: "unat x < 2 ^ n \<Longrightarrow> take_bit n x = (x :: u8)"
  by (simp add: word_unat_eq_iff unsigned_take_bit_eq take_bit_nat_eq_self)

lemma option_back:
  assumes "option_ok cfg start len" and "value_fits len ret"
    and "overlaid c (ucast (start div 8)) (option_size len) (option_written c start len ret) c1"
  shows "option_bytes c1 start len = map (\<lambda>k. ret (of_nat k)) [0..<option_size len]"
proof (cases "len \<le> 8")
  case True
  define b x where "b = unat (start mod 8)" and "x = cmos_read c (ucast (start div 8))"
  have b: "b + unat len \<le> 8" using assms(1) True by (simp add: option_ok_def b_def unat_mod)
  have "cmos_read c1 (ucast (start div 8)) = (x AND NOT (push_bit b (mask (unat len)))) OR push_bit b (ret 0)"
    using assms(3) True by (simp add: overlaid_def option_size_def option_written_def b_def x_def)
  moreover have "take_bit (unat len) (drop_bit b ((x AND NOT (push_bit b (mask (unat len)))) OR push_bit b (ret 0))) = take_bit (unat len) (ret 0)"
    by (rule bit_word_eqI) (use b in \<open>auto simp: bit_simps\<close>)
  moreover have "take_bit (unat len) (ret 0) = ret 0" using assms(2) True by (intro short_value) (simp add: value_fits_def)
  ultimately show ?thesis using True by (simp add: option_bytes_def option_size_def b_def)
next
  case False
  have "unat (ucast (start div 8) + of_nat k - ucast (start div 8) :: u8) = k" if "k < unat len div 8" for k
    using that assms(1) False by (simp add: option_ok_def option_size_def unat_of_nat_id)
  then show ?thesis
    using assms(3) False by (simp add: option_bytes_def option_size_def overlaid_def option_written_def)
qed

lemma option_size_pos: "0 < option_size len"
  by (auto simp: option_size_def word_le_nat_alt intro: div_greater_zero_iff [THEN iffD2])

lemma option_frame:
  assumes "option_ok cfg start len" and "value_fits len ret"
    and "overlaid c (ucast (start div 8)) (option_size len) (option_written c start len ret) c1"
    and "i < 2048" and "\<not> (unat start \<le> i \<and> i < unat start + unat len)"
  shows "cmos_bit c1 i = cmos_bit c i"
proof -
  define B where "B = unat start div 8"
  have B: "B + option_size len \<le> 256" using assms(1) by (simp add: option_ok_def B_def)
  moreover have "0 < option_size len" by (rule option_size_pos)
  ultimately have dist: "unat (of_nat (i div 8) - of_nat B :: u8) < option_size len \<longleftrightarrow> B \<le> i div 8 \<and> i div 8 < B + option_size len"
    using assms(4) by (intro byte_distance(1)) auto
  have r: "cmos_read c1 (of_nat (i div 8)) = (if B \<le> i div 8 \<and> i div 8 < B + option_size len
      then option_written c start len ret (unat (of_nat (i div 8) - of_nat B :: u8)) else cmos_read c (of_nat (i div 8)))"
    using assms(3) by (simp only: overlaid_def ucast_byte B_def [symmetric] dist)
  show ?thesis
  proof (cases "len \<le> 8")
    case True
    define b where "b = unat start mod 8"
    have b: "b + unat len \<le> 8" using assms(1) True by (simp add: option_ok_def b_def)
    have zero: "\<not> bit (ret 0) j" if "unat len \<le> j" for j
    proof -
      have "take_bit (unat len) (ret 0) = ret 0" using assms(2) True by (intro short_value) (simp add: value_fits_def)
      then show ?thesis using that by (metis bit_take_bit_iff not_less)
    qed
    have "i = i div 8 * 8 + i mod 8" "unat start = B * 8 + b" by (simp_all add: B_def b_def)
    then have out: "i mod 8 < b \<or> b + unat len \<le> i mod 8" if "i div 8 = B" using that assms(5) by linarith
    have keep: "bit ((x AND NOT (push_bit b (mask (unat len)))) OR push_bit b (ret 0)) (i mod 8) = bit x (i mod 8)" if "i div 8 = B" for x :: u8
    proof -
      have "i mod 8 < 8" by simp
      moreover have "b + unat len \<le> i mod 8 \<Longrightarrow> \<not> bit (ret 0) (i mod 8 - b)" by (rule zero) simp
      ultimately show ?thesis using out [OF that] by (auto simp: bit_simps)
    qed
    have at: "i div 8 = B \<longleftrightarrow> B \<le> i div 8 \<and> i div 8 < B + option_size len" using True by (auto simp: option_size_def)
    have wr: "option_written c start len ret k = (cmos_read c (of_nat B) AND NOT (push_bit b (mask (unat len)))) OR push_bit b (ret 0)" for k
      using True by (simp add: option_written_def ucast_byte B_def b_def unat_mod)
    show ?thesis
    proof (cases "i div 8 = B")
      case inside: True
      have "cmos_read c1 (of_nat (i div 8)) = (cmos_read c (of_nat (i div 8)) AND NOT (push_bit b (mask (unat len)))) OR push_bit b (ret 0)"
        using r [unfolded wr at [symmetric]] inside by simp
      then show ?thesis unfolding cmos_bit_def using keep [OF inside] by simp
    next
      case False
      then show ?thesis unfolding cmos_bit_def using r [unfolded at [symmetric]] by simp
    qed
  next
    case False
    then have "8 dvd unat start" "8 dvd unat len" using assms(1) by (auto simp: option_ok_def)
    then have "unat start = B * 8" "unat len = option_size len * 8" using False by (simp_all add: B_def option_size_def)
    moreover have "i = i div 8 * 8 + i mod 8" "i mod 8 < 8" by simp_all
    ultimately have "\<not> (B \<le> i div 8 \<and> i div 8 < B + option_size len)" using assms(5) by linarith
    then show ?thesis by (auto simp: cmos_bit_def r)
  qed
qed

lemma covered_iff:
  assumes "option_ok cfg start len" and "lb_cks_ok cfg"
  shows "covered cfg start len \<longleftrightarrow>
    (\<exists>k<option_size len. lb_cks_range_start cfg \<le> int (unat start div 8 + k) \<and> int (unat start div 8 + k) \<le> lb_cks_range_end cfg)"
proof -
  have "in_cks_range cfg (start div 8 + of_nat k) \<longleftrightarrow>
      lb_cks_range_start cfg \<le> int (unat start div 8 + k) \<and> int (unat start div 8 + k) \<le> lb_cks_range_end cfg"
    if k: "k < option_size len" for k
  proof -
    have "unat (start div 8) = unat start div 8" by (simp add: unat_div)
    moreover have "unat start div 8 + k < 256" using assms(1) k by (simp add: option_ok_def)
    ultimately have u: "uint (start div 8 + of_nat k) = int (unat start div 8 + k)"
      by (subst uint_nat, subst unat_add_nowrap) (simp_all add: unat_of_nat_id)
    have w: "uint (word_of_int x :: u32) = x" if "0 \<le> x" "x < 256" for x
      using that by (simp add: uint_word_of_int)
    show ?thesis using assms(2) by (simp add: in_cks_range_def word_le_def u w cks_ok_def)
  qed
  then show ?thesis by (auto simp: covered_def)
qed

lemma option_free:
  assumes "option_ok cfg start len" and "lb_cks_ok cfg" and i: "unat start \<le> i" "i < unat start + unat len"
  shows "i < 2048 \<and> \<not> cks_byte cfg (of_nat (i div 8))"
proof -
  have ok: "unat start div 8 + option_size len \<le> 256" "0 \<le> lb_cks_loc cfg" "lb_cks_loc cfg < 255"
    using assms(1,2) by (simp_all add: option_ok_def cks_ok_def)
  have "i div 8 - unat start div 8 < option_size len"
  proof (cases "len \<le> 8")
    case True
    then have "unat start mod 8 + unat len \<le> 8" using assms(1) by (simp add: option_ok_def)
    then have "i - unat start + unat start mod 8 < 8" using i by linarith
    then have "i div 8 = unat start div 8" using in_byte [of "unat start" "i - unat start"] i(1) by (simp add: add.commute)
    then show ?thesis using True by (simp add: option_size_def)
  next
    case False
    then show ?thesis using i assms(1) by (auto simp: option_ok_def option_size_def elim!: dvdE)
  qed
  moreover have "unat start div 8 \<le> i div 8" using i(1) by (rule div_le_mono)
  ultimately have "\<exists>k<option_size len. i div 8 = unat start div 8 + k" by (intro exI [of _ "i div 8 - unat start div 8"]) simp
  then have "int (i div 8) \<noteq> lb_cks_loc cfg" "int (i div 8) \<noteq> lb_cks_loc cfg + 1" "i div 8 < 256"
    using assms(1) ok(1) by (auto simp: option_ok_def simp del: of_nat_add)
  moreover have "i < 2048" using \<open>i div 8 < 256\<close> by simp
  moreover have "(of_nat (i div 8) :: u8) = word_of_int (int (i div 8))" by simp
  ultimately show ?thesis unfolding cks_byte_def using ok by (simp only: byte_of_int_eq) simp
qed

lemma set_cmos_value_ok:
  assumes "option_ok cfg start len" and "lb_cks_ok cfg" and "value_fits len ret"
  shows "\<exists>c'. set_cmos_value cfg start len ret c = Some (CB_SUCCESS, c') \<and>
    option_bytes c' start len = map (\<lambda>k. ret (of_nat k)) [0..<option_size len] \<and>
    (\<forall>i<2048. \<not> (unat start \<le> i \<and> i < unat start + unat len) \<and> \<not> cks_byte cfg (of_nat (i div 8)) \<longrightarrow> cmos_bit c' i = cmos_bit c i) \<and>
    (lb_cks_valid cfg c \<or> covered cfg start len \<longrightarrow> lb_cks_valid cfg c')"
proof -
  obtain c1 where c1: "overlaid c (ucast (start div 8)) (option_size len) (option_written c start len ret) c1"
    "set_cmos_value cfg start len ret c = Some (CB_SUCCESS,
      if covered cfg start len then cmos_set_checksum (lb_cks_range_start cfg) (lb_cks_range_end cfg) (lb_cks_loc cfg) c1 else c1)"
    using set_cmos_value_run [OF assms(1)] by blast
  define c' where "c' = (if covered cfg start len then cmos_set_checksum (lb_cks_range_start cfg) (lb_cks_range_end cfg) (lb_cks_loc cfg) c1 else c1)"
  have same: "cmos_bit c' i = cmos_bit c1 i" if "\<not> cks_byte cfg (of_nat (i div 8))" for i
    using that by (simp add: cmos_bit_def c'_def cks_byte_def cmos_set_checksum_other)
  note free = option_free [OF assms(1,2)]
  have "option_bytes c' start len = option_bytes c1 start len"
    by (rule option_bytes_bits [OF assms(1)]) (simp add: same free)
  moreover have "lb_cks_valid cfg c'" if v: "lb_cks_valid cfg c \<or> covered cfg start len"
  proof (cases "covered cfg start len")
    case True
    then show ?thesis using cmos_set_checksum_valid [OF assms(2)] by (simp add: c'_def)
  next
    case False
    have "cmos_read c (word_of_int i) = cmos_read c1 (word_of_int i)"
      if i: "lb_cks_range_start cfg \<le> i \<and> i \<le> lb_cks_range_end cfg \<or> i = lb_cks_loc cfg \<or> i = lb_cks_loc cfg + 1" for i
    proof -
      have i0: "0 \<le> i" "i < 256" using i assms(2) by (auto simp: cks_ok_def)
      have "\<not> (unat start div 8 \<le> nat i \<and> nat i < unat start div 8 + option_size len)"
      proof
        assume "unat start div 8 \<le> nat i \<and> nat i < unat start div 8 + option_size len"
        then obtain k where k: "k < option_size len" "i = int (unat start div 8 + k)"
          using i0(1) that [of "nat i - unat start div 8"] by force
        then show False using i False assms(1) unfolding covered_iff [OF assms(1,2)] option_ok_def by blast
      qed
      moreover have "(word_of_int i :: u8) = of_nat (nat i)" using i0 by simp
      moreover have "unat start div 8 < 256" using assms(1) option_size_pos [of len] by (simp add: option_ok_def)
      ultimately show ?thesis
        using c1(1) byte_distance(1) [of "nat i" "unat start div 8" "option_size len"] i0 assms(1)
        by (auto simp: overlaid_def ucast_byte option_ok_def)
    qed
    then show ?thesis using cmos_checksum_valid_cong [OF assms(2), of c c1] v False by (simp add: c'_def)
  qed
  ultimately show ?thesis
    using c1(2) option_back [OF assms(1,3) c1(1)] option_frame [OF assms(1,3) c1(1)] same
    by (intro exI [of _ c']) (simp add: c'_def [symmetric])
qed

section \<open>Finding options\<close>

text \<open>The entries of an option table, in order, up to the first record that is none.\<close>

fun option_chain :: "mem \<Rightarrow> ptr \<Rightarrow> ptr list \<Rightarrow> bool" where
  "option_chain m ce [] \<longleftrightarrow> ce_tag m ce \<noteq> LB_TAG_OPTION"
| "option_chain m ce (e # es) \<longleftrightarrow> ce = e \<and> ce_tag m ce = LB_TAG_OPTION \<and> option_chain m (ce + ce_size m ce) es"

lemma find_entry_chain:
  "option_chain m ce es \<Longrightarrow> find_entry m name n ce = Some (find (\<lambda>e. mem_read m (ce_name e) n = mem_read m name n) es)"
  by (induction es arbitrary: ce) (auto simp: find_entry.simps)

lemma locate_entry_chain:
  "option_chain m (ct + ct_header_length m ct) es \<Longrightarrow>
    locate_entry m ct name = Some (find (\<lambda>e. mem_read m (ce_name e) (strnlen m name CMOS_MAX_NAME_LENGTH) =
      mem_read m name (strnlen m name CMOS_MAX_NAME_LENGTH)) es)"
  by (simp add: locate_entry_def find_entry_chain)

section \<open>Properties\<close>

text \<open>
  C6: Setting an option and getting it back. With a well-formed table and an option that is not a
  string, whose entry is the first whose name begins with the given one, setting succeeds for
  every value that fits; getting then delivers exactly the bytes set, no other bit of the chip
  changes except those of the checksum, so that every other option keeps its value, and the
  checksum stays valid, or becomes valid when it covers the option.
\<close>

theorem set_option_get_option:
  assumes "use_option_table cfg" and "option_chain m (ct + ct_header_length m ct) es"
    and "find (\<lambda>e. mem_read m (ce_name e) (strnlen m name CMOS_MAX_NAME_LENGTH) = mem_read m name (strnlen m name CMOS_MAX_NAME_LENGTH)) es = Some ce"
    and "ce_config m ce \<noteq> 0x73" and "option_ok cfg (ce_bit m ce) (ce_length m ce)" and "lb_cks_ok cfg"
    and "value_fits (ce_length m ce) (\<lambda>i. m (val + i))"
    and "lb_cks_valid cfg c \<or> covered cfg (ce_bit m ce) (ce_length m ce)"
  shows "\<exists>c'. set_option cfg (Some ct) m name val c = Some (CB_SUCCESS, c') \<and>
    get_option cfg (Some ct) c' dest name m = Some (CB_SUCCESS, mem_write m dest (mem_read m val (option_size (ce_length m ce)))) \<and>
    lb_cks_valid cfg c' \<and>
    (\<forall>i<2048. \<not> (unat (ce_bit m ce) \<le> i \<and> i < unat (ce_bit m ce) + unat (ce_length m ce)) \<and> \<not> cks_byte cfg (of_nat (i div 8)) \<longrightarrow>
      cmos_bit c' i = cmos_bit c i) \<and>
    (\<forall>start len. option_ok cfg start len \<and>
      (unat start + unat len \<le> unat (ce_bit m ce) \<or> unat (ce_bit m ce) + unat (ce_length m ce) \<le> unat start) \<longrightarrow>
      option_bytes c' start len = option_bytes c start len)"
proof -
  obtain c' where c': "set_cmos_value cfg (ce_bit m ce) (ce_length m ce) (\<lambda>i. m (val + i)) c = Some (CB_SUCCESS, c')"
    "option_bytes c' (ce_bit m ce) (ce_length m ce) = mem_read m val (option_size (ce_length m ce))"
    "\<forall>i<2048. \<not> (unat (ce_bit m ce) \<le> i \<and> i < unat (ce_bit m ce) + unat (ce_length m ce)) \<and> \<not> cks_byte cfg (of_nat (i div 8)) \<longrightarrow> cmos_bit c' i = cmos_bit c i"
    "lb_cks_valid cfg c'"
    using set_cmos_value_ok [OF assms(5-7)] assms(8) unfolding mem_read_def by blast
  have e: "locate_entry m ct name = Some (Some ce)" using locate_entry_chain [OF assms(2)] assms(3) by simp
  have "option_bytes c' start len = option_bytes c start len"
    if "option_ok cfg start len" "unat start + unat len \<le> unat (ce_bit m ce) \<or> unat (ce_bit m ce) + unat (ce_length m ce) \<le> unat start"
    for start len
    using c'(3) option_free [OF that(1) assms(6)] that(2) by (intro option_bytes_bits [OF that(1)]) auto
  then show ?thesis
    using c' e assms(1,4) get_cmos_value_ok [OF assms(5), of c' dest m]
    by (intro exI [of _ c']) (simp add: set_option_def get_option_def)
qed

text \<open>A table with one option of four bits in byte 50, covered by a checksum over bytes 49 to 122.\<close>

definition ex_cmos_config :: cmos_config where
  "ex_cmos_config = \<lparr>use_option_table = True, static_option_table = False, lb_cks_range_start = 49,
     lb_cks_range_end = 122, lb_cks_loc = 123\<rparr>"

definition ex_table :: "u8 \<Rightarrow> u8 \<Rightarrow> u8 \<Rightarrow> mem" where
  "ex_table start_lo len config p =
     (let bs = [0, 0, 0, 0, 200, 0, 0, 0, 68, 0, 0, 0, 12, 0, 0, 0, 201, 0, 0, 0, 56, 0, 0, 0, start_lo, 1, 0, 0,
        len, 0, 0, 0, config, 0, 0, 0, 0, 0, 0, 0, 0x61, 0x62]
      in if unat p < length bs then bs ! unat p
         else if p = 80 then 0x61 else if p = 81 then 0x62 else if p = 84 then 5 else if p = 85 then 7 else if p = 86 then 9 else 0)"

lemma ex_table_fields:
  "ct_header_length (ex_table s l cf) 4 = 12" "ce_tag (ex_table s l cf) 16 = LB_TAG_OPTION"
  "ce_size (ex_table s l cf) 16 = 56" "ce_tag (ex_table s l cf) 72 = 0" "ce_config (ex_table s l cf) 16 = ucast cf"
  "ce_bit (ex_table s l cf) 16 = ucast s OR 256" "ce_length (ex_table s l cf) 16 = ucast l"
  by (simp_all add: ct_header_length_def ce_tag_def ce_size_def ce_bit_def ce_length_def ce_config_def LB_TAG_OPTION_def
      load32_def mem_read_def ex_table_def Let_def upt_rec)

abbreviation ex_options :: mem where
  "ex_options \<equiv> ex_table 144 4 0x65"

lemma ex_table_find:
  "find (\<lambda>e. mem_read ex_options (ce_name e) (strnlen ex_options 80 CMOS_MAX_NAME_LENGTH) =
     mem_read ex_options 80 (strnlen ex_options 80 CMOS_MAX_NAME_LENGTH)) [16] = Some 16"
proof -
  have "strnlen m p CMOS_MAX_NAME_LENGTH = 2" if "m p \<noteq> 0" "m (p + 1) \<noteq> 0" "m (p + 2) = 0" for m p
    using that by (simp add: CMOS_MAX_NAME_LENGTH_def eval_nat_numeral add.assoc)
  then have "strnlen ex_options 80 CMOS_MAX_NAME_LENGTH = 2" by (simp add: ex_table_def)
  then show ?thesis by (simp add: mem_read_def ce_name_def ex_table_def upt_rec)
qed

theorem set_option_get_option_witness:
  "\<exists>c'. set_option ex_cmos_config (Some 4) ex_options 80 84 (\<lambda>_ _. 0) = Some (CB_SUCCESS, c') \<and>
     get_option ex_cmos_config (Some 4) c' 96 80 ex_options = Some (CB_SUCCESS, mem_write ex_options 96 [5])"
proof -
  have "option_ok ex_cmos_config 400 4" "lb_cks_ok ex_cmos_config"
    by (simp_all add: option_ok_def option_size_def cks_ok_def ex_cmos_config_def)
  moreover have "covered ex_cmos_config 400 4"
    by (simp add: covered_def option_size_def in_cks_range_def ex_cmos_config_def)
  moreover have "value_fits 4 (\<lambda>i. ex_options (84 + i))" "mem_read ex_options 84 (option_size 4) = [5]"
    by (simp_all add: value_fits_def option_size_def mem_read_def ex_table_def)
  moreover have "use_option_table ex_cmos_config" by (simp add: ex_cmos_config_def)
  moreover have "option_chain ex_options (4 + ct_header_length ex_options 4) [16]"
    by (simp add: ex_table_fields LB_TAG_OPTION_def)
  ultimately show ?thesis
    using set_option_get_option [of ex_cmos_config ex_options 4 "[16]" 80 16 84 "\<lambda>_ _. 0" 96] ex_table_find
    by (auto simp: ex_table_fields)
qed

lemma strlen_nonzero: "strlen_from m p i = Some r \<Longrightarrow> \<forall>j. i \<le> j \<and> j < r \<longrightarrow> m (p + j) \<noteq> 0"
proof (rule strlen_from.raw_induct [where P = "\<lambda>m p i r. \<forall>j. i \<le> j \<and> j < r \<longrightarrow> m (p + j) \<noteq> 0"], goal_cases)
  case (1 rec m p i r)
  show ?case
  proof (cases "m (p + i) = 0")
    case True
    then show ?thesis using 1(3) by auto
  next
    case False
    then have "\<forall>j. i + 1 \<le> j \<and> j < r \<longrightarrow> m (p + j) \<noteq> 0" using 1(2,3) by auto
    moreover have "i + 1 \<le> j" if "i \<le> j" "i \<noteq> j" for j using that by (simp add: inc_le order.not_eq_order_implies_strict)
    ultimately show ?thesis using False by metis
  qed
qed

text \<open>
  C37: A string longer than its option is written in full: \<^verbatim>\<open>set_option\<close> takes the larger of the
  length of the string and the room of the option, so the bytes of the options behind it are
  overwritten, the terminating zero written first included, and success is reported.
\<close>

theorem set_option_string_overflows:
  assumes "use_option_table cfg" and "locate_entry m ct name = Some (Some ce)" and "ce_config m ce = 0x73"
    and "8 dvd unat (ce_bit m ce)" and "8 dvd unat (ce_length m ce)" and "ce_length m ce \<noteq> 0" and "lb_cks_ok cfg"
    and "strlen_from m val 0 = Some n" and "unat (ce_length m ce) < unat n * 8" and "unat (ce_bit m ce) div 8 + unat n \<le> 256"
    and "\<forall>k<unat n. int (unat (ce_bit m ce) div 8 + k) \<noteq> lb_cks_loc cfg \<and> int (unat (ce_bit m ce) div 8 + k) \<noteq> lb_cks_loc cfg + 1"
  shows "\<exists>c'. set_option cfg (Some ct) m name val c = Some (CB_SUCCESS, c') \<and>
    (\<forall>k<unat n. cmos_read c' (of_nat (unat (ce_bit m ce) div 8 + k)) = m (val + of_nat k) \<and> m (val + of_nat k) \<noteq> 0)"
proof -
  define start len where "start = ce_bit m ce" and "len = ce_length m ce"
  have len: "8 \<le> unat len" "unat len < unat n * 8"
    using dvd_imp_le [OF assms(5)] assms(6,9) by (simp_all add: len_def unat_gt_0)
  then have n: "1 < unat n" "unat n \<le> 256" using assms(10) by auto
  then have n8: "unat (n * 8) = unat n * 8" by (subst unat_mult_lem [THEN iffD1]) auto
  then have big: "\<not> n * 8 \<le> 8" using n(1) by (simp add: word_le_nat_alt)
  have "unat (len - 8) = unat len - 8" using len(1) by (subst unat_sub_nowrap) auto
  then have "len - 8 \<le> n * 8" using len(2) n8 by (simp add: word_le_nat_alt)
  then have mx: "max (n * 8) (len - 8) = n * 8" by (rule max_absorb1)
  have sz: "option_size (n * 8) = unat n" using big n8 by (simp add: option_size_def)
  have ok: "option_ok cfg start (n * 8)"
    using assms(4,10,11) big n8 n(1) by (auto simp: option_ok_def sz start_def word_less_nat_alt)
  have "unat start div 8 < 256" using ok n(1) by (auto simp: option_ok_def sz)
  then have s256: "unat start < 2048" by simp
  have last: "unat (start + len - 8) = unat start + (unat len - 8)"
  proof -
    have "unat (start + (len - 8)) = unat start + unat (len - 8)"
      using s256 len n(2) \<open>unat (len - 8) = _\<close> by (intro unat_add_nowrap) simp
    then show ?thesis using \<open>unat (len - 8) = _\<close> by (simp add: add_diff_eq)
  qed
  have "option_ok cfg (start + len - 8) 8"
  proof -
    obtain a b where ab: "unat start = 8 * a" "unat len = 8 * Suc b"
      using assms(4,5) len(1) by (metis dvdE start_def len_def mult_is_0 not_numeral_le_zero old.nat.exhaust)
    then have "b < unat n" using len(2) by simp
    then show ?thesis using ok sz ab last big by (auto simp: option_ok_def option_size_def)
  qed
  then obtain c1 where c1: "set_cmos_value cfg (start + len - 8) 8 (\<lambda>_. 0) c = Some (CB_SUCCESS, c1)"
    using set_cmos_value_run by blast
  obtain c' where c': "set_cmos_value cfg start (n * 8) (\<lambda>i. m (val + i)) c1 = Some (CB_SUCCESS, c')"
    "option_bytes c' start (n * 8) = map (\<lambda>k. m (val + of_nat k)) [0..<unat n]"
    using set_cmos_value_ok [OF ok assms(7), of "\<lambda>i. m (val + i)" c1] big by (auto simp: value_fits_def sz)
  have "cmos_read c' (of_nat (unat start div 8 + k)) = m (val + of_nat k)" if "k < unat n" for k
  proof -
    have "option_bytes c' start (n * 8) ! k = cmos_read c' (of_nat (unat start div 8) + of_nat k)"
      using that big n8 by (simp add: option_bytes_def ucast_byte)
    then show ?thesis using c'(2) that by simp
  qed
  moreover have "m (val + of_nat k) \<noteq> 0" if "k < unat n" for k
  proof -
    have "unat (of_nat k :: u32) = k" using that n(2) by (simp add: unat_of_nat_id)
    then show ?thesis using strlen_nonzero [OF assms(8)] that by (simp add: word_less_nat_alt word_le_nat_alt)
  qed
  moreover have "set_option cfg (Some ct) m name val c = Some (CB_SUCCESS, c')"
    using assms(1-3,8) c1 c'(1) mx by (simp add: set_option_def start_def len_def)
  ultimately show ?thesis by (auto simp: start_def)
qed

theorem set_option_string_overflows_witness:
  "\<exists>c'. set_option ex_cmos_config (Some 4) (ex_table 144 16 0x73) 80 84 (\<lambda>_ _. 0) = Some (CB_SUCCESS, c') \<and>
     cmos_read c' 51 = 7 \<and> cmos_read c' 52 = 9"
proof -
  define m where "m = ex_table 144 16 0x73"
  have ch: "option_chain m (4 + ct_header_length m 4) [16]" by (simp add: m_def ex_table_fields LB_TAG_OPTION_def)
  have "strnlen m p CMOS_MAX_NAME_LENGTH = 2" if "m p \<noteq> 0" "m (p + 1) \<noteq> 0" "m (p + 2) = 0" for p
    using that by (simp add: CMOS_MAX_NAME_LENGTH_def eval_nat_numeral add.assoc)
  then have "strnlen m 80 CMOS_MAX_NAME_LENGTH = 2" by (simp add: m_def ex_table_def)
  then have loc: "locate_entry m 4 80 = Some (Some 16)"
    using locate_entry_chain [OF ch, of 80] by (simp add: m_def mem_read_def ce_name_def ex_table_def upt_rec)
  have str: "strlen_from m 84 0 = Some 3"
    by (subst strlen_from.simps, simp add: m_def ex_table_def)+
  have "\<exists>c'. set_option ex_cmos_config (Some 4) m 80 84 (\<lambda>_ _. 0) = Some (CB_SUCCESS, c') \<and>
      (\<forall>k<unat (3 :: u32). cmos_read c' (of_nat (unat (ce_bit m 16) div 8 + k)) = m (84 + of_nat k) \<and> m (84 + of_nat k) \<noteq> 0)"
    by (rule set_option_string_overflows [OF _ loc _ _ _ _ _ str])
      (simp_all add: ex_cmos_config_def cks_ok_def m_def ex_table_fields)
  then obtain c' where c': "set_option ex_cmos_config (Some 4) m 80 84 (\<lambda>_ _. 0) = Some (CB_SUCCESS, c')"
    "\<forall>k<3. cmos_read c' (of_nat (50 + k)) = m (84 + of_nat k)"
    by (auto simp: m_def ex_table_fields)
  then show ?thesis
    using spec [OF c'(2), of 1] spec [OF c'(2), of 2] by (auto simp: m_def ex_table_def)
qed

section \<open>Boot attempts\<close>

lemma cmos_chksum_loop_run:
  "0 \<le> i \<Longrightarrow> i \<le> lb_cks_range_end cfg + 1 \<Longrightarrow> lb_cks_range_end cfg < 255 \<Longrightarrow>
    cmos_chksum_loop cfg c (word_of_int i) t = Some (fold (\<lambda>i s. s + ucast (cmos_read c (word_of_int i))) [i..lb_cks_range_end cfg] t)"
proof (induction "nat (lb_cks_range_end cfg + 1 - i)" arbitrary: i t)
  case 0
  then have "uint (word_of_int i :: u8) = i" by (simp add: uint_word_of_int)
  then show ?case using 0 by (simp add: cmos_chksum_loop.simps)
next
  case (Suc k)
  have "uint (word_of_int i :: u8) = i" using Suc.prems by (simp add: uint_word_of_int)
  moreover have "[i..lb_cks_range_end cfg] = i # [i + 1..lb_cks_range_end cfg]" using Suc.hyps(2) by (simp add: upto_rec1)
  moreover have "cmos_chksum_loop cfg c (word_of_int (i + 1)) (t + ucast (cmos_read c (word_of_int i))) =
      Some (fold (\<lambda>i s. s + ucast (cmos_read c (word_of_int i))) [i + 1..lb_cks_range_end cfg] (t + ucast (cmos_read c (word_of_int i))))"
    by (rule Suc.hyps(1)) (use Suc.hyps(2) Suc.prems in auto)
  moreover have "i \<le> lb_cks_range_end cfg" using Suc.hyps(2) by linarith
  ultimately show ?case by (subst cmos_chksum_loop.simps) simp
qed

lemma cmos_chksum_valid_eq:
  "use_option_table cfg \<Longrightarrow> lb_cks_ok cfg \<Longrightarrow> lb_cks_range_end cfg < 255 \<Longrightarrow>
    cmos_chksum_valid cfg c = Some (cmos_sum c (lb_cks_range_start cfg) (lb_cks_range_end cfg) = cmos_stored_sum c (lb_cks_loc cfg))"
  by (simp add: cmos_chksum_valid_def cmos_chksum_loop_run cmos_sum_def cks_ok_def)

text \<open>The outcomes of \<open>n\<close> boots in a row, with the payload reporting success after each or not at all.\<close>

fun boots :: "cmos_config \<Rightarrow> boot_config \<Rightarrow> bool \<Rightarrow> nat \<Rightarrow> nvram \<Rightarrow> bool list option" where
  "boots cfg bc success 0 c = Some []"
| "boots cfg bc success (Suc n) c =
     (case do_normal_boot cfg bc c of
        None \<Rightarrow> None
      | Some (normal, c) \<Rightarrow> map_option ((#) normal) (boots cfg bc success n (if success then set_boot_successful bc c else c)))"

definition boot_byte :: "nvram \<Rightarrow> u8" where "boot_byte c = cmos_read c RTC_BOOT_BYTE"

text \<open>The battery is good and the checksum valid, so that the boot byte is what the code looks at.\<close>

definition cmos_good :: "cmos_config \<Rightarrow> nvram \<Rightarrow> bool" where
  "cmos_good cfg c \<longleftrightarrow> \<not> cmos_error c \<and>
     cmos_sum c (lb_cks_range_start cfg) (lb_cks_range_end cfg) = cmos_stored_sum c (lb_cks_loc cfg)"

definition boot_byte_free :: "cmos_config \<Rightarrow> bool" where
  "boot_byte_free cfg \<longleftrightarrow> use_option_table cfg \<and> lb_cks_ok cfg \<and> lb_cks_range_end cfg < 255 \<and>
     (48 < lb_cks_range_start cfg \<or> lb_cks_range_end cfg < 48) \<and> lb_cks_loc cfg \<noteq> 48 \<and> lb_cks_loc cfg \<noteq> 47"

lemma cmos_good_cong:
  assumes "boot_byte_free cfg" and "\<And>a. a \<noteq> RTC_BOOT_BYTE \<Longrightarrow> cmos_read c' a = cmos_read c a"
  shows "cmos_good cfg c' = cmos_good cfg c"
proof -
  have k: "lb_cks_ok cfg" using assms(1) by (simp add: boot_byte_free_def)
  have r: "cmos_read c (word_of_int i) = cmos_read c' (word_of_int i)" if "0 \<le> i" "i < 256" "i \<noteq> 48" for i
    using that byte_of_int_eq [of i 48] by (intro assms(2) [symmetric]) (simp add: RTC_BOOT_BYTE_def)
  have "cmos_sum c (lb_cks_range_start cfg) (lb_cks_range_end cfg) = cmos_sum c' (lb_cks_range_start cfg) (lb_cks_range_end cfg)"
    by (rule cmos_sum_cong) (use assms(1) k in \<open>auto simp: boot_byte_free_def cks_ok_def intro!: r\<close>)
  moreover have "cmos_stored_sum c (lb_cks_loc cfg) = cmos_stored_sum c' (lb_cks_loc cfg)"
    unfolding cmos_stored_sum_def using assms(1) k r [of "lb_cks_loc cfg"] r [of "lb_cks_loc cfg + 1"]
    by (simp add: boot_byte_free_def cks_ok_def del: of_int_add)
  moreover have "cmos_error c' = cmos_error c" using assms(2) [of RTC_VALID] by (simp add: cmos_error_def RTC_VALID_def RTC_BOOT_BYTE_def)
  ultimately show ?thesis by (simp add: cmos_good_def)
qed

lemma do_normal_boot_good:
  assumes "boot_byte_free cfg" and "cmos_good cfg c"
  shows "\<exists>c'. do_normal_boot cfg bc c = Some (boot_use_normal (boot_byte c'), c') \<and> cmos_good cfg c' \<and>
    boot_byte c' = (if boot_use_normal (boot_byte c)
      then if boot_count (boot_byte c) < MAX_REBOOT_CNT bc then increment_boot_count (boot_byte c) else boot_set_fallback (boot_byte c)
      else boot_byte c)"
proof -
  have "cmos_chksum_valid cfg c = Some True" "\<not> cmos_error c"
    using assms cmos_chksum_valid_eq by (simp_all add: boot_byte_free_def cmos_good_def)
  define b where "b = (if boot_use_normal (boot_byte c)
      then if boot_count (boot_byte c) < MAX_REBOOT_CNT bc then increment_boot_count (boot_byte c) else boot_set_fallback (boot_byte c)
      else boot_byte c)"
  define c' where "c' = cmos_write b RTC_BOOT_BYTE c"
  have "boot_byte c' = b" by (simp add: c'_def boot_byte_def)
  moreover have "do_normal_boot cfg bc c = Some (boot_use_normal b, c')"
    using \<open>cmos_chksum_valid cfg c = Some True\<close> \<open>\<not> cmos_error c\<close>
    by (simp add: do_normal_boot_def b_def c'_def boot_byte_def Let_def)
  moreover have "cmos_good cfg c'" using cmos_good_cong [OF assms(1), of c' c] assms(2) by (simp add: c'_def)
  ultimately show ?thesis by (simp add: b_def)
qed

lemma boot_use_normal_odd: "boot_use_normal b \<longleftrightarrow> odd (unat b)"
  by (simp only: boot_use_normal_def RTC_BOOT_NORMAL_def and_one_eq word_unat_eq_iff unat_mod odd_iff_mod_2_eq_one) simp

lemma boot_count_div: "boot_count b = unat b div 16"
  by (simp add: boot_count_def drop_bit_eq_div unat_div)

lemma increment_boot_count_facts:
  assumes "boot_count b < 15"
  shows "boot_count (increment_boot_count b) = Suc (boot_count b) \<and> boot_use_normal (increment_boot_count b) = boot_use_normal b"
proof -
  have "unat b < 240" using assms unfolding boot_count_div by (simp add: div_less_iff_less_mult)
  then have "unat (increment_boot_count b) = unat b + 16"
    unfolding increment_boot_count_def by (subst unat_add_nowrap) (simp_all add: push_bit_eq_mult)
  then show ?thesis by (simp add: boot_count_div boot_use_normal_odd)
qed

lemma fallback_not_normal: "\<not> boot_use_normal (boot_set_fallback b)"
  by (simp add: boot_use_normal_def boot_set_fallback_def and.assoc)

lemma set_boot_successful_good:
  assumes "boot_byte_free cfg" and "cmos_good cfg c" and "boot_use_normal (boot_byte c)" and "\<not> SKIP_MAX_REBOOT_CNT_CLEAR bc"
  shows "cmos_good cfg (set_boot_successful bc c) \<and> boot_use_normal (boot_byte (set_boot_successful bc c)) \<and>
    boot_count (boot_byte (set_boot_successful bc c)) = 0"
proof -
  define c' where "c' = set_boot_successful bc c"
  have at: "cmos_read d RTC_BOOT_BYTE = d RTC_BASE_PORT RTC_BOOT_BYTE" for d by (simp add: cmos_read_def RTC_BOOT_BYTE_def)
  have "c' = cmos_write_inner (boot_byte c AND 0x0f) RTC_BOOT_BYTE c"
    using assms(3,4)
    by (simp add: c'_def set_boot_successful_def cmos_write_inner_def boot_byte_def boot_use_normal_def Let_def at [unfolded RTC_BOOT_BYTE_def] RTC_BOOT_BYTE_def)
  then have c': "boot_byte c' = boot_byte c AND 0x0f" "a \<noteq> RTC_BOOT_BYTE \<Longrightarrow> cmos_read c' a = cmos_read c a" for a
    by (simp_all add: boot_byte_def)
  have "boot_byte c AND mask 4 = boot_byte c mod 2 ^ 4" by (simp only: take_bit_eq_mask [symmetric] take_bit_eq_mod)
  moreover have "(mask 4 :: u8) = 0x0f" by (simp add: mask_eq_exp_minus_1)
  ultimately have "boot_byte c' = boot_byte c mod 16" unfolding c'(1) by (simp only:) simp
  then have "unat (boot_byte c') = unat (boot_byte c) mod 16" by (simp only: unat_mod) simp
  then have "boot_count (boot_byte c') = 0" "boot_use_normal (boot_byte c')"
    using assms(3) by (simp_all add: boot_count_div boot_use_normal_odd even_mod_4_div_2) presburger
  moreover have "cmos_good cfg c'" using cmos_good_cong [OF assms(1)] c'(2) assms(2) by blast
  ultimately show ?thesis by (simp add: c'_def)
qed

lemma boots_fallback:
  "boot_byte_free cfg \<Longrightarrow> cmos_good cfg c \<Longrightarrow> \<not> boot_use_normal (boot_byte c) \<Longrightarrow> boots cfg bc False n c = Some (replicate n False)"
proof (induction n arbitrary: c)
  case (Suc n)
  then show ?case using do_normal_boot_good [OF Suc.prems(1,2), of bc] by auto
qed simp

lemma boots_counting:
  "boot_byte_free cfg \<Longrightarrow> cmos_good cfg c \<Longrightarrow> boot_use_normal (boot_byte c) \<Longrightarrow> boot_count (boot_byte c) + d = MAX_REBOOT_CNT bc \<Longrightarrow>
    MAX_REBOOT_CNT bc \<le> 15 \<Longrightarrow> boots cfg bc False n c = Some (replicate (min n d) True @ replicate (n - d) False)"
proof (induction n arbitrary: c d)
  case (Suc n)
  obtain c' where c': "do_normal_boot cfg bc c = Some (boot_use_normal (boot_byte c'), c')" "cmos_good cfg c'"
    "boot_byte c' = (if boot_count (boot_byte c) < MAX_REBOOT_CNT bc then increment_boot_count (boot_byte c) else boot_set_fallback (boot_byte c))"
    using do_normal_boot_good [OF Suc.prems(1,2), of bc] Suc.prems(3) by auto
  show ?case
  proof (cases d)
    case 0
    then have "\<not> boot_use_normal (boot_byte c')" using c'(3) Suc.prems(4) fallback_not_normal by simp
    then show ?thesis using boots_fallback [OF Suc.prems(1) c'(2)] c'(1) 0 by simp
  next
    case (Suc d')
    then have "boot_use_normal (boot_byte c')" "boot_count (boot_byte c') + d' = MAX_REBOOT_CNT bc"
      using c'(3) Suc.prems(3-5) increment_boot_count_facts [of "boot_byte c"] by simp_all
    then show ?thesis using Suc.IH [OF Suc.prems(1) c'(2)] Suc.prems(5) c'(1) Suc by simp
  qed
qed simp

lemma boots_successful:
  "boot_byte_free cfg \<Longrightarrow> cmos_good cfg c \<Longrightarrow> boot_use_normal (boot_byte c) \<Longrightarrow> boot_count (boot_byte c) < MAX_REBOOT_CNT bc \<Longrightarrow>
    MAX_REBOOT_CNT bc \<le> 15 \<Longrightarrow> \<not> SKIP_MAX_REBOOT_CNT_CLEAR bc \<Longrightarrow> boots cfg bc True n c = Some (replicate n True)"
proof (induction n arbitrary: c)
  case (Suc n)
  obtain c' where c': "do_normal_boot cfg bc c = Some (True, c')" "cmos_good cfg c'" "boot_use_normal (boot_byte c')"
    using do_normal_boot_good [OF Suc.prems(1,2), of bc] Suc.prems(3-5) increment_boot_count_facts [of "boot_byte c"] by auto
  then show ?case
    using Suc.IH set_boot_successful_good [OF Suc.prems(1) c'(2,3) Suc.prems(6)] Suc.prems by simp
qed simp

text \<open>
  C38: Counting boot attempts. With a good battery and checksum, and the boot byte asking for the
  normal image after \<open>k\<close> attempts, boots whose payload never reports success use the normal image
  exactly until the configured number of attempts is reached, and the fallback image from then
  on; boots that each end in success use the normal image for ever.
\<close>

theorem boot_attempts_counted:
  assumes "boot_byte_free cfg" and "cmos_good cfg c" and "boot_use_normal (boot_byte c)"
    and "boot_count (boot_byte c) \<le> MAX_REBOOT_CNT bc" and "MAX_REBOOT_CNT bc \<le> 15"
  shows "boots cfg bc False n c = Some (replicate (min n (MAX_REBOOT_CNT bc - boot_count (boot_byte c))) True @
      replicate (n - (MAX_REBOOT_CNT bc - boot_count (boot_byte c))) False) \<and>
    (boot_count (boot_byte c) < MAX_REBOOT_CNT bc \<and> \<not> SKIP_MAX_REBOOT_CNT_CLEAR bc \<longrightarrow> boots cfg bc True n c = Some (replicate n True))"
  using boots_counting [OF assms(1-3) _ assms(5), of "MAX_REBOOT_CNT bc - boot_count (boot_byte c)" n] assms(4)
    boots_successful [OF assms(1-3) _ assms(5)] by simp

definition ex_boot_config :: cmos_config where
  "ex_boot_config = \<lparr>use_option_table = True, static_option_table = False, lb_cks_range_start = 49,
     lb_cks_range_end = 50, lb_cks_loc = 51\<rparr>"

definition ex_boot_cmos :: nvram where
  "ex_boot_cmos port index = (if index = 13 then 0x80 else if index = 48 then 0x11 else 0)"

theorem boot_attempts_counted_witness:
  "boots ex_boot_config \<lparr>MAX_REBOOT_CNT = 3, SKIP_MAX_REBOOT_CNT_CLEAR = False\<rparr> False 4 ex_boot_cmos = Some [True, True, False, False] \<and>
   boots ex_boot_config \<lparr>MAX_REBOOT_CNT = 3, SKIP_MAX_REBOOT_CNT_CLEAR = False\<rparr> True 4 ex_boot_cmos = Some [True, True, True, True]"
proof -
  have good: "cmos_good ex_boot_config ex_boot_cmos"
    by (simp add: cmos_good_def cmos_error_def cmos_sum_def cmos_stored_sum_def ex_boot_config_def cmos_read_def
        ex_boot_cmos_def RTC_BASE_PORT_def RTC_VALID_def RTC_VRT_def)
  have b: "boot_byte ex_boot_cmos = 0x11"
    by (simp add: boot_byte_def cmos_read_def ex_boot_cmos_def RTC_BOOT_BYTE_def)
  have "boot_byte_free ex_boot_config" by (simp add: boot_byte_free_def ex_boot_config_def cks_ok_def)
  have n: "boot_use_normal (boot_byte ex_boot_cmos)" "boot_count (boot_byte ex_boot_cmos) = 1"
    unfolding b by (simp_all add: boot_use_normal_odd boot_count_div)
  have r: "replicate 4 x = [x, x, x, x]" "replicate 2 x = [x, x]" for x :: bool by (simp_all add: numeral_eq_Suc)
  from boot_attempts_counted [OF \<open>boot_byte_free ex_boot_config\<close> good n(1), of "\<lparr>MAX_REBOOT_CNT = 3, SKIP_MAX_REBOOT_CNT_CLEAR = False\<rparr>" 4]
  show ?thesis by (simp add: n(2) r)
qed

end
