(* ===== verification/Rtc.thy ===== *)
theory Rtc
  imports Cmos
begin

text \<open>
  Dates, \<^verbatim>\<open>src/lib/rtc.c\<close>, and their way through the clock chip of \<^verbatim>\<open>Cmos\<close>. C integers are
  unbounded here; the conversions to and from \<^verbatim>\<open>unsigned long\<close> are those of the code.
\<close>

section \<open>Operations\<close>

definition STARTOFTIME :: int where "STARTOFTIME = 1970"
definition SECDAY :: int where "SECDAY = 86400"

definition LEAP_YEAR :: "int \<Rightarrow> bool" where "LEAP_YEAR yr \<longleftrightarrow> yr smod 4 = 0"
definition DAYS_IN_YEAR :: "int \<Rightarrow> int" where "DAYS_IN_YEAR a = (if LEAP_YEAR a then 366 else 365)"

definition month_offset :: "int list" where
  "month_offset = [0, 31, 59, 90, 120, 151, 181, 212, 243, 273, 304, 334]"

definition leaps_to_year :: "int \<Rightarrow> int" where
  "leaps_to_year yr = yr sdiv 4 - yr sdiv 100 + yr sdiv 400"

definition rtc_calc_weekday :: "rtc_time \<Rightarrow> int \<times> rtc_time" where
  "rtc_calc_weekday tm =
     (if tm_year tm < 1971 then (-1, tm)
      else let day = 4;
               leaps_to_date = leaps_to_year (tm_year tm - 1) - leaps_to_year 1970;
               day = (if tm_year tm smod 4 \<noteq> 0 \<and> (tm_year tm smod 100 \<noteq> 0 \<or> tm_year tm smod 400 = 0) \<and> tm_mon tm > 2
                      then day + 1 else day);
               day = day + ((tm_year tm - 1970) * 365 + leaps_to_date + month_offset ! nat (tm_mon tm - 1) + tm_mday tm)
           in (0, tm\<lparr>tm_wday := day smod 7\<rparr>))"

function year_loop :: "int \<Rightarrow> int \<Rightarrow> int \<times> int" where
  "year_loop i day = (if day \<ge> DAYS_IN_YEAR i then year_loop (i + 1) (day - DAYS_IN_YEAR i) else (i, day))"
  by pat_completeness auto
termination
  by (relation "measure (\<lambda>(i, day). nat day)") (auto simp: DAYS_IN_YEAR_def split: if_splits)

declare year_loop.simps [simp del]

text \<open>The months left, from the \<open>i\<close>-th on; \<open>None\<close> when the loop leaves the array.\<close>

fun month_loop :: "int list \<Rightarrow> int \<Rightarrow> int \<Rightarrow> (int \<times> int) option" where
  "month_loop [] i day = None"
| "month_loop (m # ms) i day = (if day \<ge> m then month_loop ms (i + 1) (day - m) else Some (i, day))"

definition month_days :: "int \<Rightarrow> int list" where
  "month_days yr = [31, if LEAP_YEAR yr then 29 else 28, 31, 30, 31, 30, 31, 31, 30, 31, 30, 31]"

definition rtc_to_tm :: "int \<Rightarrow> rtc_time \<Rightarrow> (int \<times> rtc_time) option" where
  "rtc_to_tm tim tm =
     (let day = tim sdiv SECDAY;
          hms = tim smod SECDAY;
          tm = tm\<lparr>tm_hour := hms sdiv 3600, tm_min := (hms smod 3600) sdiv 60, tm_sec := (hms smod 3600) smod 60\<rparr>;
          (i, day) = year_loop STARTOFTIME day;
          tm = tm\<lparr>tm_year := i\<rparr>
      in case month_loop (month_days (tm_year tm)) 1 day of
           None \<Rightarrow> None
         | Some (i, day) \<Rightarrow> Some (rtc_calc_weekday (tm\<lparr>tm_mon := i, tm_mday := day + 1\<rparr>)))"

definition rtc_mktime :: "rtc_time \<Rightarrow> u32" where
  "rtc_mktime tm =
     (let mon = tm_mon tm - 2;
          yr = tm_year tm;
          (mon, yr) = (if 0 \<ge> mon then (mon + 12, yr - 1) else (mon, yr));
          days = sint ((word_of_int (yr sdiv 4 - yr sdiv 100 + yr sdiv 400 + 367 * mon sdiv 12 + tm_mday tm) :: u32)
                       + word_of_int (yr * 365) - 719499);
          hours = days * 24 + tm_hour tm
      in word_of_int ((hours * 60 + tm_min tm) * 60 + tm_sec tm))"

section \<open>Counting days\<close>

lemma sdiv_nonneg: "0 \<le> a \<Longrightarrow> 0 < b \<Longrightarrow> a sdiv b = (a :: int) div b"
  and smod_nonneg: "0 \<le> a \<Longrightarrow> 0 < b \<Longrightarrow> a smod b = (a :: int) mod b"
  by (auto simp: signed_divide_int_def signed_modulo_int_def sgn_if)

text \<open>The days before a year, as the year loop subtracts them.\<close>

definition days_before :: "int \<Rightarrow> int" where
  "days_before y = 365 * (y - 1970) + (y - 1969) div 4"

lemma days_before_step: "1970 \<le> y \<Longrightarrow> days_before (y + 1) = days_before y + DAYS_IN_YEAR y"
  unfolding days_before_def DAYS_IN_YEAR_def LEAP_YEAR_def smod_nonneg [of y 4] by (auto simp: smod_nonneg) presburger+

lemma year_loop_run:
  "0 \<le> d \<Longrightarrow> 1970 \<le> i \<Longrightarrow> \<exists>y r. year_loop i d = (y, r) \<and> 0 \<le> r \<and> r < DAYS_IN_YEAR y \<and> i \<le> y \<and> days_before i + d = days_before y + r"
proof (induction i d rule: year_loop.induct)
  case (1 i d)
  show ?case
  proof (cases "d \<ge> DAYS_IN_YEAR i")
    case True
    then obtain y r where "year_loop (i + 1) (d - DAYS_IN_YEAR i) = (y, r) \<and> 0 \<le> r \<and> r < DAYS_IN_YEAR y \<and> i + 1 \<le> y \<and>
        days_before (i + 1) + (d - DAYS_IN_YEAR i) = days_before y + r"
      using 1 by auto
    then show ?thesis using True days_before_step [OF "1.prems"(2)] by (subst year_loop.simps) auto
  next
    case False
    then show ?thesis using 1 by (subst year_loop.simps) auto
  qed
qed

lemma year_bound: "days_before y + r < 24856 \<Longrightarrow> 0 \<le> r \<Longrightarrow> y \<le> 2038"
proof (rule ccontr)
  assume a: "days_before y + r < 24856" "0 \<le> r" "\<not> y \<le> 2038"
  then have "70 div 4 \<le> (y - 1969) div 4" by (intro zdiv_mono1) simp_all
  then show False using a by (simp add: days_before_def)
qed

lemma month_loop_run:
  assumes "0 \<le> r" and "r < DAYS_IN_YEAR y"
  shows "\<exists>mon d. month_loop (month_days y) 1 r = Some (mon, d) \<and> 0 \<le> d \<and> d < 31 \<and> mon \<in> {1..12} \<and>
    r = month_offset ! nat (mon - 1) + (if LEAP_YEAR y \<and> mon > 2 then 1 else 0) + d"
proof (cases "LEAP_YEAR y")
  case True
  then show ?thesis using assms by (auto simp: month_days_def month_offset_def DAYS_IN_YEAR_def)
next
  case False
  then show ?thesis using assms by (auto simp: month_days_def month_offset_def DAYS_IN_YEAR_def)
qed

lemma century_leaps: "1969 \<le> y \<Longrightarrow> y \<le> 2038 \<Longrightarrow> leaps_to_year y = y div 4 - 15"
proof -
  assume y: "1969 \<le> y" "y \<le> 2038"
  have "y div 100 - y div 400 = 15"
  proof (cases "y < 2000")
    case True
    have "y div 100 = 19" by (rule int_div_pos_eq [of y 100 19 "y - 1900"]) (use y True in auto)
    moreover have "y div 400 = 4" by (rule int_div_pos_eq [of y 400 4 "y - 1600"]) (use y True in auto)
    ultimately show ?thesis by simp
  next
    case False
    have "y div 100 = 20" by (rule int_div_pos_eq [of y 100 20 "y - 2000"]) (use y False in auto)
    moreover have "y div 400 = 5" by (rule int_div_pos_eq [of y 400 5 "y - 2000"]) (use y False in auto)
    ultimately show ?thesis by simp
  qed
  then show ?thesis using y by (simp add: leaps_to_year_def sdiv_nonneg)
qed

lemma months_cases: "mon \<in> {1..12} \<Longrightarrow> mon = 1 \<or> mon = 2 \<or> mon = 3 \<or> mon = 4 \<or> mon = 5 \<or> mon = 6 \<or> mon = 7 \<or> mon = 8 \<or>
    mon = 9 \<or> mon = 10 \<or> mon = 11 \<or> mon = (12 :: int)"
  unfolding atLeastAtMost_iff by presburger

lemma mktime_days:
  assumes "1970 \<le> y" and "y \<le> 2038" and "mon \<in> {1..12}"
    and "(mn, yr) = (if 0 \<ge> mon - 2 then (mon - 2 + 12, y - 1) else (mon - 2, y))"
  shows "leaps_to_year yr + 367 * mn sdiv 12 + (d + 1) + yr * 365 - 719499 =
    days_before y + month_offset ! nat (mon - 1) + (if LEAP_YEAR y \<and> mon > 2 then 1 else 0) + d"
proof -
  have leap: "LEAP_YEAR y \<longleftrightarrow> y mod 4 = 0" using assms(1) by (simp add: LEAP_YEAR_def smod_nonneg)
  have q: "(y - 1969) div 4 = (if y mod 4 = 0 then y div 4 - 493 else y div 4 - 492)"
    "(y - 1) div 4 = (if y mod 4 = 0 then y div 4 - 1 else y div 4)" by presburger+
  show ?thesis
    using months_cases [OF assms(3)] assms(1,2,4)
    by (elim disjE) (simp_all add: month_offset_def century_leaps leap days_before_def q sdiv_nonneg)
qed

lemma seconds_of_parts:
  "((tim div 86400 * 24 + tim div 3600 mod 24) * 60 + tim div 60 mod 60) * 60 + tim mod 60 = (tim :: int)"
proof -
  have hour: "tim div 3600 = tim div 60 div 60" using zdiv_zmult2_eq [of 60 tim 60] by simp
  have day: "tim div 86400 = tim div 60 div 60 div 24" using zdiv_zmult2_eq [of 24 tim 3600] hour by simp
  show ?thesis by (simp only: hour day div_mult_mod_eq)
qed

text \<open>The number of days since the first of January 1970.\<close>

definition epoch_day :: "int \<Rightarrow> int" where "epoch_day tim = tim div SECDAY"

lemma rtc_to_tm_run:
  assumes "0 \<le> tim" and "tim < 2 ^ 31"
  shows "\<exists>y mon d t. rtc_to_tm tim tm = Some (rtc_calc_weekday t) \<and> 1970 \<le> y \<and> y \<le> 2038 \<and> mon \<in> {1..12} \<and> 0 \<le> d \<and> d < 31 \<and>
    epoch_day tim = days_before y + month_offset ! nat (mon - 1) + (if LEAP_YEAR y \<and> mon > 2 then 1 else 0) + d \<and>
    t = tm\<lparr>tm_hour := tim div 3600 mod 24, tm_min := tim div 60 mod 60, tm_sec := tim mod 60, tm_year := y, tm_mon := mon, tm_mday := d + 1\<rparr>"
proof -
  define D h where "D = epoch_day tim" and "h = tim mod SECDAY"
  have D: "0 \<le> D" "D < 24856" using assms by (simp_all add: D_def epoch_day_def SECDAY_def)
  have h: "0 \<le> h" by (simp add: h_def SECDAY_def)
  obtain y r where y: "year_loop STARTOFTIME D = (y, r)" "0 \<le> r" "r < DAYS_IN_YEAR y" "1970 \<le> y" "D = days_before y + r"
    using year_loop_run [of D 1970] D(1) by (auto simp: STARTOFTIME_def days_before_def)
  obtain mon d where m: "month_loop (month_days y) 1 r = Some (mon, d)" "0 \<le> d" "d < 31" "mon \<in> {1..12}"
    "r = month_offset ! nat (mon - 1) + (if LEAP_YEAR y \<and> mon > 2 then 1 else 0) + d"
    using month_loop_run [OF y(2,3)] by blast
  have v: "h div 3600 = tim div 3600 mod 24" "h mod 3600 div 60 = tim div 60 mod 60" "h mod 3600 mod 60 = tim mod 60"
  proof -
    have a: "h = 3600 * (tim div 3600 mod 24) + tim mod 3600"
      using zmod_zmult2_eq [of 24 tim 3600] by (simp add: h_def SECDAY_def)
    have b: "tim mod 3600 = 60 * (tim div 60 mod 60) + tim mod 60" using zmod_zmult2_eq [of 60 tim 60] by simp
    have c: "h mod 3600 = tim mod 3600" "h div 3600 = tim div 3600 mod 24" unfolding a by simp_all
    show "h div 3600 = tim div 3600 mod 24" by (rule c(2))
    show "h mod 3600 div 60 = tim div 60 mod 60" "h mod 3600 mod 60 = tim mod 60" unfolding c(1) b by simp_all
  qed
  have q: "h sdiv 3600 = tim div 3600 mod 24" "(h smod 3600) sdiv 60 = tim div 60 mod 60" "(h smod 3600) smod 60 = tim mod 60"
  proof -
    have "0 \<le> h mod 3600" by simp
    then have "h sdiv 3600 = h div 3600" "h smod 3600 = h mod 3600" "(h mod 3600) sdiv 60 = h mod 3600 div 60" "(h mod 3600) smod 60 = h mod 3600 mod 60"
      using h by (simp_all only: sdiv_nonneg smod_nonneg zero_less_numeral)
    then show "h sdiv 3600 = tim div 3600 mod 24" "(h smod 3600) sdiv 60 = tim div 60 mod 60" "(h smod 3600) smod 60 = tim mod 60"
      by (simp_all only: v)
  qed
  have e: "tim sdiv SECDAY = D" "tim smod SECDAY = h"
    using assms(1) by (simp_all add: D_def epoch_day_def h_def SECDAY_def sdiv_nonneg smod_nonneg)
  have "rtc_to_tm tim tm = Some (rtc_calc_weekday
      (tm\<lparr>tm_hour := tim div 3600 mod 24, tm_min := tim div 60 mod 60, tm_sec := tim mod 60, tm_year := y, tm_mon := mon, tm_mday := d + 1\<rparr>))"
    unfolding rtc_to_tm_def Let_def e q y(1) prod.case by (simp add: m(1))
  moreover have "y \<le> 2038" using year_bound [of y r] y(2,5) D(2) by simp
  moreover have "epoch_day tim = days_before y + month_offset ! nat (mon - 1) + (if LEAP_YEAR y \<and> mon > 2 then 1 else 0) + d"
    using y(5) m(5) by (simp add: D_def)
  ultimately show ?thesis
    using y(4) m(2-4) by (intro exI [of _ y] exI [of _ mon] exI [of _ d] exI conjI) (assumption | rule refl)+
qed

lemma rtc_mktime_run:
  assumes "1970 \<le> tm_year t" and "tm_year t \<le> 2038" and "tm_mon t \<in> {1..12}"
    and "0 \<le> D" and "D < 24856"
    and "D = days_before (tm_year t) + month_offset ! nat (tm_mon t - 1) + (if LEAP_YEAR (tm_year t) \<and> tm_mon t > 2 then 1 else 0) + (tm_mday t - 1)"
  shows "rtc_mktime t = word_of_int (((D * 24 + tm_hour t) * 60 + tm_min t) * 60 + tm_sec t)"
proof -
  obtain mn yr where n: "(mn, yr) = (if 0 \<ge> tm_mon t - 2 then (tm_mon t - 2 + 12, tm_year t - 1) else (tm_mon t - 2, tm_year t))"
    by (metis surj_pair)
  have D: "leaps_to_year yr + 367 * mn sdiv 12 + tm_mday t + yr * 365 - 719499 = D"
    using mktime_days [OF assms(1-3) n, of "tm_mday t - 1"] assms(6) by simp
  have "(word_of_int (leaps_to_year yr + 367 * mn sdiv 12 + tm_mday t) :: u32) + word_of_int (yr * 365) - 719499 = word_of_int D"
    unfolding D [symmetric] by simp
  moreover have "sint (word_of_int D :: u32) = D"
    using assms(4,5) by (simp add: sint_uint uint_word_of_int signed_take_bit_int_eq_self)
  ultimately show ?thesis
    by (simp only: rtc_mktime_def Let_def n [symmetric] prod.case leaps_to_year_def [symmetric])
qed

lemma wait_uip_ends: "reg_a n AND RTC_UIP = 0 \<Longrightarrow> i \<le> n \<Longrightarrow> \<exists>k. wait_uip reg_a i = Some k"
proof (induction "n - i" arbitrary: i)
  case 0
  then show ?case by (simp add: wait_uip.simps)
next
  case (Suc d)
  then show ?case using Suc.hyps(1) [of "i + 1"] by (subst wait_uip.simps) auto
qed

lemma bcd_roundtrip: "0 \<le> x \<Longrightarrow> x < 100 \<Longrightarrow> uint (bcd2bin (bin2bcd (word_of_int x))) = x"
proof -
  have "\<forall>x\<in>set [0..99::int]. uint (bcd2bin (bin2bcd (word_of_int x))) = x" by code_simp
  moreover assume "0 \<le> x" "x < 100"
  ultimately show ?thesis by simp
qed

lemma rtc_set_get:
  assumes "reg_a n AND RTC_UIP = 0" and "0 \<le> tm_sec t" "tm_sec t < 100" "0 \<le> tm_min t" "tm_min t < 100" "0 \<le> tm_hour t" "tm_hour t < 100"
    "0 \<le> tm_mday t" "tm_mday t < 100" "0 \<le> tm_mon t" "tm_mon t < 100" "0 \<le> tm_year t" "tm_year t < 10000" "0 \<le> tm_wday t" "tm_wday t < 99"
  shows "rtc_get reg_a (rtc_set t c) = Some t"
proof -
  obtain k where "wait_uip reg_a 0 = Some k" using wait_uip_ends [of reg_a n 0] assms(1) by auto
  moreover have "tm_year t smod 100 + tm_year t sdiv 100 * 100 = tm_year t"
    using assms by (simp add: smod_nonneg sdiv_nonneg)
  moreover have "uint (bcd2bin (bin2bcd (word_of_int (tm_year t smod 100)))) = tm_year t smod 100"
    "uint (bcd2bin (bin2bcd (word_of_int (tm_year t sdiv 100)))) = tm_year t sdiv 100"
    using assms by (intro bcd_roundtrip; simp add: smod_nonneg sdiv_nonneg)+
  moreover have "uint (bcd2bin (bin2bcd (word_of_int (tm_wday t + 1)))) = tm_wday t + 1"
    using assms by (intro bcd_roundtrip) simp_all
  ultimately show ?thesis
    using assms by (simp add: rtc_get_def rtc_set_def rtc_registers bcd_roundtrip Let_def del: of_int_add)
qed

lemma weekday_range:
  assumes "0 \<le> tm_wday t" and "tm_wday t < 7" and "1970 \<le> tm_year t" and "tm_year t \<le> 2038" and "tm_mon t \<in> {1..12}" and "0 < tm_mday t"
  shows "let t' = snd (rtc_calc_weekday t) in 0 \<le> tm_wday t' \<and> tm_wday t' < 7 \<and> t' = t\<lparr>tm_wday := tm_wday t'\<rparr>"
proof -
  have "0 \<le> month_offset ! nat (tm_mon t - 1)"
    using months_cases [OF assms(5)] by (elim disjE) (simp_all add: month_offset_def)
  moreover have "0 \<le> leaps_to_year (tm_year t - 1) - leaps_to_year 1970"
    if "1971 \<le> tm_year t" using that assms(4) by (simp add: century_leaps)
  ultimately show ?thesis
    using assms unfolding rtc_calc_weekday_def Let_def by (simp add: smod_nonneg)
qed

section \<open>Properties\<close>

text \<open>
  C19: Every time from 1970 until signed 32-bit seconds run out survives the way into the chip and
  back: \<^verbatim>\<open>rtc_to_tm\<close> stays inside its month table and yields a date in range, setting the clock to it
  and reading the clock gives the same date, and \<^verbatim>\<open>rtc_mktime\<close> gives the same time. The structure's
  weekday is assumed to be one, as before 1971 the code leaves it alone.
\<close>

theorem time_survives_clock:
  assumes "0 \<le> tim" and "tim < 2 ^ 31" and "reg_a n AND RTC_UIP = 0" and "0 \<le> tm_wday tm" and "tm_wday tm < 7"
  shows "\<exists>ret t. rtc_to_tm tim tm = Some (ret, t) \<and> rtc_get reg_a (rtc_set t c) = Some t \<and> rtc_mktime t = word_of_int tim \<and>
    tm_sec t \<in> {0..59} \<and> tm_min t \<in> {0..59} \<and> tm_hour t \<in> {0..23} \<and> tm_mday t \<in> {1..31} \<and> tm_mon t \<in> {1..12} \<and>
    tm_year t \<in> {1970..2038}"
proof -
  obtain y mon d t where t: "rtc_to_tm tim tm = Some (rtc_calc_weekday t)" "1970 \<le> y" "y \<le> 2038" "mon \<in> {1..12}" "0 \<le> d" "d < 31"
    "epoch_day tim = days_before y + month_offset ! nat (mon - 1) + (if LEAP_YEAR y \<and> mon > 2 then 1 else 0) + d"
    "t = tm\<lparr>tm_hour := tim div 3600 mod 24, tm_min := tim div 60 mod 60, tm_sec := tim mod 60, tm_year := y, tm_mon := mon, tm_mday := d + 1\<rparr>"
    using rtc_to_tm_run [OF assms(1,2)] by blast
  obtain ret t' where t': "rtc_calc_weekday t = (ret, t')" by (metis surj_pair)
  have w: "0 \<le> tm_wday t'" "tm_wday t' < 7" "t' = t\<lparr>tm_wday := tm_wday t'\<rparr>"
    using weekday_range [of t] t' t(2-5) assms(4,5) by (simp_all add: t(8) Let_def)
  have f: "tm_sec t' = tim mod 60" "tm_min t' = tim div 60 mod 60" "tm_hour t' = tim div 3600 mod 24"
    "tm_mday t' = d + 1" "tm_mon t' = mon" "tm_year t' = y"
    by (subst w(3), simp add: t(8))+
  have "0 \<le> epoch_day tim" "epoch_day tim < 24856" using assms(1,2) by (simp_all add: epoch_day_def SECDAY_def)
  then have mk: "rtc_mktime t' = word_of_int (((epoch_day tim * 24 + tm_hour t') * 60 + tm_min t') * 60 + tm_sec t')"
    using t(2-7) by (intro rtc_mktime_run) (simp_all add: f)
  have "((epoch_day tim * 24 + tm_hour t') * 60 + tm_min t') * 60 + tm_sec t' = tim"
    using seconds_of_parts [of tim] by (simp add: f epoch_day_def SECDAY_def)
  then have "rtc_mktime t' = word_of_int tim" unfolding mk by (simp only:)
  moreover have "rtc_get reg_a (rtc_set t' c) = Some t'"
    using t(2-6) w(1,2) pos_mod_bound [of 60 tim] pos_mod_bound [of 60 "tim div 60"] pos_mod_bound [of 24 "tim div 3600"]
    by (intro rtc_set_get [of reg_a n, OF assms(3)]) (simp_all add: f)
  moreover have "tim mod 60 \<le> 59" "tim div 60 mod 60 \<le> 59" "tim div 3600 mod 24 \<le> 23"
    using pos_mod_bound [of 60 tim] pos_mod_bound [of 60 "tim div 60"] pos_mod_bound [of 24 "tim div 3600"] by simp_all
  ultimately show ?thesis
    using t(1) t' t(2-6) by (intro exI [of _ ret] exI [of _ t']) (simp add: f)
qed

theorem time_survives_clock_witness:
  "\<exists>ret t. rtc_to_tm 1000000000 \<lparr>tm_sec = 0, tm_min = 0, tm_hour = 0, tm_mday = 0, tm_mon = 0, tm_year = 0, tm_wday = 0\<rparr> = Some (ret, t) \<and>
     rtc_get (\<lambda>i. if i < 3 then 0x80 else 0) (rtc_set t (\<lambda>_ _. 0)) = Some t \<and> rtc_mktime t = 1000000000"
  using time_survives_clock [of 1000000000 "\<lambda>i. if i < 3 then 0x80 else 0" 3
      "\<lparr>tm_sec = 0, tm_min = 0, tm_hour = 0, tm_mday = 0, tm_mon = 0, tm_year = 0, tm_wday = 0\<rparr>" "\<lambda>_ _. 0"]
  by auto

text \<open>
  C39: The day of the week \<^verbatim>\<open>rtc_calc_weekday\<close> computes, against the days since Thursday, the
  first of January 1970: it is right from March on in leap years, one day late in January and
  February, and two days late from March on in other years. Dates before 1971 are refused.
\<close>

theorem rtc_weekday_off:
  assumes "0 \<le> tim" and "tim < 2 ^ 31"
  shows "\<exists>ret t. rtc_to_tm tim tm = Some (ret, t) \<and>
    (if epoch_day tim < 365 then ret = -1
     else ret = 0 \<and> tm_wday t = (epoch_day tim + 4 + (if tm_mon t \<le> 2 then 1 else if LEAP_YEAR (tm_year t) then 0 else 2)) mod 7)"
proof -
  obtain y mon d t where t: "rtc_to_tm tim tm = Some (rtc_calc_weekday t)" "1970 \<le> y" "y \<le> 2038" "mon \<in> {1..12}" "0 \<le> d" "d < 31"
    "epoch_day tim = days_before y + month_offset ! nat (mon - 1) + (if LEAP_YEAR y \<and> mon > 2 then 1 else 0) + d"
    "t = tm\<lparr>tm_hour := tim div 3600 mod 24, tm_min := tim div 60 mod 60, tm_sec := tim mod 60, tm_year := y, tm_mon := mon, tm_mday := d + 1\<rparr>"
    using rtc_to_tm_run [OF assms] by blast
  have off: "0 \<le> month_offset ! nat (mon - 1)" "month_offset ! nat (mon - 1) \<le> 334"
    using months_cases [OF t(4)] by (elim disjE; simp add: month_offset_def)+
  show ?thesis
  proof (cases "y < 1971")
    case True
    then have "y = 1970" using t(2) by simp
    then have "epoch_day tim < 365" using t(6,7) off(2) by (simp add: days_before_def LEAP_YEAR_def smod_nonneg)
    then show ?thesis using t(1) True by (simp add: rtc_calc_weekday_def t(8))
  next
    case False
    then have y: "1971 \<le> y" by simp
    have leap: "LEAP_YEAR y \<longleftrightarrow> y mod 4 = 0" using y by (simp add: LEAP_YEAR_def smod_nonneg)
    have B: "days_before y = 365 * (y - 1970) + (leaps_to_year (y - 1) - leaps_to_year 1970)"
      using y t(3) century_leaps [of "y - 1"] century_leaps [of 1970] by (simp add: days_before_def)
    have "0 \<le> (y - 1969) div 4" using y by (intro pos_imp_zdiv_nonneg_iff [THEN iffD2]) simp_all
    then have "365 \<le> days_before y" using y by (simp add: days_before_def)
    then have D: "365 \<le> epoch_day tim" using t(5,7) off(1) by auto
    have c: "y smod 4 \<noteq> 0 \<and> (y smod 100 \<noteq> 0 \<or> y smod 400 = 0) \<and> mon > 2 \<longleftrightarrow> \<not> LEAP_YEAR y \<and> mon > 2"
    proof -
      have "y mod 100 mod 4 = y mod 4" by (rule mod_mod_cancel) simp
      then have "y mod 4 \<noteq> 0 \<Longrightarrow> y mod 100 \<noteq> 0" by auto
      then show ?thesis using y by (auto simp: leap smod_nonneg)
    qed
    define e where "e = (if \<not> LEAP_YEAR y \<and> mon > 2 then 4 + 1 else 4) + ((y - 1970) * 365 + (leaps_to_year (y - 1) - leaps_to_year 1970) +
        month_offset ! nat (mon - 1) + (d + 1))"
    have e: "e = epoch_day tim + 4 + (if mon \<le> 2 then 1 else if LEAP_YEAR y then 0 else 2)"
      unfolding t(7) B e_def by auto
    then have "0 \<le> e" using D by auto
    then have m: "e smod 7 = e mod 7" by (rule smod_nonneg) simp
    have "rtc_calc_weekday t = (0, t\<lparr>tm_wday := e smod 7\<rparr>)"
    proof -
      have f: "tm_year t = y" "tm_mon t = mon" "tm_mday t = d + 1" by (simp_all add: t(8))
      show ?thesis unfolding rtc_calc_weekday_def Let_def f c e_def using y by (simp only: not_less [symmetric] if_False)
    qed
    then have "rtc_to_tm tim tm = Some (0, t\<lparr>tm_wday := e mod 7\<rparr>)" using t(1) by (simp only: m)
    moreover have "tm_mon t = mon" "tm_year t = y" by (simp_all add: t(8))
    ultimately show ?thesis using D by (intro exI [of _ 0] exI [of _ "t\<lparr>tm_wday := e mod 7\<rparr>"]) (simp add: e)
  qed
qed

theorem rtc_weekday_off_witness:
  "\<exists>ret t. rtc_to_tm 36720000 \<lparr>tm_sec = 0, tm_min = 0, tm_hour = 0, tm_mday = 0, tm_mon = 0, tm_year = 0, tm_wday = 0\<rparr> = Some (ret, t) \<and>
     ret = 0 \<and> (425 + 4) mod 7 = (2 :: int) \<and> tm_wday t = 4"
proof -
  have "rtc_to_tm 36720000 \<lparr>tm_sec = 0, tm_min = 0, tm_hour = 0, tm_mday = 0, tm_mon = 0, tm_year = 0, tm_wday = 0\<rparr> =
      Some (0, \<lparr>tm_sec = 0, tm_min = 0, tm_hour = 0, tm_mday = 2, tm_mon = 3, tm_year = 1971, tm_wday = 4\<rparr>)"
    by code_simp
  then show ?thesis
    using rtc_weekday_off [of 36720000 "\<lparr>tm_sec = 0, tm_min = 0, tm_hour = 0, tm_mday = 0, tm_mon = 0, tm_year = 0, tm_wday = 0\<rparr>"]
    by (simp add: epoch_day_def SECDAY_def)
qed

end
