(* ===== verification/Mp_Flight.thy ===== *)
theory Mp_Flight
  imports Main
begin

text \<open>
  The flight plan of \<^verbatim>\<open>src/cpu/x86/mp_init.c\<close>: the boot processor and the application
  processors walk the same list of records, in which the application processors check in, wait
  at a barrier and make a call, while the boot processor waits for them, makes its own call and
  opens the barrier. Every processor is a program counter with an executable step; an
  interleaving is a list that says which processor moves next, so that a theorem about all
  lists is one about all interleavings.
\<close>

section \<open>Records and processors\<close>

datatype mp_call = Load_smm_handlers | Trigger_smm_relocation | Mp_initialize_cpu | Ap_wait_for_instruction

record mp_flight_record =
  barrier :: int
  cpus_entered :: int
  ap_call :: "mp_call option"
  bsp_call :: "mp_call option"

definition MP_FR_BLOCK_APS :: "mp_call option \<Rightarrow> mp_call option \<Rightarrow> mp_flight_record" where
  "MP_FR_BLOCK_APS ap_func bsp_func = \<lparr>barrier = 0, cpus_entered = 0, ap_call = ap_func, bsp_call = bsp_func\<rparr>"

definition MP_FR_NOBLOCK_APS :: "mp_call option \<Rightarrow> mp_call option \<Rightarrow> mp_flight_record" where
  "MP_FR_NOBLOCK_APS ap_func bsp_func = \<lparr>barrier = 1, cpus_entered = 0, ap_call = ap_func, bsp_call = bsp_func\<rparr>"

definition mp_steps :: "mp_flight_record list" where
  "mp_steps =
     [MP_FR_BLOCK_APS None (Some Load_smm_handlers),
      MP_FR_NOBLOCK_APS (Some Trigger_smm_relocation) (Some Trigger_smm_relocation),
      MP_FR_BLOCK_APS (Some Mp_initialize_cpu) (Some Mp_initialize_cpu),
      MP_FR_BLOCK_APS (Some Ap_wait_for_instruction) None]"

text \<open>
  Which calls return. With \<^verbatim>\<open>CONFIG_PARALLEL_MP_AP_WORK\<close> the function \<^verbatim>\<open>ap_wait_for_instruction\<close> is
  an endless loop that waits for work, without it it returns at once. The other calls are
  callbacks of the processor and the chipset code, and whether they return is a parameter.
\<close>

definition call_returns :: "bool \<Rightarrow> (mp_call \<Rightarrow> bool) \<Rightarrow> mp_call \<Rightarrow> bool" where
  "call_returns parallel_mp_ap_work callback_returns call =
     (if call = Ap_wait_for_instruction then \<not> parallel_mp_ap_work else callback_returns call)"

text \<open>A record without a call is through with it at once.\<close>

definition call_over :: "(mp_call \<Rightarrow> bool) \<Rightarrow> mp_call option \<Rightarrow> bool" where
  "call_over rets call = (case call of None \<Rightarrow> True | Some c \<Rightarrow> rets c)"

text \<open>Where a processor is in the record it works on. The boot processor polls with the time it has waited so far.\<close>

datatype ap_pc = Ap_enter | Ap_wait | Ap_run
datatype bsp_pc = Bsp_check | Bsp_poll int | Bsp_go | Bsp_run | Bsp_release

text \<open>What an observer sees: calls that begin and end, with the processor and the record.\<close>

datatype event = Ap_begins nat nat | Ap_ends nat nat | Bsp_begins nat | Bsp_ends nat

record flight =
  records :: "mp_flight_record list"
  aps :: "(nat \<times> ap_pc) list"
  bsp :: "nat \<times> bsp_pc"
  ret :: int
  returns :: "mp_call \<Rightarrow> bool"
  trace :: "event list"

section \<open>Steps\<close>

text \<open>
  One turn of the loop of \<^verbatim>\<open>barrier_wait\<close> says whether to go on, one turn of that of
  \<^verbatim>\<open>wait_for_aps\<close> whether the target or the end of the time is reached or how long it has waited.
\<close>

definition barrier_wait :: "int \<Rightarrow> bool" where
  "barrier_wait b \<longleftrightarrow> b \<noteq> 0"

definition release_barrier :: "mp_flight_record \<Rightarrow> mp_flight_record" where
  "release_barrier rec = rec\<lparr>barrier := 1\<rparr>"

datatype waited = Target_found | Timeout | Delayed int

definition wait_for_aps :: "int \<Rightarrow> int \<Rightarrow> int \<Rightarrow> int \<Rightarrow> int \<Rightarrow> waited" where
  "wait_for_aps val target total_delay delay_step delayed =
     (if val = target then Target_found
      else let delayed = delayed + delay_step in if delayed \<ge> total_delay then Timeout else Delayed delayed)"

text \<open>
  One step of the \<open>k\<close>-th application processor in \<^verbatim>\<open>ap_do_flight_plan\<close>: the atomic increment, one
  turn of the loop of \<^verbatim>\<open>barrier_wait\<close>, the begin of the call and its end. In a call that does not
  return it stays for ever; behind the last record it is parked.
\<close>

definition ap_step :: "nat \<Rightarrow> flight \<Rightarrow> flight" where
  "ap_step k s =
     (if k < length (aps s) \<and> fst (aps s ! k) < length (records s)
      then let i = fst (aps s ! k); rec = records s ! i in
        case snd (aps s ! k) of
          Ap_enter \<Rightarrow> s\<lparr>records := (records s)[i := rec\<lparr>cpus_entered := cpus_entered rec + 1\<rparr>], aps := (aps s)[k := (i, Ap_wait)]\<rparr>
        | Ap_wait \<Rightarrow>
            if \<not> barrier_wait (barrier rec) then s
            else if ap_call rec \<noteq> None then s\<lparr>aps := (aps s)[k := (i, Ap_run)], trace := trace s @ [Ap_begins k i]\<rparr>
            else s\<lparr>aps := (aps s)[k := (i + 1, Ap_enter)]\<rparr>
        | Ap_run \<Rightarrow>
            if call_over (returns s) (ap_call rec) then s\<lparr>aps := (aps s)[k := (i + 1, Ap_enter)], trace := trace s @ [Ap_ends k i]\<rparr>
            else s
      else s)"

definition timeout_us :: int where "timeout_us = 1000000"
definition step_us :: int where "step_us = 100"

text \<open>
  One step of the boot processor in \<^verbatim>\<open>bsp_do_flight_plan\<close>: the look at the barrier, one turn of the
  loop of \<^verbatim>\<open>wait_for_aps\<close>, the call, \<^verbatim>\<open>release_barrier\<close>. There are as many application processors
  as \<^verbatim>\<open>num_cpus\<close> says, less one.
\<close>

definition bsp_step :: "flight \<Rightarrow> flight" where
  "bsp_step s =
     (if fst (bsp s) < length (records s)
      then let i = fst (bsp s); rec = records s ! i; num_aps = int (length (aps s)) in
        case snd (bsp s) of
          Bsp_check \<Rightarrow> s\<lparr>bsp := (i, if barrier rec = 0 then Bsp_poll 0 else Bsp_go)\<rparr>
        | Bsp_poll delayed \<Rightarrow>
            (case wait_for_aps (cpus_entered rec) num_aps timeout_us step_us delayed of
               Target_found \<Rightarrow> s\<lparr>bsp := (i, Bsp_go)\<rparr>
             | Timeout \<Rightarrow> s\<lparr>bsp := (i, Bsp_go), ret := -1\<rparr>
             | Delayed delayed \<Rightarrow> s\<lparr>bsp := (i, Bsp_poll delayed)\<rparr>)
        | Bsp_go \<Rightarrow>
            if bsp_call rec \<noteq> None then s\<lparr>bsp := (i, Bsp_run), trace := trace s @ [Bsp_begins i]\<rparr>
            else s\<lparr>bsp := (i, Bsp_release)\<rparr>
        | Bsp_run \<Rightarrow>
            if call_over (returns s) (bsp_call rec) then s\<lparr>bsp := (i, Bsp_release), trace := trace s @ [Bsp_ends i]\<rparr>
            else s
        | Bsp_release \<Rightarrow> s\<lparr>records := (records s)[i := release_barrier rec], bsp := (i + 1, Bsp_check)\<rparr>
      else s)"

lemmas ap_step_eq = ap_step_def [unfolded barrier_wait_def not_not]

lemma bsp_step_eq:
  "bsp_step s =
     (if fst (bsp s) < length (records s)
      then let i = fst (bsp s); rec = records s ! i; num_aps = int (length (aps s)) in
        case snd (bsp s) of
          Bsp_check \<Rightarrow> s\<lparr>bsp := (i, if barrier rec = 0 then Bsp_poll 0 else Bsp_go)\<rparr>
        | Bsp_poll delayed \<Rightarrow>
            if cpus_entered rec = num_aps then s\<lparr>bsp := (i, Bsp_go)\<rparr>
            else if delayed + step_us \<ge> timeout_us then s\<lparr>bsp := (i, Bsp_go), ret := -1\<rparr>
            else s\<lparr>bsp := (i, Bsp_poll (delayed + step_us))\<rparr>
        | Bsp_go \<Rightarrow>
            if bsp_call rec \<noteq> None then s\<lparr>bsp := (i, Bsp_run), trace := trace s @ [Bsp_begins i]\<rparr>
            else s\<lparr>bsp := (i, Bsp_release)\<rparr>
        | Bsp_run \<Rightarrow>
            if call_over (returns s) (bsp_call rec) then s\<lparr>bsp := (i, Bsp_release), trace := trace s @ [Bsp_ends i]\<rparr>
            else s
        | Bsp_release \<Rightarrow> s\<lparr>records := (records s)[i := rec\<lparr>barrier := 1\<rparr>], bsp := (i + 1, Bsp_check)\<rparr>
      else s)"
  by (simp add: bsp_step_def wait_for_aps_def release_barrier_def Let_def split: bsp_pc.split)

datatype turn = Bsp | Ap nat

definition mp_step :: "turn \<Rightarrow> flight \<Rightarrow> flight" where
  "mp_step t s = (case t of Bsp \<Rightarrow> bsp_step s | Ap k \<Rightarrow> ap_step k s)"

definition mp_start :: "mp_flight_record list \<Rightarrow> nat \<Rightarrow> (mp_call \<Rightarrow> bool) \<Rightarrow> flight" where
  "mp_start plan num_cpus rets =
     \<lparr>records = plan, aps = replicate (num_cpus - 1) (0, Ap_enter), bsp = (0, Bsp_check), ret = 0, returns = rets, trace = []\<rparr>"

definition mp_run :: "mp_flight_record list \<Rightarrow> nat \<Rightarrow> (mp_call \<Rightarrow> bool) \<Rightarrow> turn list \<Rightarrow> flight" where
  "mp_run plan num_cpus rets schedule = fold mp_step schedule (mp_start plan num_cpus rets)"

lemma returns_step [simp]: "returns (mp_step t s) = returns s"
  by (simp add: mp_step_def ap_step_def bsp_step_def Let_def split: turn.split ap_pc.split bsp_pc.split waited.split)

section \<open>The invariant\<close>

text \<open>A plan as it stands before its first use.\<close>

definition fresh_plan :: "mp_flight_record list \<Rightarrow> bool" where
  "fresh_plan plan \<longleftrightarrow> (\<forall>r\<in>set plan. cpus_entered r = 0)"

text \<open>The \<open>k\<close>-th processor has checked in at record \<open>i\<close>, and has passed its barrier.\<close>

definition checked_in :: "nat \<times> ap_pc \<Rightarrow> nat \<Rightarrow> bool" where
  "checked_in a i \<longleftrightarrow> i < fst a \<or> i = fst a \<and> snd a \<noteq> Ap_enter"

definition passed :: "nat \<times> ap_pc \<Rightarrow> nat \<Rightarrow> bool" where
  "passed a i \<longleftrightarrow> i < fst a \<or> i = fst a \<and> snd a = Ap_run"

definition bsp_past_wait :: "bsp_pc \<Rightarrow> bool" where
  "bsp_past_wait pc \<longleftrightarrow> pc = Bsp_go \<or> pc = Bsp_run \<or> pc = Bsp_release"

text \<open>What holds of one record, with \<open>entered\<close> processors checked in, and of one processor.\<close>

definition record_ok :: "mp_flight_record \<Rightarrow> bool \<Rightarrow> nat \<Rightarrow> mp_flight_record \<Rightarrow> bool" where
  "record_ok r0 released entered r \<longleftrightarrow>
     ap_call r = ap_call r0 \<and> bsp_call r = bsp_call r0 \<and> (barrier r = 0 \<longleftrightarrow> barrier r0 = 0 \<and> \<not> released) \<and> cpus_entered r = int entered"

definition ap_ok :: "mp_flight_record list \<Rightarrow> nat \<Rightarrow> nat \<times> ap_pc \<Rightarrow> bool" where
  "ap_ok plan b a \<longleftrightarrow> fst a \<le> length plan \<and> (fst a = length plan \<longrightarrow> snd a = Ap_enter) \<and>
     (snd a = Ap_run \<longrightarrow> ap_call (plan ! fst a) \<noteq> None) \<and>
     (\<forall>i<length plan. passed a i \<longrightarrow> barrier (plan ! i) \<noteq> 0 \<or> i < b)"

definition entered :: "nat \<Rightarrow> flight \<Rightarrow> nat \<Rightarrow> nat" where
  "entered n s i = card {k. k < n \<and> checked_in (aps s ! k) i}"

definition mp_inv :: "mp_flight_record list \<Rightarrow> nat \<Rightarrow> flight \<Rightarrow> bool" where
  "mp_inv plan n s \<longleftrightarrow>
     length (records s) = length plan \<and> length (aps s) = n \<and> fst (bsp s) \<le> length plan \<and>
     (fst (bsp s) = length plan \<longrightarrow> snd (bsp s) = Bsp_check) \<and>
     (\<forall>i<length plan. record_ok (plan ! i) (i < fst (bsp s)) (entered n s i) (records s ! i)) \<and>
     (\<forall>k<n. ap_ok plan (fst (bsp s)) (aps s ! k)) \<and>
     (ret s = 0 \<and> fst (bsp s) < length plan \<and> barrier (plan ! fst (bsp s)) = 0 \<and> bsp_past_wait (snd (bsp s)) \<longrightarrow>
        (\<forall>k<n. checked_in (aps s ! k) (fst (bsp s))))"

lemma mp_inv_start: "fresh_plan plan \<Longrightarrow> mp_inv plan (num_cpus - 1) (mp_start plan num_cpus rets)"
  by (auto simp: mp_inv_def record_ok_def ap_ok_def entered_def mp_start_def checked_in_def passed_def fresh_plan_def bsp_past_wait_def)

lemma checked_in_moves:
  "checked_in (i, Ap_wait) j \<longleftrightarrow> j \<le> i" "checked_in (i, Ap_run) j \<longleftrightarrow> j \<le> i"
  "checked_in (Suc i, Ap_enter) j \<longleftrightarrow> j \<le> i" "checked_in (i, Ap_enter) j \<longleftrightarrow> j < i"
  by (auto simp: checked_in_def)

lemma passed_moves:
  "passed (i, Ap_wait) j \<longleftrightarrow> j < i" "passed (i, Ap_run) j \<longleftrightarrow> j \<le> i"
  "passed (Suc i, Ap_enter) j \<longleftrightarrow> j \<le> i" "passed (i, Ap_enter) j \<longleftrightarrow> j < i"
  by (auto simp: passed_def)

lemmas mp_moves = checked_in_moves passed_moves less_Suc_eq_le

lemma checked_in_same:
  assumes "k < length as" and "\<And>j. checked_in a j = checked_in (as ! k) j"
  shows "{q. q < n \<and> checked_in (as[k := a] ! q) j} = {q. q < n \<and> checked_in (as ! q) j}"
  using assms by (auto simp: nth_list_update)

lemma checked_in_one_more:
  assumes "k < length as" and "length as = n" and "as ! k = (i, Ap_enter)"
  shows "card {q. q < n \<and> checked_in (as[k := (i, Ap_wait)] ! q) j} =
    card {q. q < n \<and> checked_in (as ! q) j} + (if j = i then 1 else 0)"
proof (cases "j = i")
  case True
  have "{q. q < n \<and> checked_in (as[k := (i, Ap_wait)] ! q) j} = insert k {q. q < n \<and> checked_in (as ! q) j}"
    using assms True by (auto simp: nth_list_update checked_in_moves)
  moreover have "k \<notin> {q. q < n \<and> checked_in (as ! q) j}" using assms True by (simp add: checked_in_moves)
  ultimately show ?thesis using True by simp
next
  case False
  then have "checked_in (i, Ap_wait) j = checked_in (as ! k) j" using assms by (auto simp: checked_in_moves)
  then have "{q. q < n \<and> checked_in (as[k := (i, Ap_wait)] ! q) j} = {q. q < n \<and> checked_in (as ! q) j}"
    using assms(1) by (auto simp: nth_list_update)
  then show ?thesis using False by simp
qed

lemma mp_inv_ap_move:
  assumes "mp_inv plan n s" and "k < n" and "aps s ! k = (i, pc)"
    and "\<And>j. checked_in a j = checked_in (i, pc) j" and "ap_ok plan (fst (bsp s)) a"
  shows "mp_inv plan n (s\<lparr>aps := (aps s)[k := a], trace := t\<rparr>)"
proof -
  have len: "length (aps s) = n" using assms(1) by (simp add: mp_inv_def)
  have same: "checked_in ((aps s)[k := a] ! q) j = checked_in (aps s ! q) j" if "q < n" for q j
    using that assms(2-4) len by (cases "q = k") simp_all
  then have "entered n (s\<lparr>aps := (aps s)[k := a], trace := t\<rparr>) j = entered n s j" for j
    unfolding entered_def by (intro arg_cong [where f = card]) auto
  moreover have "ap_ok plan (fst (bsp s)) ((aps s)[k := a] ! q)" if "q < n" for q
    using that assms(1,2,5) len by (cases "q = k") (simp_all add: mp_inv_def)
  ultimately show ?thesis using assms(1) same by (simp add: mp_inv_def)
qed

lemma mp_inv_check_in:
  assumes "mp_inv plan n s" and "k < n" and "aps s ! k = (i, Ap_enter)" and "i < length plan"
  shows "mp_inv plan n (s\<lparr>records := (records s)[i := (records s ! i)\<lparr>cpus_entered := cpus_entered (records s ! i) + 1\<rparr>], aps := (aps s)[k := (i, Ap_wait)]\<rparr>)"
    (is "mp_inv plan n ?s'")
proof -
  have len: "length (aps s) = n" "length (records s) = length plan" using assms(1) by (simp_all add: mp_inv_def)
  have more: "checked_in (aps s ! q) j \<Longrightarrow> checked_in ((aps s)[k := (i, Ap_wait)] ! q) j" for q j
    using assms(2,3) len by (cases "q = k") (simp_all add: mp_moves)
  have ent: "entered n ?s' j = entered n s j + (if j = i then 1 else 0)" for j
    using checked_in_one_more [of k "aps s" n i j] assms(2,3) len by (simp add: entered_def)
  have ok: "record_ok (plan ! j) (j < fst (bsp s)) (entered n s j) (records s ! j)" if "j < length plan" for j
    using assms(1) that by (simp add: mp_inv_def)
  have "record_ok (plan ! j) (j < fst (bsp s)) (entered n ?s' j) (records ?s' ! j)" if "j < length plan" for j
    using ok [OF that] that len ent [of j] by (cases "j = i") (simp_all add: record_ok_def)
  moreover have "ap_ok plan (fst (bsp s)) (aps ?s' ! q)" if "q < n" for q
  proof (cases "q = k")
    case True
    have "ap_ok plan (fst (bsp s)) (aps s ! k)" using assms(1,2) by (simp add: mp_inv_def)
    then show ?thesis using True assms(2-4) len by (simp add: ap_ok_def mp_moves)
  next
    case False
    then show ?thesis using assms(1) that by (simp add: mp_inv_def)
  qed
  ultimately show ?thesis using assms(1) more len by (simp add: mp_inv_def)
qed

lemma mp_inv_ap_step:
  assumes "mp_inv plan n s"
  shows "mp_inv plan n (ap_step k s)"
proof (cases "k < n \<and> fst (aps s ! k) < length plan")
  case False
  then show ?thesis using assms by (auto simp: ap_step_eq mp_inv_def)
next
  case True
  define i where "i = fst (aps s ! k)"
  have k: "k < length (aps s)" "i < length (records s)" "i < length plan" "k < n"
    using True assms by (simp_all add: mp_inv_def i_def)
  have rec: "ap_call (records s ! i) = ap_call (plan ! i)" "barrier (records s ! i) = 0 \<longleftrightarrow> barrier (plan ! i) = 0 \<and> \<not> i < fst (bsp s)"
    using assms k(3) by (simp_all add: mp_inv_def record_ok_def)
  have ok: "ap_ok plan (fst (bsp s)) (aps s ! k)" using assms k(4) by (simp add: mp_inv_def)
  note move = mp_inv_ap_move [OF assms k(4)]
  show ?thesis
  proof (cases "snd (aps s ! k)")
    case Ap_enter
    then have a: "aps s ! k = (i, Ap_enter)" by (simp add: i_def prod_eq_iff)
    show ?thesis using mp_inv_check_in [OF assms k(4) a k(3)] k a by (simp add: ap_step_eq Let_def)
  next
    case Ap_wait
    then have a: "aps s ! k = (i, Ap_wait)" by (simp add: i_def prod_eq_iff)
    have go: "ap_ok plan (fst (bsp s)) (i + 1, Ap_enter)" "ap_call (plan ! i) \<noteq> None \<longrightarrow> ap_ok plan (fst (bsp s)) (i, Ap_run)"
      if "barrier (records s ! i) \<noteq> 0"
      using ok that rec(2) k(3) by (auto simp: a ap_ok_def mp_moves le_less)
    have "ap_step k s = (if barrier (records s ! i) = 0 then s
        else if ap_call (records s ! i) \<noteq> None then s\<lparr>aps := (aps s)[k := (i, Ap_run)], trace := trace s @ [Ap_begins k i]\<rparr>
        else s\<lparr>aps := (aps s)[k := (i + 1, Ap_enter)], trace := trace s\<rparr>)"
      using k a by (simp add: ap_step_eq Let_def)
    then show ?thesis
      using assms move [OF a, of "(i, Ap_run)"] move [OF a, of "(i + 1, Ap_enter)" "trace s"] go rec(1) by (simp add: mp_moves)
  next
    case Ap_run
    then have a: "aps s ! k = (i, Ap_run)" by (simp add: i_def prod_eq_iff)
    have "ap_ok plan (fst (bsp s)) (i + 1, Ap_enter)" using ok k(3) by (simp add: a ap_ok_def mp_moves)
    moreover have "ap_step k s = (if call_over (returns s) (ap_call (records s ! i))
        then s\<lparr>aps := (aps s)[k := (i + 1, Ap_enter)], trace := trace s @ [Ap_ends k i]\<rparr> else s)"
      using k a by (simp add: ap_step_eq Let_def)
    ultimately show ?thesis using assms move [OF a, of "(i + 1, Ap_enter)"] by (simp add: mp_moves)
  qed
qed

lemma checked_in_all:
  assumes "card {k. k < n \<and> P k} = n"
  shows "\<forall>k<n. P k"
proof -
  have "{k. k < n \<and> P k} = {..<n}"
    using assms by (intro card_subset_eq) auto
  then show ?thesis by auto
qed

lemma mp_inv_bsp_step:
  assumes "mp_inv plan n s"
  shows "mp_inv plan n (bsp_step s)"
proof (cases "fst (bsp s) < length plan")
  case False
  then show ?thesis using assms by (auto simp: bsp_step_eq mp_inv_def)
next
  case True
  define i where "i = fst (bsp s)"
  have i: "i < length plan" "length (records s) = length plan" "length (aps s) = n"
    using True assms by (simp_all add: mp_inv_def i_def)
  have rec: "bsp_call (records s ! i) = bsp_call (plan ! i)" "barrier (records s ! i) = 0 \<longleftrightarrow> barrier (plan ! i) = 0"
    "cpus_entered (records s ! i) = int (entered n s i)"
    using assms i(1) by (simp_all add: mp_inv_def i_def record_ok_def)
  have move: "mp_inv plan n (s\<lparr>bsp := (i, pc), ret := r, trace := t\<rparr>)"
    if "r = 0 \<and> bsp_past_wait pc \<and> barrier (plan ! i) = 0 \<longrightarrow> (\<forall>k<n. checked_in (aps s ! k) i)" for pc r t
    using assms i(1) that by (simp add: mp_inv_def entered_def i_def)
  have past: "ret s = 0 \<and> barrier (plan ! i) = 0 \<longrightarrow> (\<forall>k<n. checked_in (aps s ! k) i)" if "bsp_past_wait (snd (bsp s))"
    using assms i(1) that by (simp add: mp_inv_def i_def)
  note b = i_def [symmetric]
  show ?thesis
  proof (cases "snd (bsp s)")
    case Bsp_check
    then have "bsp_step s = s\<lparr>bsp := (i, if barrier (records s ! i) = 0 then Bsp_poll 0 else Bsp_go), ret := ret s, trace := trace s\<rparr>"
      using i by (simp add: bsp_step_eq b Let_def)
    then show ?thesis using move [of "ret s" _ "trace s"] rec(2) by (simp add: bsp_past_wait_def)
  next
    case (Bsp_poll delayed)
    have st: "bsp_step s = (if cpus_entered (records s ! i) = int n then s\<lparr>bsp := (i, Bsp_go), ret := ret s, trace := trace s\<rparr>
        else if delayed + step_us \<ge> timeout_us then s\<lparr>bsp := (i, Bsp_go), ret := -1, trace := trace s\<rparr>
        else s\<lparr>bsp := (i, Bsp_poll (delayed + step_us)), ret := ret s, trace := trace s\<rparr>)"
      using i Bsp_poll by (simp add: bsp_step_eq b Let_def)
    show ?thesis
    proof (cases "cpus_entered (records s ! i) = int n")
      case True
      then have "card {k. k < n \<and> checked_in (aps s ! k) i} = n" using rec(3) by (simp add: entered_def)
      then have "\<forall>k<n. checked_in (aps s ! k) i" by (rule checked_in_all)
      then have "mp_inv plan n (s\<lparr>bsp := (i, Bsp_go), ret := ret s, trace := trace s\<rparr>)" by (intro move) blast
      then show ?thesis using st True by simp
    next
      case False
      have "mp_inv plan n (s\<lparr>bsp := (i, Bsp_go), ret := -1, trace := trace s\<rparr>)" by (rule move) simp
      moreover have "mp_inv plan n (s\<lparr>bsp := (i, Bsp_poll (delayed + step_us)), ret := ret s, trace := trace s\<rparr>)"
        by (rule move) (simp add: bsp_past_wait_def)
      ultimately show ?thesis using st False by (cases "delayed + step_us \<ge> timeout_us") simp_all
    qed
  next
    case Bsp_go
    have "bsp_step s = (if bsp_call (records s ! i) \<noteq> None then s\<lparr>bsp := (i, Bsp_run), ret := ret s, trace := trace s @ [Bsp_begins i]\<rparr>
        else s\<lparr>bsp := (i, Bsp_release), ret := ret s, trace := trace s\<rparr>)"
      using i Bsp_go by (simp add: bsp_step_eq b Let_def)
    then show ?thesis
      using move [of "ret s" Bsp_run "trace s @ [Bsp_begins i]"] move [of "ret s" Bsp_release "trace s"] past Bsp_go
      by (simp add: bsp_past_wait_def)
  next
    case Bsp_run
    then have "bsp_step s = (if call_over (returns s) (bsp_call (records s ! i))
        then s\<lparr>bsp := (i, Bsp_release), ret := ret s, trace := trace s @ [Bsp_ends i]\<rparr> else s)"
      using i by (simp add: bsp_step_eq b Let_def)
    then show ?thesis using assms move [of "ret s" Bsp_release "trace s @ [Bsp_ends i]"] past Bsp_run by (simp add: bsp_past_wait_def)
  next
    case Bsp_release
    have st: "bsp_step s = s\<lparr>records := (records s)[i := (records s ! i)\<lparr>barrier := 1\<rparr>], bsp := (i + 1, Bsp_check)\<rparr>"
      using i Bsp_release by (simp add: bsp_step_eq b Let_def)
    have "record_ok (plan ! j) (j < i + 1) (entered n s j) ((records s)[i := (records s ! i)\<lparr>barrier := 1\<rparr>] ! j)" if "j < length plan" for j
      using assms that i by (cases "j = i") (auto simp: mp_inv_def record_ok_def i_def)
    moreover have "ap_ok plan (i + 1) (aps s ! k)" if "k < n" for k
    proof -
      have "ap_ok plan i (aps s ! k)" using assms that by (simp add: mp_inv_def i_def)
      then show ?thesis unfolding ap_ok_def using less_SucI by auto
    qed
    ultimately show ?thesis
      unfolding st using assms i(1) by (simp add: mp_inv_def bsp_past_wait_def entered_def)
  qed
qed

lemma mp_inv_step: "mp_inv plan n s \<Longrightarrow> mp_inv plan n (mp_step t s)"
  by (cases t) (simp_all add: mp_step_def mp_inv_ap_step mp_inv_bsp_step)

lemma mp_inv_fold: "mp_inv plan n s \<Longrightarrow> mp_inv plan n (fold mp_step ts s)"
  by (induction ts arbitrary: s) (simp_all add: mp_inv_step)

section \<open>What the observer sees\<close>

text \<open>The trace agrees with where the processors are.\<close>

definition bsp_begun :: "nat \<times> bsp_pc \<Rightarrow> nat \<Rightarrow> bool" where
  "bsp_begun b i \<longleftrightarrow> i < fst b \<or> i = fst b \<and> (snd b = Bsp_run \<or> snd b = Bsp_release)"

definition bsp_ended :: "nat \<times> bsp_pc \<Rightarrow> nat \<Rightarrow> bool" where
  "bsp_ended b i \<longleftrightarrow> i < fst b \<or> i = fst b \<and> snd b = Bsp_release"

definition trace_ok :: "mp_flight_record list \<Rightarrow> nat \<Rightarrow> flight \<Rightarrow> bool" where
  "trace_ok plan n s \<longleftrightarrow>
     (\<forall>k i. Ap_begins k i \<in> set (trace s) \<longleftrightarrow> k < n \<and> i < length plan \<and> ap_call (plan ! i) \<noteq> None \<and> passed (aps s ! k) i) \<and>
     (\<forall>k i. Ap_ends k i \<in> set (trace s) \<longleftrightarrow> k < n \<and> i < length plan \<and> ap_call (plan ! i) \<noteq> None \<and> i < fst (aps s ! k)) \<and>
     (\<forall>i. Bsp_begins i \<in> set (trace s) \<longleftrightarrow> i < length plan \<and> bsp_call (plan ! i) \<noteq> None \<and> bsp_begun (bsp s) i) \<and>
     (\<forall>i. Bsp_ends i \<in> set (trace s) \<longleftrightarrow> i < length plan \<and> bsp_call (plan ! i) \<noteq> None \<and> bsp_ended (bsp s) i) \<and>
     (snd (bsp s) = Bsp_run \<longrightarrow> bsp_call (plan ! fst (bsp s)) \<noteq> None)"

text \<open>
  An event that comes after those of \<open>seen\<close> is in order. An application processor begins a call
  once, with its earlier calls over, and with the boot processor's calls over of this record and
  the ones before, as far as these records block. The boot processor begins a call once, with its
  earlier calls over; and at a blocking record, when no wait has timed out, with all the earlier
  calls of all application processors over and none of the later ones begun.
\<close>

primrec event_in_order :: "mp_flight_record list \<Rightarrow> nat \<Rightarrow> bool \<Rightarrow> event set \<Rightarrow> event \<Rightarrow> bool" where
  "event_in_order plan n in_time seen (Ap_begins k i) \<longleftrightarrow>
     Ap_begins k i \<notin> seen \<and> (\<forall>j<i. ap_call (plan ! j) \<noteq> None \<longrightarrow> Ap_ends k j \<in> seen) \<and>
     (\<forall>j<i + 1. barrier (plan ! j) = 0 \<and> bsp_call (plan ! j) \<noteq> None \<longrightarrow> Bsp_ends j \<in> seen)"
| "event_in_order plan n in_time seen (Ap_ends k i) \<longleftrightarrow> Ap_begins k i \<in> seen \<and> Ap_ends k i \<notin> seen"
| "event_in_order plan n in_time seen (Bsp_begins i) \<longleftrightarrow>
     Bsp_begins i \<notin> seen \<and> (\<forall>j<i. bsp_call (plan ! j) \<noteq> None \<longrightarrow> Bsp_ends j \<in> seen) \<and>
     (in_time \<and> barrier (plan ! i) = 0 \<longrightarrow>
       (\<forall>k<n. (\<forall>j<i. ap_call (plan ! j) \<noteq> None \<longrightarrow> Ap_ends k j \<in> seen) \<and>
              (\<forall>j<length plan. i \<le> j \<longrightarrow> Ap_begins k j \<notin> seen)))"
| "event_in_order plan n in_time seen (Bsp_ends i) \<longleftrightarrow> Bsp_begins i \<in> seen \<and> Bsp_ends i \<notin> seen"

fun events_in_order :: "mp_flight_record list \<Rightarrow> nat \<Rightarrow> bool \<Rightarrow> event set \<Rightarrow> event list \<Rightarrow> bool" where
  "events_in_order plan n in_time seen [] = True"
| "events_in_order plan n in_time seen (e # es) \<longleftrightarrow>
     event_in_order plan n in_time seen e \<and> events_in_order plan n in_time (insert e seen) es"

lemma events_in_order_append:
  "events_in_order plan n t seen (es @ [e]) \<longleftrightarrow> events_in_order plan n t seen es \<and> event_in_order plan n t (seen \<union> set es) e"
  by (induction es arbitrary: seen) (simp_all add: Un_insert_left)

lemma event_in_order_late: "event_in_order plan n t seen e \<Longrightarrow> event_in_order plan n False seen e"
  by (cases e) auto

lemma events_in_order_late: "events_in_order plan n t seen es \<Longrightarrow> events_in_order plan n False seen es"
  by (induction es arbitrary: seen) (auto intro: event_in_order_late)

lemma trace_ok_start: "trace_ok plan (num_cpus - 1) (mp_start plan num_cpus rets)"
  by (auto simp: trace_ok_def mp_start_def passed_def bsp_begun_def bsp_ended_def)

lemma trace_ok_ap:
  assumes "trace_ok plan n s" and "length (aps s) = n" and "k < n" and "aps s ! k = a"
    and "\<And>j. j < length plan \<Longrightarrow> ap_call (plan ! j) \<noteq> None \<Longrightarrow>
      (passed a' j \<longleftrightarrow> passed a j \<or> Ap_begins k j \<in> set es) \<and> (j < fst a' \<longleftrightarrow> j < fst a \<or> Ap_ends k j \<in> set es)"
    and "\<And>e. e \<in> set es \<Longrightarrow> \<exists>j<length plan. ap_call (plan ! j) \<noteq> None \<and> (e = Ap_begins k j \<or> e = Ap_ends k j)"
  shows "trace_ok plan n (s\<lparr>records := r, aps := (aps s)[k := a'], trace := trace s @ es\<rparr>)" (is "trace_ok plan n ?s'")
proof -
  have new: "Ap_begins q j \<in> set es \<Longrightarrow> q = k \<and> j < length plan \<and> ap_call (plan ! j) \<noteq> None"
    "Ap_ends q j \<in> set es \<Longrightarrow> q = k \<and> j < length plan \<and> ap_call (plan ! j) \<noteq> None"
    "Bsp_begins j \<notin> set es" "Bsp_ends j \<notin> set es" for q j
    using assms(6) by fastforce+
  have at: "aps ?s' ! q = (if q = k then a' else aps s ! q)" if "q < n" for q using that assms(2,3) by auto
  have "Ap_begins q j \<in> set (trace ?s') \<longleftrightarrow> q < n \<and> j < length plan \<and> ap_call (plan ! j) \<noteq> None \<and> passed (aps ?s' ! q) j" for q j
    using assms(1) assms(3,4) assms(5) [of j] new(1) [of q j] at [of q] unfolding trace_ok_def by (cases "q = k") auto
  moreover have "Ap_ends q j \<in> set (trace ?s') \<longleftrightarrow> q < n \<and> j < length plan \<and> ap_call (plan ! j) \<noteq> None \<and> j < fst (aps ?s' ! q)" for q j
    using assms(1) assms(3,4) assms(5) [of j] new(2) [of q j] at [of q] unfolding trace_ok_def by (cases "q = k") auto
  ultimately show ?thesis using assms(1) new(3,4) by (simp add: trace_ok_def)
qed

lemma trace_ok_ap_step:
  assumes "mp_inv plan n s" and "trace_ok plan n s"
  shows "trace_ok plan n (ap_step k s)"
proof (cases "k < n \<and> fst (aps s ! k) < length plan")
  case False
  then show ?thesis using assms by (auto simp: ap_step_eq mp_inv_def)
next
  case True
  define i where "i = fst (aps s ! k)"
  have k: "k < length (aps s)" "i < length (records s)" "i < length plan" "k < n" "length (aps s) = n"
    using True assms(1) by (simp_all add: mp_inv_def i_def)
  have rec: "ap_call (records s ! i) = ap_call (plan ! i)"
    using assms(1) k(3) by (simp add: mp_inv_def record_ok_def)
  note move = trace_ok_ap [OF assms(2) k(5,4)]
  show ?thesis
  proof (cases "snd (aps s ! k)")
    case Ap_enter
    then have a: "aps s ! k = (i, Ap_enter)" by (simp add: i_def prod_eq_iff)
    have "ap_step k s = s\<lparr>records := (records s)[i := (records s ! i)\<lparr>cpus_entered := cpus_entered (records s ! i) + 1\<rparr>],
        aps := (aps s)[k := (i, Ap_wait)], trace := trace s @ []\<rparr>"
      using k a by (simp add: ap_step_eq Let_def)
    then show ?thesis using move [OF a, of "(i, Ap_wait)" "[]"] by (simp add: mp_moves)
  next
    case Ap_wait
    then have a: "aps s ! k = (i, Ap_wait)" by (simp add: i_def prod_eq_iff)
    have st: "ap_step k s = (if barrier (records s ! i) = 0 then s
        else if ap_call (plan ! i) \<noteq> None then s\<lparr>records := records s, aps := (aps s)[k := (i, Ap_run)], trace := trace s @ [Ap_begins k i]\<rparr>
        else s\<lparr>records := records s, aps := (aps s)[k := (i + 1, Ap_enter)], trace := trace s @ []\<rparr>)"
      using k a rec by (simp add: ap_step_eq Let_def)
    show ?thesis
    proof (cases "ap_call (plan ! i) \<noteq> None")
      case True
      have "trace_ok plan n (s\<lparr>records := records s, aps := (aps s)[k := (i, Ap_run)], trace := trace s @ [Ap_begins k i]\<rparr>)"
        by (rule move [OF a]) (use True k(3) in \<open>auto simp: mp_moves\<close>)
      then show ?thesis using st True assms(2) by (cases "barrier (records s ! i) = 0") simp_all
    next
      case False
      have "trace_ok plan n (s\<lparr>records := records s, aps := (aps s)[k := (i + 1, Ap_enter)], trace := trace s @ []\<rparr>)"
        by (rule move [OF a]) (use False in \<open>auto simp: mp_moves le_less\<close>)
      then show ?thesis using st False assms(2) by (cases "barrier (records s ! i) = 0") simp_all
    qed
  next
    case Ap_run
    then have a: "aps s ! k = (i, Ap_run)" by (simp add: i_def prod_eq_iff)
    have st: "ap_step k s = (if call_over (returns s) (ap_call (records s ! i))
        then s\<lparr>records := records s, aps := (aps s)[k := (i + 1, Ap_enter)], trace := trace s @ [Ap_ends k i]\<rparr> else s)"
      using k a by (simp add: ap_step_eq Let_def)
    have "ap_call (plan ! i) \<noteq> None" using assms(1) k(4) a by (fastforce simp: mp_inv_def ap_ok_def)
    then have "trace_ok plan n (s\<lparr>records := records s, aps := (aps s)[k := (i + 1, Ap_enter)], trace := trace s @ [Ap_ends k i]\<rparr>)"
      by (intro move [OF a]) (use k(3) in \<open>auto simp: mp_moves le_less\<close>)
    then show ?thesis using st assms(2) by simp
  qed
qed

lemma trace_ok_bsp:
  assumes "trace_ok plan n s"
    and "\<And>j. j < length plan \<Longrightarrow> bsp_call (plan ! j) \<noteq> None \<Longrightarrow>
      (bsp_begun b j \<longleftrightarrow> bsp_begun (bsp s) j \<or> Bsp_begins j \<in> set es) \<and> (bsp_ended b j \<longleftrightarrow> bsp_ended (bsp s) j \<or> Bsp_ends j \<in> set es)"
    and "\<And>e. e \<in> set es \<Longrightarrow> \<exists>j<length plan. bsp_call (plan ! j) \<noteq> None \<and> (e = Bsp_begins j \<or> e = Bsp_ends j)"
    and "snd b = Bsp_run \<Longrightarrow> bsp_call (plan ! fst b) \<noteq> None"
  shows "trace_ok plan n (s\<lparr>records := r, bsp := b, ret := x, trace := trace s @ es\<rparr>)" (is "trace_ok plan n ?s'")
proof -
  have new: "Bsp_begins j \<in> set es \<Longrightarrow> j < length plan \<and> bsp_call (plan ! j) \<noteq> None"
    "Bsp_ends j \<in> set es \<Longrightarrow> j < length plan \<and> bsp_call (plan ! j) \<noteq> None"
    "Ap_begins q j \<notin> set es" "Ap_ends q j \<notin> set es" for q j
    using assms(3) by fastforce+
  have "Bsp_begins j \<in> set (trace ?s') \<longleftrightarrow> j < length plan \<and> bsp_call (plan ! j) \<noteq> None \<and> bsp_begun (bsp ?s') j" for j
    using assms(1) assms(2) [of j] new(1) [of j] unfolding trace_ok_def by auto
  moreover have "Bsp_ends j \<in> set (trace ?s') \<longleftrightarrow> j < length plan \<and> bsp_call (plan ! j) \<noteq> None \<and> bsp_ended (bsp ?s') j" for j
    using assms(1) assms(2) [of j] new(2) [of j] unfolding trace_ok_def by auto
  ultimately show ?thesis using assms(1,4) new(3,4) by (simp add: trace_ok_def)
qed

text \<open>The step of the boot processor, by where it is; nothing else of the state takes part in its trace.\<close>

lemma bsp_step_cases:
  assumes "mp_inv plan n s" and "fst (bsp s) < length plan"
  defines "i \<equiv> fst (bsp s)"
  obtains (quiet) r pc x where "bsp_step s = s\<lparr>records := r, bsp := (i, pc), ret := x\<rparr>" "snd (bsp s) \<noteq> Bsp_run"
      "snd (bsp s) \<noteq> Bsp_release" "pc \<noteq> Bsp_run" "pc = Bsp_release \<longrightarrow> bsp_call (plan ! i) = None"
    | (begins) "bsp_step s = s\<lparr>bsp := (i, Bsp_run), trace := trace s @ [Bsp_begins i]\<rparr>" "snd (bsp s) = Bsp_go" "bsp_call (plan ! i) \<noteq> None"
    | (ends) "bsp_step s = s\<lparr>bsp := (i, Bsp_release), trace := trace s @ [Bsp_ends i]\<rparr>" "snd (bsp s) = Bsp_run"
    | (stays) "bsp_step s = s"
    | (release) r where "bsp_step s = s\<lparr>records := r, bsp := (i + 1, Bsp_check)\<rparr>" "snd (bsp s) = Bsp_release"
proof (cases "snd (bsp s)")
  case Bsp_check
  show ?thesis
    by (rule quiet [where r = "records s" and pc = "if barrier (records s ! i) = 0 then Bsp_poll 0 else Bsp_go" and x = "ret s"])
      (use assms Bsp_check in \<open>simp_all add: bsp_step_eq mp_inv_def Let_def\<close>)
next
  case (Bsp_poll d)
  define stop where "stop \<longleftrightarrow> cpus_entered (records s ! i) = int (length (aps s))"
  show ?thesis
    by (rule quiet [where r = "records s" and pc = "if stop \<or> d + step_us \<ge> timeout_us then Bsp_go else Bsp_poll (d + step_us)"
        and x = "if stop \<or> d + step_us < timeout_us then ret s else - 1"])
      (use assms Bsp_poll in \<open>simp_all add: bsp_step_eq mp_inv_def Let_def stop_def\<close>)
next
  case Bsp_go
  have call: "bsp_call (records s ! i) = bsp_call (plan ! i)" using assms by (simp add: mp_inv_def record_ok_def)
  show ?thesis
  proof (cases "bsp_call (plan ! i) = None")
    case True
    show ?thesis
      by (rule quiet [where r = "records s" and pc = Bsp_release and x = "ret s"])
        (use assms Bsp_go True call in \<open>simp_all add: bsp_step_eq mp_inv_def Let_def\<close>)
  next
    case False
    show ?thesis by (rule begins) (use assms Bsp_go False call in \<open>simp_all add: bsp_step_eq mp_inv_def Let_def\<close>)
  qed
next
  case Bsp_run
  show ?thesis
  proof (cases "call_over (returns s) (bsp_call (records s ! i))")
    case True
    show ?thesis by (rule ends) (use assms Bsp_run True in \<open>simp_all add: bsp_step_eq mp_inv_def Let_def\<close>)
  next
    case False
    show ?thesis by (rule stays) (use assms Bsp_run False in \<open>simp_all add: bsp_step_eq mp_inv_def Let_def\<close>)
  qed
next
  case Bsp_release
  show ?thesis
    by (rule release [where r = "(records s)[i := (records s ! i)\<lparr>barrier := 1\<rparr>]"])
      (use assms Bsp_release in \<open>simp_all add: bsp_step_eq mp_inv_def Let_def\<close>)
qed

lemma trace_ok_bsp_step:
  assumes "mp_inv plan n s" and "trace_ok plan n s"
  shows "trace_ok plan n (bsp_step s)"
proof (cases "fst (bsp s) < length plan")
  case False
  then show ?thesis using assms by (auto simp: bsp_step_eq mp_inv_def)
next
  case True
  define i where "i = fst (bsp s)"
  have i: "i < length plan" "bsp s = (i, snd (bsp s))" using True by (simp_all add: i_def)
  show ?thesis using assms(1) True
  proof (cases rule: bsp_step_cases)
    case (quiet r pc x)
    have "trace_ok plan n (s\<lparr>records := r, bsp := (i, pc), ret := x, trace := trace s @ []\<rparr>)"
      by (rule trace_ok_bsp [OF assms(2)])
        (use quiet i in \<open>auto simp: bsp_begun_def bsp_ended_def i_def\<close>)
    then show ?thesis using quiet(1) by (simp add: i_def)
  next
    case begins
    have "trace_ok plan n (s\<lparr>records := records s, bsp := (i, Bsp_run), ret := ret s, trace := trace s @ [Bsp_begins i]\<rparr>)"
      by (rule trace_ok_bsp [OF assms(2)]) (use begins i in \<open>auto simp: bsp_begun_def bsp_ended_def i_def\<close>)
    then show ?thesis using begins(1) by (simp add: i_def)
  next
    case ends
    have "bsp_call (plan ! i) \<noteq> None"
      using assms(2) ends(2) by (simp add: trace_ok_def i_def)
    then have "trace_ok plan n (s\<lparr>records := records s, bsp := (i, Bsp_release), ret := ret s, trace := trace s @ [Bsp_ends i]\<rparr>)"
      by (intro trace_ok_bsp [OF assms(2)]) (use ends i in \<open>auto simp: bsp_begun_def bsp_ended_def i_def\<close>)
    then show ?thesis using ends(1) by (simp add: i_def)
  next
    case stays
    then show ?thesis using assms(2) by simp
  next
    case (release r)
    have "trace_ok plan n (s\<lparr>records := r, bsp := (i + 1, Bsp_check), ret := ret s, trace := trace s @ []\<rparr>)"
      by (rule trace_ok_bsp [OF assms(2)]) (use release i in \<open>auto simp: bsp_begun_def bsp_ended_def i_def less_Suc_eq\<close>)
    then show ?thesis using release(1) by (simp add: i_def)
  qed
qed

section \<open>Order\<close>

lemma ap_step_event:
  assumes "mp_inv plan n s" and "trace_ok plan n s"
  shows "trace (ap_step k s) = trace s \<or> (\<exists>e. trace (ap_step k s) = trace s @ [e] \<and> event_in_order plan n t (set (trace s)) e)"
proof (cases "k < n \<and> fst (aps s ! k) < length plan")
  case False
  then show ?thesis using assms by (auto simp: ap_step_eq mp_inv_def)
next
  case True
  define i where "i = fst (aps s ! k)"
  have k: "k < length (aps s)" "i < length (records s)" "i < length plan" "k < n"
    using True assms(1) by (simp_all add: mp_inv_def i_def)
  have rec: "ap_call (records s ! i) = ap_call (plan ! i)" "barrier (records s ! i) = 0 \<longleftrightarrow> barrier (plan ! i) = 0 \<and> \<not> i < fst (bsp s)"
    using assms(1) k(3) by (simp_all add: mp_inv_def record_ok_def)
  have ok: "ap_ok plan (fst (bsp s)) (aps s ! k)" using assms(1) k(4) by (simp add: mp_inv_def)
  show ?thesis
  proof (cases "snd (aps s ! k)")
    case Ap_enter
    then show ?thesis using k by (simp add: ap_step_eq Let_def i_def)
  next
    case Ap_wait
    then have a: "aps s ! k = (i, Ap_wait)" by (simp add: i_def prod_eq_iff)
    show ?thesis
    proof (cases "barrier (records s ! i) = 0 \<or> ap_call (plan ! i) = None")
      case True
      then show ?thesis using k a rec(1) by (auto simp: ap_step_eq Let_def)
    next
      case False
      have past: "barrier (plan ! j) \<noteq> 0 \<or> j < fst (bsp s)" if "j \<le> i" for j
        using ok a that False rec(2) k(3) by (cases "j = i") (simp_all add: ap_ok_def mp_moves)
      have "event_in_order plan n t (set (trace s)) (Ap_begins k i)"
        using assms(2) k(3,4) a past by (simp add: trace_ok_def mp_moves bsp_ended_def)
      moreover have "trace (ap_step k s) = trace s @ [Ap_begins k i]" using k a rec(1) False by (simp add: ap_step_eq Let_def)
      ultimately show ?thesis by blast
    qed
  next
    case Ap_run
    then have a: "aps s ! k = (i, Ap_run)" by (simp add: i_def prod_eq_iff)
    have "ap_call (plan ! i) \<noteq> None" using ok a by (simp add: ap_ok_def)
    then have "event_in_order plan n t (set (trace s)) (Ap_ends k i)" using assms(2) k(3,4) a by (simp add: trace_ok_def mp_moves)
    moreover have "trace (ap_step k s) = (if call_over (returns s) (ap_call (records s ! i)) then trace s @ [Ap_ends k i] else trace s)"
      using k a by (simp add: ap_step_eq Let_def)
    ultimately show ?thesis by (cases "call_over (returns s) (ap_call (records s ! i))") auto
  qed
qed

lemma bsp_begins_in_order:
  assumes "mp_inv plan n s" and "trace_ok plan n s" and "bsp s = (i, Bsp_go)" and "i < length plan"
  shows "event_in_order plan n (ret s = 0) (set (trace s)) (Bsp_begins i)"
proof -
  have past: "barrier (plan ! j) \<noteq> 0 \<or> j < i" if "k < n" "passed (aps s ! k) j" "j < length plan" for k j
    using assms(1,3) that by (simp add: mp_inv_def ap_ok_def)
  have "\<not> passed (aps s ! k) j" if "barrier (plan ! i) = 0" "i \<le> j" "k < n" for k j
  proof
    assume "passed (aps s ! k) j"
    then have "passed (aps s ! k) i" using that(2) by (auto simp: passed_def)
    then show False using past [of k i] that assms(4) by simp
  qed
  moreover have "j < fst (aps s ! k)" if "ret s = 0" "barrier (plan ! i) = 0" "k < n" "j < i" for k j
    using assms(1,3,4) that by (fastforce simp: mp_inv_def bsp_past_wait_def checked_in_def)
  ultimately show ?thesis using assms(2-4) by (simp add: trace_ok_def bsp_begun_def bsp_ended_def)
qed

definition order_inv :: "mp_flight_record list \<Rightarrow> nat \<Rightarrow> flight \<Rightarrow> bool" where
  "order_inv plan n s \<longleftrightarrow> mp_inv plan n s \<and> trace_ok plan n s \<and> events_in_order plan n (ret s = 0) {} (trace s)"

lemma order_inv_ap_step:
  assumes "order_inv plan n s"
  shows "order_inv plan n (ap_step k s)"
proof -
  have "ret (ap_step k s) = ret s" by (simp add: ap_step_eq Let_def split: ap_pc.splits)
  then show ?thesis
    using assms mp_inv_ap_step [of plan n s k] trace_ok_ap_step [of plan n s k] ap_step_event [of plan n s k "ret s = 0"]
    by (auto simp: order_inv_def events_in_order_append)
qed

lemma order_inv_bsp_step:
  assumes "order_inv plan n s"
  shows "order_inv plan n (bsp_step s)"
proof -
  have inv: "mp_inv plan n s" "trace_ok plan n s" "events_in_order plan n (ret s = 0) {} (trace s)"
    using assms by (simp_all add: order_inv_def)
  have "events_in_order plan n (ret (bsp_step s) = 0) {} (trace (bsp_step s))"
  proof (cases "fst (bsp s) < length plan")
    case False
    then show ?thesis using inv by (simp add: bsp_step_eq mp_inv_def)
  next
    case True
    have sticky: "ret (bsp_step s) = 0 \<Longrightarrow> ret s = 0"
      by (auto simp: bsp_step_eq Let_def split: bsp_pc.splits if_splits)
    define i where "i = fst (bsp s)"
    from inv(1) True show ?thesis
    proof (cases rule: bsp_step_cases)
      case (quiet r pc x)
      then show ?thesis using inv(3) sticky events_in_order_late [OF inv(3)] by (cases "ret s = 0"; cases "x = 0") simp_all
    next
      case begins
      then have "bsp s = (i, Bsp_go)" by (simp add: i_def prod_eq_iff)
      then have "event_in_order plan n (ret s = 0) (set (trace s)) (Bsp_begins i)"
        using bsp_begins_in_order [OF inv(1,2)] True by (simp add: i_def)
      then show ?thesis using begins(1) inv(3) by (simp add: i_def events_in_order_append)
    next
      case ends
      then have "event_in_order plan n (ret s = 0) (set (trace s)) (Bsp_ends i)"
        using inv(2) True by (simp add: trace_ok_def i_def bsp_begun_def bsp_ended_def)
      then show ?thesis using ends(1) inv(3) by (simp add: i_def events_in_order_append)
    next
      case stays
      then show ?thesis using inv(3) by simp
    next
      case (release r)
      then show ?thesis using inv(3) by simp
    qed
  qed
  then show ?thesis using mp_inv_bsp_step [OF inv(1)] trace_ok_bsp_step [OF inv(1,2)] by (simp add: order_inv_def)
qed

lemma order_inv_step: "order_inv plan n s \<Longrightarrow> order_inv plan n (mp_step t s)"
  by (cases t) (simp_all add: mp_step_def order_inv_ap_step order_inv_bsp_step)

lemma order_inv_fold: "order_inv plan n s \<Longrightarrow> order_inv plan n (fold mp_step ts s)"
  by (induction ts arbitrary: s) (simp_all add: order_inv_step)

lemma order_inv_run: "fresh_plan plan \<Longrightarrow> order_inv plan (num_cpus - 1) (mp_run plan num_cpus rets schedule)"
  unfolding mp_run_def
  using mp_inv_start [of plan num_cpus rets] trace_ok_start [of plan num_cpus rets]
  by (intro order_inv_fold) (simp add: order_inv_def, simp add: mp_start_def)

text \<open>
  C9: In every interleaving the calls of a flight plan keep their order, whichever calls return. No call is made
  twice; an application processor begins the call of a record only after its earlier calls
  ended and, where records block, after the boot processor's calls up to this record ended; and
  as long as no wait has timed out, the boot processor begins the call of a blocking record
  only when every application processor is through with all earlier records and none has begun
  this one or a later one.
\<close>

theorem flight_plan_in_order:
  assumes "fresh_plan plan"
  shows "let s = mp_run plan num_cpus rets schedule in events_in_order plan (num_cpus - 1) (ret s = 0) {} (trace s)"
  using order_inv_run [OF assms] by (simp add: order_inv_def Let_def)

text \<open>
  Two processors that move in turn, the second of which is left waiting for work: no timeout, and
  every call is seen.
\<close>

definition in_turns :: "turn list" where
  "in_turns = concat (replicate 24 [Ap 0, Bsp])"

definition all_but_work :: "mp_call \<Rightarrow> bool" where
  "all_but_work = call_returns True (\<lambda>_. True)"

lemma flight_in_turns:
  "ret (mp_run mp_steps 2 all_but_work in_turns) = 0 \<and>
   trace (mp_run mp_steps 2 all_but_work in_turns) =
     [Bsp_begins 0, Bsp_ends 0, Bsp_begins 1, Ap_begins 0 1, Bsp_ends 1, Ap_ends 0 1,
      Bsp_begins 2, Bsp_ends 2, Ap_begins 0 2, Ap_ends 0 2, Ap_begins 0 3]"
  by code_simp

theorem flight_plan_in_order_witness:
  "events_in_order mp_steps 1 True {} (trace (mp_run mp_steps 2 all_but_work in_turns)) \<and>
   length (trace (mp_run mp_steps 2 all_but_work in_turns)) = 11"
proof -
  have "fresh_plan mp_steps" by code_simp
  from flight_plan_in_order [OF this, of 2 all_but_work in_turns] flight_in_turns show ?thesis by (simp add: Let_def)
qed

section \<open>Progress\<close>

text \<open>The steps the boot processor has left; a wait takes at most ten thousand turns of its loop.\<close>

definition bsp_rank :: "bsp_pc \<Rightarrow> nat" where
  "bsp_rank pc = (case pc of Bsp_check \<Rightarrow> 10004 | Bsp_poll d \<Rightarrow> 3 + max 1 (nat ((1000099 - d) div 100)) | Bsp_go \<Rightarrow> 3 | Bsp_run \<Rightarrow> 2 | Bsp_release \<Rightarrow> 1)"

definition bsp_left :: "mp_flight_record list \<Rightarrow> nat \<times> bsp_pc \<Rightarrow> nat" where
  "bsp_left plan b = (if fst b < length plan then 10004 * (length plan - Suc (fst b)) + bsp_rank (snd b) else 0)"

definition ap_left :: "mp_flight_record list \<Rightarrow> nat \<times> ap_pc \<Rightarrow> nat" where
  "ap_left plan a = 3 * (length plan - fst a) - (case snd a of Ap_enter \<Rightarrow> 0 | Ap_wait \<Rightarrow> 1 | Ap_run \<Rightarrow> 2)"

lemma poll_rank: "d + 100 < 1000000 \<Longrightarrow> bsp_rank (Bsp_poll (d + 100)) < bsp_rank (Bsp_poll d)"
proof -
  assume d: "d + 100 < (1000000 :: int)"
  have "(1000099 - d) div 100 = (1000099 - (d + 100)) div 100 + 1"
    using div_add_self2 [of 100 "1000099 - (d + 100)"] by simp
  moreover have "0 < (1000099 - (d + 100)) div 100" using d by (simp add: pos_imp_zdiv_pos_iff)
  ultimately show ?thesis by (simp add: bsp_rank_def)
qed

text \<open>
  The calls a plan can rely on to return: all but the last one of the application processors,
  which may keep them for ever.
\<close>

definition calls_over :: "mp_flight_record list \<Rightarrow> (mp_call \<Rightarrow> bool) \<Rightarrow> bool" where
  "calls_over plan rets \<longleftrightarrow> (\<forall>i<length plan. call_over rets (bsp_call (plan ! i)) \<and>
     (Suc i < length plan \<longrightarrow> call_over rets (ap_call (plan ! i))))"

text \<open>Where an application processor comes to stay: behind the plan, or in the plan's last call.\<close>

definition resting :: "mp_flight_record list \<Rightarrow> (mp_call \<Rightarrow> bool) \<Rightarrow> nat \<times> ap_pc" where
  "resting plan rets =
     (if plan = [] \<or> call_over rets (ap_call (last plan)) then (length plan, Ap_enter) else (length plan - 1, Ap_run))"

lemma bsp_step_left:
  assumes "mp_inv plan n s" and "calls_over plan (returns s)"
  shows "bsp_left plan (bsp (bsp_step s)) \<le> bsp_left plan (bsp s) - 1"
proof (cases "fst (bsp s) < length plan")
  case False
  then show ?thesis using assms by (simp add: bsp_left_def bsp_step_eq mp_inv_def)
next
  case True
  define i where "i = fst (bsp s)"
  have i: "i < length plan" "length (records s) = length plan" using True assms by (simp_all add: i_def mp_inv_def)
  have less: "bsp_left plan (i, pc) \<le> bsp_left plan (bsp s) - 1" if "bsp_rank pc < bsp_rank (snd (bsp s))" for pc
    using that i by (simp add: bsp_left_def i_def)
  have go: "bsp_rank Bsp_go < bsp_rank (Bsp_poll d)" for d by (simp add: bsp_rank_def)
  have check: "bsp_rank (Bsp_poll 0) < bsp_rank Bsp_check" "bsp_rank Bsp_go < bsp_rank Bsp_check" by (simp_all add: bsp_rank_def)
  have late: "bsp_rank Bsp_run < bsp_rank Bsp_go" "bsp_rank Bsp_release < bsp_rank Bsp_go" "bsp_rank Bsp_release < bsp_rank Bsp_run"
    by (simp_all add: bsp_rank_def)
  note b = i_def [symmetric]
  show ?thesis
  proof (cases "snd (bsp s)")
    case Bsp_check
    then show ?thesis using i less check by (simp add: bsp_step_eq b Let_def)
  next
    case (Bsp_poll d)
    then have "bsp (bsp_step s) = (i, Bsp_go) \<or> d + 100 < 1000000 \<and> bsp (bsp_step s) = (i, Bsp_poll (d + 100))"
      using i by (auto simp: bsp_step_eq b Let_def step_us_def timeout_us_def)
    then show ?thesis using less [of Bsp_go] less [of "Bsp_poll (d + 100)"] go poll_rank [of d] Bsp_poll by auto
  next
    case Bsp_go
    then show ?thesis using i less late by (simp add: bsp_step_eq b Let_def)
  next
    case Bsp_run
    have "bsp_call (records s ! i) = bsp_call (plan ! i)" using assms(1) i(1) by (simp add: mp_inv_def record_ok_def)
    then show ?thesis using Bsp_run i less late assms(2) by (simp add: bsp_step_eq b Let_def calls_over_def)
  next
    case Bsp_release
    then have "bsp (bsp_step s) = (i + 1, Bsp_check)" using i by (simp add: bsp_step_eq b Let_def)
    moreover have "bsp s = (i, Bsp_release)" using Bsp_release by (simp add: i_def prod_eq_iff)
    moreover have "bsp_left plan (i + 1, Bsp_check) \<le> bsp_left plan (i, Bsp_release) - 1"
      using i Suc_diff_Suc [of "Suc i" "length plan"] by (auto simp: bsp_left_def bsp_rank_def)
    ultimately show ?thesis by simp
  qed
qed

definition ap_to_go :: "mp_flight_record list \<Rightarrow> (mp_call \<Rightarrow> bool) \<Rightarrow> nat \<times> ap_pc \<Rightarrow> nat" where
  "ap_to_go plan rets a = ap_left plan a - ap_left plan (resting plan rets)"

lemma ap_to_go_zero:
  assumes "ap_ok plan b a" and "ap_to_go plan rets a = 0"
  shows "a = (length plan, Ap_enter) \<or> a = resting plan rets"
proof -
  have "ap_left plan (resting plan rets) \<le> 1" by (cases plan) (auto simp: resting_def ap_left_def)
  then have "ap_left plan a \<le> ap_left plan (resting plan rets)" "ap_left plan a \<le> 1" using assms(2) by (auto simp: ap_to_go_def)
  moreover have "fst a \<le> length plan" "fst a = length plan \<longrightarrow> snd a = Ap_enter" using assms(1) by (simp_all add: ap_ok_def)
  ultimately show ?thesis
    by (cases a; cases "snd a") (auto simp: ap_left_def resting_def split: if_splits)
qed

lemma ap_step_to_go:
  assumes "mp_inv plan n s" and "calls_over plan (returns s)" and "fst (bsp s) = length plan" and "k < n"
  shows "ap_to_go plan (returns s) (aps (ap_step k s) ! k) \<le> ap_to_go plan (returns s) (aps s ! k) - 1"
proof (cases "fst (aps s ! k) < length plan")
  case False
  then show ?thesis using assms(1) by (simp add: ap_left_def ap_step_eq mp_inv_def ap_to_go_def)
next
  case True
  define i where "i = fst (aps s ! k)"
  have k: "k < length (aps s)" "length (records s) = length plan" "i < length plan"
    using assms True by (simp_all add: mp_inv_def i_def)
  have open_: "barrier (records s ! i) \<noteq> 0" and call: "ap_call (records s ! i) = ap_call (plan ! i)"
    using assms(1,3) k by (simp_all add: mp_inv_def record_ok_def)
  have "ap_left plan (aps (ap_step k s) ! k) \<le> ap_left plan (aps s ! k) - 1 \<or> aps (ap_step k s) ! k = resting plan (returns s)"
  proof (cases "snd (aps s ! k) = Ap_run \<and> \<not> call_over (returns s) (ap_call (plan ! i))")
    case True
    then have "Suc i = length plan" using assms(2) k(3) by (auto simp: calls_over_def intro: Suc_lessI)
    then have "plan \<noteq> []" by auto
    then have "last plan = plan ! i" using \<open>Suc i = length plan\<close> by (simp add: last_conv_nth flip: \<open>Suc i = length plan\<close>)
    then have "resting plan (returns s) = (i, Ap_run)" using True \<open>Suc i = length plan\<close> by (auto simp: resting_def)
    moreover have "aps s ! k = (i, Ap_run)" using True by (simp add: i_def prod_eq_iff)
    moreover have "ap_step k s = s" using True k call by (simp add: ap_step_eq Let_def i_def [symmetric])
    ultimately show ?thesis by simp
  next
    case False
    then show ?thesis
      using k open_ call by (cases "snd (aps s ! k)") (simp_all add: ap_step_eq Let_def ap_left_def i_def [symmetric], auto)
  qed
  then show ?thesis unfolding ap_to_go_def by auto
qed

lemma ap_step_bsp: "bsp (ap_step k s) = bsp s"
  by (simp add: ap_step_eq Let_def split: ap_pc.splits)

lemma ap_step_other: "q \<noteq> k \<Longrightarrow> aps (ap_step q s) ! k = aps s ! k"
  by (simp add: ap_step_eq Let_def split: ap_pc.splits)

lemma bsp_step_aps: "aps (bsp_step s) = aps s"
  by (simp add: bsp_step_eq Let_def split: bsp_pc.splits)

lemma fold_bsp_left:
  "mp_inv plan n s \<Longrightarrow> calls_over plan (returns s) \<Longrightarrow> bsp_left plan (bsp (fold mp_step ts s)) \<le> bsp_left plan (bsp s) - count_list ts Bsp"
proof (induction ts arbitrary: s)
  case (Cons t ts)
  have "bsp_left plan (bsp (mp_step t s)) \<le> bsp_left plan (bsp s) - (if t = Bsp then 1 else 0)"
    using bsp_step_left [OF Cons.prems] by (cases t) (simp_all add: mp_step_def ap_step_bsp)
  moreover have "bsp_left plan (bsp (fold mp_step ts (mp_step t s))) \<le> bsp_left plan (bsp (mp_step t s)) - count_list ts Bsp"
    using Cons.IH [of "mp_step t s"] Cons.prems mp_inv_step by simp
  ultimately show ?case by (auto split: if_splits)
qed simp

lemma fold_ap_to_go:
  "mp_inv plan n s \<Longrightarrow> calls_over plan (returns s) \<Longrightarrow> fst (bsp s) = length plan \<Longrightarrow> k < n \<Longrightarrow>
    ap_to_go plan (returns s) (aps (fold mp_step ts s) ! k) \<le> ap_to_go plan (returns s) (aps s ! k) - count_list ts (Ap k)"
proof (induction ts arbitrary: s)
  case (Cons t ts)
  have still: "bsp (mp_step t s) = bsp s"
    using Cons.prems(1,3) by (cases t) (simp_all add: mp_step_def ap_step_bsp bsp_step_eq mp_inv_def)
  have "ap_to_go plan (returns s) (aps (mp_step t s) ! k) \<le> ap_to_go plan (returns s) (aps s ! k) - (if t = Ap k then 1 else 0)"
    using ap_step_to_go [OF Cons.prems] ap_step_other by (cases t) (auto simp: mp_step_def bsp_step_aps)
  moreover have "ap_to_go plan (returns s) (aps (fold mp_step ts (mp_step t s)) ! k) \<le>
      ap_to_go plan (returns s) (aps (mp_step t s) ! k) - count_list ts (Ap k)"
    using Cons.IH [of "mp_step t s"] Cons.prems mp_inv_step still by simp
  ultimately show ?case by (auto split: if_splits)
qed simp

lemma returns_run [simp]: "returns (mp_run plan num_cpus rets schedule) = rets"
proof -
  have "returns (fold mp_step ts s) = returns s" for ts s by (induction ts arbitrary: s) simp_all
  then show ?thesis by (simp add: mp_run_def mp_start_def)
qed

text \<open>
  The boot processor is behind the last record, every application processor behind it too or in
  a last call that does not return, and the calls of the plan have been made.
\<close>

definition flight_done :: "mp_flight_record list \<Rightarrow> nat \<Rightarrow> flight \<Rightarrow> bool" where
  "flight_done plan n s \<longleftrightarrow> fst (bsp s) = length plan \<and> (\<forall>k<n. aps s ! k = resting plan (returns s)) \<and>
     (\<forall>i<length plan. (bsp_call (plan ! i) \<noteq> None \<longrightarrow> Bsp_ends i \<in> set (trace s)) \<and>
        (\<forall>k<n. ap_call (plan ! i) \<noteq> None \<longrightarrow> Ap_begins k i \<in> set (trace s) \<and>
          (call_over (returns s) (ap_call (plan ! i)) \<longleftrightarrow> Ap_ends k i \<in> set (trace s))))"

lemma bsp_left_zero: "fst b \<le> length plan \<Longrightarrow> bsp_left plan b = 0 \<Longrightarrow> fst b = length plan"
  by (auto simp: bsp_left_def bsp_rank_def split: if_splits bsp_pc.splits)

text \<open>No processor is behind a call that does not return.\<close>

definition no_return_kept :: "mp_flight_record list \<Rightarrow> flight \<Rightarrow> bool" where
  "no_return_kept plan s \<longleftrightarrow> (\<forall>k<length (aps s). \<forall>i<length plan. i < fst (aps s ! k) \<longrightarrow> call_over (returns s) (ap_call (plan ! i)))"

lemma no_return_ap_step:
  assumes "mp_inv plan n s" and "no_return_kept plan s"
  shows "no_return_kept plan (ap_step k s)"
proof (cases "k < n \<and> fst (aps s ! k) < length plan")
  case False
  then show ?thesis using assms by (auto simp: ap_step_eq mp_inv_def)
next
  case True
  define i where "i = fst (aps s ! k)"
  have k: "k < length (aps s)" "i < length (records s)" "i < length plan" "k < n"
    using True assms by (simp_all add: mp_inv_def i_def)
  have call: "ap_call (records s ! i) = ap_call (plan ! i)" using assms(1) k(3) by (simp add: mp_inv_def record_ok_def)
  have move: "no_return_kept plan (s\<lparr>records := r, aps := (aps s)[k := a], trace := t\<rparr>)"
    if "fst a = i \<or> fst a = Suc i \<and> call_over (returns s) (ap_call (plan ! i))" for r a t
    using assms(2) that k(1) by (auto simp: no_return_kept_def i_def nth_list_update less_Suc_eq)
  show ?thesis
    using assms(2) k call move [where a = "(i, Ap_wait)" and t = "trace s"] move [where a = "(i, Ap_run)" and r = "records s"]
      move [where a = "(i + 1, Ap_enter)" and r = "records s"] move [where a = "(i + 1, Ap_enter)" and r = "records s" and t = "trace s"]
    by (cases "snd (aps s ! k)") (simp_all add: ap_step_eq Let_def i_def [symmetric] call_over_def)
qed

lemma no_return_run: "fresh_plan plan \<Longrightarrow> no_return_kept plan (mp_run plan num_cpus rets schedule)"
proof -
  assume fresh: "fresh_plan plan"
  have "no_return_kept plan (fold mp_step ts s)" if "mp_inv plan n s" "no_return_kept plan s" for ts n s
    using that
  proof (induction ts arbitrary: s)
    case (Cons t ts)
    have "no_return_kept plan (mp_step t s)"
    proof (cases t)
      case Bsp
      have "returns (bsp_step s) = returns s" using returns_step [of Bsp s] by (simp add: mp_step_def)
      then show ?thesis using Bsp Cons.prems(2) by (simp add: mp_step_def no_return_kept_def bsp_step_aps)
    next
      case (Ap k)
      then show ?thesis using no_return_ap_step [OF Cons.prems] by (simp add: mp_step_def)
    qed
    then show ?case using Cons.IH mp_inv_step [OF Cons.prems(1)] by simp
  qed simp
  moreover have "no_return_kept plan (mp_start plan num_cpus rets)" by (simp add: no_return_kept_def mp_start_def)
  ultimately show ?thesis unfolding mp_run_def using mp_inv_start [OF fresh] by blast
qed

lemma resting_calls:
  assumes "calls_over plan rets" and "i < length plan"
  shows "i < fst (resting plan rets) \<longleftrightarrow> call_over rets (ap_call (plan ! i))" and "passed (resting plan rets) i"
proof -
  have i: "Suc i < length plan \<or> Suc i = length plan" using assms(2) by linarith
  then show "i < fst (resting plan rets) \<longleftrightarrow> call_over rets (ap_call (plan ! i))"
  proof
    assume "Suc i < length plan"
    then show ?thesis using assms by (auto simp: calls_over_def resting_def)
  next
    assume e: "Suc i = length plan"
    then have "plan \<noteq> []" by auto
    then have "last plan = plan ! i" using e by (simp add: last_conv_nth flip: e)
    then show ?thesis using e \<open>plan \<noteq> []\<close> by (simp add: resting_def flip: e)
  qed
  show "passed (resting plan rets) i" using i by (auto simp: resting_def passed_def)
qed

text \<open>
  C20: Assume that the boot processor's calls return and those of the application processors,
  the last one excepted, which may be the endless wait for work. Whatever the application
  processors do, even nothing, the boot processor is then through with a flight plan after at
  most 10004 steps of its own per record, as every wait gives up after ten thousand polls. After
  that each application processor comes to rest, no call missed, with at most three steps of its
  own per record: behind the plan when the last call returns, and otherwise inside this call,
  which it has begun and never ends.
\<close>

theorem flight_plan_ends:
  assumes "fresh_plan plan" and "calls_over plan rets" and "10004 * length plan \<le> count_list before Bsp"
    and "\<forall>k<num_cpus - 1. 3 * length plan \<le> count_list after (Ap k)"
  shows "fst (bsp (mp_run plan num_cpus rets before)) = length plan \<and>
    flight_done plan (num_cpus - 1) (mp_run plan num_cpus rets (before @ after))"
proof -
  let ?n = "num_cpus - 1" let ?s = "mp_run plan num_cpus rets before" let ?t = "mp_run plan num_cpus rets (before @ after)"
  have inv: "order_inv plan ?n ?s" "order_inv plan ?n ?t" using order_inv_run [OF assms(1)] by simp_all
  then have mp: "mp_inv plan ?n ?s" "mp_inv plan ?n ?t" by (simp_all add: order_inv_def)
  have over: "calls_over plan (returns ?s)" using assms(2) by simp
  have t: "?t = fold mp_step after ?s" by (simp add: mp_run_def)
  have "bsp_left plan (bsp ?s) \<le> bsp_left plan (0, Bsp_check) - count_list before Bsp"
    using fold_bsp_left [OF mp_inv_start [OF assms(1), of num_cpus rets], where ts = before] assms(2) by (simp add: mp_run_def mp_start_def)
  moreover have "bsp_left plan (0, Bsp_check) \<le> 10004 * length plan"
    using Suc_diff_Suc [of 0 "length plan"] by (cases plan) (auto simp: bsp_left_def bsp_rank_def)
  ultimately have through: "fst (bsp ?s) = length plan"
    using assms(3) mp(1) by (intro bsp_left_zero) (simp_all add: mp_inv_def)
  have "bsp_left plan (bsp ?t) \<le> bsp_left plan (bsp ?s) - count_list after Bsp"
    unfolding t by (rule fold_bsp_left [OF mp(1) over])
  then have bsp: "fst (bsp ?t) = length plan"
    using through mp(2) by (intro bsp_left_zero) (simp_all add: bsp_left_def mp_inv_def)
  have aps: "aps ?t ! k = resting plan rets" if "k < ?n" for k
  proof -
    have "ap_to_go plan rets (aps ?t ! k) \<le> ap_to_go plan rets (aps ?s ! k) - count_list after (Ap k)"
      using fold_ap_to_go [OF mp(1) over through that, of after] by (simp add: t)
    moreover have "ap_to_go plan rets (aps ?s ! k) \<le> 3 * length plan" by (simp add: ap_to_go_def ap_left_def)
    ultimately have "ap_to_go plan rets (aps ?t ! k) = 0" using assms(4) that by fastforce
    moreover have "ap_ok plan (fst (bsp ?t)) (aps ?t ! k)" using mp(2) that by (simp add: mp_inv_def)
    ultimately have "aps ?t ! k = (length plan, Ap_enter) \<or> aps ?t ! k = resting plan rets" by (rule ap_to_go_zero[rotated])
    moreover have "aps ?t ! k \<noteq> (length plan, Ap_enter)" if "plan \<noteq> []" "\<not> call_over rets (ap_call (last plan))"
      using no_return_run [OF assms(1), of num_cpus rets "before @ after"] that \<open>k < ?n\<close> mp(2)
      by (auto simp: no_return_kept_def mp_inv_def last_conv_nth)
    ultimately show ?thesis by (auto simp: resting_def split: if_splits)
  qed
  have "trace_ok plan ?n ?t" using inv(2) by (simp add: order_inv_def)
  then have "flight_done plan ?n ?t"
    unfolding flight_done_def trace_ok_def returns_run
    using bsp aps resting_calls [OF assms(2)] by (simp add: bsp_ended_def)
  then show ?thesis using through by simp
qed

lemma count_list_replicate_eq: "count_list (replicate m x) y = (if x = y then m else 0)"
  by (induction m) auto

text \<open>The plan of the code, with application processors that are kept waiting for work.\<close>

theorem flight_plan_ends_witness:
  "fst (bsp (mp_run mp_steps 3 all_but_work (replicate 40016 Bsp))) = 4 \<and>
   (let s = mp_run mp_steps 3 all_but_work (replicate 40016 Bsp @ replicate 12 (Ap 0) @ replicate 12 (Ap 1)) in
      flight_done mp_steps 2 s \<and> aps s ! 0 = (3, Ap_run) \<and> aps s ! 1 = (3, Ap_run) \<and> Ap_ends 0 3 \<notin> set (trace s))"
proof -
  define s where "s = mp_run mp_steps 3 all_but_work (replicate 40016 Bsp @ replicate 12 (Ap 0) @ replicate 12 (Ap 1))"
  have "fresh_plan mp_steps" "calls_over mp_steps all_but_work" by code_simp+
  moreover have len: "length mp_steps = 4" by (simp add: mp_steps_def)
  moreover have "\<forall>k<3 - 1. 12 \<le> count_list (replicate 12 (Ap 0) @ replicate 12 (Ap 1)) (Ap k)"
    by (auto simp: count_list_replicate_eq less_2_cases_iff numeral_2_eq_2)
  ultimately have b: "fst (bsp (mp_run mp_steps 3 all_but_work (replicate 40016 Bsp))) = 4" and f: "flight_done mp_steps 2 s"
    using flight_plan_ends [of mp_steps all_but_work "replicate 40016 Bsp" 3 "replicate 12 (Ap 0) @ replicate 12 (Ap 1)"]
    by (simp_all add: count_list_replicate_eq s_def)
  have rest: "resting mp_steps all_but_work = (3, Ap_run)" and last: "\<not> call_over all_but_work (ap_call (mp_steps ! 3))" "ap_call (mp_steps ! 3) \<noteq> None"
    by code_simp+
  have "returns s = all_but_work" by (simp add: s_def)
  note fin = f [unfolded flight_done_def len this rest]
  have "aps s ! 0 = (3, Ap_run)" "aps s ! 1 = (3, Ap_run)" using fin by simp_all
  moreover have "Ap_ends 0 3 \<notin> set (trace s)" using fin last by (metis numeral_less_iff semiring_norm(76,81) zero_less_numeral)
  ultimately show ?thesis unfolding Let_def s_def [symmetric] using b f by blast
qed

end
