(* ===== verification/Lb_Table.thy ===== *)
theory Lb_Table
  imports Memory Bootmem
begin

text \<open>
  The coreboot table of \<^verbatim>\<open>src/lib/coreboot_table.c\<close>, which tells the payload about the machine: a
  header and a chain of records, each with a tag and its size, in the flat memory. The struct
  layouts are those of a 32-bit x86 build; assigning the fields of a struct is writing their
  bytes, and padding keeps what was there.
\<close>

section \<open>Layout\<close>

definition LB_TAG_UNUSED :: u32 where "LB_TAG_UNUSED = 0x0000"
definition LB_TAG_MEMORY :: u32 where "LB_TAG_MEMORY = 0x0001"
definition LB_TAG_MAINBOARD :: u32 where "LB_TAG_MAINBOARD = 0x0003"
definition LB_TAG_VERSION :: u32 where "LB_TAG_VERSION = 0x0004"
definition LB_TAG_EXTRA_VERSION :: u32 where "LB_TAG_EXTRA_VERSION = 0x0005"
definition LB_TAG_BUILD :: u32 where "LB_TAG_BUILD = 0x0006"
definition LB_TAG_COMPILE_TIME :: u32 where "LB_TAG_COMPILE_TIME = 0x0007"
definition LB_TAG_VERSION_TIMESTAMP :: u32 where "LB_TAG_VERSION_TIMESTAMP = 0x0026"
definition LB_TAG_SERIAL :: u32 where "LB_TAG_SERIAL = 0x000f"
definition LB_TAG_CONSOLE :: u32 where "LB_TAG_CONSOLE = 0x0010"
definition LB_TAG_CONSOLE_SERIAL8250 :: u16 where "LB_TAG_CONSOLE_SERIAL8250 = 0"
definition LB_TAG_CONSOLE_EHCI :: u16 where "LB_TAG_CONSOLE_EHCI = 5"
definition LB_SERIAL_TYPE_IO_MAPPED :: u32 where "LB_SERIAL_TYPE_IO_MAPPED = 1"
definition LB_TAG_FORWARD :: u32 where "LB_TAG_FORWARD = 0x0011"
definition LB_TAG_FRAMEBUFFER :: u32 where "LB_TAG_FRAMEBUFFER = 0x0012"
definition LB_TAG_GPIO :: u32 where "LB_TAG_GPIO = 0x0013"
definition LB_TAG_VBNV :: u32 where "LB_TAG_VBNV = 0x0019"
definition LB_TAB_VBOOT_HANDOFF :: u32 where "LB_TAB_VBOOT_HANDOFF = 0x0020"
definition LB_TAG_RAM_OOPS :: u32 where "LB_TAG_RAM_OOPS = 0x0023"
definition LB_TAG_TIMESTAMPS :: u32 where "LB_TAG_TIMESTAMPS = 0x0016"
definition LB_TAG_CBMEM_CONSOLE :: u32 where "LB_TAG_CBMEM_CONSOLE = 0x0017"
definition LB_TAG_ACPI_GNVS :: u32 where "LB_TAG_ACPI_GNVS = 0x0024"
definition LB_TAG_TCPA_LOG :: u32 where "LB_TAG_TCPA_LOG = 0x0034"
definition LB_TAG_WIFI_CALIBRATION :: u32 where "LB_TAG_WIFI_CALIBRATION = 0x0027"
definition LB_TAG_VPD :: u32 where "LB_TAG_VPD = 0x002c"
definition LB_TAG_BOARD_ID :: u32 where "LB_TAG_BOARD_ID = 0x0025"
definition LB_TAG_RAM_CODE :: u32 where "LB_TAG_RAM_CODE = 0x0028"
definition LB_TAG_SKU_ID :: u32 where "LB_TAG_SKU_ID = 0x002d"
definition LB_TAG_SPI_FLASH :: u32 where "LB_TAG_SPI_FLASH = 0x0029"
definition LB_TAG_BOOT_MEDIA_PARAMS :: u32 where "LB_TAG_BOOT_MEDIA_PARAMS = 0x0030"
definition LB_TAG_CBMEM_ENTRY :: u32 where "LB_TAG_CBMEM_ENTRY = 0x0031"
definition LB_TAG_TSC_INFO :: u32 where "LB_TAG_TSC_INFO = 0x0032"
definition LB_TAG_OPTION_CHECKSUM :: u32 where "LB_TAG_OPTION_CHECKSUM = 204"
definition CHECKSUM_PCBIOS :: u32 where "CHECKSUM_PCBIOS = 1"
definition UNDEFINED_STRAPPING_ID :: u32 where "UNDEFINED_STRAPPING_ID = NOT 0"

text \<open>The bytes of the signature, and of a header whose fields are given.\<close>

definition LBIO :: "u8 list" where
  "LBIO = [0x4c, 0x42, 0x49, 0x4f]"

definition lb_header :: "u32 \<Rightarrow> u32 \<Rightarrow> u32 \<Rightarrow> u32 \<Rightarrow> u8 list" where
  "lb_header header_checksum table_bytes table_checksum table_entries =
     LBIO @ le_encode 4 (24 :: u32) @ le_encode 4 header_checksum @ le_encode 4 table_bytes @
     le_encode 4 table_checksum @ le_encode 4 table_entries"

text \<open>The fields of a header and of a record in memory.\<close>

definition header_checksum :: "ptr \<Rightarrow> ptr" where "header_checksum header = header + 8"
definition table_bytes :: "ptr \<Rightarrow> ptr" where "table_bytes header = header + 12"
definition table_checksum :: "ptr \<Rightarrow> ptr" where "table_checksum header = header + 16"
definition table_entries :: "ptr \<Rightarrow> ptr" where "table_entries header = header + 20"

lemmas header_fields = header_checksum_def table_bytes_def table_checksum_def table_entries_def

section \<open>The table\<close>

definition lb_table_init :: "ptr \<Rightarrow> mem \<Rightarrow> ptr \<times> mem" where
  "lb_table_init addr m =
     (let addr = addr + 15; addr = addr AND NOT 15
      in (addr, mem_write m addr (lb_header 0 0 0 0)))"

definition lb_first_record :: "ptr \<Rightarrow> ptr" where
  "lb_first_record header = header + 24"

definition lb_last_record :: "ptr \<Rightarrow> mem \<Rightarrow> ptr" where
  "lb_last_record header m = header + 24 + load32 m (table_bytes header)"

definition lb_new_record :: "ptr \<Rightarrow> mem \<Rightarrow> ptr \<times> mem" where
  "lb_new_record header m =
     (let rec = lb_last_record header m;
          m = (if load32 m (table_entries header) \<noteq> 0
               then store32 m (table_bytes header) (load32 m (table_bytes header) + load32 m (rec + 4)) else m);
          rec = lb_last_record header m;
          m = store32 m (table_entries header) (load32 m (table_entries header) + 1);
          m = store32 m rec LB_TAG_UNUSED;
          m = store32 m (rec + 4) 8
      in (rec, m))"

text \<open>The checksum of \<^verbatim>\<open>src/lib/compute_ip_checksum.c\<close> over the bytes at an address.\<close>

primrec checksum_loop :: "u8 list \<Rightarrow> bool \<Rightarrow> u32 \<Rightarrow> u32" where
  "checksum_loop [] odd_byte acc = acc"
| "checksum_loop (b # bs) odd_byte acc =
     (let v = (ucast b :: u32); v = (if odd_byte then push_bit 8 v else v); acc = acc + v;
          acc = (if acc > 0xffff then (acc + drop_bit 16 acc) AND 0xffff else acc)
      in checksum_loop bs (\<not> odd_byte) acc)"

definition compute_ip_checksum :: "u8 list \<Rightarrow> u32" where
  "compute_ip_checksum bs = NOT (checksum_loop bs False 0) AND 0xffff"

definition add_ip_checksums :: "u32 \<Rightarrow> u32 \<Rightarrow> u32 \<Rightarrow> u32" where
  "add_ip_checksums offset sum1 new =
     (let sum1 = NOT sum1 AND 0xffff; new = NOT new AND 0xffff;
          new = (if offset AND 1 \<noteq> 0 then (drop_bit 8 new AND 0xff) OR (push_bit 8 new AND 0xff00) else new);
          checksum = sum1 + new;
          checksum = (if checksum > 0xffff then checksum - 0xffff else checksum)
      in NOT checksum AND 0xffff)"

definition lb_table_fini :: "ptr \<Rightarrow> mem \<Rightarrow> ptr \<times> mem" where
  "lb_table_fini head m =
     (let rec = lb_last_record head m;
          m = (if load32 m (table_entries head) \<noteq> 0
               then store32 m (table_bytes head) (load32 m (table_bytes head) + load32 m (rec + 4)) else m);
          first_rec = lb_first_record head;
          m = store32 m (table_checksum head) (compute_ip_checksum (mem_read m first_rec (unat (load32 m (table_bytes head)))));
          m = store32 m (header_checksum head) 0;
          m = store32 m (header_checksum head) (compute_ip_checksum (mem_read m head 24))
      in (rec + load32 m (rec + 4), m))"

text \<open>A new record with its tag, its size and the bytes of its fields.\<close>

record lbrec =
  lr_tag :: u32
  lr_size :: nat
  lr_body :: "u8 list"

definition add_record :: "ptr \<Rightarrow> lbrec \<Rightarrow> mem \<Rightarrow> mem" where
  "add_record header r m =
     (let (rec, m) = lb_new_record header m
      in mem_write m rec (le_encode 4 (lr_tag r) @ le_encode 4 (of_nat (lr_size r) :: u32) @ lr_body r))"

section \<open>Memory as a list of bytes\<close>

lemma mem_read_part:
  "k + j \<le> n \<Longrightarrow> mem_read m (h + of_nat k) j = take j (drop k (mem_read m h n))"
  by (rule nth_equalityI) (simp_all add: add.assoc)

lemma mem_write_nth:
  assumes "k + length bs \<le> 2 ^ 32" and "i < 2 ^ 32"
  shows "mem_write m (h + of_nat k) bs (h + of_nat i) = (if k \<le> i \<and> i < k + length bs then bs ! (i - k) else m (h + of_nat i))"
proof (cases "bs = []")
  case False
  then have k: "k < 2 ^ 32" using assms by (cases bs) auto
  have "h + of_nat i - (h + of_nat k) = of_nat i - (of_nat k :: ptr)" by simp
  moreover have "unat (of_nat i - of_nat k :: ptr) = (if k \<le> i then i - k else 2 ^ 32 + i - k)"
    using assms(2) k unat_of_nat_id [of i, where ?'a = 32] unat_of_nat_id [of k, where ?'a = 32]
    by (simp only: unat_sub_if' word_size) auto
  ultimately show ?thesis using assms k by (auto simp: mem_write_def Let_def)
qed auto

lemma mem_read_splice:
  assumes "k + length bs \<le> n" and "n \<le> 2 ^ 32"
  shows "mem_read (mem_write m (h + of_nat k) bs) h n =
    take k (mem_read m h n) @ bs @ drop (k + length bs) (mem_read m h n)"
  using assms by (intro nth_equalityI) (auto simp: nth_append mem_write_nth)

lemma load32_part: "k + 4 \<le> n \<Longrightarrow> load32 m (h + of_nat k) = le_decode (take 4 (drop k (mem_read m h n)))"
  by (simp add: load32_def mem_read_part)

text \<open>Memory from \<open>h + n\<close> on, round to \<open>h\<close>, is as before.\<close>

definition same_behind :: "ptr \<Rightarrow> nat \<Rightarrow> mem \<Rightarrow> mem \<Rightarrow> bool" where
  "same_behind h n m m' \<longleftrightarrow> (\<forall>p. n \<le> unat (p - h) \<longrightarrow> m' p = m p)"

lemma same_behind_refl [simp]: "same_behind h n m m"
  by (simp add: same_behind_def)

lemma same_behind_trans: "same_behind h n m m' \<Longrightarrow> same_behind h k m' m'' \<Longrightarrow> n \<le> k \<Longrightarrow> same_behind h k m m''"
  by (auto simp: same_behind_def)

lemma same_behind_write: "k + length bs \<le> n \<Longrightarrow> same_behind h n m (mem_write m (h + of_nat k) bs)"
proof (unfold same_behind_def, intro allI impI)
  fix p assume a: "k + length bs \<le> n" "n \<le> unat (p - h)"
  have u: "unat (of_nat k :: ptr) = k" using a unat_lt32 [of "p - h"] by (intro unat_of_nat_id) simp
  have "p - (h + of_nat k) = (p - h) - of_nat k" by simp
  moreover have "unat ((p - h) - of_nat k) = unat (p - h) - k" using a u by (subst unat_sub_nowrap) simp_all
  ultimately have "unat (p - (h + of_nat k)) = unat (p - h) - k" by (simp only:)
  moreover have "\<not> unat (p - h) - k < length bs" using a by linarith
  ultimately show "mem_write m (h + of_nat k) bs p = m p" by (simp add: mem_write_def Let_def)
qed

section \<open>The invariant\<close>

text \<open>
  A record is a list of bytes that begins with its tag and its own length. In an open table
  the length of the last record is not yet counted in the header.
\<close>

definition rec_wf :: "u8 list \<Rightarrow> bool" where
  "rec_wf r \<longleftrightarrow> 8 \<le> length r \<and> length r < 2 ^ 32 \<and> take 4 (drop 4 r) = le_encode 4 (of_nat (length r) :: u32)"

definition lb_open :: "mem \<Rightarrow> ptr \<Rightarrow> u8 list list \<Rightarrow> bool" where
  "lb_open m h rs \<longleftrightarrow> 24 + length (concat rs) < 2 ^ 32 \<and> (\<forall>r\<in>set rs. rec_wf r) \<and>
     mem_read m h (24 + length (concat rs)) = lb_header 0 (of_nat (length (concat (butlast rs)))) 0 (of_nat (length rs)) @ concat rs"

lemma length_lb_header [simp]: "length (lb_header a b c d) = 24"
  by (simp add: lb_header_def LBIO_def)

lemma lb_header_parts:
  "take 4 (drop 8 (lb_header a b c d @ xs)) = le_encode 4 a" "take 4 (drop 12 (lb_header a b c d @ xs)) = le_encode 4 b"
  "take 4 (drop 16 (lb_header a b c d @ xs)) = le_encode 4 c" "take 4 (drop 20 (lb_header a b c d @ xs)) = le_encode 4 d"
  "take 8 (lb_header a b c d @ xs) = LBIO @ le_encode 4 (24 :: u32)"
  by (simp_all add: lb_header_def LBIO_def)

lemma lb_header_splice:
  "take 8 (lb_header a b c d @ xs) @ le_encode 4 v @ drop 12 (lb_header a b c d @ xs) = lb_header v b c d @ xs"
  "take 12 (lb_header a b c d @ xs) @ le_encode 4 v @ drop 16 (lb_header a b c d @ xs) = lb_header a v c d @ xs"
  "take 16 (lb_header a b c d @ xs) @ le_encode 4 v @ drop 20 (lb_header a b c d @ xs) = lb_header a b v d @ xs"
  "take 20 (lb_header a b c d @ xs) @ le_encode 4 v @ drop 24 (lb_header a b c d @ xs) = lb_header a b c v @ xs"
  by (simp_all add: lb_header_def LBIO_def)

text \<open>The header fields of a memory whose bytes from \<open>h\<close> on begin with a header.\<close>

lemma header_loads:
  assumes "mem_read m h (24 + n) = lb_header a b c d @ xs"
  shows "load32 m (header_checksum h) = a" "load32 m (table_bytes h) = b" "load32 m (table_checksum h) = c" "load32 m (table_entries h) = d"
  using load32_part [of 8 "24 + n" m h] load32_part [of 12 "24 + n" m h] load32_part [of 16 "24 + n" m h] load32_part [of 20 "24 + n" m h]
  by (simp_all add: header_fields assms lb_header_parts del: drop_append take_append)

lemma header_stores:
  assumes "mem_read m h (24 + n) = lb_header a b c d @ xs" and "24 + n \<le> 2 ^ 32"
  shows "mem_read (store32 m (header_checksum h) v) h (24 + n) = lb_header v b c d @ xs"
    and "mem_read (store32 m (table_bytes h) v) h (24 + n) = lb_header a v c d @ xs"
    and "mem_read (store32 m (table_checksum h) v) h (24 + n) = lb_header a b v d @ xs"
    and "mem_read (store32 m (table_entries h) v) h (24 + n) = lb_header a b c v @ xs"
  using mem_read_splice [of 8 "le_encode 4 v" "24 + n" m h] mem_read_splice [of 12 "le_encode 4 v" "24 + n" m h]
    mem_read_splice [of 16 "le_encode 4 v" "24 + n" m h] mem_read_splice [of 20 "le_encode 4 v" "24 + n" m h] assms(2)
  by (simp_all add: store32_def header_fields assms(1) lb_header_splice del: drop_append take_append)

lemma same_behind_header:
  "24 \<le> n \<Longrightarrow> same_behind h n m (store32 m (header_checksum h) v)" "24 \<le> n \<Longrightarrow> same_behind h n m (store32 m (table_bytes h) v)"
  "24 \<le> n \<Longrightarrow> same_behind h n m (store32 m (table_checksum h) v)" "24 \<le> n \<Longrightarrow> same_behind h n m (store32 m (table_entries h) v)"
  using same_behind_write [of 8 "le_encode 4 v" n h m] same_behind_write [of 12 "le_encode 4 v" n h m]
    same_behind_write [of 16 "le_encode 4 v" n h m] same_behind_write [of 20 "le_encode 4 v" n h m]
  by (simp_all add: store32_def header_fields)

lemma lb_open_init:
  assumes "h = (addr + 15) AND NOT 15"
  shows "fst (lb_table_init addr m) = h" and "lb_open (snd (lb_table_init addr m)) h []"
    and "same_behind h 24 m (snd (lb_table_init addr m))"
proof -
  have m: "lb_table_init addr m = (h, mem_write m h (lb_header 0 0 0 0))" using assms by (simp add: lb_table_init_def Let_def)
  show "fst (lb_table_init addr m) = h" using m by simp
  show "lb_open (snd (lb_table_init addr m)) h []"
    using mem_read_write_same [of "lb_header 0 0 0 0" m h] by (simp add: m lb_open_def)
  show "same_behind h 24 m (snd (lb_table_init addr m))"
    using same_behind_write [of 0 "lb_header 0 0 0 0" 24 h m] by (simp add: m)
qed

text \<open>The size in the last record is read where the chain ends.\<close>

lemma last_record_size:
  assumes "mem_read m h (24 + n) = hd24 @ concat rs" and "length hd24 = 24" and "length (concat rs) \<le> n"
    and "rs \<noteq> []" and "rec_wf (last rs)"
  shows "load32 m (h + 24 + of_nat (length (concat (butlast rs))) + 4) = of_nat (length (last rs))"
proof -
  define L where "L = length (concat (butlast rs))"
  have split: "concat rs = concat (butlast rs) @ last rs"
    using assms(4) by (metis append_butlast_last_id concat.simps(1,2) concat_append append_Nil2)
  have n: "24 + n = 24 + (L + length (last rs))" using arg_cong [OF assms(1), of length] assms(2) by (simp add: split L_def)
  have "load32 m (h + of_nat (24 + L + 4)) = le_decode (take 4 (drop (24 + L + 4) (mem_read m h (24 + n))))"
    using n assms(5) by (intro load32_part) (simp add: rec_wf_def)
  also have "drop (24 + L + 4) (mem_read m h (24 + n)) = drop 4 (last rs)"
    using assms(1,2) by (simp add: split L_def)
  finally show ?thesis
    using assms(5) by (simp add: rec_wf_def L_def add.assoc add.commute add.left_commute)
qed

lemma mem_read_append: "mem_read m h (a + b) = mem_read m h a @ mem_read m (h + of_nat a) b"
  by (rule nth_equalityI) (simp_all add: nth_append)

lemma mem_read_behind:
  "n \<le> k \<Longrightarrow> k + length bs \<le> 2 ^ 32 \<Longrightarrow> mem_read (mem_write m (h + of_nat k) bs) h n = mem_read m h n"
  by (rule nth_equalityI) (auto simp: mem_write_nth)

lemma rec_wf_count: "\<forall>r\<in>set rs. rec_wf r \<Longrightarrow> 8 * length rs \<le> length (concat rs)"
  by (induction rs) (auto simp: rec_wf_def)

lemma concat_butlast: "rs \<noteq> [] \<Longrightarrow> length (concat (butlast rs)) + length (last rs) = length (concat rs)"
  by (metis append_butlast_last_id concat.simps(1,2) concat_append append_Nil2 length_append)

text \<open>What both ends of a table do first: count the last record.\<close>

definition count_last :: "ptr \<Rightarrow> mem \<Rightarrow> mem" where
  "count_last h m =
     (if load32 m (table_entries h) \<noteq> 0
      then store32 m (table_bytes h) (load32 m (table_bytes h) + load32 m (lb_last_record h m + 4)) else m)"

lemma count_last:
  assumes "lb_open m h rs"
  defines "L \<equiv> length (concat rs)"
  shows "mem_read (count_last h m) h (24 + L) = lb_header 0 (of_nat L) 0 (of_nat (length rs)) @ concat rs"
    and "same_behind h 24 m (count_last h m)"
    and "lb_last_record h (count_last h m) = h + of_nat (24 + L)"
    and "rs \<noteq> [] \<Longrightarrow> lb_last_record h m + load32 m (lb_last_record h m + 4) = h + of_nat (24 + L)"
proof -
  let ?B = "length (concat (butlast rs))"
  have m: "24 + L < 2 ^ 32" "\<forall>r\<in>set rs. rec_wf r" "mem_read m h (24 + L) = lb_header 0 (of_nat ?B) 0 (of_nat (length rs)) @ concat rs"
    using assms by (simp_all add: lb_open_def)
  note loads = header_loads [OF m(3)]
  have count: "(of_nat (length rs) :: u32) = 0 \<longleftrightarrow> rs = []"
    using unat_of_nat_id [of "length rs", where ?'a = 32] rec_wf_count [OF m(2)] m(1) by (auto simp: L_def)
  have last: "lb_last_record h m = h + 24 + of_nat ?B" by (simp add: lb_last_record_def loads)
  have size: "load32 m (lb_last_record h m + 4) = of_nat (length (last rs))" if "rs \<noteq> []"
    using last_record_size [OF m(3)] m(2) that by (simp add: last L_def)
  have sum: "(of_nat ?B + of_nat (length (last rs)) :: u32) = of_nat L" if "rs \<noteq> []"
    using concat_butlast [OF that] by (simp add: L_def flip: of_nat_add)
  show bytes: "mem_read (count_last h m) h (24 + L) = lb_header 0 (of_nat L) 0 (of_nat (length rs)) @ concat rs"
  proof (cases "rs = []")
    case True
    then show ?thesis using m(3) count loads by (simp add: count_last_def L_def)
  next
    case False
    then show ?thesis using header_stores(2) [OF m(3)] m(1) count loads size sum by (simp add: count_last_def)
  qed
  show "same_behind h 24 m (count_last h m)" by (simp add: count_last_def same_behind_header)
  show "lb_last_record h (count_last h m) = h + of_nat (24 + L)"
    using header_loads [OF bytes] by (simp add: lb_last_record_def add.assoc)
  show "rs \<noteq> [] \<Longrightarrow> lb_last_record h m + load32 m (lb_last_record h m + 4) = h + of_nat (24 + L)"
    using size sum last by (simp add: add.assoc)
qed

lemma lb_open_extend:
  assumes "mem_read m h (24 + length (concat rs)) = lb_header 0 (of_nat (length (concat rs))) 0 (of_nat (Suc (length rs))) @ concat rs"
    and "\<forall>r\<in>set rs. rec_wf r" and "rec_wf r" and "mem_read m (h + of_nat (24 + length (concat rs))) (length r) = r"
    and "24 + length (concat rs) + length r < 2 ^ 32"
  shows "lb_open m h (rs @ [r])"
  using assms mem_read_append [of m h "24 + length (concat rs)" "length r"]
  by (simp add: lb_open_def add.assoc)

lemma lb_new_record:
  assumes "lb_open m h rs" and "24 + length (concat rs) + 8 < 2 ^ 32"
  defines "L \<equiv> length (concat rs)"
  obtains m' where "lb_new_record h m = (h + of_nat (24 + L), m')"
    and "mem_read m' h (24 + L) = lb_header 0 (of_nat L) 0 (of_nat (Suc (length rs))) @ concat rs"
    and "mem_read m' (h + of_nat (24 + L)) 8 = le_encode 4 LB_TAG_UNUSED @ le_encode 4 (8 :: u32)"
    and "same_behind h (24 + L + 8) m m'"
proof -
  let ?c = "count_last h m" let ?rec = "h + of_nat (24 + L)" let ?rec4 = "h + of_nat (24 + L + 4)"
  note c = count_last [OF assms(1), folded L_def]
  have n: "24 + L + 8 < 2 ^ 32" using assms(2) by (simp add: L_def)
  define m1 where "m1 = store32 ?c (table_entries h) (of_nat (Suc (length rs)))"
  define m' where "m' = store32 (store32 m1 ?rec LB_TAG_UNUSED) ?rec4 8"
  have m1: "mem_read m1 h (24 + L) = lb_header 0 (of_nat L) 0 (of_nat (Suc (length rs))) @ concat rs"
    using header_stores(4) [OF c(1)] n by (simp add: m1_def)
  have "lb_new_record h m = (?rec, m')"
    using c(3) header_loads(4) [OF c(1)]
    by (simp add: lb_new_record_def Let_def count_last_def [symmetric] m1_def m'_def add.assoc add.commute add.left_commute)
  moreover have "mem_read m' h (24 + L) = mem_read m1 h (24 + L)"
    using n by (simp add: m'_def store32_def mem_read_behind del: of_nat_add)
  moreover have "m' = mem_write m1 ?rec (le_encode 4 LB_TAG_UNUSED @ le_encode 4 (8 :: u32))"
  proof (rule ext)
    fix p
    define i where "i = unat (p - h)"
    have p: "p = h + of_nat i" and i: "i < 2 ^ 32" using unat_lt32 [of "p - h"] by (simp_all add: i_def)
    show "m' p = mem_write m1 ?rec (le_encode 4 LB_TAG_UNUSED @ le_encode 4 (8 :: u32)) p"
      unfolding p m'_def store32_def using n i by (auto simp: mem_write_nth nth_append simp del: of_nat_add)
  qed
  then have "mem_read m' ?rec 8 = le_encode 4 LB_TAG_UNUSED @ le_encode 4 (8 :: u32)" and "same_behind h (24 + L + 8) m1 m'"
    using mem_read_write_same [of "le_encode 4 LB_TAG_UNUSED @ le_encode 4 (8 :: u32)" m1 ?rec]
      same_behind_write [of "24 + L" "le_encode 4 LB_TAG_UNUSED @ le_encode 4 (8 :: u32)" "24 + L + 8" h m1]
    by simp_all
  moreover have "same_behind h 24 m m1"
    using same_behind_trans [OF c(2) same_behind_header(4) [of 24]] by (simp add: m1_def)
  ultimately show ?thesis using that m1 same_behind_trans [of h 24 m m1 "24 + L + 8" m'] by simp
qed

section \<open>Writers\<close>

text \<open>A record as it should be, and the bytes that are one: the fields, then padding.\<close>

definition rec_ok :: "lbrec \<Rightarrow> bool" where
  "rec_ok s \<longleftrightarrow> 8 + length (lr_body s) \<le> lr_size s"

definition rec_bytes :: "lbrec \<Rightarrow> u8 list" where
  "rec_bytes s = le_encode 4 (lr_tag s) @ le_encode 4 (of_nat (lr_size s) :: u32) @ lr_body s"

definition rec_is :: "lbrec \<Rightarrow> u8 list \<Rightarrow> bool" where
  "rec_is s r \<longleftrightarrow> length r = lr_size s \<and> take (8 + length (lr_body s)) r = rec_bytes s"

definition total_size :: "lbrec list \<Rightarrow> nat" where
  "total_size ss = sum_list (map lr_size ss)"

lemma total_size_simps [simp]:
  "total_size [] = 0" "total_size (s # ss) = lr_size s + total_size ss" "total_size (ss @ ss') = total_size ss + total_size ss'"
  by (simp_all add: total_size_def)

lemma length_rec_bytes [simp]: "length (rec_bytes s) = 8 + length (lr_body s)"
  by (simp add: rec_bytes_def)

lemma length_recs: "list_all2 rec_is ss rs \<Longrightarrow> length (concat rs) = total_size ss"
  by (induction rule: list_all2_induct) (simp_all add: rec_is_def)

text \<open>A writer that adds given records to an open table, and changes nothing behind them.\<close>

definition adds_records :: "ptr \<Rightarrow> (mem \<Rightarrow> mem) \<Rightarrow> lbrec list \<Rightarrow> bool" where
  "adds_records h w ss \<longleftrightarrow> (\<forall>m rs. lb_open m h rs \<and> 24 + length (concat rs) + total_size ss < 2 ^ 32 \<longrightarrow>
     (\<exists>rs'. list_all2 rec_is ss rs' \<and> lb_open (w m) h (rs @ rs') \<and> same_behind h (24 + length (concat rs) + total_size ss) m (w m)))"

lemma adds_id: "adds_records h id []"
  by (simp add: adds_records_def)

lemma adds_comp:
  assumes "adds_records h w ss" and "adds_records h w' ss'"
  shows "adds_records h (w' \<circ> w) (ss @ ss')"
  unfolding adds_records_def
proof (intro allI impI)
  fix m rs
  assume a: "lb_open m h rs \<and> 24 + length (concat rs) + total_size (ss @ ss') < 2 ^ 32"
  then obtain rs1 where 1: "list_all2 rec_is ss rs1" "lb_open (w m) h (rs @ rs1)" "same_behind h (24 + length (concat rs) + total_size ss) m (w m)"
    using assms(1) unfolding adds_records_def by fastforce
  moreover have "length (concat (rs @ rs1)) = length (concat rs) + total_size ss" using length_recs [OF 1(1)] by simp
  ultimately obtain rs2 where 2: "list_all2 rec_is ss' rs2" "lb_open (w' (w m)) h ((rs @ rs1) @ rs2)"
      "same_behind h (24 + (length (concat rs) + total_size ss) + total_size ss') (w m) (w' (w m))"
    using a assms(2) unfolding adds_records_def by fastforce
  have "list_all2 rec_is (ss @ ss') (rs1 @ rs2)" using 1(1) 2(1) by (rule list_all2_appendI)
  moreover have "same_behind h (24 + length (concat rs) + total_size (ss @ ss')) m ((w' \<circ> w) m)"
    using same_behind_trans [OF 1(3) 2(3)] by (simp add: add.assoc)
  ultimately show "\<exists>rs'. list_all2 rec_is (ss @ ss') rs' \<and> lb_open ((w' \<circ> w) m) h (rs @ rs') \<and>
      same_behind h (24 + length (concat rs) + total_size (ss @ ss')) m ((w' \<circ> w) m)"
    using 2(2) by auto
qed

lemma adds_fold: "list_all2 (adds_records h) ws sss \<Longrightarrow> adds_records h (fold id ws) (concat sss)"
proof (induction rule: list_all2_induct)
  case (Cons w ws ss sss)
  have "adds_records h (fold id ws \<circ> w) (ss @ concat sss)" using Cons.hyps(1) Cons.IH by (rule adds_comp)
  then show ?case by (simp add: comp_def id_def)
qed (simp add: adds_id [unfolded id_def] id_def)

lemma adds_map: "(\<And>x. x \<in> set xs \<Longrightarrow> adds_records h (f x) (g x)) \<Longrightarrow> adds_records h (fold f xs) (concat (map g xs))"
proof (induction xs)
  case (Cons x xs)
  have "adds_records h (fold f xs \<circ> f x) (g x @ concat (map g xs))" using Cons by (intro adds_comp) simp_all
  then show ?case by (simp add: comp_def)
qed (simp add: adds_id [unfolded id_def] id_def)

text \<open>The one way to fill a new record: afterwards its bytes are there and the ones before are as they were.\<close>

lemma adds_new:
  assumes "\<And>rec m. 8 + length (lr_body s) < 2 ^ 32 \<Longrightarrow> mem_read m rec 8 = le_encode 4 LB_TAG_UNUSED @ le_encode 4 (8 :: u32) \<Longrightarrow>
      mem_read (f rec m) rec (8 + length (lr_body s)) = rec_bytes s"
    and "\<And>k m. k + lr_size s < 2 ^ 32 \<Longrightarrow> mem_read (f (h + of_nat k) m) h k = mem_read m h k \<and>
      same_behind h (k + lr_size s) m (f (h + of_nat k) m)"
    and "rec_ok s"
  shows "adds_records h (\<lambda>m. let (rec, m) = lb_new_record h m in f rec m) [s]"
  unfolding adds_records_def
proof (intro allI impI)
  fix m rs
  assume a: "lb_open m h rs \<and> 24 + length (concat rs) + total_size [s] < 2 ^ 32"
  define L where "L = length (concat rs)"
  have n: "24 + L + lr_size s < 2 ^ 32" "8 + length (lr_body s) \<le> lr_size s" using a assms(3) by (simp_all add: L_def rec_ok_def)
  obtain m' where m': "lb_new_record h m = (h + of_nat (24 + L), m')"
    and bytes: "mem_read m' h (24 + L) = lb_header 0 (of_nat L) 0 (of_nat (Suc (length rs))) @ concat rs"
    and new: "mem_read m' (h + of_nat (24 + L)) 8 = le_encode 4 LB_TAG_UNUSED @ le_encode 4 (8 :: u32)"
    and same: "same_behind h (24 + L + 8) m m'"
  proof -
    have "lb_open m h rs" "24 + length (concat rs) + 8 < 2 ^ 32" using a n by (simp_all add: L_def)
    from lb_new_record [OF this] that show thesis unfolding L_def by blast
  qed
  define m2 where "m2 = f (h + of_nat (24 + L)) m'"
  define r where "r = mem_read m2 (h + of_nat (24 + L)) (lr_size s)"
  have "take (8 + length (lr_body s)) r = mem_read m2 (h + of_nat (24 + L)) (8 + length (lr_body s))"
    using mem_read_part [of 0 "8 + length (lr_body s)" "lr_size s" m2 "h + of_nat (24 + L)"] n(2) by (simp add: r_def)
  then have is_s: "rec_is s r" using assms(1) [OF _ new] n by (simp add: rec_is_def r_def m2_def)
  have "take 4 (drop 4 r) = take 4 (drop 4 (take (8 + length (lr_body s)) r))" by (simp add: drop_take)
  also have "\<dots> = le_encode 4 (of_nat (lr_size s) :: u32)" using is_s by (simp add: rec_is_def rec_bytes_def)
  finally have wf: "rec_wf r" using is_s n by (simp add: rec_wf_def rec_is_def)
  have "lb_open m2 h (rs @ [r])"
  proof (rule lb_open_extend)
    show "mem_read m2 h (24 + length (concat rs)) = lb_header 0 (of_nat (length (concat rs))) 0 (of_nat (Suc (length rs))) @ concat rs"
      using assms(2) [of "24 + L" m'] n(1) bytes by (simp add: m2_def L_def)
    show "\<forall>r\<in>set rs. rec_wf r" using a by (simp add: lb_open_def)
    show "mem_read m2 (h + of_nat (24 + length (concat rs))) (length r) = r" by (simp add: r_def L_def)
    show "24 + length (concat rs) + length r < 2 ^ 32" using n by (simp add: r_def L_def)
  qed (rule wf)
  moreover have "same_behind h (24 + L + lr_size s) m m2"
    using same_behind_trans [OF same, of "24 + L + lr_size s" m2] assms(2) [of "24 + L" m'] n by (simp add: m2_def)
  ultimately show "\<exists>rs'. list_all2 rec_is [s] rs' \<and> lb_open (let (rec, m) = lb_new_record h m in f rec m) h (rs @ rs') \<and>
      same_behind h (24 + length (concat rs) + total_size [s]) m (let (rec, m) = lb_new_record h m in f rec m)"
    using is_s by (intro exI [of _ "[r]"]) (simp add: m' m2_def L_def)
qed

text \<open>Writes into the new record keep what comes before it and behind it.\<close>

lemma record_write_local:
  assumes "k + n < 2 ^ 32" and "j + length bs \<le> n"
  shows "mem_read (mem_write m (h + of_nat k + of_nat j) bs) h k = mem_read m h k \<and>
    same_behind h (k + n) m (mem_write m (h + of_nat k + of_nat j) bs)"
  using mem_read_behind [of k "k + j" bs m h] same_behind_write [of "k + j" bs "k + n" h m] assms
  by (simp add: add.assoc)

lemma adds_record: "rec_ok s \<Longrightarrow> adds_records h (add_record h s) [s]"
  unfolding add_record_def rec_bytes_def [symmetric]
proof (rule adds_new)
  assume ok: "rec_ok s"
  show "mem_read (mem_write m rec (rec_bytes s)) rec (8 + length (lr_body s)) = rec_bytes s"
    if "8 + length (lr_body s) < 2 ^ 32" for rec m
    using mem_read_write_same [of "rec_bytes s" m rec] that by simp
  show "mem_read (mem_write m (h + of_nat k) (rec_bytes s)) h k = mem_read m h k \<and>
      same_behind h (k + lr_size s) m (mem_write m (h + of_nat k) (rec_bytes s))" if "k + lr_size s < 2 ^ 32" for k m
    using record_write_local [of k "lr_size s" 0 "rec_bytes s" m h] that ok by (simp add: rec_ok_def)
qed

end
