(* ===== verification/Lb_Records.thy ===== *)
theory Lb_Records
  imports Lb_Table Cbmem_Id
begin

text \<open>
  The records of the coreboot table, \<^verbatim>\<open>src/lib/coreboot_table.c\<close>: one writer per kind of record,
  \<^verbatim>\<open>write_coreboot_table\<close> that calls them in order, and the list of records that a machine's table
  must hold. What the writers ask the board, the drivers, CBFS and the in-memory directory for
  is a record of values.
\<close>

section \<open>What the writers ask for\<close>

record lb_serial =
  se_type :: u32
  se_baseaddr :: u32
  se_baud :: u32
  se_regwidth :: u32
  se_input_hertz :: u32
  se_uart_pci_addr :: u32

record lb_fb =
  fb_physical_address :: u64
  fb_x_resolution :: u32
  fb_y_resolution :: u32
  fb_bytes_per_line :: u32
  fb_bits_per_pixel :: u8
  fb_red_mask :: "u8 \<times> u8"
  fb_green_mask :: "u8 \<times> u8"
  fb_blue_mask :: "u8 \<times> u8"
  fb_reserved_mask :: "u8 \<times> u8"

record lb_gpio =
  gp_port :: u32
  gp_polarity :: u32
  gp_value :: u32
  gp_name :: "u8 list"

text \<open>The Chrome OS part: the calls of \<^verbatim>\<open>lb_add_gpios\<close>, the offset of the NVRAM data, the handoff.\<close>

record lb_chromeos =
  ch_gpios :: "lb_gpio list list"
  ch_vbnv_offset :: "u64 option"
  ch_handoff :: "(ptr \<times> u32) option"

record lb_boot_media =
  bo_cbfs_offset :: u64
  bo_cbfs_size :: u64
  bo_media_size :: u64
  bo_fmap_offset :: "u64 option"

record lb_env =
  le_option_table :: "u8 list option"
  le_cks :: "u32 \<times> u32 \<times> u32"
  le_vendor :: "u8 list"
  le_part_number :: "u8 list"
  le_uart :: "(u32 \<times> u32 \<times> u32 \<times> u32) option"
  le_console_usb :: bool
  le_version :: "u8 list"
  le_extra_version :: "u8 list"
  le_build :: "u8 list"
  le_compile_time :: "u8 list"
  le_timestamp :: u32
  le_framebuffer :: "lb_fb option"
  le_chromeos :: "lb_chromeos option"
  le_board_id :: u32
  le_ram_code :: u32
  le_sku_id :: u32
  le_spi_flash :: bool
  le_spi_flash_dev :: "(u32 \<times> u32 \<times> u8) option"
  le_rom_size :: u32
  le_cbmem_find :: "u32 \<Rightarrow> ptr"
  le_board :: "lbrec list"
  le_ramoops :: "u32 option"
  le_boot_media :: "lb_boot_media option"
  le_tsc_mhz :: "u32 option"
  le_cbmem :: "(u32 \<times> ptr \<times> u32) list"

definition VBOOT_VBNV_BLOCK_SIZE :: u32 where "VBOOT_VBNV_BLOCK_SIZE = 16"
definition CMD_BLOCK_ERASE :: u8 where "CMD_BLOCK_ERASE = 0xD8"

section \<open>Fixed records\<close>

definition serial_record :: "lb_serial \<Rightarrow> lbrec" where
  "serial_record new_serial = \<lparr>lr_tag = LB_TAG_SERIAL, lr_size = 32, lr_body =
       le_encode 4 (se_type new_serial) @ le_encode 4 (se_baseaddr new_serial) @ le_encode 4 (se_baud new_serial) @
       le_encode 4 (se_regwidth new_serial) @ le_encode 4 (se_input_hertz new_serial) @ le_encode 4 (se_uart_pci_addr new_serial)\<rparr>"

definition lb_add_serial :: "ptr \<Rightarrow> lb_serial \<Rightarrow> mem \<Rightarrow> mem" where
  "lb_add_serial header new_serial =
     add_record header (serial_record new_serial)"

definition console_record :: "u16 \<Rightarrow> lbrec" where
  "console_record consoletype = \<lparr>lr_tag = LB_TAG_CONSOLE, lr_size = 12, lr_body = le_encode 2 consoletype\<rparr>"

definition lb_add_console :: "ptr \<Rightarrow> u16 \<Rightarrow> mem \<Rightarrow> mem" where
  "lb_add_console header consoletype =
     add_record header (console_record consoletype)"

text \<open>\<^verbatim>\<open>uart_fill_lb\<close> of the 8250 driver, from the port's base, baud rate, clock and PCI address.\<close>

definition uart_fill_lb :: "ptr \<Rightarrow> u32 \<times> u32 \<times> u32 \<times> u32 \<Rightarrow> mem \<Rightarrow> mem" where
  "uart_fill_lb header = (\<lambda>(base, baudrate, refclk, pci_addr) m.
     let m = lb_add_serial header \<lparr>se_type = LB_SERIAL_TYPE_IO_MAPPED, se_baseaddr = base, se_baud = baudrate,
               se_regwidth = 1, se_input_hertz = refclk, se_uart_pci_addr = pci_addr\<rparr> m
     in lb_add_console header LB_TAG_CONSOLE_SERIAL8250 m)"

definition framebuffer_body :: "lb_fb \<Rightarrow> u8 list" where
  "framebuffer_body fb =
     le_encode 8 (fb_physical_address fb) @ le_encode 4 (fb_x_resolution fb) @ le_encode 4 (fb_y_resolution fb) @
     le_encode 4 (fb_bytes_per_line fb) @ [fb_bits_per_pixel fb, fst (fb_red_mask fb), snd (fb_red_mask fb),
       fst (fb_green_mask fb), snd (fb_green_mask fb), fst (fb_blue_mask fb), snd (fb_blue_mask fb),
       fst (fb_reserved_mask fb), snd (fb_reserved_mask fb)] @ [0, 0, 0]"

definition framebuffer_record :: "lb_fb \<Rightarrow> lbrec" where
  "framebuffer_record fb = \<lparr>lr_tag = LB_TAG_FRAMEBUFFER, lr_size = 40, lr_body = framebuffer_body fb\<rparr>"

definition lb_framebuffer :: "ptr \<Rightarrow> lb_fb option \<Rightarrow> mem \<Rightarrow> mem" where
  "lb_framebuffer header fill =
     (case fill of None \<Rightarrow> id
      | Some fb \<Rightarrow> add_record header (framebuffer_record fb))"

definition range_body :: "u64 \<Rightarrow> u32 \<Rightarrow> u8 list" where
  "range_body range_start range_size = le_encode 8 range_start @ le_encode 4 range_size"

definition vbnv_record :: "u64 \<Rightarrow> lbrec" where
  "vbnv_record off = \<lparr>lr_tag = LB_TAG_VBNV, lr_size = 20, lr_body = range_body (off + 14) VBOOT_VBNV_BLOCK_SIZE\<rparr>"

definition lb_vbnv :: "ptr \<Rightarrow> u64 option \<Rightarrow> mem \<Rightarrow> mem" where
  "lb_vbnv header vbnv_offset =
     (case vbnv_offset of None \<Rightarrow> id
      | Some off \<Rightarrow> add_record header (vbnv_record off))"

definition handoff_record :: "ptr \<Rightarrow> u32 \<Rightarrow> lbrec" where
  "handoff_record addr sz = \<lparr>lr_tag = LB_TAB_VBOOT_HANDOFF, lr_size = 20, lr_body = range_body (ucast addr) sz\<rparr>"

definition lb_vboot_handoff :: "ptr \<Rightarrow> (ptr \<times> u32) option \<Rightarrow> mem \<Rightarrow> mem" where
  "lb_vboot_handoff header info =
     (case info of None \<Rightarrow> id
      | Some (addr, sz) \<Rightarrow> add_record header (handoff_record addr sz))"

definition strapping_record :: "u32 \<Rightarrow> u32 \<Rightarrow> lbrec" where
  "strapping_record tag code = \<lparr>lr_tag = tag, lr_size = 12, lr_body = le_encode 4 code\<rparr>"

definition lb_board_id :: "ptr \<Rightarrow> u32 \<Rightarrow> mem \<Rightarrow> mem" where
  "lb_board_id header bid =
     (if bid = UNDEFINED_STRAPPING_ID then id else add_record header (strapping_record LB_TAG_BOARD_ID bid))"

definition lb_ram_code :: "ptr \<Rightarrow> u32 \<Rightarrow> mem \<Rightarrow> mem" where
  "lb_ram_code header code =
     (if code = UNDEFINED_STRAPPING_ID then id else add_record header (strapping_record LB_TAG_RAM_CODE code))"

definition lb_sku_id :: "ptr \<Rightarrow> u32 \<Rightarrow> mem \<Rightarrow> mem" where
  "lb_sku_id header sid =
     (if sid = UNDEFINED_STRAPPING_ID then id else add_record header (strapping_record LB_TAG_SKU_ID sid))"

definition media_record :: "lb_boot_media \<Rightarrow> lbrec" where
  "media_record b = \<lparr>lr_tag = LB_TAG_BOOT_MEDIA_PARAMS, lr_size = 40, lr_body =
          le_encode 8 (case bo_fmap_offset b of None \<Rightarrow> NOT 0 | Some off \<Rightarrow> off) @ le_encode 8 (bo_cbfs_offset b) @
          le_encode 8 (bo_cbfs_size b) @ le_encode 8 (bo_media_size b)\<rparr>"

definition lb_boot_media_params :: "ptr \<Rightarrow> lb_boot_media option \<Rightarrow> mem \<Rightarrow> mem" where
  "lb_boot_media_params header media =
     (case media of None \<Rightarrow> id
      | Some b \<Rightarrow> add_record header (media_record b))"

definition spi_flash_record :: "(u32 \<times> u32 \<times> u8) option \<Rightarrow> u32 \<Rightarrow> lbrec" where
  "spi_flash_record dev rom_size = \<lparr>lr_tag = LB_TAG_SPI_FLASH, lr_size = 20, lr_body =
       (case dev of Some (flash_size, sector_size, erase_cmd) \<Rightarrow>
          le_encode 4 flash_size @ le_encode 4 sector_size @ le_encode 4 (ucast erase_cmd :: u32)
        | None \<Rightarrow> le_encode 4 rom_size @ le_encode 4 (64 * 1024 :: u32) @ le_encode 4 (ucast CMD_BLOCK_ERASE :: u32))\<rparr>"

definition lb_spi_flash :: "ptr \<Rightarrow> (u32 \<times> u32 \<times> u8) option \<Rightarrow> u32 \<Rightarrow> mem \<Rightarrow> mem" where
  "lb_spi_flash header dev rom_size =
     add_record header (spi_flash_record dev rom_size)"

definition ramoops_record :: "ptr \<Rightarrow> u32 \<Rightarrow> lbrec" where
  "ramoops_record buffer ram_size = \<lparr>lr_tag = LB_TAG_RAM_OOPS, lr_size = 20, lr_body = range_body (ucast buffer) ram_size\<rparr>"

definition lb_ramoops :: "ptr \<Rightarrow> ptr \<Rightarrow> u32 \<Rightarrow> mem \<Rightarrow> mem" where
  "lb_ramoops header buffer ram_size =
     (if buffer = NULL then id
      else add_record header (ramoops_record buffer ram_size))"

definition section_ids :: "(u32 \<times> u32) list" where
  "section_ids = [(CBMEM_ID_TIMESTAMP, LB_TAG_TIMESTAMPS), (CBMEM_ID_CONSOLE, LB_TAG_CBMEM_CONSOLE),
     (CBMEM_ID_ACPI_GNVS, LB_TAG_ACPI_GNVS), (CBMEM_ID_VPD, LB_TAG_VPD),
     (CBMEM_ID_WIFI_CALIBRATION, LB_TAG_WIFI_CALIBRATION), (CBMEM_ID_TCPA_LOG, LB_TAG_TCPA_LOG)]"

definition cbmem_ref :: "u32 \<Rightarrow> ptr \<Rightarrow> lbrec" where
  "cbmem_ref tag addr = \<lparr>lr_tag = tag, lr_size = 16, lr_body = le_encode 8 (ucast addr :: u64)\<rparr>"

definition add_cbmem_pointers :: "ptr \<Rightarrow> (u32 \<Rightarrow> ptr) \<Rightarrow> mem \<Rightarrow> mem" where
  "add_cbmem_pointers header cbmem_find =
     fold (\<lambda>(cbmem_id, table_tag). let cbmem_addr = cbmem_find cbmem_id in
             if cbmem_addr = NULL then id else add_record header (cbmem_ref table_tag cbmem_addr)) section_ids"

definition cmos_checksum_record :: "u32 \<times> u32 \<times> u32 \<Rightarrow> lbrec" where
  "cmos_checksum_record = (\<lambda>(LB_CKS_RANGE_START, LB_CKS_RANGE_END, LB_CKS_LOC).
     \<lparr>lr_tag = LB_TAG_OPTION_CHECKSUM, lr_size = 24, lr_body =
       le_encode 4 (LB_CKS_RANGE_START * 8) @ le_encode 4 (LB_CKS_RANGE_END * 8 + 7) @ le_encode 4 (LB_CKS_LOC * 8) @
       le_encode 4 CHECKSUM_PCBIOS\<rparr>)"

definition lb_cmos_checksum :: "ptr \<Rightarrow> u32 \<times> u32 \<times> u32 \<Rightarrow> mem \<Rightarrow> mem" where
  "lb_cmos_checksum header cks = add_record header (cmos_checksum_record cks)"

text \<open>A string is followed by its zero and padding up to eight bytes.\<close>

definition lb_string :: "u32 \<Rightarrow> u8 list \<Rightarrow> lbrec" where
  "lb_string tag s = \<lparr>lr_tag = tag, lr_size = unat (align_up (8 + of_nat (length s) + 1 :: u32) 8), lr_body = s @ [0]\<rparr>"

definition lb_strings :: "ptr \<Rightarrow> (u32 \<times> u8 list) list \<Rightarrow> mem \<Rightarrow> mem" where
  "lb_strings header strings = fold (\<lambda>(tag, s). add_record header (lb_string tag s)) strings"

definition timestamp_record :: "u32 \<Rightarrow> lbrec" where
  "timestamp_record timestamp = \<lparr>lr_tag = LB_TAG_VERSION_TIMESTAMP, lr_size = 12, lr_body = le_encode 4 timestamp\<rparr>"

definition lb_record_version_timestamp :: "ptr \<Rightarrow> u32 \<Rightarrow> mem \<Rightarrow> mem" where
  "lb_record_version_timestamp header timestamp =
     add_record header (timestamp_record timestamp)"

definition forward_record :: "ptr \<Rightarrow> lbrec" where
  "forward_record next_header = \<lparr>lr_tag = LB_TAG_FORWARD, lr_size = 16, lr_body = le_encode 8 (ucast next_header :: u64)\<rparr>"

definition lb_forward :: "ptr \<Rightarrow> ptr \<Rightarrow> mem \<Rightarrow> mem" where
  "lb_forward header next_header =
     add_record header (forward_record next_header)"

definition tsc_record :: "u32 \<Rightarrow> lbrec" where
  "tsc_record freq_khz = \<lparr>lr_tag = LB_TAG_TSC_INFO, lr_size = 12, lr_body = le_encode 4 freq_khz\<rparr>"

definition lb_arch_add_records :: "ptr \<Rightarrow> u32 option \<Rightarrow> mem \<Rightarrow> mem" where
  "lb_arch_add_records header tsc_freq_mhz =
     (case tsc_freq_mhz of None \<Rightarrow> id
      | Some mhz \<Rightarrow> let freq_khz = mhz * 1000 in
          if freq_khz = 0 then id
          else add_record header (tsc_record freq_khz))"

definition cbmem_entry_record :: "u32 \<Rightarrow> ptr \<Rightarrow> u32 \<Rightarrow> lbrec" where
  "cbmem_entry_record cid addr entry_size = \<lparr>lr_tag = LB_TAG_CBMEM_ENTRY, lr_size = 24, lr_body =
               le_encode 8 (ucast addr :: u64) @ le_encode 4 entry_size @ le_encode 4 cid\<rparr>"

definition cbmem_add_records_to_cbtable :: "ptr \<Rightarrow> (u32 \<times> ptr \<times> u32) list \<Rightarrow> mem \<Rightarrow> mem" where
  "cbmem_add_records_to_cbtable header entries =
     fold (\<lambda>(cid, addr, entry_size).
             if cid = CBMEM_ID_IMD_ROOT \<or> cid = CBMEM_ID_IMD_SMALL then id
             else add_record header (cbmem_entry_record cid addr entry_size)) entries"

section \<open>Records written in several steps\<close>

definition lb_memory :: "ptr \<Rightarrow> mem \<Rightarrow> ptr \<times> mem" where
  "lb_memory header m =
     (let (rec, m) = lb_new_record header m;
          m = store32 m rec LB_TAG_MEMORY;
          m = store32 m (rec + 4) 8
      in (rec, m))"

definition range_bytes :: "lb_memory_range \<Rightarrow> u8 list" where
  "range_bytes r = le_encode 4 (lb_lo (lbr_start r)) @ le_encode 4 (lb_hi (lbr_start r)) @
     le_encode 4 (lb_lo (lbr_size r)) @ le_encode 4 (lb_hi (lbr_size r)) @ le_encode 4 (lbr_type r)"

text \<open>The memory record as \<^verbatim>\<open>bootmem_write_memory_table\<close> leaves it, put where \<^verbatim>\<open>lb_memory\<close> began it.\<close>

definition write_lb_memory :: "ptr \<Rightarrow> lb_memory \<Rightarrow> mem \<Rightarrow> mem" where
  "write_lb_memory header lbm m =
     (let (mem, m) = lb_memory header m;
          m = store32 m (mem + 4) (lbm_size lbm)
      in mem_write m (mem + 8) (concat (map range_bytes (lbm_map lbm))))"

definition gpio_bytes :: "lb_gpio \<Rightarrow> u8 list" where
  "gpio_bytes g = le_encode 4 (gp_port g) @ le_encode 4 (gp_polarity g) @ le_encode 4 (gp_value g) @ gp_name g"

definition lb_add_gpios :: "ptr \<Rightarrow> lb_gpio list \<Rightarrow> mem \<Rightarrow> mem" where
  "lb_add_gpios gpios gpio_table m =
     (let count = of_nat (length gpio_table); table_size = count * 28;
          m = mem_write m (gpios + 12 + 28 * load32 m (gpios + 8)) (concat (map gpio_bytes gpio_table));
          m = store32 m (gpios + 8) (load32 m (gpios + 8) + count)
      in store32 m (gpios + 4) (load32 m (gpios + 4) + table_size))"

definition lb_gpios :: "ptr \<Rightarrow> lb_gpio list list \<Rightarrow> mem \<Rightarrow> mem" where
  "lb_gpios header tables m =
     (let (gpios, m) = lb_new_record header m;
          m = store32 m gpios LB_TAG_GPIO;
          m = store32 m (gpios + 4) 12;
          m = store32 m (gpios + 8) 0
      in fold (lb_add_gpios gpios) tables m)"

text \<open>The indices into the strings of the board are bytes.\<close>

definition lb_mainboard :: "ptr \<Rightarrow> u8 list \<Rightarrow> u8 list \<Rightarrow> mem \<Rightarrow> mem" where
  "lb_mainboard header vendor part_number m =
     (let (rec, m) = lb_new_record header m;
          rec_size = align_up (12 + of_nat (length vendor) + 1 + of_nat (length part_number) + 1 :: u32) 8;
          vendor_idx = (0 :: u8); part_number_idx = (of_nat (length vendor) + 1 :: u8);
          m = mem_write m rec (le_encode 4 LB_TAG_MAINBOARD @ le_encode 4 rec_size @ [vendor_idx, part_number_idx]);
          m = mem_write m (rec + 10 + ucast vendor_idx) (vendor @ [0])
      in mem_write m (rec + 10 + ucast part_number_idx) (part_number @ [0]))"

text \<open>The option table of CBFS is a record already; its size field says how much of it is copied.\<close>

definition lb_option_table :: "ptr \<Rightarrow> u8 list \<Rightarrow> mem \<Rightarrow> mem" where
  "lb_option_table header option_table m =
     (let (rec_dest, m) = lb_new_record header m;
          table_size = unat (le_decode (take 4 (drop 4 option_table)) :: u32)
      in mem_write m rec_dest (take table_size option_table))"

section \<open>The whole table\<close>

definition chromeos_records :: "ptr \<Rightarrow> lb_chromeos \<Rightarrow> mem \<Rightarrow> mem" where
  "chromeos_records head ch m =
     (let m = lb_gpios head (ch_gpios ch) m;
          m = lb_vbnv head (ch_vbnv_offset ch) m
      in lb_vboot_handoff head (ch_handoff ch) m)"

text \<open>The writers between \<^verbatim>\<open>lb_table_init\<close> and \<^verbatim>\<open>lb_table_fini\<close>, in the order of their calls.\<close>

definition table_writers :: "lb_env \<Rightarrow> lb_memory \<Rightarrow> ptr \<Rightarrow> (mem \<Rightarrow> mem) list" where
  "table_writers env lbm head =
    [case le_option_table env of None \<Rightarrow> id
       | Some option_table \<Rightarrow> \<lambda>m. lb_cmos_checksum head (le_cks env) (lb_option_table head option_table m),
     write_lb_memory head lbm,
     lb_mainboard head (le_vendor env) (le_part_number env),
     case le_uart env of None \<Rightarrow> id | Some u \<Rightarrow> uart_fill_lb head u,
     if le_console_usb env then lb_add_console head LB_TAG_CONSOLE_EHCI else id,
     lb_strings head [(LB_TAG_VERSION, le_version env), (LB_TAG_EXTRA_VERSION, le_extra_version env),
                      (LB_TAG_BUILD, le_build env), (LB_TAG_COMPILE_TIME, le_compile_time env)],
     lb_record_version_timestamp head (le_timestamp env),
     lb_framebuffer head (le_framebuffer env),
     case le_chromeos env of None \<Rightarrow> id | Some ch \<Rightarrow> chromeos_records head ch,
     lb_board_id head (le_board_id env),
     lb_ram_code head (le_ram_code env),
     lb_sku_id head (le_sku_id env),
     if le_spi_flash env then lb_spi_flash head (le_spi_flash_dev env) (le_rom_size env) else id,
     add_cbmem_pointers head (le_cbmem_find env),
     fold (add_record head) (le_board env),
     case le_ramoops env of None \<Rightarrow> id | Some ram_size \<Rightarrow> lb_ramoops head (le_cbmem_find env CBMEM_ID_RAM_OOPS) ram_size,
     lb_boot_media_params head (le_boot_media env),
     lb_arch_add_records head (le_tsc_mhz env),
     cbmem_add_records_to_cbtable head (le_cbmem env)]"

text \<open>The memory map comes from the boot memory component, which is in its final state then.\<close>

definition write_coreboot_table ::
    "lb_env \<Rightarrow> bool \<Rightarrow> bootmem_env \<Rightarrow> ptr \<Rightarrow> mem \<times> bootmem_state \<Rightarrow> (ptr \<times> mem \<times> bootmem_state) option" where
  "write_coreboot_table env fatal benv rom_table_end = (\<lambda>(m, bm).
     case bootmem_write_memory_table fatal benv \<lparr>lbm_tag = LB_TAG_MEMORY, lbm_size = 8, lbm_map = []\<rparr> bm of
       None \<Rightarrow> None
     | Some (lbm, bm) \<Rightarrow>
         let (head, m) = lb_table_init rom_table_end m;
             m = fold id (table_writers env lbm head) m;
             (table_end, m) = lb_table_fini head m
         in Some (table_end, m, bm))"

definition write_coreboot_forwarding_table :: "ptr \<Rightarrow> ptr \<Rightarrow> mem \<Rightarrow> u32 \<times> mem" where
  "write_coreboot_forwarding_table entry target m =
     (let (head, m) = lb_table_init entry m;
          m = lb_forward head target m;
          (table_end, m) = lb_table_fini head m
      in (table_end - entry, m))"

section \<open>All tables of the machine\<close>

text \<open>
  \<^verbatim>\<open>src/arch/x86/tables.c\<close>: the forwarding table in low memory, with a copy kept in the in-memory
  directory. The address of the next forwarding table is state; the PIRQ, MP, ACPI and SMBIOS
  tables, which other code writes, are left out.
\<close>

definition FORWARDING_TABLE_ADDR :: ptr where "FORWARDING_TABLE_ADDR = 0x500"
definition COREBOOT_TABLE_SIZE :: u32 where "COREBOOT_TABLE_SIZE = 0x8000"

definition stash_forwarding_table :: "ptr \<Rightarrow> ptr \<Rightarrow> u32 \<Rightarrow> mem \<Rightarrow> mem" where
  "stash_forwarding_table cbmem_addr addr sz m =
     (if cbmem_addr = NULL then m else mem_write m cbmem_addr (mem_read m addr (unat sz)))"

definition restore_forwarding_table :: "(ptr \<times> u32) option \<Rightarrow> ptr \<Rightarrow> mem \<Rightarrow> mem" where
  "restore_forwarding_table fwd_entry dest m =
     (case fwd_entry of None \<Rightarrow> m | Some (start, sz) \<Rightarrow> mem_write m dest (mem_read m start (unat sz)))"

definition arch_write_tables :: "ptr \<Rightarrow> ptr \<Rightarrow> mem \<times> ptr \<Rightarrow> mem \<times> ptr" where
  "arch_write_tables stash coreboot_table = (\<lambda>(m, forwarding_table).
     let (sz, m) = write_coreboot_forwarding_table forwarding_table coreboot_table m;
         m = stash_forwarding_table stash forwarding_table sz m;
         forwarding_table = forwarding_table + sz
     in (m, align_up forwarding_table (4 * 1024)))"

text \<open>
  The room for the table and for the copy is what the in-memory directory returns. The result is
  the address of the table, and whether it outgrew its room, which is only reported.
\<close>

definition write_tables ::
    "lb_env \<Rightarrow> bool \<Rightarrow> bootmem_env \<Rightarrow> ptr \<Rightarrow> ptr \<Rightarrow> mem \<times> ptr \<times> bootmem_state \<Rightarrow>
      (ptr \<times> bool \<times> mem \<times> ptr \<times> bootmem_state) option" where
  "write_tables env fatal benv cbtable_start stash = (\<lambda>(m, ft, bm).
     if cbtable_start = NULL then Some (NULL, False, m, ft, bm)
     else
       let (m, ft) = arch_write_tables stash cbtable_start (m, ft) in
       case write_coreboot_table env fatal benv cbtable_start (m, bm) of
         None \<Rightarrow> None
       | Some (cbtable_end, m, bm) \<Rightarrow>
           let cbtable_size = cbtable_end - cbtable_start
           in Some (cbtable_start, cbtable_size > COREBOOT_TABLE_SIZE, m, ft, bm))"

end
