(* ===== verification/Lb_Spec.thy ===== *)
theory Lb_Spec
  imports Lb_Records
begin

text \<open>
  What the coreboot table must hold, as a list of records, and that the writers of Lb_Records
  put exactly these records in memory, in a closed table with valid checksums.
\<close>

section \<open>The records of a table\<close>

definition option_record :: "u8 list \<Rightarrow> lbrec" where
  "option_record ot = \<lparr>lr_tag = le_decode (take 4 ot), lr_size = length ot, lr_body = drop 8 ot\<rparr>"

definition memory_record :: "lb_memory \<Rightarrow> lbrec" where
  "memory_record lbm = \<lparr>lr_tag = LB_TAG_MEMORY, lr_size = 8 + 20 * length (lbm_map lbm),
     lr_body = concat (map range_bytes (lbm_map lbm))\<rparr>"

definition mainboard_record :: "u8 list \<Rightarrow> u8 list \<Rightarrow> lbrec" where
  "mainboard_record vendor part = \<lparr>lr_tag = LB_TAG_MAINBOARD,
     lr_size = (12 + length vendor + 1 + length part + 1 + 7) div 8 * 8,
     lr_body = [0, of_nat (length vendor + 1)] @ (vendor @ [0]) @ (part @ [0])\<rparr>"

definition gpios_record :: "lb_gpio list \<Rightarrow> lbrec" where
  "gpios_record gs = \<lparr>lr_tag = LB_TAG_GPIO, lr_size = 12 + 28 * length gs,
     lr_body = le_encode 4 (of_nat (length gs) :: u32) @ concat (map gpio_bytes gs)\<rparr>"

definition pad_string :: "u32 \<Rightarrow> u8 list \<Rightarrow> lbrec" where
  "pad_string tag s = \<lparr>lr_tag = tag, lr_size = (8 + length s + 1 + 7) div 8 * 8, lr_body = s @ [0]\<rparr>"

definition strapping :: "u32 \<Rightarrow> u32 \<Rightarrow> lbrec list" where
  "strapping tag code = (if code = UNDEFINED_STRAPPING_ID then [] else [strapping_record tag code])"

definition uart_records :: "u32 \<times> u32 \<times> u32 \<times> u32 \<Rightarrow> lbrec list" where
  "uart_records = (\<lambda>(base, baudrate, refclk, pci_addr).
     [serial_record \<lparr>se_type = LB_SERIAL_TYPE_IO_MAPPED, se_baseaddr = base, se_baud = baudrate, se_regwidth = 1,
        se_input_hertz = refclk, se_uart_pci_addr = pci_addr\<rparr>, console_record LB_TAG_CONSOLE_SERIAL8250])"

definition chromeos_spec :: "lb_chromeos \<Rightarrow> lbrec list" where
  "chromeos_spec ch = gpios_record (concat (ch_gpios ch)) #
     (case ch_vbnv_offset ch of None \<Rightarrow> [] | Some off \<Rightarrow> [vbnv_record off]) @
     (case ch_handoff ch of None \<Rightarrow> [] | Some (addr, sz) \<Rightarrow> [handoff_record addr sz])"

definition cbmem_pointer :: "(u32 \<Rightarrow> ptr) \<Rightarrow> u32 \<times> u32 \<Rightarrow> lbrec list" where
  "cbmem_pointer cbmem_find = (\<lambda>(cid, tag). if cbmem_find cid = NULL then [] else [cbmem_ref tag (cbmem_find cid)])"

definition cbmem_entry_spec :: "u32 \<times> ptr \<times> u32 \<Rightarrow> lbrec list" where
  "cbmem_entry_spec = (\<lambda>(cid, addr, sz).
     if cid = CBMEM_ID_IMD_ROOT \<or> cid = CBMEM_ID_IMD_SMALL then [] else [cbmem_entry_record cid addr sz])"

definition table_records :: "lb_env \<Rightarrow> lb_memory \<Rightarrow> lbrec list list" where
  "table_records env lbm =
    [case le_option_table env of None \<Rightarrow> [] | Some ot \<Rightarrow> [option_record ot, cmos_checksum_record (le_cks env)],
     [memory_record lbm],
     [mainboard_record (le_vendor env) (le_part_number env)],
     case le_uart env of None \<Rightarrow> [] | Some u \<Rightarrow> uart_records u,
     if le_console_usb env then [console_record LB_TAG_CONSOLE_EHCI] else [],
     [pad_string LB_TAG_VERSION (le_version env), pad_string LB_TAG_EXTRA_VERSION (le_extra_version env),
      pad_string LB_TAG_BUILD (le_build env), pad_string LB_TAG_COMPILE_TIME (le_compile_time env)],
     [timestamp_record (le_timestamp env)],
     case le_framebuffer env of None \<Rightarrow> [] | Some fb \<Rightarrow> [framebuffer_record fb],
     case le_chromeos env of None \<Rightarrow> [] | Some ch \<Rightarrow> chromeos_spec ch,
     strapping LB_TAG_BOARD_ID (le_board_id env),
     strapping LB_TAG_RAM_CODE (le_ram_code env),
     strapping LB_TAG_SKU_ID (le_sku_id env),
     if le_spi_flash env then [spi_flash_record (le_spi_flash_dev env) (le_rom_size env)] else [],
     concat (map (cbmem_pointer (le_cbmem_find env)) section_ids),
     le_board env,
     case le_ramoops env of None \<Rightarrow> []
       | Some sz \<Rightarrow> (let b = le_cbmem_find env CBMEM_ID_RAM_OOPS in if b = NULL then [] else [ramoops_record b sz]),
     case le_boot_media env of None \<Rightarrow> [] | Some b \<Rightarrow> [media_record b],
     case le_tsc_mhz env of None \<Rightarrow> [] | Some mhz \<Rightarrow> if mhz * 1000 = 0 then [] else [tsc_record (mhz * 1000)],
     concat (map cbmem_entry_spec (le_cbmem env))]"

text \<open>
  Strings that fit: the vendor's name is indexed with a byte, and no length wraps. The option
  table says its own length, as every record does, and what a board adds has room for its fields.
\<close>

definition env_ok :: "lb_env \<Rightarrow> bool" where
  "env_ok env \<longleftrightarrow> length (le_vendor env) < 255 \<and> length (le_part_number env) < 2 ^ 31 \<and>
     (\<forall>s\<in>set [le_version env, le_extra_version env, le_build env, le_compile_time env]. length s < 2 ^ 31) \<and>
     (case le_option_table env of None \<Rightarrow> True | Some ot \<Rightarrow> rec_wf ot) \<and>
     (case le_chromeos env of None \<Rightarrow> True | Some ch \<Rightarrow> \<forall>g\<in>set (concat (ch_gpios ch)). length (gp_name g) = 16) \<and>
     (\<forall>r\<in>set (le_board env). rec_ok r)"

section \<open>Every writer adds its records\<close>

lemma body_lengths [simp]:
  "length (range_body a b) = 12" "length (framebuffer_body fb) = 32" "length (range_bytes r) = 20"
  by (simp_all add: range_body_def framebuffer_body_def range_bytes_def)

lemma fixed_records_ok [simp]:
  "rec_ok (serial_record se)" "rec_ok (console_record t)" "rec_ok (framebuffer_record fb)" "rec_ok (vbnv_record off)"
  "rec_ok (handoff_record addr sz)" "rec_ok (media_record b)" "rec_ok (spi_flash_record dev rom)" "rec_ok (ramoops_record buf sz)"
  "rec_ok (timestamp_record ts)" "rec_ok (forward_record nxt)" "rec_ok (tsc_record khz)" "rec_ok (cbmem_entry_record cid addr sz)"
  "rec_ok (cmos_checksum_record cks)" "rec_ok (strapping_record tag code)" "rec_ok (cbmem_ref tag addr)"
  by (simp_all add: rec_ok_def serial_record_def console_record_def framebuffer_record_def vbnv_record_def handoff_record_def
      media_record_def spi_flash_record_def ramoops_record_def timestamp_record_def forward_record_def tsc_record_def
      cbmem_entry_record_def cmos_checksum_record_def strapping_record_def cbmem_ref_def split: option.split prod.split)

lemma align_up_8:
  assumes "n + 7 < 2 ^ 32"
  shows "unat (align_up (of_nat n :: u32) 8) = (n + 7) div 8 * 8"
proof -
  have u: "unat (of_nat n :: u32) = n" using assms by (intro unat_of_nat_id) simp
  show ?thesis using unat_align_up [of 3 "of_nat n :: u32"] assms by (simp add: u)
qed

lemma lb_string_pad: "length s < 2 ^ 31 \<Longrightarrow> lb_string tag s = pad_string tag s"
  using align_up_8 [of "8 + length s + 1"] by (simp add: lb_string_def pad_string_def ac_simps)

lemma pad_string_ok: "rec_ok (pad_string tag s)"
  using align_up_ge_nat [of "8 + length s + 1" 3] by (simp add: rec_ok_def pad_string_def)

lemma adds_two: "adds_records h w ss \<Longrightarrow> adds_records h w' ss' \<Longrightarrow> adds_records h (\<lambda>m. w' (w m)) (ss @ ss')"
  using adds_comp [of h w ss w' ss'] by (simp add: comp_def)

lemma adds_simple:
  "adds_records h (uart_fill_lb h u) (uart_records u)"
  "adds_records h (lb_record_version_timestamp h t) [timestamp_record t]"
  "adds_records h (lb_framebuffer h fill) (case fill of None \<Rightarrow> [] | Some fb \<Rightarrow> [framebuffer_record fb])"
  "adds_records h (lb_board_id h code) (strapping LB_TAG_BOARD_ID code)"
  "adds_records h (lb_ram_code h code) (strapping LB_TAG_RAM_CODE code)"
  "adds_records h (lb_sku_id h code) (strapping LB_TAG_SKU_ID code)"
  "adds_records h (lb_spi_flash h dev rom) [spi_flash_record dev rom]"
  "adds_records h (lb_ramoops h b sz) (if b = NULL then [] else [ramoops_record b sz])"
  "adds_records h (lb_boot_media_params h media) (case media of None \<Rightarrow> [] | Some b \<Rightarrow> [media_record b])"
  "adds_records h (lb_arch_add_records h tsc) (case tsc of None \<Rightarrow> [] | Some mhz \<Rightarrow> if mhz * 1000 = 0 then [] else [tsc_record (mhz * 1000)])"
  "adds_records h (lb_cmos_checksum h cks) [cmos_checksum_record cks]"
  "adds_records h (lb_add_console h typ) [console_record typ]"
  "adds_records h (lb_vbnv h vo) (case vo of None \<Rightarrow> [] | Some off \<Rightarrow> [vbnv_record off])"
  "adds_records h (lb_vboot_handoff h hi) (case hi of None \<Rightarrow> [] | Some (addr, sz) \<Rightarrow> [handoff_record addr sz])"
  using adds_two [OF adds_record [OF fixed_records_ok(1)] adds_record [OF fixed_records_ok(2)]]
  by (auto simp: uart_fill_lb_def uart_records_def lb_add_serial_def lb_add_console_def lb_record_version_timestamp_def
      lb_framebuffer_def lb_board_id_def lb_ram_code_def lb_sku_id_def strapping_def lb_spi_flash_def lb_ramoops_def
      lb_boot_media_params_def lb_arch_add_records_def lb_cmos_checksum_def lb_vbnv_def lb_vboot_handoff_def Let_def
      adds_record adds_id split: option.split prod.split)

lemma adds_cbmem_pointers: "adds_records h (add_cbmem_pointers h cfind) (concat (map (cbmem_pointer cfind) section_ids))"
  unfolding add_cbmem_pointers_def
  by (rule adds_map) (auto simp: cbmem_pointer_def adds_record adds_id Let_def split: prod.split)

lemma adds_cbmem_entries: "adds_records h (cbmem_add_records_to_cbtable h es) (concat (map cbmem_entry_spec es))"
  unfolding cbmem_add_records_to_cbtable_def
  by (rule adds_map) (auto simp: cbmem_entry_spec_def adds_record adds_id split: prod.split)

lemma adds_board: "\<forall>r\<in>set rs. rec_ok r \<Longrightarrow> adds_records h (fold (add_record h) rs) rs"
  using adds_map [of rs h "add_record h" "\<lambda>r. [r]"] by (simp add: adds_record)

lemma adds_strings:
  "\<forall>(tag, s)\<in>set ts. length s < 2 ^ 31 \<Longrightarrow> adds_records h (lb_strings h ts) (map (\<lambda>(tag, s). pad_string tag s) ts)"
  using adds_map [of ts h "\<lambda>(tag, s). add_record h (lb_string tag s)" "\<lambda>(tag, s). [pad_string tag s]"]
  by (fastforce simp: lb_strings_def lb_string_pad pad_string_ok intro!: adds_record simp: split_def)

section \<open>Records written in several steps\<close>

lemma mem_write_mem_write:
  assumes "k \<le> length xs" and "length xs \<le> 2 ^ 32" and "k + length ys \<le> 2 ^ 32"
  shows "mem_write (mem_write m a xs) (a + of_nat k) ys = mem_write m a (take k xs @ ys @ drop (k + length ys) xs)"
proof (rule ext)
  fix p
  define i where "i = unat (p - a)"
  have p: "p = a + of_nat i" and i: "i < 2 ^ 32" using unat_lt32 [of "p - a"] by (simp_all add: i_def)
  have one: "mem_write m a bs (a + of_nat i) = (if i < length bs then bs ! i else m (a + of_nat i))" if "length bs \<le> 2 ^ 32" for bs
    using mem_write_nth [of 0 bs i m a] that i by simp
  show "mem_write (mem_write m a xs) (a + of_nat k) ys p = mem_write m a (take k xs @ ys @ drop (k + length ys) xs) p"
    unfolding p using assms i by (auto simp: mem_write_nth one nth_append)
qed

lemma mem_write_twice: "length xs = length ys \<Longrightarrow> length ys \<le> 2 ^ 32 \<Longrightarrow> mem_write (mem_write m a xs) a ys = mem_write m a ys"
  using mem_write_mem_write [of 0 xs ys m a] by simp

lemma mem_write_next: "length xs + length ys \<le> 2 ^ 32 \<Longrightarrow> mem_write (mem_write m a xs) (a + of_nat (length xs)) ys = mem_write m a (xs @ ys)"
  using mem_write_mem_write [of "length xs" xs ys m a] by simp

lemma mem_write_next2:
  assumes "length xs + length ys + length zs \<le> 2 ^ 32"
  shows "mem_write (mem_write (mem_write m a xs) (a + of_nat (length xs)) ys) (a + of_nat (length (xs @ ys))) zs = mem_write m a (xs @ ys @ zs)"
proof -
  have "mem_write (mem_write m a xs) (a + of_nat (length xs)) ys = mem_write m a (xs @ ys)" using assms by (intro mem_write_next) simp
  then show ?thesis using mem_write_next [of "xs @ ys" zs m a] assms by (simp only:) simp
qed

lemma load32_mem_write:
  assumes "k + 4 \<le> length xs" and "length xs \<le> 2 ^ 32"
  shows "load32 (mem_write m a xs) (a + of_nat k) = le_decode (take 4 (drop k xs))"
  using load32_part [OF assms(1), of "mem_write m a xs" a] assms(2) by (simp add: mem_read_write_same)

text \<open>Steps that come to one write of the record's bytes.\<close>

lemma adds_steps:
  assumes "rec_ok s" and "\<And>rec m. 8 + length (lr_body s) < 2 ^ 32 \<Longrightarrow> f rec m = mem_write m rec (rec_bytes s)"
  shows "adds_records h (\<lambda>m. let (rec, m) = lb_new_record h m in f rec m) [s]"
proof (cases "8 + length (lr_body s) < 2 ^ 32")
  case True
  then have "(\<lambda>m. let (rec, m) = lb_new_record h m in f rec m) = add_record h s"
    using assms(2) by (intro ext) (simp add: add_record_def rec_bytes_def split: prod.split)
  then show ?thesis using adds_record [OF assms(1)] by simp
next
  case False
  then show ?thesis using assms(1) by (simp add: adds_records_def rec_ok_def)
qed

lemma adds_option_table:
  assumes "rec_wf ot"
  shows "adds_records h (lb_option_table h ot) [option_record ot]"
proof -
  have ot: "8 \<le> length ot" "length ot < 2 ^ 32" "take 4 (drop 4 ot) = le_encode 4 (of_nat (length ot) :: u32)"
    using assms by (simp_all add: rec_wf_def)
  have "le_encode 4 (le_decode (take 4 ot) :: u32) = take 4 ot" using le_encode_decode [of "take 4 ot", where ?'a = 32] ot(1) by simp
  moreover have "ot = take 4 ot @ take 4 (drop 4 ot) @ drop 8 ot"
    using append_take_drop_id [of 4 ot] append_take_drop_id [of 4 "drop 4 ot"] by simp
  ultimately have "rec_bytes (option_record ot) = ot" using ot(3) by (simp add: rec_bytes_def option_record_def)
  moreover have "unat (le_decode (take 4 (drop 4 ot)) :: u32) = length ot" using ot by (simp add: unat_of_nat_id)
  ultimately show ?thesis
    using adds_steps [of "option_record ot" "\<lambda>rec m. mem_write m rec ot" h] ot(1)
    by (simp add: lb_option_table_def [abs_def] Let_def rec_ok_def option_record_def)
qed

lemma adds_memory:
  assumes "lbm_size lbm = of_nat (8 + 20 * length (lbm_map lbm))"
  shows "adds_records h (write_lb_memory h lbm) [memory_record lbm]"
proof -
  let ?f = "\<lambda>rec m. mem_write (store32 (store32 (store32 m rec LB_TAG_MEMORY) (rec + 4) 8) (rec + 4) (lbm_size lbm))
    (rec + 8) (concat (map range_bytes (lbm_map lbm)))"
  have len: "length (concat (map range_bytes (lbm_map lbm))) = 20 * length (lbm_map lbm)"
    by (induction "lbm_map lbm") (simp_all add: length_concat comp_def sum_list_triv)
  have "?f rec m = mem_write m rec (rec_bytes (memory_record lbm))" if "8 + length (lr_body (memory_record lbm)) < 2 ^ 32" for rec m
    using mem_write_next [of "le_encode 4 LB_TAG_MEMORY" "le_encode 4 (8 :: u32)" m rec]
      mem_write_mem_write [of 4 "le_encode 4 LB_TAG_MEMORY @ le_encode 4 (8 :: u32)" "le_encode 4 (lbm_size lbm)" m rec]
      mem_write_next [of "le_encode 4 LB_TAG_MEMORY @ le_encode 4 (lbm_size lbm)" "concat (map range_bytes (lbm_map lbm))" m rec]
      that len assms
    by (simp add: store32_def rec_bytes_def memory_record_def)
  moreover have "rec_ok (memory_record lbm)" by (simp add: rec_ok_def memory_record_def len)
  ultimately show ?thesis
    using adds_steps [of "memory_record lbm" ?f h]
    by (simp add: write_lb_memory_def [abs_def] lb_memory_def Let_def split_def)
qed

lemma adds_mainboard:
  assumes "length vendor < 255" and "length part < 2 ^ 31"
  shows "adds_records h (lb_mainboard h vendor part) [mainboard_record vendor part]"
proof -
  define n where "n = 12 + length vendor + 1 + length part + 1"
  have n: "n + 7 < 2 ^ 32" using assms by (simp add: n_def)
  define sz where "sz = align_up (12 + of_nat (length vendor) + 1 + of_nat (length part) + 1 :: u32) 8"
  have "sz = align_up (of_nat n) 8" by (simp add: sz_def n_def ac_simps)
  then have "unat sz = (n + 7) div 8 * 8" using align_up_8 [OF n] by simp
  then have "of_nat (unat sz) = (of_nat ((n + 7) div 8 * 8) :: u32)" by (simp only:)
  then have sz: "sz = of_nat ((n + 7) div 8 * 8)" by simp
  have idx: "unat (of_nat (length vendor) + 1 :: u8) = length vendor + 1"
    using unat_of_nat_id [of "length vendor + 1", where ?'a = 8] assms(1) by (simp add: add.commute)
  then have ptr: "(ucast (of_nat (length vendor) + 1 :: u8) :: ptr) = of_nat (length vendor + 1)"
    by (metis of_nat_unat)
  let ?f = "\<lambda>rec m. mem_write (mem_write (mem_write m rec (le_encode 4 LB_TAG_MAINBOARD @ le_encode 4 sz @ [0, of_nat (length vendor) + 1]))
      (rec + 10 + ucast (0 :: u8)) (vendor @ [0])) (rec + 10 + ucast (of_nat (length vendor) + 1 :: u8)) (part @ [0])"
  have "?f rec m = mem_write m rec (rec_bytes (mainboard_record vendor part))" for rec m
  proof -
    let ?b = "le_encode 4 LB_TAG_MAINBOARD @ le_encode 4 sz @ [0, of_nat (length vendor) + 1]"
    have "?f rec m = mem_write (mem_write (mem_write m rec ?b) (rec + of_nat (length ?b)) (vendor @ [0]))
        (rec + of_nat (length (?b @ vendor @ [0]))) (part @ [0])"
      using ptr by (simp add: ac_simps)
    also have "\<dots> = mem_write m rec (?b @ (vendor @ [0]) @ part @ [0])"
      using assms by (intro mem_write_next2) simp
    finally show ?thesis using sz by (simp add: rec_bytes_def mainboard_record_def n_def ac_simps)
  qed
  moreover have "rec_ok (mainboard_record vendor part)"
    using align_up_ge_nat [of n 3] by (simp add: rec_ok_def mainboard_record_def n_def)
  ultimately show ?thesis
    using adds_steps [of "mainboard_record vendor part" ?f h]
    by (simp add: lb_mainboard_def [abs_def] Let_def sz_def)
qed

lemma length_gpios: "\<forall>g\<in>set gs. length (gp_name g) = 16 \<Longrightarrow> length (concat (map gpio_bytes gs)) = 28 * length gs"
  by (induction gs) (simp_all add: gpio_bytes_def)

lemma lb_add_gpios_step:
  assumes "\<forall>g\<in>set (gs @ tbl). length (gp_name g) = 16" and "12 + 28 * length (gs @ tbl) < 2 ^ 32"
  shows "lb_add_gpios rec tbl (mem_write m rec (rec_bytes (gpios_record gs))) = mem_write m rec (rec_bytes (gpios_record (gs @ tbl)))"
proof -
  let ?n = "of_nat (length gs) :: u32" let ?k = "of_nat (length tbl) :: u32" let ?T = "le_encode 4 LB_TAG_GPIO"
  let ?e = "concat (map gpio_bytes gs)" let ?x = "concat (map gpio_bytes tbl)"
  define b where "b sz n e = ?T @ le_encode 4 (sz :: u32) @ le_encode 4 (n :: u32) @ e" for sz n e
  have len: "length ?e = 28 * length gs" "length ?x = 28 * length tbl" using assms(1) by (simp_all add: length_gpios)
  have lb: "length (b sz n e) = 12 + length e" for sz n e by (simp add: b_def)
  have b0: "rec_bytes (gpios_record gs) = b (12 + 28 * of_nat (length gs)) (of_nat (length gs)) (concat (map gpio_bytes gs))" for gs
    by (simp add: rec_bytes_def gpios_record_def b_def)
  let ?m0 = "mem_write m rec (b (12 + 28 * ?n) ?n ?e)"
  have load: "load32 (mem_write m rec (b sz n e)) (rec + 4) = sz" "load32 (mem_write m rec (b sz n e)) (rec + 8) = n"
    if "12 + length e \<le> 2 ^ 32" for sz n e
    using load32_mem_write [of 4 "b sz n e" m rec] load32_mem_write [of 8 "b sz n e" m rec] that by (simp_all add: b_def)
  have store: "store32 (mem_write m rec (b sz n e)) (rec + 4) sz' = mem_write m rec (b sz' n e)"
    "store32 (mem_write m rec (b sz n e)) (rec + 8) n' = mem_write m rec (b sz n' e)" if "12 + length e \<le> 2 ^ 32" for sz n e sz' n'
    using mem_write_mem_write [of 4 "b sz n e" "le_encode 4 sz'" m rec] mem_write_mem_write [of 8 "b sz n e" "le_encode 4 n'" m rec] that
    by (simp_all add: store32_def b_def)
  have "rec + 12 + 28 * ?n = rec + of_nat (length (b (12 + 28 * ?n) ?n ?e))" by (simp add: lb len)
  moreover have "mem_write ?m0 (rec + of_nat (length (b (12 + 28 * ?n) ?n ?e))) ?x = mem_write m rec (b (12 + 28 * ?n) ?n ?e @ ?x)"
    using assms(2) lb len by (intro mem_write_next) simp
  ultimately have 1: "mem_write ?m0 (rec + 12 + 28 * ?n) ?x = mem_write m rec (b (12 + 28 * ?n) ?n (?e @ ?x))"
    by (simp add: b_def add.assoc)
  have sizes: "12 + length ?e \<le> 2 ^ 32" "12 + length (?e @ ?x) \<le> 2 ^ 32" using assms(2) len by simp_all
  show ?thesis
    unfolding b0 lb_add_gpios_def Let_def
    using 1 load [OF sizes(1)] load [OF sizes(2)] store [OF sizes(2)] by (simp add: algebra_simps)
qed

lemma lb_add_gpios_all:
  "\<forall>g\<in>set (gs @ concat tbls). length (gp_name g) = 16 \<Longrightarrow> 12 + 28 * length (gs @ concat tbls) < 2 ^ 32 \<Longrightarrow>
    fold (lb_add_gpios rec) tbls (mem_write m rec (rec_bytes (gpios_record gs))) = mem_write m rec (rec_bytes (gpios_record (gs @ concat tbls)))"
proof (induction tbls arbitrary: gs)
  case (Cons tbl tbls)
  have "lb_add_gpios rec tbl (mem_write m rec (rec_bytes (gpios_record gs))) = mem_write m rec (rec_bytes (gpios_record (gs @ tbl)))"
    using Cons.prems by (intro lb_add_gpios_step) auto
  moreover have "fold (lb_add_gpios rec) tbls (mem_write m rec (rec_bytes (gpios_record (gs @ tbl)))) =
      mem_write m rec (rec_bytes (gpios_record ((gs @ tbl) @ concat tbls)))"
    using Cons.prems by (intro Cons.IH) simp_all
  ultimately show ?case by simp
qed simp

lemma adds_gpios:
  assumes "\<forall>g\<in>set (concat tbls). length (gp_name g) = 16"
  shows "adds_records h (lb_gpios h tbls) [gpios_record (concat tbls)]"
proof -
  let ?f = "\<lambda>rec m. fold (lb_add_gpios rec) tbls (store32 (store32 (store32 m rec LB_TAG_GPIO) (rec + 4) 12) (rec + 8) 0)"
  have len: "length (lr_body (gpios_record (concat tbls))) = 4 + 28 * length (concat tbls)"
    using length_gpios [OF assms] by (simp add: gpios_record_def)
  have "?f rec m = mem_write m rec (rec_bytes (gpios_record (concat tbls)))"
    if "8 + length (lr_body (gpios_record (concat tbls))) < 2 ^ 32" for rec m
  proof -
    have "store32 (store32 (store32 m rec LB_TAG_GPIO) (rec + 4) 12) (rec + 8) 0 = mem_write m rec (rec_bytes (gpios_record []))"
      using mem_write_next2 [of "le_encode 4 LB_TAG_GPIO" "le_encode 4 (12 :: u32)" "le_encode 4 (0 :: u32)" m rec]
      by (simp add: store32_def rec_bytes_def gpios_record_def)
    then show ?thesis using lb_add_gpios_all [of "[]" tbls rec m] assms that len by simp
  qed
  moreover have "rec_ok (gpios_record (concat tbls))" using len by (simp add: rec_ok_def gpios_record_def)
  ultimately show ?thesis
    using adds_steps [of "gpios_record (concat tbls)" ?f h] by (simp add: lb_gpios_def [abs_def] Let_def)
qed

lemma adds_chromeos:
  assumes "\<forall>g\<in>set (concat (ch_gpios ch)). length (gp_name g) = 16"
  shows "adds_records h (chromeos_records h ch) (chromeos_spec ch)"
  using adds_two [OF adds_gpios [OF assms] adds_two [OF adds_simple(13) [where vo = "ch_vbnv_offset ch"] adds_simple(14) [where hi = "ch_handoff ch"]], of h]
  by (simp add: chromeos_records_def [abs_def] chromeos_spec_def Let_def)

section \<open>The whole table\<close>

lemma adds_table:
  assumes "env_ok env" and "lbm_size lbm = of_nat (8 + 20 * length (lbm_map lbm))"
  shows "adds_records h (fold id (table_writers env lbm h)) (concat (table_records env lbm))"
proof (rule adds_fold)
  have opt: "adds_records h (case le_option_table env of None \<Rightarrow> id
       | Some option_table \<Rightarrow> \<lambda>m. lb_cmos_checksum h (le_cks env) (lb_option_table h option_table m))
     (case le_option_table env of None \<Rightarrow> [] | Some ot \<Rightarrow> [option_record ot, cmos_checksum_record (le_cks env)])"
  proof (cases "le_option_table env")
    case (Some ot)
    then have "rec_wf ot" using assms(1) by (simp add: env_ok_def)
    then show ?thesis using Some adds_two [OF adds_option_table adds_simple(11), of ot h "le_cks env"] by simp
  qed (simp add: adds_id)
  have ch: "adds_records h (case le_chromeos env of None \<Rightarrow> id | Some ch \<Rightarrow> chromeos_records h ch)
     (case le_chromeos env of None \<Rightarrow> [] | Some ch \<Rightarrow> chromeos_spec ch)"
    using assms(1) by (cases "le_chromeos env") (simp_all add: adds_id adds_chromeos env_ok_def)
  have str: "adds_records h (lb_strings h [(LB_TAG_VERSION, le_version env), (LB_TAG_EXTRA_VERSION, le_extra_version env),
        (LB_TAG_BUILD, le_build env), (LB_TAG_COMPILE_TIME, le_compile_time env)])
      [pad_string LB_TAG_VERSION (le_version env), pad_string LB_TAG_EXTRA_VERSION (le_extra_version env),
       pad_string LB_TAG_BUILD (le_build env), pad_string LB_TAG_COMPILE_TIME (le_compile_time env)]"
    using assms(1) adds_strings [of "[(LB_TAG_VERSION, le_version env), (LB_TAG_EXTRA_VERSION, le_extra_version env),
        (LB_TAG_BUILD, le_build env), (LB_TAG_COMPILE_TIME, le_compile_time env)]" h] by (simp add: env_ok_def)
  have ram: "adds_records h (case le_ramoops env of None \<Rightarrow> id | Some ram_size \<Rightarrow> lb_ramoops h (le_cbmem_find env CBMEM_ID_RAM_OOPS) ram_size)
      (case le_ramoops env of None \<Rightarrow> []
       | Some sz \<Rightarrow> (let b = le_cbmem_find env CBMEM_ID_RAM_OOPS in if b = NULL then [] else [ramoops_record b sz]))"
    using adds_simple(8) by (cases "le_ramoops env") (auto simp add: adds_id Let_def)
  have uart: "adds_records h (case le_uart env of None \<Rightarrow> id | Some u \<Rightarrow> uart_fill_lb h u)
      (case le_uart env of None \<Rightarrow> [] | Some u \<Rightarrow> uart_records u)"
    by (cases "le_uart env") (simp_all add: adds_id adds_simple)
  have usb: "adds_records h (if le_console_usb env then lb_add_console h LB_TAG_CONSOLE_EHCI else id)
      (if le_console_usb env then [console_record LB_TAG_CONSOLE_EHCI] else [])"
    by (simp add: adds_id adds_simple)
  have spi: "adds_records h (if le_spi_flash env then lb_spi_flash h (le_spi_flash_dev env) (le_rom_size env) else id)
      (if le_spi_flash env then [spi_flash_record (le_spi_flash_dev env) (le_rom_size env)] else [])"
    by (simp add: adds_id adds_simple)
  have mb: "adds_records h (lb_mainboard h (le_vendor env) (le_part_number env)) [mainboard_record (le_vendor env) (le_part_number env)]"
    using assms(1) by (intro adds_mainboard) (simp_all add: env_ok_def)
  have bd: "adds_records h (fold (add_record h) (le_board env)) (le_board env)"
    using assms(1) by (intro adds_board) (simp add: env_ok_def)
  show "list_all2 (adds_records h) (table_writers env lbm h) (table_records env lbm)"
    unfolding table_writers_def table_records_def
    by (intro list_all2_Cons [THEN iffD2] conjI list_all2_Nil [THEN iffD2] TrueI opt adds_memory assms(2) mb uart usb str ch ram spi bd
        adds_simple adds_cbmem_pointers adds_cbmem_entries) simp_all
qed

text \<open>A finished table: all records counted, both checksums in place.\<close>

definition lb_closed :: "mem \<Rightarrow> ptr \<Rightarrow> u8 list list \<Rightarrow> bool" where
  "lb_closed m h rs \<longleftrightarrow> 24 + length (concat rs) < 2 ^ 32 \<and> (\<forall>r\<in>set rs. rec_wf r) \<and>
     (let bytes = of_nat (length (concat rs)); entries = of_nat (length rs); tc = compute_ip_checksum (concat rs);
          hc = compute_ip_checksum (lb_header 0 bytes tc entries)
      in mem_read m h (24 + length (concat rs)) = lb_header hc bytes tc entries @ concat rs)"

lemma lb_table_fini:
  assumes "lb_open m h rs" and "rs \<noteq> []"
  obtains m' where "lb_table_fini h m = (h + of_nat (24 + length (concat rs)), m')" and "lb_closed m' h rs" and "same_behind h 24 m m'"
proof -
  let ?L = "length (concat rs)" let ?c = "count_last h m" let ?rec = "lb_last_record h m"
  let ?bytes = "of_nat ?L :: u32" let ?entries = "of_nat (length rs) :: u32"
  note c = count_last [OF assms(1)]
  have n: "24 + ?L < 2 ^ 32" and wf: "\<forall>r\<in>set rs. rec_wf r" using assms(1) by (simp_all add: lb_open_def)
  have le: "24 + ?L \<le> 2 ^ 32" using n by simp
  have first: "mem_read ?c (lb_first_record h) ?L = concat rs"
    using mem_read_part [of 24 ?L "24 + ?L" ?c h] c(1) by (simp add: lb_first_record_def)
  have tb: "unat (load32 ?c (table_bytes h)) = ?L" using header_loads(2) [OF c(1)] n by (simp add: unat_of_nat_id)
  define tc where "tc = compute_ip_checksum (concat rs)"
  define m1 where "m1 = store32 (store32 ?c (table_checksum h) tc) (header_checksum h) 0"
  have m1: "mem_read m1 h (24 + ?L) = lb_header 0 ?bytes tc ?entries @ concat rs"
    unfolding m1_def by (rule header_stores(1) [OF header_stores(3) [OF c(1) le] le])
  then have head: "mem_read m1 h 24 = lb_header 0 ?bytes tc ?entries" using mem_read_part [of 0 24 "24 + ?L" m1 h] by simp
  define hc where "hc = compute_ip_checksum (lb_header 0 ?bytes tc ?entries)"
  define m' where "m' = store32 m1 (header_checksum h) hc"
  have m': "mem_read m' h (24 + ?L) = lb_header hc ?bytes tc ?entries @ concat rs"
    unfolding m'_def by (rule header_stores(1) [OF m1 le])
  have rec: "?rec = h + 24 + of_nat (length (concat (butlast rs)))"
    using header_loads(2) [of m h ?L] assms(1) by (simp add: lb_open_def lb_last_record_def)
  have size: "load32 m' (?rec + 4) = of_nat (length (last rs))"
    unfolding rec using assms(2) wf by (intro last_record_size [OF m']) simp_all
  have sum: "(of_nat (length (concat (butlast rs))) + of_nat (length (last rs)) :: u32) = of_nat ?L"
    using concat_butlast [OF assms(2)] by (simp flip: of_nat_add)
  have "?rec + load32 m' (?rec + 4) = h + 24 + (of_nat (length (concat (butlast rs))) + of_nat (length (last rs)))"
    by (simp only: size) (simp only: rec add.assoc)
  then have "?rec + load32 m' (?rec + 4) = h + of_nat (24 + ?L)" by (simp add: sum add.assoc)
  then have "lb_table_fini h m = (h + of_nat (24 + ?L), m')"
    using first tb head by (simp add: lb_table_fini_def Let_def count_last_def [symmetric] m1_def m'_def hc_def tc_def)
  moreover have "lb_closed m' h rs" using n wf m' by (simp add: lb_closed_def Let_def hc_def tc_def)
  moreover have "same_behind h 24 m m'"
    unfolding m1_def m'_def by (meson c(2) same_behind_header(1,3) same_behind_trans order_refl)
  ultimately show ?thesis by (rule that)
qed

text \<open>The memory record that the boot memory component fills in.\<close>

lemma bootmem_record:
  assumes "bootmem_write_memory_table fatal benv \<lparr>lbm_tag = LB_TAG_MEMORY, lbm_size = 8, lbm_map = []\<rparr> bm = Some (lbm, bm')"
  shows "lbm_size lbm = of_nat (8 + 20 * length (lbm_map lbm))"
  using assms by (auto simp: bootmem_write_memory_table_def Let_def split: option.splits)

lemma coreboot_table_written:
  assumes h: "h = (addr + 15) AND NOT 15" and "env_ok env"
    and "bootmem_write_memory_table fatal benv \<lparr>lbm_tag = LB_TAG_MEMORY, lbm_size = 8, lbm_map = []\<rparr> bm = Some (lbm, bm')"
    and "24 + total_size (concat (table_records env lbm)) < 2 ^ 32"
  obtains m' rs where "write_coreboot_table env fatal benv addr (m, bm) = Some (h + of_nat (24 + total_size (concat (table_records env lbm))), m', bm')"
    and "lb_closed m' h rs" and "list_all2 rec_is (concat (table_records env lbm)) rs"
    and "same_behind h (24 + total_size (concat (table_records env lbm))) m m'"
proof -
  define ss where "ss = concat (table_records env lbm)"
  obtain m0 where m0: "lb_table_init addr m = (h, m0)" "lb_open m0 h []" "same_behind h 24 m m0"
    using lb_open_init [OF h, of m] by (cases "lb_table_init addr m") simp
  define m1 where "m1 = fold id (table_writers env lbm h) m0"
  have "adds_records h (fold id (table_writers env lbm h)) ss"
    unfolding ss_def by (rule adds_table [OF assms(2) bootmem_record [OF assms(3)]])
  then obtain rs where rs: "list_all2 rec_is ss rs" "lb_open m1 h rs" "same_behind h (24 + total_size ss) m0 m1"
    using m0(2) assms(4) unfolding adds_records_def m1_def ss_def by fastforce
  have "ss \<noteq> []" by (simp add: ss_def table_records_def)
  then have "rs \<noteq> []" using rs(1) by auto
  then obtain m' where m': "lb_table_fini h m1 = (h + of_nat (24 + length (concat rs)), m')" "lb_closed m' h rs" "same_behind h 24 m1 m'"
    using lb_table_fini [OF rs(2)] by blast
  have "same_behind h (24 + total_size ss) m m'"
    using m0(3) rs(3) m'(3) by (auto simp: same_behind_def)
  moreover have "write_coreboot_table env fatal benv addr (m, bm) = Some (h + of_nat (24 + total_size ss), m', bm')"
    using assms(3) m0(1) m'(1) length_recs [OF rs(1)] by (simp add: write_coreboot_table_def m1_def)
  ultimately show ?thesis using that m'(2) rs(1) by (simp add: ss_def)
qed

text \<open>
  C10: Whatever the machine is made of, as long as the table stays below four gigabytes in all,
  writing the coreboot table ends with a closed table at the next multiple of 16: a header
  whose counts and checksums are right, then exactly the records the machine's description
  asks for, in order, each saying its own size, and nothing behind the table is changed.
\<close>

theorem coreboot_table_well_formed:
  assumes "env_ok env"
    and "bootmem_write_memory_table fatal benv \<lparr>lbm_tag = LB_TAG_MEMORY, lbm_size = 8, lbm_map = []\<rparr> bm = Some (lbm, bm')"
    and "24 + total_size (concat (table_records env lbm)) < 2 ^ 32"
  shows "\<exists>m' rs. let h = (addr + 15) AND NOT 15; n = 24 + total_size (concat (table_records env lbm)) in
    write_coreboot_table env fatal benv addr (m, bm) = Some (h + of_nat n, m', bm') \<and>
    lb_closed m' h rs \<and> list_all2 rec_is (concat (table_records env lbm)) rs \<and> same_behind h n m m'"
proof -
  obtain m' rs where "write_coreboot_table env fatal benv addr (m, bm) =
      Some (((addr + 15) AND NOT 15) + of_nat (24 + total_size (concat (table_records env lbm))), m', bm')"
    and "lb_closed m' ((addr + 15) AND NOT 15) rs" and "list_all2 rec_is (concat (table_records env lbm)) rs"
    and "same_behind ((addr + 15) AND NOT 15) (24 + total_size (concat (table_records env lbm))) m m'"
    using coreboot_table_written [OF refl assms, where m = m and addr = addr] by blast
  then show ?thesis unfolding Let_def by blast
qed

section \<open>An example\<close>

definition example_lb_env :: lb_env where
  "example_lb_env = \<lparr>le_option_table = Some (le_encode 4 (200 :: u32) @ le_encode 4 (12 :: u32) @ le_encode 4 (12 :: u32)),
     le_cks = (49, 125, 126), le_vendor = [0x51, 0x45, 0x4d, 0x55], le_part_number = [0x50, 0x43],
     le_uart = Some (0x3f8, 115200, 1843200, 0), le_console_usb = False, le_version = [0x34, 0x2e, 0x38],
     le_extra_version = [], le_build = [0x31], le_compile_time = [0x30], le_timestamp = 0x5a000000, le_framebuffer = None,
     le_chromeos = Some \<lparr>ch_gpios = [[\<lparr>gp_port = 1, gp_polarity = 0, gp_value = 1, gp_name = replicate 16 0x61\<rparr>]],
       ch_vbnv_offset = Some 0x26, ch_handoff = None\<rparr>,
     le_board_id = 7, le_ram_code = UNDEFINED_STRAPPING_ID, le_sku_id = 2, le_spi_flash = True, le_spi_flash_dev = None,
     le_rom_size = 0x800000, le_cbmem_find = (\<lambda>cid. if cid = CBMEM_ID_CONSOLE then 0x7fde000 else NULL), le_board = [],
     le_ramoops = None, le_boot_media = None, le_tsc_mhz = Some 1500, le_cbmem = [(CBMEM_ID_CONSOLE, 0x7fde000, 0x20000)]\<rparr>"

lemma example_lb_env_ok: "env_ok example_lb_env"
  by (simp add: env_ok_def example_lb_env_def rec_wf_def)

lemma example_memory_map:
  obtains lbm bm' where "bootmem_write_memory_table True example_env \<lparr>lbm_tag = LB_TAG_MEMORY, lbm_size = 8, lbm_map = []\<rparr> bootmem_start = Some (lbm, bm')"
    and "map (\<lambda>r. (unpack_lb64 (lbr_start r), unpack_lb64 (lbr_size r), lbr_type r)) (lbm_map lbm) =
      [(0, 0x1000, 16), (0x1000, 0x7fef000, 1), (0x7ff0000, 0x10000, 16)]"
proof -
  have "map_option (\<lambda>(lbm, bm'). map (\<lambda>r. (unpack_lb64 (lbr_start r), unpack_lb64 (lbr_size r), lbr_type r)) (lbm_map lbm))
      (bootmem_write_memory_table True example_env \<lparr>lbm_tag = LB_TAG_MEMORY, lbm_size = 8, lbm_map = []\<rparr> bootmem_start) =
      Some [(0, 0x1000, 16), (0x1000, 0x7fef000, 1), (0x7ff0000, 0x10000, 16)]"
    by code_simp
  then show ?thesis using that by auto
qed

lemma example_table_size:
  assumes "length (lbm_map lbm) = 3"
  shows "total_size (concat (table_records example_lb_env lbm)) = 404"
  using assms
  by (simp add: table_records_def example_lb_env_def option_record_def cmos_checksum_record_def memory_record_def mainboard_record_def
      uart_records_def serial_record_def console_record_def pad_string_def timestamp_record_def chromeos_spec_def gpios_record_def
      vbnv_record_def strapping_def UNDEFINED_STRAPPING_ID_def strapping_record_def spi_flash_record_def cbmem_pointer_def section_ids_def
      cbmem_ref_def tsc_record_def cbmem_entry_spec_def cbmem_entry_record_def CBMEM_ID_TIMESTAMP_def CBMEM_ID_CONSOLE_def
      CBMEM_ID_ACPI_GNVS_def CBMEM_ID_VPD_def CBMEM_ID_WIFI_CALIBRATION_def CBMEM_ID_TCPA_LOG_def CBMEM_ID_IMD_ROOT_def
      CBMEM_ID_IMD_SMALL_def)

theorem coreboot_table_well_formed_witness:
  "\<exists>m' rs bm'. write_coreboot_table example_lb_env True example_env 0x7fff4 (\<lambda>_. 0xff, bootmem_start) = Some (0x80000 + 428, m', bm') \<and>
     lb_closed m' 0x80000 rs"
proof -
  obtain lbm bm' where lbm: "bootmem_write_memory_table True example_env \<lparr>lbm_tag = LB_TAG_MEMORY, lbm_size = 8, lbm_map = []\<rparr> bootmem_start = Some (lbm, bm')"
      "map (\<lambda>r. (unpack_lb64 (lbr_start r), unpack_lb64 (lbr_size r), lbr_type r)) (lbm_map lbm) = [(0, 0x1000, 16), (0x1000, 0x7fef000, 1), (0x7ff0000, 0x10000, 16)]"
    using example_memory_map by blast
  have "length (lbm_map lbm) = 3" using arg_cong [OF lbm(2), of length] by simp
  note size = example_table_size [OF this]
  show ?thesis
    using coreboot_table_well_formed [OF example_lb_env_ok lbm(1), of "0x7fff4" "\<lambda>_. 0xff"] size by auto
qed

end
