(* ===== verification/Ip_Checksum.thy ===== *)
theory Ip_Checksum
  imports Lb_Table
begin

text \<open>
  Two implementations of the internet checksum that must agree: the one that closes the coreboot
  table, \<^verbatim>\<open>src/lib/compute_ip_checksum.c\<close>, which folds the carry after every byte, and the one the
  payload checks it with, \<^verbatim>\<open>payloads/libpayload/libc/ipchecksum.c\<close>, which adds 16-bit words in a
  signed 32-bit sum and folds at the end.
\<close>

section \<open>The payload's checksum\<close>

fun ipchksum_loop :: "u8 list \<Rightarrow> u32 \<Rightarrow> u32" where
  "ipchksum_loop (b0 # b1 # bs) acc = ipchksum_loop bs (acc + (ucast b0 OR push_bit 8 (ucast b1)))"
| "ipchksum_loop [b] acc = acc + ucast b"
| "ipchksum_loop [] acc = acc"

definition ipchksum :: "u8 list \<Rightarrow> u16" where
  "ipchksum bs =
     (let acc = ipchksum_loop bs 0;
          acc = signed_drop_bit 16 acc + (acc AND 0xffff);
          acc = acc + signed_drop_bit 16 acc
      in ucast (NOT acc))"

section \<open>Both as one number\<close>

text \<open>The sum of the words, of bytes that begin at an even or an odd place, and its end-around carry.\<close>

primrec byte_sum :: "u8 list \<Rightarrow> bool \<Rightarrow> nat" where
  "byte_sum [] odd_byte = 0"
| "byte_sum (b # bs) odd_byte = (if odd_byte then 256 * unat b else unat b) + byte_sum bs (\<not> odd_byte)"

definition fold16 :: "nat \<Rightarrow> nat" where
  "fold16 s = (if s = 0 then 0 else (s - 1) mod 65535 + 1)"

lemma fold16_small: "s \<le> 65535 \<Longrightarrow> fold16 s = s"
  by (simp add: fold16_def)

lemma fold16_Suc: "fold16 (Suc t) = Suc (t mod 65535)"
  by (simp add: fold16_def)

lemma fold16_le: "fold16 s \<le> 65535"
proof (cases s)
  case (Suc t)
  have "Suc (t mod 65535) \<le> 65535" using mod_less_divisor [of 65535 t] by linarith
  then show ?thesis using Suc by (simp only: fold16_Suc)
qed (simp add: fold16_def)

lemma fold16_step:
  assumes "0 < s"
  shows "fold16 (s + 65535) = fold16 s"
proof -
  obtain t where s: "s = Suc t" using assms by (cases s) auto
  have "s + 65535 = Suc (t + 65535)" using s by simp
  then show ?thesis by (simp only: s fold16_Suc mod_add_self2)
qed

lemma fold16_mult: "0 < s \<Longrightarrow> fold16 (s + 65535 * k) = fold16 s"
proof (induction k)
  case (Suc k)
  then show ?case using fold16_step [of "s + 65535 * k"] by (simp add: ac_simps)
qed simp

lemma fold16_carry:
  assumes "0 < s"
  shows "s = fold16 s + 65535 * ((s - 1) div 65535)"
proof -
  obtain t where "s = Suc t" using assms by (cases s) auto
  then show ?thesis by (simp add: fold16_Suc)
qed

lemma fold16_pos: "0 < s \<Longrightarrow> 0 < fold16 s"
  by (simp add: fold16_def)

lemma fold16_add: "fold16 (fold16 a + b) = fold16 (a + b)"
proof (cases "a = 0")
  case False
  then have "a + b = (fold16 a + b) + 65535 * ((a - 1) div 65535)" using fold16_carry [of a] by linarith
  then show ?thesis using fold16_mult [of "fold16 a + b" "(a - 1) div 65535"] fold16_pos [of a] False by (simp only:)
qed (simp add: fold16_def)

lemma byte_sum_append: "byte_sum (xs @ ys) p = byte_sum xs p + byte_sum ys (p = even (length xs))"
  by (induction xs arbitrary: p) (auto intro!: arg_cong [where f = "byte_sum ys"])

lemma byte_sum_le: "byte_sum bs p \<le> 65280 * ((length bs + (if p then 1 else 0)) div 2) + 255 * ((length bs + (if p then 0 else 1)) div 2)"
proof (induction bs arbitrary: p)
  case (Cons b bs)
  have "unat b \<le> 255" using unat_lt_exp [of b] by simp
  then show ?case using Cons.IH [of "\<not> p"] by (auto split: if_splits)
qed simp

section \<open>The table's checksum folds\<close>

lemma unat_byte32: "unat (ucast (b :: u8) :: u32) = unat b"
  by (simp add: unat_ucast_up)

lemma unat_byte_high: "unat (push_bit 8 (ucast (b :: u8)) :: u32) = 256 * unat b"
proof -
  have "unat (push_bit 8 (ucast b :: u32)) = (unat b * 2 ^ 8) mod 2 ^ 32"
    by (simp add: push_bit_eq_mult unat_mult_lem unat_word_ariths unat_byte32)
  then show ?thesis using unat_lt_exp [of b] by simp
qed

lemma unat_and_ffff: "unat (x AND 0xffff :: u32) = unat x mod 65536"
proof -
  have "x AND 0xffff = take_bit 16 x" by (simp add: take_bit_eq_mask mask_eq_exp_minus_1)
  moreover have "unat (take_bit n x) = unat x mod 2 ^ n" for n by (simp add: unsigned_take_bit_eq flip: take_bit_eq_mod)
  from this [of 16] have "unat (take_bit 16 x) = unat x mod 65536" by simp
  ultimately show ?thesis by simp
qed

lemma unat_drop_16: "unat (drop_bit 16 x :: u32) = unat x div 65536"
proof -
  have "unat (drop_bit 16 x) = drop_bit 16 (unat x)" by (rule unat_drop_bit_eq)
  then show ?thesis by (simp add: drop_bit_nat_def)
qed

lemma checksum_step:
  assumes "unat acc \<le> 65535" and "unat v \<le> 65280"
  shows "unat (if acc + v > 0xffff then (acc + v + drop_bit 16 (acc + v)) AND 0xffff else acc + v :: u32) = fold16 (unat acc + unat v)"
proof -
  define s where "s = acc + v"
  have s: "unat s = unat acc + unat v" unfolding s_def using assms by (intro unat_add_nowrap) simp
  have gt: "s > 0xffff \<longleftrightarrow> unat s > 65535" by (simp add: word_less_nat_alt)
  show ?thesis
  proof (cases "unat s > 65535")
    case True
    have "unat (drop_bit 16 s) = 1" using True s assms by (simp add: unat_drop_16 div_nat_eqI)
    then have "unat (s + drop_bit 16 s) = unat s + 1" using s assms by (subst unat_add_nowrap) simp_all
    moreover have "unat ((s + drop_bit 16 s) AND 0xffff) = unat (s + drop_bit 16 s) mod 65536"
      by (rule unat_and_ffff)
    moreover define d where "d = unat s - 65535"
    then have "unat s + 1 = d + 65536" "d < 65536" using True s assms by linarith+
    then have "(unat s + 1) mod 65536 = d" by simp
    ultimately have "unat ((s + drop_bit 16 s) AND 0xffff) = unat s - 65535" by (simp add: d_def)
    moreover have "fold16 (unat s) = unat s - 65535"
      using True s assms fold16_step [of "unat s - 65535"] by (simp add: fold16_small)
    ultimately show ?thesis using True gt s by (simp add: s_def)
  next
    case False
    then show ?thesis using gt s by (simp add: s_def fold16_small)
  qed
qed

lemma checksum_loop_fold:
  "unat acc \<le> 65535 \<Longrightarrow> unat (checksum_loop bs p acc) = fold16 (unat acc + byte_sum bs p)"
proof (induction bs arbitrary: p acc)
  case Nil
  then show ?case by (simp add: fold16_small)
next
  case (Cons b bs)
  define v where "v = (if p then push_bit 8 (ucast b) else ucast b :: u32)"
  have v: "unat v = (if p then 256 * unat b else unat b)" by (simp add: v_def unat_byte32 unat_byte_high)
  have "unat v \<le> 65280" using v unat_lt_exp [of b] by auto
  note step = checksum_step [OF Cons.prems this]
  let ?a = "if acc + v > 0xffff then (acc + v + drop_bit 16 (acc + v)) AND 0xffff else acc + v"
  have "checksum_loop (b # bs) p acc = checksum_loop bs (\<not> p) ?a" by (simp only: checksum_loop.simps Let_def v_def)
  then have "unat (checksum_loop (b # bs) p acc) = fold16 (fold16 (unat acc + unat v) + byte_sum bs (\<not> p))"
    using Cons.IH [of ?a "\<not> p"] step fold16_le by simp
  then show ?case using v by (simp add: fold16_add add.assoc)
qed

lemma unat_NOT32: "unat (NOT x :: u32) = 4294967295 - unat x"
proof -
  have "unat (- 1 :: u32) = 4294967295" by (simp add: unsigned_minus_1_eq_mask mask_eq_exp_minus_1)
  then have "unat (- 1 - x) = 4294967295 - unat x" using unat_lt32 [of x] unat_sub_nowrap [of x "- 1"] by simp
  moreover have "NOT x = - 1 - x" by (simp add: not_eq_complement)
  ultimately show ?thesis by (simp only:)
qed

lemma unat_NOT_low: "unat (NOT x :: u32) mod 65536 = 65535 - unat x mod 65536"
proof -
  define q where "q = unat x div 65536"
  define r where "r = unat x mod 65536"
  have r: "unat x = q * 65536 + r" "r < 65536" by (simp_all add: q_def r_def)
  have "q < 65536" using unat_lt32 [of x] by (simp add: q_def less_mult_imp_div_less)
  then have "unat (NOT x) = (65535 - r) + (65535 - q) * 65536" using r unat_NOT32 [of x] by simp
  then have "unat (NOT x) mod 65536 = (65535 - r) mod 65536" by (simp only: mod_mult_self1)
  then show ?thesis by (simp add: r_def)
qed

lemma unat_not16: "unat x \<le> 65535 \<Longrightarrow> unat (NOT x AND 0xffff :: u32) = 65535 - unat x"
  by (simp only: unat_and_ffff unat_NOT_low) simp

lemma compute_ip_checksum_fold: "unat (compute_ip_checksum bs) = 65535 - fold16 (byte_sum bs False)"
  using checksum_loop_fold [of 0 bs False] unat_not16 [of "checksum_loop bs False 0"] fold16_le by (simp add: compute_ip_checksum_def)

section \<open>The payload's checksum folds once\<close>

lemma unat_word_of_bytes: "unat (ucast (b0 :: u8) OR push_bit 8 (ucast (b1 :: u8)) :: u32) = unat b0 + 256 * unat b1"
proof -
  have "(ucast b0 :: u32) AND push_bit 8 (ucast b1) = 0" by (rule bit_eqI) (auto simp: bit_simps dest: bit_imp_le_length)
  then have "ucast b0 OR push_bit 8 (ucast b1) = ucast b0 + (push_bit 8 (ucast b1) :: u32)"
    by (rule disjunctive_add_eq_or [symmetric])
  moreover have "unat (ucast b0 + push_bit 8 (ucast b1) :: u32) = unat b0 + 256 * unat b1"
    using unat_lt_exp [of b0] unat_lt_exp [of b1]
    by (subst unat_add_nowrap) (simp_all add: unat_byte32 unat_byte_high)
  ultimately show ?thesis by (simp only:)
qed

lemma ipchksum_loop_sum:
  "unat acc + byte_sum bs False < 2 ^ 32 \<Longrightarrow> unat (ipchksum_loop bs acc) = unat acc + byte_sum bs False"
proof (induction bs acc rule: ipchksum_loop.induct)
  case (1 b0 b1 bs acc)
  have "unat (acc + (ucast b0 OR push_bit 8 (ucast b1))) = unat acc + (unat b0 + 256 * unat b1)"
    using "1.prems" by (subst unat_add_nowrap) (simp_all add: unat_word_of_bytes)
  then show ?case using 1 by simp
next
  case (2 b acc)
  then show ?case by (simp add: unat_add_nowrap unat_byte32)
qed simp

lemma signed_drop_nonneg: "unat (x :: u32) < 2 ^ 31 \<Longrightarrow> signed_drop_bit 16 x = drop_bit 16 x"
proof -
  assume "unat x < 2 ^ 31"
  then have "\<not> odd (unat x div 2 ^ 31)" by simp
  then have "\<not> bit (unat x) 31" by (simp only: bit_iff_odd) simp
  then have "\<not> bit x 31" by (simp add: bit_unsigned_iff)
  then show ?thesis by (intro bit_eqI) (auto simp: bit_simps dest: bit_imp_le_length)
qed

lemma ipchksum_fold:
  assumes "length bs \<le> 65536"
  shows "unat (ipchksum bs) = 65535 - fold16 (byte_sum bs False)"
proof -
  define S where "S = byte_sum bs False"
  have S: "S < 2 ^ 31" using byte_sum_le [of bs False] assms by (simp add: S_def)
  define a where "a = ipchksum_loop bs 0"
  have a: "unat a = S" using ipchksum_loop_sum [of 0 bs] S by (simp add: a_def S_def)
  define t where "t = signed_drop_bit 16 a + (a AND 0xffff)"
  have t: "unat t = S div 65536 + S mod 65536"
    unfolding t_def using a S by (subst unat_add_nowrap) (simp_all add: signed_drop_nonneg unat_drop_16 unat_and_ffff)
  have small: "S div 65536 < 32768" "S mod 65536 \<le> 65535" using S by (simp_all add: less_mult_imp_div_less)
  then have t_le: "unat t < 2 ^ 31" "unat t \<le> 98302" using t by simp_all
  define u where "u = t + signed_drop_bit 16 t"
  have u: "unat u = unat t + unat t div 65536"
    unfolding u_def using t_le by (subst unat_add_nowrap) (simp_all add: signed_drop_nonneg unat_drop_16)
  have "unat u mod 65536 = fold16 S"
  proof (cases "S = 0")
    case False
    have eq: "S = unat t + 65535 * (S div 65536)" using t div_mult_mod_eq [of S 65536] by linarith
    have "0 < unat t" using False t div_mult_mod_eq [of S 65536] by linarith
    then have "fold16 S = fold16 (unat t)" using eq fold16_mult [of "unat t" "S div 65536"] by (simp only:)
    moreover have "unat u mod 65536 = fold16 (unat t)"
    proof (cases "unat t \<le> 65535")
      case True
      then show ?thesis using u by (simp add: fold16_small)
    next
      case False
      define d where "d = unat t - 65535"
      have d: "unat t = d + 65535" "0 < d" "d \<le> 65535" using False t_le by (simp_all add: d_def)
      have "unat t div 65536 = 1" using d t_le by (intro div_nat_eqI) simp_all
      then have "unat u = d + 65536" using u d by simp
      then show ?thesis using d fold16_step [of d] by (simp add: fold16_small)
    qed
    ultimately show ?thesis by simp
  next
    case True
    then show ?thesis using t u by (simp add: fold16_def)
  qed
  moreover have "ipchksum bs = ucast (NOT u)" by (simp add: ipchksum_def Let_def a_def t_def u_def)
  moreover have "unat (ucast (NOT u) :: u16) = 65535 - unat u mod 65536"
  proof -
    have "unat (ucast (NOT u) :: u16) = unat (NOT u) mod 65536" by (simp add: unsigned_ucast_eq take_bit_nat_def)
    then show ?thesis by (simp only: unat_NOT_low)
  qed
  ultimately show ?thesis by (simp add: S_def)
qed

text \<open>
  C40: The checksum the payload computes over a block of at most 64 KiB is the one coreboot
  wrote for it.
\<close>

theorem checksums_agree:
  assumes "length bs \<le> 65536"
  shows "ucast (ipchksum bs) = compute_ip_checksum bs"
proof -
  have "unat (ucast (ipchksum bs) :: u32) = unat (compute_ip_checksum bs)"
    using ipchksum_fold [OF assms] compute_ip_checksum_fold [of bs] by (simp add: unat_ucast_up)
  then show ?thesis by (simp add: word_unat_eq_iff)
qed

text \<open>A stored checksum makes the sum of its header come out as zero.\<close>

lemma byte_sum_le_encode:
  assumes "unat (w :: u32) \<le> 65535"
  shows "byte_sum (le_encode 4 w) False = unat w"
proof -
  have byte: "unat (ucast x :: u8) = unat x mod 256" for x :: u32 by (simp add: unsigned_ucast_eq take_bit_nat_def)
  have shift: "unat (drop_bit 8 x) = unat x div 256" for x :: u32
  proof -
    have "unat (drop_bit 8 x) = drop_bit 8 (unat x)" by (rule unat_drop_bit_eq)
    then show ?thesis by (simp add: drop_bit_nat_def)
  qed
  have "unat w div 256 < 256" using assms by simp
  then have zero: "unat w div 256 div 256 = 0" "unat w div 256 mod 256 = unat w div 256" by simp_all
  have "le_encode 4 w = [ucast w, ucast (drop_bit 8 w), ucast (drop_bit 8 (drop_bit 8 w)), ucast (drop_bit 8 (drop_bit 8 (drop_bit 8 w)))]"
    by (simp add: eval_nat_numeral)
  then have "byte_sum (le_encode 4 w) False = unat w mod 256 + 256 * (unat w div 256)"
    by (simp only: byte_sum.simps byte shift zero) simp
  then show ?thesis by simp
qed

lemma header_sum: "unat hc \<le> 65535 \<Longrightarrow> byte_sum (lb_header hc b c d) False = byte_sum (lb_header 0 b c d) False + unat hc"
  by (simp add: lb_header_def byte_sum_append byte_sum_le_encode LBIO_def)

lemma header_checks:
  assumes "hc = compute_ip_checksum (lb_header 0 b c d)"
  shows "ipchksum (lb_header hc b c d) = 0"
proof -
  define S where "S = byte_sum (lb_header 0 b c d) False"
  have hc: "unat hc = 65535 - fold16 S" using assms by (simp add: compute_ip_checksum_fold S_def)
  have "fold16 (S + unat hc) = fold16 (fold16 S + unat hc)" by (simp add: fold16_add)
  also have "fold16 S + unat hc = 65535" using hc fold16_le [of S] by simp
  finally have "fold16 (byte_sum (lb_header hc b c d) False) = 65535"
    using hc header_sum [of hc b c d] by (simp add: S_def fold16_small)
  then have "unat (ipchksum (lb_header hc b c d)) = 0" by (simp add: ipchksum_fold)
  then show ?thesis by (simp add: unat_eq_zero)
qed

theorem checksums_agree_witness:
  "ucast (ipchksum [0x12, 0x34, 0xff, 0xff, 0x80, 0x01, 0xfe]) = compute_ip_checksum [0x12, 0x34, 0xff, 0xff, 0x80, 0x01, 0xfe]"
  by (rule checksums_agree) simp

end
