(* ===== verification/Lb_Payload.thy ===== *)
theory Lb_Payload
  imports Lb_Spec Ip_Checksum
begin

text \<open>
  The payload's reader of the coreboot table, \<^verbatim>\<open>payloads/libpayload/libc/coreboot.c\<close> and
  \<^verbatim>\<open>payloads/libpayload/arch/x86/coreboot.c\<close>: it looks for the header, checks both checksums, walks
  the records and fills in a struct of what it understands. Pointers into the table stay
  pointers. A table that forwards to itself would be read for ever, so the reader is a partial
  function. The payload has not moved itself yet, so physical addresses are its own.
\<close>

section \<open>What the payload learns\<close>

record cb_gpio =
  cg_port :: u32
  cg_polarity :: u32
  cg_value :: u32
  cg_name :: "u8 list"

record sysinfo =
  cpu_khz :: u32
  serial :: ptr
  memrange :: "(u64 \<times> u64 \<times> u32) list"
  option_table :: ptr
  cmos_range_start :: u32
  cmos_range_end :: u32
  cmos_checksum_location :: u32
  vbnv_start :: u32
  vbnv_size :: u32
  extra_version :: ptr
  build :: ptr
  compile_time :: ptr
  compile_by :: ptr
  compile_host :: ptr
  compile_domain :: ptr
  compiler :: ptr
  linker :: ptr
  assembler :: ptr
  cb_version :: ptr
  framebuffer :: ptr
  gpios :: "cb_gpio list"
  macs :: "u8 list list"
  serialno :: ptr
  header :: ptr
  mainboard :: ptr
  vboot_handoff :: ptr
  vboot_handoff_size :: u32
  x86_rom_var_mtrr_index :: u32
  tstamp_table :: ptr
  cbmem_cons :: ptr
  mrc_cache :: ptr
  acpi_gnvs :: ptr
  board_id :: u32
  ram_code :: u32
  sku_id :: u32
  wifi_calibration :: ptr
  ramoops_buffer :: u64
  ramoops_buffer_size :: u32
  spi_flash :: "u32 \<times> u32 \<times> u32"
  fmap_offset :: u64
  cbfs_offset :: u64
  cbfs_size :: u64
  boot_media_size :: u64
  mtc_start :: u64
  mtc_size :: u32
  chromeos_vpd :: ptr

text \<open>The build options of the payload that decide about records.\<close>

record lp_config =
  lp_nvram :: bool
  lp_video_console :: bool
  lp_timer_rdtsc :: bool
  lp_memmap_ram_only :: bool

definition SYSINFO_MAX_MEM_RANGES :: nat where "SYSINFO_MAX_MEM_RANGES = 32"
definition SYSINFO_MAX_GPIOS :: nat where "SYSINFO_MAX_GPIOS = 8"
definition SYSINFO_MAX_MACS :: nat where "SYSINFO_MAX_MACS = 10"
definition CB_MEM_RAM :: u32 where "CB_MEM_RAM = 1"
definition CB_TAG_MTC :: u32 where "CB_TAG_MTC = 0x002b"
definition CB_TAG_MRC_CACHE :: u32 where "CB_TAG_MRC_CACHE = 0x0018"
definition CB_TAG_X86_ROM_MTRR :: u32 where "CB_TAG_X86_ROM_MTRR = 0x0021"
definition CB_TAG_MAC_ADDRS :: u32 where "CB_TAG_MAC_ADDRS = 0x0033"
definition CB_TAG_SERIALNO :: u32 where "CB_TAG_SERIALNO = 0x002a"
definition CB_TAG_CMOS_OPTION_TABLE :: u32 where "CB_TAG_CMOS_OPTION_TABLE = 0x00c8"
definition CB_TAG_COMPILE_BY :: u32 where "CB_TAG_COMPILE_BY = 0x0008"
definition CB_TAG_COMPILE_HOST :: u32 where "CB_TAG_COMPILE_HOST = 0x0009"
definition CB_TAG_COMPILE_DOMAIN :: u32 where "CB_TAG_COMPILE_DOMAIN = 0x000a"
definition CB_TAG_COMPILER :: u32 where "CB_TAG_COMPILER = 0x000b"
definition CB_TAG_LINKER :: u32 where "CB_TAG_LINKER = 0x000c"
definition CB_TAG_ASSEMBLER :: u32 where "CB_TAG_ASSEMBLER = 0x000d"

definition load64 :: "mem \<Rightarrow> ptr \<Rightarrow> u64" where
  "load64 m a = le_decode (mem_read m a 8)"

section \<open>One record\<close>

definition cb_unpack64 :: "mem \<Rightarrow> ptr \<Rightarrow> u64" where
  "cb_unpack64 m a = push_bit 32 (ucast (load32 m (a + 4))) OR ucast (load32 m a)"

definition MEM_RANGE_COUNT :: "mem \<Rightarrow> ptr \<Rightarrow> u32" where
  "MEM_RANGE_COUNT m rec = (load32 m (rec + 4) - 8) div 20"

definition MEM_RANGE_PTR :: "ptr \<Rightarrow> nat \<Rightarrow> ptr" where
  "MEM_RANGE_PTR rec i = rec + 8 + 20 * of_nat i"

definition cb_parse_memory :: "lp_config \<Rightarrow> mem \<Rightarrow> ptr \<Rightarrow> sysinfo \<Rightarrow> sysinfo" where
  "cb_parse_memory cfg m p info =
     (let count = unat (MEM_RANGE_COUNT m p);
          count = (if count > SYSINFO_MAX_MEM_RANGES then SYSINFO_MAX_MEM_RANGES else count);
          ranges = map (\<lambda>i. let range = MEM_RANGE_PTR p i in
                     (cb_unpack64 m range, cb_unpack64 m (range + 8), load32 m (range + 16))) [0..<count]
      in info\<lparr>memrange := filter (\<lambda>(base, sz, typ). \<not> (lp_memmap_ram_only cfg \<and> typ \<noteq> CB_MEM_RAM)) ranges\<rparr>)"

definition cb_parse_serial :: "ptr \<Rightarrow> sysinfo \<Rightarrow> sysinfo" where
  "cb_parse_serial p info = info\<lparr>serial := p\<rparr>"

definition cb_parse_vboot_handoff :: "mem \<Rightarrow> ptr \<Rightarrow> sysinfo \<Rightarrow> sysinfo" where
  "cb_parse_vboot_handoff m p info = info\<lparr>vboot_handoff := ucast (load64 m (p + 8)), vboot_handoff_size := load32 m (p + 16)\<rparr>"

definition cb_parse_vbnv :: "mem \<Rightarrow> ptr \<Rightarrow> sysinfo \<Rightarrow> sysinfo" where
  "cb_parse_vbnv m p info = info\<lparr>vbnv_start := ucast (load64 m (p + 8)), vbnv_size := load32 m (p + 16)\<rparr>"

definition cb_parse_gpios :: "mem \<Rightarrow> ptr \<Rightarrow> sysinfo \<Rightarrow> sysinfo" where
  "cb_parse_gpios m p info =
     (let count = unat (load32 m (p + 8));
          num_gpios = (if count < SYSINFO_MAX_GPIOS then count else SYSINFO_MAX_GPIOS)
      in info\<lparr>gpios := map (\<lambda>i. let g = p + 12 + 28 * of_nat i in
            \<lparr>cg_port = load32 m g, cg_polarity = load32 m (g + 4), cg_value = load32 m (g + 8), cg_name = mem_read m (g + 12) 16\<rparr>)
          [0..<num_gpios]\<rparr>)"

definition cb_parse_mac_addresses :: "mem \<Rightarrow> ptr \<Rightarrow> sysinfo \<Rightarrow> sysinfo" where
  "cb_parse_mac_addresses m p info =
     (let count = unat (load32 m (p + 8));
          num_macs = (if count < SYSINFO_MAX_MACS then count else SYSINFO_MAX_MACS)
      in info\<lparr>macs := map (\<lambda>i. mem_read m (p + 12 + 8 * of_nat i) 8) [0..<num_macs]\<rparr>)"

text \<open>The readers of a reference into the in-memory directory, one per kind.\<close>

definition cbmem_tab :: "mem \<Rightarrow> ptr \<Rightarrow> ptr" where
  "cbmem_tab m p = ucast (load64 m (p + 8))"

definition cb_parse_tstamp :: "mem \<Rightarrow> ptr \<Rightarrow> sysinfo \<Rightarrow> sysinfo" where
  "cb_parse_tstamp m p info = info\<lparr>tstamp_table := cbmem_tab m p\<rparr>"

definition cb_parse_cbmem_cons :: "mem \<Rightarrow> ptr \<Rightarrow> sysinfo \<Rightarrow> sysinfo" where
  "cb_parse_cbmem_cons m p info = info\<lparr>cbmem_cons := cbmem_tab m p\<rparr>"

definition cb_parse_acpi_gnvs :: "mem \<Rightarrow> ptr \<Rightarrow> sysinfo \<Rightarrow> sysinfo" where
  "cb_parse_acpi_gnvs m p info = info\<lparr>acpi_gnvs := cbmem_tab m p\<rparr>"

definition cb_parse_wifi_calibration :: "mem \<Rightarrow> ptr \<Rightarrow> sysinfo \<Rightarrow> sysinfo" where
  "cb_parse_wifi_calibration m p info = info\<lparr>wifi_calibration := cbmem_tab m p\<rparr>"

definition cb_parse_vpd :: "mem \<Rightarrow> ptr \<Rightarrow> sysinfo \<Rightarrow> sysinfo" where
  "cb_parse_vpd m p info = info\<lparr>chromeos_vpd := cbmem_tab m p\<rparr>"

definition cb_parse_board_id :: "mem \<Rightarrow> ptr \<Rightarrow> sysinfo \<Rightarrow> sysinfo" where
  "cb_parse_board_id m p info = info\<lparr>board_id := load32 m (p + 8)\<rparr>"

definition cb_parse_ram_code :: "mem \<Rightarrow> ptr \<Rightarrow> sysinfo \<Rightarrow> sysinfo" where
  "cb_parse_ram_code m p info = info\<lparr>ram_code := load32 m (p + 8)\<rparr>"

definition cb_parse_sku_id :: "mem \<Rightarrow> ptr \<Rightarrow> sysinfo \<Rightarrow> sysinfo" where
  "cb_parse_sku_id m p info = info\<lparr>sku_id := load32 m (p + 8)\<rparr>"

definition cb_parse_optiontable :: "ptr \<Rightarrow> sysinfo \<Rightarrow> sysinfo" where
  "cb_parse_optiontable p info = info\<lparr>option_table := p\<rparr>"

definition cb_parse_checksum :: "mem \<Rightarrow> ptr \<Rightarrow> sysinfo \<Rightarrow> sysinfo" where
  "cb_parse_checksum m p info = info\<lparr>cmos_range_start := load32 m (p + 8), cmos_range_end := load32 m (p + 12),
     cmos_checksum_location := load32 m (p + 16)\<rparr>"

definition cb_parse_framebuffer :: "ptr \<Rightarrow> sysinfo \<Rightarrow> sysinfo" where
  "cb_parse_framebuffer p info = info\<lparr>framebuffer := p\<rparr>"

text \<open>The characters of a string record.\<close>

definition cb_parse_string :: "ptr \<Rightarrow> ptr" where
  "cb_parse_string p = p + 8"

definition cb_parse_ramoops :: "mem \<Rightarrow> ptr \<Rightarrow> sysinfo \<Rightarrow> sysinfo" where
  "cb_parse_ramoops m p info = info\<lparr>ramoops_buffer := load64 m (p + 8), ramoops_buffer_size := load32 m (p + 16)\<rparr>"

definition cb_parse_mtc :: "mem \<Rightarrow> ptr \<Rightarrow> sysinfo \<Rightarrow> sysinfo" where
  "cb_parse_mtc m p info = info\<lparr>mtc_start := load64 m (p + 8), mtc_size := load32 m (p + 16)\<rparr>"

definition cb_parse_spi_flash :: "mem \<Rightarrow> ptr \<Rightarrow> sysinfo \<Rightarrow> sysinfo" where
  "cb_parse_spi_flash m p info = info\<lparr>spi_flash := (load32 m (p + 8), load32 m (p + 12), load32 m (p + 16))\<rparr>"

definition cb_parse_boot_media_params :: "mem \<Rightarrow> ptr \<Rightarrow> sysinfo \<Rightarrow> sysinfo" where
  "cb_parse_boot_media_params m p info = info\<lparr>fmap_offset := load64 m (p + 8), cbfs_offset := load64 m (p + 16),
     cbfs_size := load64 m (p + 24), boot_media_size := load64 m (p + 32)\<rparr>"

definition cb_parse_tsc_info :: "mem \<Rightarrow> ptr \<Rightarrow> sysinfo \<Rightarrow> sysinfo" where
  "cb_parse_tsc_info m p info = (if load32 m (p + 8) = 0 then info else info\<lparr>cpu_khz := load32 m (p + 8)\<rparr>)"

definition cb_parse_arch_specific :: "mem \<Rightarrow> ptr \<Rightarrow> sysinfo \<Rightarrow> sysinfo" where
  "cb_parse_arch_specific m rec info =
     (if load32 m rec = CB_TAG_X86_ROM_MTRR then info\<lparr>x86_rom_var_mtrr_index := load32 m (rec + 8)\<rparr>
      else if load32 m rec = CB_TAG_MRC_CACHE then info\<lparr>mrc_cache := cbmem_tab m rec\<rparr>
      else info)"

text \<open>The switch over the tags, without the forwarding record, which ends the walk.\<close>

definition cb_parse_record :: "lp_config \<Rightarrow> mem \<Rightarrow> ptr \<Rightarrow> sysinfo \<Rightarrow> sysinfo" where
  "cb_parse_record cfg m p info =
     (let tag = load32 m p in
      if tag = LB_TAG_MEMORY then cb_parse_memory cfg m p info
      else if tag = LB_TAG_SERIAL then cb_parse_serial p info
      else if tag = LB_TAG_VERSION then info\<lparr>cb_version := cb_parse_string p\<rparr>
      else if tag = LB_TAG_EXTRA_VERSION then info\<lparr>extra_version := cb_parse_string p\<rparr>
      else if tag = LB_TAG_BUILD then info\<lparr>build := cb_parse_string p\<rparr>
      else if tag = LB_TAG_COMPILE_TIME then info\<lparr>compile_time := cb_parse_string p\<rparr>
      else if tag = CB_TAG_COMPILE_BY then info\<lparr>compile_by := cb_parse_string p\<rparr>
      else if tag = CB_TAG_COMPILE_HOST then info\<lparr>compile_host := cb_parse_string p\<rparr>
      else if tag = CB_TAG_COMPILE_DOMAIN then info\<lparr>compile_domain := cb_parse_string p\<rparr>
      else if tag = CB_TAG_COMPILER then info\<lparr>compiler := cb_parse_string p\<rparr>
      else if tag = CB_TAG_LINKER then info\<lparr>linker := cb_parse_string p\<rparr>
      else if tag = CB_TAG_ASSEMBLER then info\<lparr>assembler := cb_parse_string p\<rparr>
      else if tag = CB_TAG_CMOS_OPTION_TABLE \<and> lp_nvram cfg then cb_parse_optiontable p info
      else if tag = LB_TAG_OPTION_CHECKSUM \<and> lp_nvram cfg then cb_parse_checksum m p info
      else if tag = LB_TAG_FRAMEBUFFER \<and> lp_video_console cfg then cb_parse_framebuffer p info
      else if tag = LB_TAG_MAINBOARD then info\<lparr>mainboard := p\<rparr>
      else if tag = LB_TAG_GPIO then cb_parse_gpios m p info
      else if tag = LB_TAG_VBNV then cb_parse_vbnv m p info
      else if tag = LB_TAB_VBOOT_HANDOFF then cb_parse_vboot_handoff m p info
      else if tag = CB_TAG_MAC_ADDRS then cb_parse_mac_addresses m p info
      else if tag = CB_TAG_SERIALNO then info\<lparr>serialno := cb_parse_string p\<rparr>
      else if tag = LB_TAG_TIMESTAMPS then cb_parse_tstamp m p info
      else if tag = LB_TAG_CBMEM_CONSOLE then cb_parse_cbmem_cons m p info
      else if tag = LB_TAG_ACPI_GNVS then cb_parse_acpi_gnvs m p info
      else if tag = LB_TAG_BOARD_ID then cb_parse_board_id m p info
      else if tag = LB_TAG_RAM_CODE then cb_parse_ram_code m p info
      else if tag = LB_TAG_SKU_ID then cb_parse_sku_id m p info
      else if tag = LB_TAG_WIFI_CALIBRATION then cb_parse_wifi_calibration m p info
      else if tag = LB_TAG_RAM_OOPS then cb_parse_ramoops m p info
      else if tag = LB_TAG_SPI_FLASH then cb_parse_spi_flash m p info
      else if tag = CB_TAG_MTC then cb_parse_mtc m p info
      else if tag = LB_TAG_BOOT_MEDIA_PARAMS then cb_parse_boot_media_params m p info
      else if tag = LB_TAG_TSC_INFO \<and> lp_timer_rdtsc cfg then cb_parse_tsc_info m p info
      else if tag = LB_TAG_VPD then cb_parse_vpd m p info
      else cb_parse_arch_specific m p info)"

section \<open>The whole table\<close>

text \<open>The walk over the records: what was learnt, and the target of a forwarding record if one ended it.\<close>

primrec walk_records :: "lp_config \<Rightarrow> mem \<Rightarrow> nat \<Rightarrow> ptr \<Rightarrow> sysinfo \<Rightarrow> sysinfo \<times> ptr option" where
  "walk_records cfg m 0 p info = (info, None)"
| "walk_records cfg m (Suc n) p info =
     (if load32 m p = LB_TAG_FORWARD then (info, Some (ucast (load64 m (p + 8))))
      else walk_records cfg m n (p + load32 m (p + 4)) (cb_parse_record cfg m p info))"

text \<open>The search for the signature, in steps of 16 bytes below \<open>len\<close>; there are \<open>n\<close> steps to look at.\<close>

primrec find_header :: "mem \<Rightarrow> nat \<Rightarrow> ptr \<Rightarrow> ptr option" where
  "find_header m 0 p = None"
| "find_header m (Suc n) p = (if mem_read m p 4 = LBIO then Some p else find_header m n (p + 16))"

partial_function (option) cb_parse_header :: "lp_config \<Rightarrow> mem \<Rightarrow> ptr \<Rightarrow> nat \<Rightarrow> sysinfo \<Rightarrow> (int \<times> sysinfo) option" where
  "cb_parse_header cfg m addr len info =
     (case find_header m ((len + 15) div 16) addr of
        None \<Rightarrow> Some (-1, info)
      | Some p \<Rightarrow>
          if ipchksum (mem_read m p 24) \<noteq> 0 then Some (-1, info)
          else if load32 m (table_bytes p) = 0 then Some (0, info)
          else if ucast (ipchksum (mem_read m (p + 24) (unat (load32 m (table_bytes p))))) \<noteq> load32 m (table_checksum p)
          then Some (-1, info)
          else
            let info = info\<lparr>header := p, board_id := UNDEFINED_STRAPPING_ID, ram_code := UNDEFINED_STRAPPING_ID,
                  sku_id := UNDEFINED_STRAPPING_ID\<rparr>;
                (info, forward) = walk_records cfg m (unat (load32 m (table_entries p))) (p + load32 m (p + 4)) info
            in case forward of None \<Rightarrow> Some (0, info) | Some target \<Rightarrow> cb_parse_header cfg m target len info)"

definition get_coreboot_info :: "lp_config \<Rightarrow> mem \<Rightarrow> sysinfo \<Rightarrow> (int \<times> sysinfo) option" where
  "get_coreboot_info cfg m info =
     (let info = info\<lparr>x86_rom_var_mtrr_index := - 1\<rparr> in
      case cb_parse_header cfg m 0 0x1000 info of
        None \<Rightarrow> None
      | Some (ret, info) \<Rightarrow> if ret \<noteq> 0 then cb_parse_header cfg m 0xf0000 0x1000 info else Some (ret, info))"

end
