(* ===== verification/Lb_Fields.thy ===== *)
theory Lb_Fields
  imports Lb_Payload
begin

text \<open>
  What the payload's reader makes of a closed table: both checksums hold, the walk visits every
  record, a forwarding table hands over, and each field of the result is set by the records of
  one tag, which is the contract a locale states and each field fulfils.
\<close>

section \<open>Walking a closed table\<close>

primrec positions :: "ptr \<Rightarrow> u8 list list \<Rightarrow> (ptr \<times> u8 list) list" where
  "positions p [] = []"
| "positions p (r # rs) = (p, r) # positions (p + of_nat (length r)) rs"

definition rec_tag :: "u8 list \<Rightarrow> u32" where
  "rec_tag r = le_decode (take 4 r)"

definition parse_all :: "lp_config \<Rightarrow> mem \<Rightarrow> (ptr \<times> u8 list) list \<Rightarrow> sysinfo \<Rightarrow> sysinfo" where
  "parse_all cfg m prs = fold (\<lambda>(p, r). cb_parse_record cfg m p) prs"

lemma map_snd_positions [simp]: "map snd (positions p rs) = rs"
  by (induction rs arbitrary: p) simp_all

lemma positions_read:
  "mem_read m p (length (concat rs)) = concat rs \<Longrightarrow> (q, r) \<in> set (positions p rs) \<Longrightarrow> mem_read m q (length r) = r"
proof (induction rs arbitrary: p)
  case (Cons r' rs)
  have "mem_read m p (length r') @ mem_read m (p + of_nat (length r')) (length (concat rs)) = r' @ concat rs"
    using Cons.prems(1) by (simp add: mem_read_append)
  then have "mem_read m p (length r') = r'" "mem_read m (p + of_nat (length r')) (length (concat rs)) = concat rs" by simp_all
  then show ?case using Cons.IH Cons.prems(2) by auto
qed simp

lemma read_tag: "mem_read m p (length r) = r \<Longrightarrow> 4 \<le> length r \<Longrightarrow> load32 m p = rec_tag r"
  using mem_read_part [of 0 4 "length r" m p] by (simp add: load32_def rec_tag_def)

lemma read_field: "mem_read m p (length r) = r \<Longrightarrow> k + 4 \<le> length r \<Longrightarrow> load32 m (p + of_nat k) = le_decode (take 4 (drop k r))"
  using load32_part [of k "length r" m p] by simp

lemma walk_closed:
  assumes "\<forall>r\<in>set rs. rec_wf r \<and> rec_tag r \<noteq> LB_TAG_FORWARD" and "mem_read m p (length (concat rs)) = concat rs"
  shows "walk_records cfg m (length rs) p info = (parse_all cfg m (positions p rs) info, None)"
  using assms
proof (induction rs arbitrary: p info)
  case (Cons r rs)
  have "mem_read m p (length r) @ mem_read m (p + of_nat (length r)) (length (concat rs)) = r @ concat rs"
    using Cons.prems(2) by (simp add: mem_read_append)
  then have r: "mem_read m p (length r) = r" and rest: "mem_read m (p + of_nat (length r)) (length (concat rs)) = concat rs" by simp_all
  have wf: "rec_wf r" "rec_tag r \<noteq> LB_TAG_FORWARD" using Cons.prems(1) by simp_all
  then have "load32 m p \<noteq> LB_TAG_FORWARD" using read_tag [OF r] by (simp add: rec_wf_def)
  moreover have "load32 m (p + 4) = of_nat (length r)" using read_field [OF r, of 4] wf(1) by (simp add: rec_wf_def)
  ultimately show ?case using Cons.IH [OF _ rest] Cons.prems(1) by (simp add: parse_all_def)
qed (simp add: parse_all_def)

lemma find_header_here: "0 < n \<Longrightarrow> mem_read m p 4 = LBIO \<Longrightarrow> find_header m n p = Some p"
  by (cases n) simp_all

text \<open>The checks succeed on a closed table, of at most 64 KiB of records.\<close>

lemma closed_checks:
  assumes "lb_closed m p rs" and "rs \<noteq> []" and "length (concat rs) \<le> 65536"
  shows "mem_read m p 4 = LBIO" and "ipchksum (mem_read m p 24) = 0" and "load32 m (table_bytes p) = of_nat (length (concat rs))"
    and "load32 m (table_bytes p) \<noteq> 0" and "load32 m (table_entries p) = of_nat (length rs)" and "load32 m (p + 4) = 24"
    and "mem_read m (p + 24) (length (concat rs)) = concat rs"
    and "ucast (ipchksum (mem_read m (p + 24) (unat (load32 m (table_bytes p))))) = load32 m (table_checksum p)"
proof -
  let ?L = "length (concat rs)"
  define tc where "tc = compute_ip_checksum (concat rs)"
  define hc where "hc = compute_ip_checksum (lb_header 0 (of_nat ?L) tc (of_nat (length rs)))"
  have m: "mem_read m p (24 + ?L) = lb_header hc (of_nat ?L) tc (of_nat (length rs)) @ concat rs"
    and n: "24 + ?L < 2 ^ 32" and wf: "\<forall>r\<in>set rs. rec_wf r"
    using assms(1) by (simp_all add: lb_closed_def Let_def tc_def hc_def)
  have head: "mem_read m p 24 = lb_header hc (of_nat ?L) tc (of_nat (length rs))" using mem_read_part [of 0 24 "24 + ?L" m p] m by simp
  show "mem_read m p 4 = LBIO" using mem_read_part [of 0 4 24 m p] head by (simp add: lb_header_def LBIO_def)
  show "load32 m (p + 4) = 24" using load32_part [of 4 24 m p] head by (simp add: lb_header_def LBIO_def)
  show "ipchksum (mem_read m p 24) = 0" unfolding head by (rule header_checks) (simp add: hc_def)
  show tb: "load32 m (table_bytes p) = of_nat ?L" and "load32 m (table_entries p) = of_nat (length rs)" using header_loads [OF m] by simp_all
  show body: "mem_read m (p + 24) ?L = concat rs" using mem_read_part [of 24 ?L "24 + ?L" m p] m by simp
  have L: "unat (of_nat ?L :: u32) = ?L" using n by (simp add: unat_of_nat_id)
  have "0 < ?L" using rec_wf_count [OF wf] assms(2) length_greater_0_conv [of rs] by linarith
  then show "load32 m (table_bytes p) \<noteq> 0" using tb L by (metis unat_0 less_irrefl)
  show "ucast (ipchksum (mem_read m (p + 24) (unat (load32 m (table_bytes p))))) = load32 m (table_checksum p)"
    using header_loads(3) [OF m] ipchksum_fold [OF assms(3)] compute_ip_checksum_fold [of "concat rs"]
    unfolding tb L body tc_def by (simp add: word_unat_eq_iff unat_ucast_up)
qed

lemma parse_closed:
  assumes "lb_closed m p rs" and "rs \<noteq> []" and "length (concat rs) \<le> 65536" and "0 < len"
    and "\<forall>r\<in>set rs. rec_tag r \<noteq> LB_TAG_FORWARD"
  shows "cb_parse_header cfg m p len info = Some (0, parse_all cfg m (positions (p + 24) rs)
    (info\<lparr>header := p, board_id := UNDEFINED_STRAPPING_ID, ram_code := UNDEFINED_STRAPPING_ID, sku_id := UNDEFINED_STRAPPING_ID\<rparr>))"
proof -
  note c = closed_checks [OF assms(1-3)]
  have wf: "\<forall>r\<in>set rs. rec_wf r" and n: "length (concat rs) < 2 ^ 32" using assms(1) by (simp_all add: lb_closed_def)
  have entries: "unat (of_nat (length rs) :: u32) = length rs" using rec_wf_count [OF wf] n by (intro unat_of_nat_id) simp
  have found: "find_header m ((len + 15) div 16) p = Some p" using c(1) assms(4) by (intro find_header_here) (simp_all add: div_greater_zero_iff)
  show ?thesis
    using walk_closed [OF _ c(7)] wf assms(5) c entries
    by (subst cb_parse_header.simps) (simp add: found Let_def)
qed

text \<open>A table that only forwards hands the reading over.\<close>

lemma find_header_at:
  "k < n \<Longrightarrow> mem_read m (a + 16 * of_nat k) 4 = LBIO \<Longrightarrow> (\<forall>i<k. mem_read m (a + 16 * of_nat i) 4 \<noteq> LBIO) \<Longrightarrow>
    find_header m n a = Some (a + 16 * of_nat k)"
proof (induction n arbitrary: a k)
  case (Suc n)
  show ?case
  proof (cases k)
    case 0
    then show ?thesis using Suc.prems by simp
  next
    case (Suc j)
    have next_: "a + 16 * of_nat (Suc i) = a + 16 + 16 * of_nat i" for i by (simp add: distrib_left)
    have "find_header m n (a + 16) = Some (a + 16 + 16 * of_nat j)"
    proof (rule Suc.IH)
      show "j < n" using Suc.prems(1) Suc by simp
      show "mem_read m (a + 16 + 16 * of_nat j) 4 = LBIO" using Suc.prems(2) unfolding Suc next_ .
      show "\<forall>i<j. mem_read m (a + 16 + 16 * of_nat i) 4 \<noteq> LBIO"
        using Suc.prems(3) Suc next_ by (metis Suc_less_eq)
    qed
    moreover have "mem_read m a 4 \<noteq> LBIO" using Suc.prems(3) Suc by force
    ultimately show ?thesis using Suc next_ [of j] by simp
  qed
qed simp

lemma rec_is_parts:
  assumes "rec_is s r"
  shows "rec_tag r = lr_tag s" and "k + j \<le> length (lr_body s) \<Longrightarrow> take j (drop (8 + k) r) = take j (drop k (lr_body s))"
    and "8 + length (lr_body s) \<le> length r"
proof -
  have pre: "take (8 + length (lr_body s)) r = rec_bytes s" using assms by (simp add: rec_is_def)
  show len: "8 + length (lr_body s) \<le> length r" using arg_cong [OF pre, of length] by (simp add: min_def split: if_splits)
  have "take 4 r = take 4 (take (8 + length (lr_body s)) r)" by simp
  also have "\<dots> = le_encode 4 (lr_tag s)" unfolding pre by (simp add: rec_bytes_def)
  finally show "rec_tag r = lr_tag s" by (simp add: rec_tag_def)
  assume "k + j \<le> length (lr_body s)"
  then have "take j (drop (8 + k) r) = take j (drop (8 + k) (take (8 + length (lr_body s)) r))" by (simp add: drop_take)
  also have "\<dots> = take j (drop k (lr_body s))" unfolding pre by (simp add: rec_bytes_def)
  finally show "take j (drop (8 + k) r) = take j (drop k (lr_body s))" .
qed

lemma read_body:
  assumes "rec_is s r" and "mem_read m p (length r) = r" and "k + j \<le> length (lr_body s)"
  shows "mem_read m (p + of_nat (8 + k)) j = take j (drop k (lr_body s))"
  using mem_read_part [of "8 + k" j "length r" m p] rec_is_parts(2) [OF assms(1,3)] rec_is_parts(3) [OF assms(1)] assms(2,3) by simp

lemma parse_forward:
  assumes "lb_closed m p [r]" and "rec_is (forward_record target) r" and "find_header m ((len + 15) div 16) addr = Some p"
  shows "cb_parse_header cfg m addr len info = cb_parse_header cfg m target len
    (info\<lparr>header := p, board_id := UNDEFINED_STRAPPING_ID, ram_code := UNDEFINED_STRAPPING_ID, sku_id := UNDEFINED_STRAPPING_ID\<rparr>)"
proof -
  have len: "length r = 16" using assms(2) by (simp add: rec_is_def forward_record_def)
  note c = closed_checks [OF assms(1)]
  have r: "mem_read m (p + 24) (length r) = r" using c(7) len by simp
  have tag: "load32 m (p + 24) = LB_TAG_FORWARD"
    using read_tag [OF r] len rec_is_parts(1) [OF assms(2)] by (simp add: forward_record_def)
  have "mem_read m (p + 24 + of_nat (8 + 0)) 8 = le_encode 8 (ucast target :: u64)"
    using read_body [OF assms(2) r, of 0 8] by (simp add: forward_record_def)
  then have fwd: "load64 m (p + 24 + 8) = ucast target" by (simp add: load64_def)
  have same: "ucast (ucast target :: u64) = (target :: ptr)" by (intro bit_eqI) (auto simp: bit_simps dest: bit_imp_le_length)
  show ?thesis
    using c len tag fwd same by (subst cb_parse_header.simps) (simp add: assms(3) Let_def)
qed

section \<open>What the payload learns, field by field\<close>

text \<open>A field that only records of one tag set, to a value they determine.\<close>

locale sysinfo_field =
  fixes field :: "sysinfo \<Rightarrow> 'a" and tag :: u32 and reads :: "lp_config \<Rightarrow> mem \<Rightarrow> ptr \<Rightarrow> 'a"
  assumes other_tag: "load32 m p \<noteq> tag \<Longrightarrow> field (cb_parse_record cfg m p info) = field info"
    and own_tag: "load32 m p = tag \<Longrightarrow> field (cb_parse_record cfg m p info) = reads cfg m p"
begin

lemma field_none:
  "list_all2 rec_is ss rs \<Longrightarrow> \<forall>r\<in>set rs. rec_wf r \<Longrightarrow> mem_read m p (length (concat rs)) = concat rs \<Longrightarrow>
    filter (\<lambda>s. lr_tag s = tag) ss = [] \<Longrightarrow> field (parse_all cfg m (positions p rs) info) = field info"
proof (induction arbitrary: p info rule: list_all2_induct)
  case (Cons s ss r rs)
  have "mem_read m p (length r) @ mem_read m (p + of_nat (length r)) (length (concat rs)) = r @ concat rs"
    using Cons.prems(2) by (simp add: mem_read_append)
  then have r: "mem_read m p (length r) = r" and rest: "mem_read m (p + of_nat (length r)) (length (concat rs)) = concat rs" by simp_all
  have "load32 m p = lr_tag s" using read_tag [OF r] Cons.prems(1) rec_is_parts(1) [OF Cons.hyps(1)] by (simp add: rec_wf_def)
  then have "field (cb_parse_record cfg m p info) = field info" using Cons.prems(3) by (intro other_tag) (auto split: if_splits)
  then show ?case using Cons.IH [OF _ rest] Cons.prems by (simp add: parse_all_def split: if_splits)
qed (simp add: parse_all_def)

lemma field_one:
  "list_all2 rec_is ss rs \<Longrightarrow> \<forall>r\<in>set rs. rec_wf r \<Longrightarrow> mem_read m p (length (concat rs)) = concat rs \<Longrightarrow>
    filter (\<lambda>s. lr_tag s = tag) ss = [s] \<Longrightarrow>
    \<exists>q r. rec_is s r \<and> mem_read m q (length r) = r \<and> field (parse_all cfg m (positions p rs) info) = reads cfg m q"
proof (induction arbitrary: p info rule: list_all2_induct)
  case (Cons s' ss r rs)
  have "mem_read m p (length r) @ mem_read m (p + of_nat (length r)) (length (concat rs)) = r @ concat rs"
    using Cons.prems(2) by (simp add: mem_read_append)
  then have r: "mem_read m p (length r) = r" and rest: "mem_read m (p + of_nat (length r)) (length (concat rs)) = concat rs" by simp_all
  have load: "load32 m p = lr_tag s'" using read_tag [OF r] Cons.prems(1) rec_is_parts(1) [OF Cons.hyps(1)] by (simp add: rec_wf_def)
  have all: "parse_all cfg m (positions p (r # rs)) info = parse_all cfg m (positions (p + of_nat (length r)) rs) (cb_parse_record cfg m p info)"
    by (simp add: parse_all_def)
  show ?case
  proof (cases "lr_tag s' = tag")
    case True
    then have "s = s'" "filter (\<lambda>s. lr_tag s = tag) ss = []" using Cons.prems(3) by simp_all
    then show ?thesis
      using field_none [OF Cons.hyps(2) _ rest] Cons.prems(1) Cons.hyps(1) r own_tag load True unfolding all by auto
  next
    case False
    then have "filter (\<lambda>s. lr_tag s = tag) ss = [s]" using Cons.prems(3) by simp
    then show ?thesis using Cons.IH [OF _ rest, of "cb_parse_record cfg m p info"] Cons.prems(1) unfolding all by simp
  qed
qed simp

end

lemmas lb_table_tags = LB_TAG_UNUSED_def LB_TAG_MEMORY_def LB_TAG_MAINBOARD_def LB_TAG_VERSION_def LB_TAG_EXTRA_VERSION_def
  LB_TAG_BUILD_def LB_TAG_COMPILE_TIME_def LB_TAG_VERSION_TIMESTAMP_def LB_TAG_SERIAL_def LB_TAG_CONSOLE_def LB_TAG_FORWARD_def
  LB_TAG_FRAMEBUFFER_def LB_TAG_GPIO_def LB_TAG_VBNV_def LB_TAB_VBOOT_HANDOFF_def LB_TAG_RAM_OOPS_def LB_TAG_TIMESTAMPS_def
  LB_TAG_CBMEM_CONSOLE_def LB_TAG_ACPI_GNVS_def LB_TAG_TCPA_LOG_def LB_TAG_WIFI_CALIBRATION_def LB_TAG_VPD_def LB_TAG_BOARD_ID_def
  LB_TAG_RAM_CODE_def LB_TAG_SKU_ID_def LB_TAG_SPI_FLASH_def LB_TAG_BOOT_MEDIA_PARAMS_def LB_TAG_CBMEM_ENTRY_def LB_TAG_TSC_INFO_def
  LB_TAG_OPTION_CHECKSUM_def

lemmas cb_payload_tags = CB_TAG_MTC_def CB_TAG_MRC_CACHE_def CB_TAG_X86_ROM_MTRR_def CB_TAG_MAC_ADDRS_def CB_TAG_SERIALNO_def
  CB_TAG_CMOS_OPTION_TABLE_def CB_TAG_COMPILE_BY_def CB_TAG_COMPILE_HOST_def CB_TAG_COMPILE_DOMAIN_def CB_TAG_COMPILER_def
  CB_TAG_LINKER_def CB_TAG_ASSEMBLER_def

lemmas cb_parsers = cb_parse_memory_def cb_parse_serial_def cb_parse_vboot_handoff_def cb_parse_vbnv_def cb_parse_gpios_def
  cb_parse_mac_addresses_def cb_parse_tstamp_def cb_parse_cbmem_cons_def cb_parse_acpi_gnvs_def cb_parse_wifi_calibration_def
  cb_parse_vpd_def cb_parse_board_id_def cb_parse_ram_code_def cb_parse_sku_id_def cb_parse_optiontable_def cb_parse_checksum_def
  cb_parse_framebuffer_def cb_parse_ramoops_def cb_parse_mtc_def cb_parse_spi_flash_def cb_parse_boot_media_params_def
  cb_parse_tsc_info_def cb_parse_arch_specific_def

lemma board_id_kept:
  "board_id (cb_parse_memory cfg m p info) = board_id info" "board_id (cb_parse_serial p info) = board_id info" "board_id (cb_parse_vboot_handoff m p info) = board_id info"
  "board_id (cb_parse_vbnv m p info) = board_id info" "board_id (cb_parse_gpios m p info) = board_id info" "board_id (cb_parse_mac_addresses m p info) = board_id info"
  "board_id (cb_parse_tstamp m p info) = board_id info" "board_id (cb_parse_cbmem_cons m p info) = board_id info" "board_id (cb_parse_acpi_gnvs m p info) = board_id info"
  "board_id (cb_parse_wifi_calibration m p info) = board_id info" "board_id (cb_parse_vpd m p info) = board_id info" "board_id (cb_parse_ram_code m p info) = board_id info"
  "board_id (cb_parse_sku_id m p info) = board_id info" "board_id (cb_parse_optiontable p info) = board_id info" "board_id (cb_parse_checksum m p info) = board_id info"
  "board_id (cb_parse_framebuffer p info) = board_id info" "board_id (cb_parse_ramoops m p info) = board_id info" "board_id (cb_parse_mtc m p info) = board_id info"
  "board_id (cb_parse_spi_flash m p info) = board_id info" "board_id (cb_parse_boot_media_params m p info) = board_id info" "board_id (cb_parse_tsc_info m p info) = board_id info"
  "board_id (cb_parse_arch_specific m p info) = board_id info"
  by (simp_all add: cb_parsers Let_def)

interpretation board: sysinfo_field board_id LB_TAG_BOARD_ID "\<lambda>cfg m p. load32 m (p + 8)"
proof
  show "load32 m p \<noteq> LB_TAG_BOARD_ID \<Longrightarrow> board_id (cb_parse_record cfg m p info) = board_id info" for m p cfg info
    by (simp add: cb_parse_record_def board_id_kept Let_def)
  show "load32 m p = LB_TAG_BOARD_ID \<Longrightarrow> board_id (cb_parse_record cfg m p info) = load32 m (p + 8)" for m p cfg info
    by (simp add: cb_parse_record_def cb_parse_board_id_def Let_def lb_table_tags cb_payload_tags)
qed

lemma ram_code_kept:
  "ram_code (cb_parse_memory cfg m p info) = ram_code info" "ram_code (cb_parse_serial p info) = ram_code info" "ram_code (cb_parse_vboot_handoff m p info) = ram_code info"
  "ram_code (cb_parse_vbnv m p info) = ram_code info" "ram_code (cb_parse_gpios m p info) = ram_code info" "ram_code (cb_parse_mac_addresses m p info) = ram_code info"
  "ram_code (cb_parse_tstamp m p info) = ram_code info" "ram_code (cb_parse_cbmem_cons m p info) = ram_code info" "ram_code (cb_parse_acpi_gnvs m p info) = ram_code info"
  "ram_code (cb_parse_wifi_calibration m p info) = ram_code info" "ram_code (cb_parse_vpd m p info) = ram_code info" "ram_code (cb_parse_board_id m p info) = ram_code info"
  "ram_code (cb_parse_sku_id m p info) = ram_code info" "ram_code (cb_parse_optiontable p info) = ram_code info" "ram_code (cb_parse_checksum m p info) = ram_code info"
  "ram_code (cb_parse_framebuffer p info) = ram_code info" "ram_code (cb_parse_ramoops m p info) = ram_code info" "ram_code (cb_parse_mtc m p info) = ram_code info"
  "ram_code (cb_parse_spi_flash m p info) = ram_code info" "ram_code (cb_parse_boot_media_params m p info) = ram_code info" "ram_code (cb_parse_tsc_info m p info) = ram_code info"
  "ram_code (cb_parse_arch_specific m p info) = ram_code info"
  by (simp_all add: cb_parsers Let_def)

interpretation ram: sysinfo_field ram_code LB_TAG_RAM_CODE "\<lambda>cfg m p. load32 m (p + 8)"
proof
  show "load32 m p \<noteq> LB_TAG_RAM_CODE \<Longrightarrow> ram_code (cb_parse_record cfg m p info) = ram_code info" for m p cfg info
    by (simp add: cb_parse_record_def ram_code_kept Let_def)
  show "load32 m p = LB_TAG_RAM_CODE \<Longrightarrow> ram_code (cb_parse_record cfg m p info) = load32 m (p + 8)" for m p cfg info
    by (simp add: cb_parse_record_def cb_parse_ram_code_def Let_def lb_table_tags cb_payload_tags)
qed

lemma sku_id_kept:
  "sku_id (cb_parse_memory cfg m p info) = sku_id info" "sku_id (cb_parse_serial p info) = sku_id info" "sku_id (cb_parse_vboot_handoff m p info) = sku_id info"
  "sku_id (cb_parse_vbnv m p info) = sku_id info" "sku_id (cb_parse_gpios m p info) = sku_id info" "sku_id (cb_parse_mac_addresses m p info) = sku_id info"
  "sku_id (cb_parse_tstamp m p info) = sku_id info" "sku_id (cb_parse_cbmem_cons m p info) = sku_id info" "sku_id (cb_parse_acpi_gnvs m p info) = sku_id info"
  "sku_id (cb_parse_wifi_calibration m p info) = sku_id info" "sku_id (cb_parse_vpd m p info) = sku_id info" "sku_id (cb_parse_board_id m p info) = sku_id info"
  "sku_id (cb_parse_ram_code m p info) = sku_id info" "sku_id (cb_parse_optiontable p info) = sku_id info" "sku_id (cb_parse_checksum m p info) = sku_id info"
  "sku_id (cb_parse_framebuffer p info) = sku_id info" "sku_id (cb_parse_ramoops m p info) = sku_id info" "sku_id (cb_parse_mtc m p info) = sku_id info"
  "sku_id (cb_parse_spi_flash m p info) = sku_id info" "sku_id (cb_parse_boot_media_params m p info) = sku_id info" "sku_id (cb_parse_tsc_info m p info) = sku_id info"
  "sku_id (cb_parse_arch_specific m p info) = sku_id info"
  by (simp_all add: cb_parsers Let_def)

interpretation sku: sysinfo_field sku_id LB_TAG_SKU_ID "\<lambda>cfg m p. load32 m (p + 8)"
proof
  show "load32 m p \<noteq> LB_TAG_SKU_ID \<Longrightarrow> sku_id (cb_parse_record cfg m p info) = sku_id info" for m p cfg info
    by (simp add: cb_parse_record_def sku_id_kept Let_def)
  show "load32 m p = LB_TAG_SKU_ID \<Longrightarrow> sku_id (cb_parse_record cfg m p info) = load32 m (p + 8)" for m p cfg info
    by (simp add: cb_parse_record_def cb_parse_sku_id_def Let_def lb_table_tags cb_payload_tags)
qed

lemma cb_version_kept:
  "cb_version (cb_parse_memory cfg m p info) = cb_version info" "cb_version (cb_parse_serial p info) = cb_version info" "cb_version (cb_parse_vboot_handoff m p info) = cb_version info"
  "cb_version (cb_parse_vbnv m p info) = cb_version info" "cb_version (cb_parse_gpios m p info) = cb_version info" "cb_version (cb_parse_mac_addresses m p info) = cb_version info"
  "cb_version (cb_parse_tstamp m p info) = cb_version info" "cb_version (cb_parse_cbmem_cons m p info) = cb_version info" "cb_version (cb_parse_acpi_gnvs m p info) = cb_version info"
  "cb_version (cb_parse_wifi_calibration m p info) = cb_version info" "cb_version (cb_parse_vpd m p info) = cb_version info" "cb_version (cb_parse_board_id m p info) = cb_version info"
  "cb_version (cb_parse_ram_code m p info) = cb_version info" "cb_version (cb_parse_sku_id m p info) = cb_version info" "cb_version (cb_parse_optiontable p info) = cb_version info"
  "cb_version (cb_parse_checksum m p info) = cb_version info" "cb_version (cb_parse_framebuffer p info) = cb_version info" "cb_version (cb_parse_ramoops m p info) = cb_version info"
  "cb_version (cb_parse_mtc m p info) = cb_version info" "cb_version (cb_parse_spi_flash m p info) = cb_version info" "cb_version (cb_parse_boot_media_params m p info) = cb_version info"
  "cb_version (cb_parse_tsc_info m p info) = cb_version info" "cb_version (cb_parse_arch_specific m p info) = cb_version info"
  by (simp_all add: cb_parsers Let_def)

interpretation version: sysinfo_field cb_version LB_TAG_VERSION "\<lambda>cfg m p. p + 8"
proof
  show "load32 m p \<noteq> LB_TAG_VERSION \<Longrightarrow> cb_version (cb_parse_record cfg m p info) = cb_version info" for m p cfg info
    by (simp add: cb_parse_record_def cb_version_kept Let_def)
  show "load32 m p = LB_TAG_VERSION \<Longrightarrow> cb_version (cb_parse_record cfg m p info) = p + 8" for m p cfg info
    by (simp add: cb_parse_record_def cb_parse_string_def Let_def lb_table_tags cb_payload_tags)
qed

lemma memrange_kept:
  "memrange (cb_parse_serial p info) = memrange info" "memrange (cb_parse_vboot_handoff m p info) = memrange info" "memrange (cb_parse_vbnv m p info) = memrange info"
  "memrange (cb_parse_gpios m p info) = memrange info" "memrange (cb_parse_mac_addresses m p info) = memrange info" "memrange (cb_parse_tstamp m p info) = memrange info"
  "memrange (cb_parse_cbmem_cons m p info) = memrange info" "memrange (cb_parse_acpi_gnvs m p info) = memrange info" "memrange (cb_parse_wifi_calibration m p info) = memrange info"
  "memrange (cb_parse_vpd m p info) = memrange info" "memrange (cb_parse_board_id m p info) = memrange info" "memrange (cb_parse_ram_code m p info) = memrange info"
  "memrange (cb_parse_sku_id m p info) = memrange info" "memrange (cb_parse_optiontable p info) = memrange info" "memrange (cb_parse_checksum m p info) = memrange info"
  "memrange (cb_parse_framebuffer p info) = memrange info" "memrange (cb_parse_ramoops m p info) = memrange info" "memrange (cb_parse_mtc m p info) = memrange info"
  "memrange (cb_parse_spi_flash m p info) = memrange info" "memrange (cb_parse_boot_media_params m p info) = memrange info" "memrange (cb_parse_tsc_info m p info) = memrange info"
  "memrange (cb_parse_arch_specific m p info) = memrange info"
  by (simp_all add: cb_parsers Let_def)

interpretation ranges: sysinfo_field memrange LB_TAG_MEMORY "\<lambda>cfg m p. memrange (cb_parse_memory cfg m p undefined)"
proof
  show "load32 m p \<noteq> LB_TAG_MEMORY \<Longrightarrow> memrange (cb_parse_record cfg m p info) = memrange info" for m p cfg info
    by (simp add: cb_parse_record_def memrange_kept Let_def)
  show "load32 m p = LB_TAG_MEMORY \<Longrightarrow> memrange (cb_parse_record cfg m p info) = memrange (cb_parse_memory cfg m p undefined)" for m p cfg info
    by (simp add: cb_parse_record_def cb_parse_memory_def Let_def lb_table_tags cb_payload_tags)
qed

lemma tstamp_table_kept:
  "tstamp_table (cb_parse_memory cfg m p info) = tstamp_table info" "tstamp_table (cb_parse_serial p info) = tstamp_table info" "tstamp_table (cb_parse_vboot_handoff m p info) = tstamp_table info"
  "tstamp_table (cb_parse_vbnv m p info) = tstamp_table info" "tstamp_table (cb_parse_gpios m p info) = tstamp_table info" "tstamp_table (cb_parse_mac_addresses m p info) = tstamp_table info"
  "tstamp_table (cb_parse_cbmem_cons m p info) = tstamp_table info" "tstamp_table (cb_parse_acpi_gnvs m p info) = tstamp_table info" "tstamp_table (cb_parse_wifi_calibration m p info) = tstamp_table info"
  "tstamp_table (cb_parse_vpd m p info) = tstamp_table info" "tstamp_table (cb_parse_board_id m p info) = tstamp_table info" "tstamp_table (cb_parse_ram_code m p info) = tstamp_table info"
  "tstamp_table (cb_parse_sku_id m p info) = tstamp_table info" "tstamp_table (cb_parse_optiontable p info) = tstamp_table info" "tstamp_table (cb_parse_checksum m p info) = tstamp_table info"
  "tstamp_table (cb_parse_framebuffer p info) = tstamp_table info" "tstamp_table (cb_parse_ramoops m p info) = tstamp_table info" "tstamp_table (cb_parse_mtc m p info) = tstamp_table info"
  "tstamp_table (cb_parse_spi_flash m p info) = tstamp_table info" "tstamp_table (cb_parse_boot_media_params m p info) = tstamp_table info" "tstamp_table (cb_parse_tsc_info m p info) = tstamp_table info"
  "tstamp_table (cb_parse_arch_specific m p info) = tstamp_table info"
  by (simp_all add: cb_parsers Let_def)

interpretation tstamp: sysinfo_field tstamp_table LB_TAG_TIMESTAMPS "\<lambda>cfg m p. cbmem_tab m p"
proof
  show "load32 m p \<noteq> LB_TAG_TIMESTAMPS \<Longrightarrow> tstamp_table (cb_parse_record cfg m p info) = tstamp_table info" for m p cfg info
    by (simp add: cb_parse_record_def tstamp_table_kept Let_def)
  show "load32 m p = LB_TAG_TIMESTAMPS \<Longrightarrow> tstamp_table (cb_parse_record cfg m p info) = cbmem_tab m p" for m p cfg info
    by (simp add: cb_parse_record_def cb_parse_tstamp_def Let_def lb_table_tags cb_payload_tags)
qed

lemma acpi_gnvs_kept:
  "acpi_gnvs (cb_parse_memory cfg m p info) = acpi_gnvs info" "acpi_gnvs (cb_parse_serial p info) = acpi_gnvs info" "acpi_gnvs (cb_parse_vboot_handoff m p info) = acpi_gnvs info"
  "acpi_gnvs (cb_parse_vbnv m p info) = acpi_gnvs info" "acpi_gnvs (cb_parse_gpios m p info) = acpi_gnvs info" "acpi_gnvs (cb_parse_mac_addresses m p info) = acpi_gnvs info"
  "acpi_gnvs (cb_parse_tstamp m p info) = acpi_gnvs info" "acpi_gnvs (cb_parse_cbmem_cons m p info) = acpi_gnvs info" "acpi_gnvs (cb_parse_wifi_calibration m p info) = acpi_gnvs info"
  "acpi_gnvs (cb_parse_vpd m p info) = acpi_gnvs info" "acpi_gnvs (cb_parse_board_id m p info) = acpi_gnvs info" "acpi_gnvs (cb_parse_ram_code m p info) = acpi_gnvs info"
  "acpi_gnvs (cb_parse_sku_id m p info) = acpi_gnvs info" "acpi_gnvs (cb_parse_optiontable p info) = acpi_gnvs info" "acpi_gnvs (cb_parse_checksum m p info) = acpi_gnvs info"
  "acpi_gnvs (cb_parse_framebuffer p info) = acpi_gnvs info" "acpi_gnvs (cb_parse_ramoops m p info) = acpi_gnvs info" "acpi_gnvs (cb_parse_mtc m p info) = acpi_gnvs info"
  "acpi_gnvs (cb_parse_spi_flash m p info) = acpi_gnvs info" "acpi_gnvs (cb_parse_boot_media_params m p info) = acpi_gnvs info" "acpi_gnvs (cb_parse_tsc_info m p info) = acpi_gnvs info"
  "acpi_gnvs (cb_parse_arch_specific m p info) = acpi_gnvs info"
  by (simp_all add: cb_parsers Let_def)

interpretation gnvs: sysinfo_field acpi_gnvs LB_TAG_ACPI_GNVS "\<lambda>cfg m p. cbmem_tab m p"
proof
  show "load32 m p \<noteq> LB_TAG_ACPI_GNVS \<Longrightarrow> acpi_gnvs (cb_parse_record cfg m p info) = acpi_gnvs info" for m p cfg info
    by (simp add: cb_parse_record_def acpi_gnvs_kept Let_def)
  show "load32 m p = LB_TAG_ACPI_GNVS \<Longrightarrow> acpi_gnvs (cb_parse_record cfg m p info) = cbmem_tab m p" for m p cfg info
    by (simp add: cb_parse_record_def cb_parse_acpi_gnvs_def Let_def lb_table_tags cb_payload_tags)
qed

lemma mainboard_kept:
  "mainboard (cb_parse_memory cfg m p info) = mainboard info" "mainboard (cb_parse_serial p info) = mainboard info" "mainboard (cb_parse_vboot_handoff m p info) = mainboard info"
  "mainboard (cb_parse_vbnv m p info) = mainboard info" "mainboard (cb_parse_gpios m p info) = mainboard info" "mainboard (cb_parse_mac_addresses m p info) = mainboard info"
  "mainboard (cb_parse_tstamp m p info) = mainboard info" "mainboard (cb_parse_cbmem_cons m p info) = mainboard info" "mainboard (cb_parse_acpi_gnvs m p info) = mainboard info"
  "mainboard (cb_parse_wifi_calibration m p info) = mainboard info" "mainboard (cb_parse_vpd m p info) = mainboard info" "mainboard (cb_parse_board_id m p info) = mainboard info"
  "mainboard (cb_parse_ram_code m p info) = mainboard info" "mainboard (cb_parse_sku_id m p info) = mainboard info" "mainboard (cb_parse_optiontable p info) = mainboard info"
  "mainboard (cb_parse_checksum m p info) = mainboard info" "mainboard (cb_parse_framebuffer p info) = mainboard info" "mainboard (cb_parse_ramoops m p info) = mainboard info"
  "mainboard (cb_parse_mtc m p info) = mainboard info" "mainboard (cb_parse_spi_flash m p info) = mainboard info" "mainboard (cb_parse_boot_media_params m p info) = mainboard info"
  "mainboard (cb_parse_tsc_info m p info) = mainboard info" "mainboard (cb_parse_arch_specific m p info) = mainboard info"
  by (simp_all add: cb_parsers Let_def)

interpretation mb: sysinfo_field mainboard LB_TAG_MAINBOARD "\<lambda>cfg m p. p"
proof
  show "load32 m p \<noteq> LB_TAG_MAINBOARD \<Longrightarrow> mainboard (cb_parse_record cfg m p info) = mainboard info" for m p cfg info
    by (simp add: cb_parse_record_def mainboard_kept Let_def)
  show "load32 m p = LB_TAG_MAINBOARD \<Longrightarrow> mainboard (cb_parse_record cfg m p info) = p" for m p cfg info
    by (simp add: cb_parse_record_def cb_parse_string_def Let_def lb_table_tags cb_payload_tags)
qed

lemma cbmem_cons_kept:
  "cbmem_cons (cb_parse_memory cfg m p info) = cbmem_cons info" "cbmem_cons (cb_parse_serial p info) = cbmem_cons info" "cbmem_cons (cb_parse_vboot_handoff m p info) = cbmem_cons info"
  "cbmem_cons (cb_parse_vbnv m p info) = cbmem_cons info" "cbmem_cons (cb_parse_gpios m p info) = cbmem_cons info" "cbmem_cons (cb_parse_mac_addresses m p info) = cbmem_cons info"
  "cbmem_cons (cb_parse_tstamp m p info) = cbmem_cons info" "cbmem_cons (cb_parse_acpi_gnvs m p info) = cbmem_cons info" "cbmem_cons (cb_parse_wifi_calibration m p info) = cbmem_cons info"
  "cbmem_cons (cb_parse_vpd m p info) = cbmem_cons info" "cbmem_cons (cb_parse_board_id m p info) = cbmem_cons info" "cbmem_cons (cb_parse_ram_code m p info) = cbmem_cons info"
  "cbmem_cons (cb_parse_sku_id m p info) = cbmem_cons info" "cbmem_cons (cb_parse_optiontable p info) = cbmem_cons info" "cbmem_cons (cb_parse_checksum m p info) = cbmem_cons info"
  "cbmem_cons (cb_parse_framebuffer p info) = cbmem_cons info" "cbmem_cons (cb_parse_ramoops m p info) = cbmem_cons info" "cbmem_cons (cb_parse_mtc m p info) = cbmem_cons info"
  "cbmem_cons (cb_parse_spi_flash m p info) = cbmem_cons info" "cbmem_cons (cb_parse_boot_media_params m p info) = cbmem_cons info" "cbmem_cons (cb_parse_tsc_info m p info) = cbmem_cons info"
  "cbmem_cons (cb_parse_arch_specific m p info) = cbmem_cons info"
  by (simp_all add: cb_parsers Let_def)

interpretation console: sysinfo_field cbmem_cons LB_TAG_CBMEM_CONSOLE "\<lambda>cfg m p. cbmem_tab m p"
proof
  show "load32 m p \<noteq> LB_TAG_CBMEM_CONSOLE \<Longrightarrow> cbmem_cons (cb_parse_record cfg m p info) = cbmem_cons info" for m p cfg info
    by (simp add: cb_parse_record_def cbmem_cons_kept Let_def)
  show "load32 m p = LB_TAG_CBMEM_CONSOLE \<Longrightarrow> cbmem_cons (cb_parse_record cfg m p info) = cbmem_tab m p" for m p cfg info
    by (simp add: cb_parse_record_def cb_parse_cbmem_cons_def Let_def lb_table_tags cb_payload_tags)
qed

end
