(* ===== verification/Lb_Handoff.thy ===== *)
theory Lb_Handoff
  imports Lb_Fields
begin

text \<open>
  What coreboot writes the payload reads: the composition of the table's writer, the boot memory
  map and the payload's reader, over the forwarding table in low memory.
\<close>

section \<open>The memory map\<close>

lemma nth_range_bytes:
  "i < length xs \<Longrightarrow> j + 4 \<le> 20 \<Longrightarrow>
    take 4 (drop (20 * i + j) (concat (map range_bytes xs))) = take 4 (drop j (range_bytes (xs ! i)))"
proof (induction xs arbitrary: i)
  case (Cons x xs)
  show ?case
  proof (cases i)
    case 0
    then show ?thesis using Cons.prems(2) by simp
  next
    case (Suc k)
    then have "drop (20 * i + j) (concat (map range_bytes (x # xs))) = drop (20 * k + j) (concat (map range_bytes xs))" by simp
    then show ?thesis using Cons.IH [of k] Cons.prems Suc by simp
  qed
qed simp

definition range_triple :: "lb_memory_range \<Rightarrow> u64 \<times> u64 \<times> u32" where
  "range_triple r = (unpack_lb64 (lbr_start r), unpack_lb64 (lbr_size r), lbr_type r)"

lemma unpack_or: "push_bit 32 (ucast hi) OR ucast (lo :: u32) = push_bit 32 (ucast (hi :: u32)) + (ucast lo :: u64)"
  by (rule disjunctive_add_eq_or [symmetric], rule bit_eqI) (auto simp: bit_simps dest: bit_imp_le_length)

lemma parse_memory_record:
  assumes "rec_is (memory_record lbm) r" and "mem_read m p (length r) = r" and "8 + 20 * length (lbm_map lbm) < 2 ^ 32" and "rec_wf r"
  shows "memrange (cb_parse_memory cfg m p info) =
    filter (\<lambda>(base, sz, typ). \<not> (lp_memmap_ram_only cfg \<and> typ \<noteq> CB_MEM_RAM)) (take 32 (map range_triple (lbm_map lbm)))"
proof -
  let ?xs = "lbm_map lbm" let ?n = "length ?xs"
  have len: "length r = 8 + 20 * ?n" using assms(1) by (simp add: rec_is_def memory_record_def)
  have body: "length (concat (map range_bytes ?xs)) = 20 * ?n" by (induction ?xs) (simp_all add: length_concat comp_def sum_list_triv)
  have "load32 m (p + 4) = of_nat (8 + 20 * ?n)"
    using read_field [OF assms(2), of 4] assms(4) len by (simp add: rec_wf_def)
  then have "load32 m (p + 4) - 8 = of_nat (20 * ?n)" by simp
  moreover have "unat (of_nat (20 * ?n) :: u32) = 20 * ?n" using assms(3) by (intro unat_of_nat_id) simp
  ultimately have count: "unat (MEM_RANGE_COUNT m p) = ?n" by (simp add: MEM_RANGE_COUNT_def unat_div del: of_nat_mult)
  have field: "load32 m (MEM_RANGE_PTR p i + of_nat j) = le_decode (take 4 (drop j (range_bytes (?xs ! i))))"
    if "i < ?n" "j + 4 \<le> 20" for i j
  proof -
    have "mem_read m (p + of_nat (8 + (20 * i + j))) 4 = take 4 (drop (20 * i + j) (concat (map range_bytes ?xs)))"
      using read_body [OF assms(1,2), of "20 * i + j" 4] that body by (simp add: memory_record_def)
    then show ?thesis using nth_range_bytes [OF that] by (simp add: load32_def MEM_RANGE_PTR_def ac_simps)
  qed
  have one: "(cb_unpack64 m (MEM_RANGE_PTR p i), cb_unpack64 m (MEM_RANGE_PTR p i + 8), load32 m (MEM_RANGE_PTR p i + 16)) =
      range_triple (?xs ! i)" if "i < ?n" for i
    using field [OF that, of 0] field [OF that, of 4] field [OF that, of 8] field [OF that, of 12] field [OF that, of 16]
    by (simp add: cb_unpack64_def range_triple_def unpack_lb64_def range_bytes_def unpack_or add.assoc)
  have "map (\<lambda>i. (cb_unpack64 m (MEM_RANGE_PTR p i), cb_unpack64 m (MEM_RANGE_PTR p i + 8), load32 m (MEM_RANGE_PTR p i + 16)))
      [0..<(if ?n > 32 then 32 else ?n)] = take 32 (map range_triple ?xs)"
    by (rule nth_equalityI) (auto simp: one split: if_splits)
  then show ?thesis by (cases "32 < ?n") (simp_all add: cb_parse_memory_def Let_def count SYSINFO_MAX_MEM_RANGES_def)
qed

section \<open>Which records a table has\<close>

text \<open>The tags of the groups of records of a table.\<close>

definition table_tags :: "lb_env \<Rightarrow> u32 list list" where
  "table_tags env =
    [[CB_TAG_CMOS_OPTION_TABLE, LB_TAG_OPTION_CHECKSUM], [LB_TAG_MEMORY], [LB_TAG_MAINBOARD], [LB_TAG_SERIAL, LB_TAG_CONSOLE],
     [LB_TAG_CONSOLE], [LB_TAG_VERSION, LB_TAG_EXTRA_VERSION, LB_TAG_BUILD, LB_TAG_COMPILE_TIME], [LB_TAG_VERSION_TIMESTAMP],
     [LB_TAG_FRAMEBUFFER], [LB_TAG_GPIO, LB_TAG_VBNV, LB_TAB_VBOOT_HANDOFF], [LB_TAG_BOARD_ID], [LB_TAG_RAM_CODE],
     [LB_TAG_SKU_ID], [LB_TAG_SPI_FLASH],
     [LB_TAG_TIMESTAMPS, LB_TAG_CBMEM_CONSOLE, LB_TAG_ACPI_GNVS, LB_TAG_VPD, LB_TAG_WIFI_CALIBRATION, LB_TAG_TCPA_LOG],
     map lr_tag (le_board env), [LB_TAG_RAM_OOPS], [LB_TAG_BOOT_MEDIA_PARAMS], [LB_TAG_TSC_INFO], [LB_TAG_CBMEM_ENTRY]]"

text \<open>The option table of CBFS has its own tag.\<close>

definition option_tag_ok :: "lb_env \<Rightarrow> bool" where
  "option_tag_ok env \<longleftrightarrow> (case le_option_table env of None \<Rightarrow> True | Some ot \<Rightarrow> rec_tag ot = CB_TAG_CMOS_OPTION_TABLE)"

lemma record_tags [simp]:
  "lr_tag (cmos_checksum_record cks) = LB_TAG_OPTION_CHECKSUM" "lr_tag (memory_record lbm) = LB_TAG_MEMORY"
  "lr_tag (mainboard_record v p) = LB_TAG_MAINBOARD" "lr_tag (serial_record se) = LB_TAG_SERIAL"
  "lr_tag (console_record t) = LB_TAG_CONSOLE" "lr_tag (pad_string tag s) = tag" "lr_tag (timestamp_record ts) = LB_TAG_VERSION_TIMESTAMP"
  "lr_tag (framebuffer_record fb) = LB_TAG_FRAMEBUFFER" "lr_tag (gpios_record gs) = LB_TAG_GPIO" "lr_tag (vbnv_record off) = LB_TAG_VBNV"
  "lr_tag (handoff_record addr sz) = LB_TAB_VBOOT_HANDOFF" "lr_tag (strapping_record tag code) = tag"
  "lr_tag (spi_flash_record dev rom) = LB_TAG_SPI_FLASH" "lr_tag (cbmem_ref tag addr) = tag" "lr_tag (ramoops_record addr sz) = LB_TAG_RAM_OOPS"
  "lr_tag (media_record b) = LB_TAG_BOOT_MEDIA_PARAMS" "lr_tag (tsc_record khz) = LB_TAG_TSC_INFO"
  "lr_tag (cbmem_entry_record cid addr sz) = LB_TAG_CBMEM_ENTRY" "lr_tag (forward_record addr) = LB_TAG_FORWARD"
  by (simp_all add: cmos_checksum_record_def memory_record_def mainboard_record_def serial_record_def console_record_def pad_string_def
      timestamp_record_def framebuffer_record_def gpios_record_def vbnv_record_def handoff_record_def strapping_record_def
      spi_flash_record_def cbmem_ref_def ramoops_record_def media_record_def tsc_record_def cbmem_entry_record_def forward_record_def
      split: prod.split)

definition tags_in :: "lbrec list \<Rightarrow> u32 list \<Rightarrow> bool" where
  "tags_in ss ts \<longleftrightarrow> (\<forall>s\<in>set ss. lr_tag s \<in> set ts)"

lemma tags_in_table: "option_tag_ok env \<Longrightarrow> list_all2 tags_in (table_records env lbm) (table_tags env)"
  unfolding table_records_def table_tags_def
  by (intro list_all2_Cons [THEN iffD2] conjI list_all2_Nil [THEN iffD2] TrueI)
    (auto simp: tags_in_def option_tag_ok_def option_record_def rec_tag_def uart_records_def chromeos_spec_def strapping_def
      cbmem_pointer_def cbmem_entry_spec_def section_ids_def Let_def split: option.splits if_splits)

lemma tags_in_filter: "tags_in ss ts \<Longrightarrow> T \<notin> set ts \<Longrightarrow> filter (\<lambda>s. lr_tag s = T) ss = []"
  by (auto simp: tags_in_def filter_empty_conv)

lemma no_tag:
  assumes "list_all2 tags_in gs tss" and "\<forall>ts\<in>set tss. T \<notin> set ts" and "s \<in> set (concat gs)"
  shows "lr_tag s \<noteq> T"
  using assms by (induction rule: list_all2_induct) (auto simp: tags_in_def)

text \<open>The records with a tag that occurs in one group only are those of this group.\<close>

lemma filter_group:
  "list_all2 tags_in gs tss \<Longrightarrow> i < length tss \<Longrightarrow> (\<forall>j<length tss. j \<noteq> i \<longrightarrow> T \<notin> set (tss ! j)) \<Longrightarrow>
    filter (\<lambda>s. lr_tag s = T) (concat gs) = filter (\<lambda>s. lr_tag s = T) (gs ! i)"
proof (induction arbitrary: i rule: list_all2_induct)
  case (Cons g gs ts tss)
  show ?case
  proof (cases i)
    case 0
    have "\<forall>j<length tss. T \<notin> set (tss ! j)" using Cons.prems(2) 0 by fastforce
    then have "\<forall>ts\<in>set tss. T \<notin> set ts" by (metis in_set_conv_nth)
    then have "filter (\<lambda>s. lr_tag s = T) (concat gs) = []"
      using no_tag [OF Cons.hyps(2), of T] by (simp add: filter_empty_conv)
    then show ?thesis using 0 by simp
  next
    case (Suc k)
    have "T \<notin> set ts" using Cons.prems(2) Suc by force
    then have "filter (\<lambda>s. lr_tag s = T) g = []" using Cons.hyps(1) tags_in_filter by blast
    moreover have "\<forall>j<length tss. j \<noteq> k \<longrightarrow> T \<notin> set (tss ! j)" using Cons.prems(2) Suc by fastforce
    ultimately show ?thesis using Cons.IH [of k] Cons.prems(1) Suc by simp
  qed
qed simp

lemma table_group:
  assumes "option_tag_ok env" and "i < 19" and "\<forall>j<19. j \<noteq> i \<longrightarrow> T \<notin> set (table_tags env ! j)"
  shows "filter (\<lambda>s. lr_tag s = T) (concat (table_records env lbm)) = filter (\<lambda>s. lr_tag s = T) (table_records env lbm ! i)"
  using filter_group [OF tags_in_table [OF assms(1)], of i T] assms(2,3) by (simp add: table_tags_def)

text \<open>What a board adds is of other kinds than the payload's reader is asked about here.\<close>

definition board_tags_ok :: "lb_env \<Rightarrow> bool" where
  "board_tags_ok env \<longleftrightarrow> (\<forall>r\<in>set (le_board env). lr_tag r \<notin>
     {LB_TAG_FORWARD, LB_TAG_MEMORY, LB_TAG_VERSION, LB_TAG_BOARD_ID, LB_TAG_RAM_CODE, LB_TAG_SKU_ID, LB_TAG_TIMESTAMPS,
      LB_TAG_CBMEM_CONSOLE, LB_TAG_ACPI_GNVS})"

lemmas table_tag_numerals = lb_table_tags cb_payload_tags

definition with_tag :: "u32 \<Rightarrow> lbrec list \<Rightarrow> lbrec list" where
  "with_tag T ss = filter (\<lambda>s. lr_tag s = T) ss"

lemma table_filters:
  assumes "option_tag_ok env" and "board_tags_ok env"
  shows "with_tag LB_TAG_MEMORY (concat (table_records env lbm)) = [memory_record lbm]" and "with_tag LB_TAG_VERSION (concat (table_records env lbm)) = [pad_string LB_TAG_VERSION (le_version env)]"
    and "with_tag LB_TAG_BOARD_ID (concat (table_records env lbm)) = strapping LB_TAG_BOARD_ID (le_board_id env)" and "with_tag LB_TAG_RAM_CODE (concat (table_records env lbm)) = strapping LB_TAG_RAM_CODE (le_ram_code env)"
    and "with_tag LB_TAG_SKU_ID (concat (table_records env lbm)) = strapping LB_TAG_SKU_ID (le_sku_id env)"
    and "with_tag LB_TAG_TIMESTAMPS (concat (table_records env lbm)) = cbmem_pointer (le_cbmem_find env) (CBMEM_ID_TIMESTAMP, LB_TAG_TIMESTAMPS)"
    and "with_tag LB_TAG_CBMEM_CONSOLE (concat (table_records env lbm)) = cbmem_pointer (le_cbmem_find env) (CBMEM_ID_CONSOLE, LB_TAG_CBMEM_CONSOLE)"
    and "with_tag LB_TAG_ACPI_GNVS (concat (table_records env lbm)) = cbmem_pointer (le_cbmem_find env) (CBMEM_ID_ACPI_GNVS, LB_TAG_ACPI_GNVS)"
proof -
  have less19: "(\<forall>j<19. P j) \<longleftrightarrow> (\<forall>j\<in>{0..<19}. P j)" for P :: "nat \<Rightarrow> bool" by auto
  have board: "T \<notin> lr_tag ` set (le_board env)"
    if "T \<in> {LB_TAG_FORWARD, LB_TAG_MEMORY, LB_TAG_VERSION, LB_TAG_BOARD_ID, LB_TAG_RAM_CODE, LB_TAG_SKU_ID, LB_TAG_TIMESTAMPS,
      LB_TAG_CBMEM_CONSOLE, LB_TAG_ACPI_GNVS}" for T
    using assms(2) that by (auto simp: board_tags_ok_def)
  have only: "\<forall>j<19. j \<noteq> 1 \<longrightarrow> LB_TAG_MEMORY \<notin> set (table_tags env ! j)" "\<forall>j<19. j \<noteq> 5 \<longrightarrow> LB_TAG_VERSION \<notin> set (table_tags env ! j)"
    "\<forall>j<19. j \<noteq> 9 \<longrightarrow> LB_TAG_BOARD_ID \<notin> set (table_tags env ! j)" "\<forall>j<19. j \<noteq> 10 \<longrightarrow> LB_TAG_RAM_CODE \<notin> set (table_tags env ! j)"
    "\<forall>j<19. j \<noteq> 11 \<longrightarrow> LB_TAG_SKU_ID \<notin> set (table_tags env ! j)" "\<forall>j<19. j \<noteq> 13 \<longrightarrow> LB_TAG_TIMESTAMPS \<notin> set (table_tags env ! j)"
    "\<forall>j<19. j \<noteq> 13 \<longrightarrow> LB_TAG_CBMEM_CONSOLE \<notin> set (table_tags env ! j)" "\<forall>j<19. j \<noteq> 13 \<longrightarrow> LB_TAG_ACPI_GNVS \<notin> set (table_tags env ! j)"
    using board unfolding less19
    by (simp_all add: table_tags_def table_tag_numerals atLeastLessThan_upt upt_rec)
  note group = table_group [OF assms(1), where lbm = lbm]
  show "with_tag LB_TAG_MEMORY (concat (table_records env lbm)) = [memory_record lbm]" using group [OF _ only(1)] by (simp add: with_tag_def table_records_def)
  show "with_tag LB_TAG_VERSION (concat (table_records env lbm)) = [pad_string LB_TAG_VERSION (le_version env)]"
    using group [OF _ only(2)] by (simp add: with_tag_def table_records_def lb_table_tags)
  show "with_tag LB_TAG_BOARD_ID (concat (table_records env lbm)) = strapping LB_TAG_BOARD_ID (le_board_id env)"
    using group [OF _ only(3)] by (simp add: with_tag_def table_records_def strapping_def)
  show "with_tag LB_TAG_RAM_CODE (concat (table_records env lbm)) = strapping LB_TAG_RAM_CODE (le_ram_code env)"
    using group [OF _ only(4)] by (simp add: with_tag_def table_records_def strapping_def)
  show "with_tag LB_TAG_SKU_ID (concat (table_records env lbm)) = strapping LB_TAG_SKU_ID (le_sku_id env)"
    using group [OF _ only(5)] by (simp add: with_tag_def table_records_def strapping_def)
  have ptr: "filter (\<lambda>s. lr_tag s = T) (cbmem_pointer cfind (cid, tag)) = (if tag = T then cbmem_pointer cfind (cid, tag) else [])" for T cfind cid tag
    by (simp add: cbmem_pointer_def)
  show "with_tag LB_TAG_TIMESTAMPS (concat (table_records env lbm)) = cbmem_pointer (le_cbmem_find env) (CBMEM_ID_TIMESTAMP, LB_TAG_TIMESTAMPS)"
    using group [OF _ only(6)] by (simp add: with_tag_def table_records_def section_ids_def ptr lb_table_tags)
  show "with_tag LB_TAG_CBMEM_CONSOLE (concat (table_records env lbm)) = cbmem_pointer (le_cbmem_find env) (CBMEM_ID_CONSOLE, LB_TAG_CBMEM_CONSOLE)"
    using group [OF _ only(7)] by (simp add: with_tag_def table_records_def section_ids_def ptr lb_table_tags)
  show "with_tag LB_TAG_ACPI_GNVS (concat (table_records env lbm)) = cbmem_pointer (le_cbmem_find env) (CBMEM_ID_ACPI_GNVS, LB_TAG_ACPI_GNVS)"
    using group [OF _ only(8)] by (simp add: with_tag_def table_records_def section_ids_def ptr lb_table_tags)
qed

lemma table_forwards_not:
  assumes "option_tag_ok env" and "board_tags_ok env" and "s \<in> set (concat (table_records env lbm))"
  shows "lr_tag s \<noteq> LB_TAG_FORWARD"
proof (rule no_tag [OF tags_in_table [OF assms(1)] _ assms(3)])
  have "LB_TAG_FORWARD \<notin> lr_tag ` set (le_board env)" using assms(2) by (auto simp: board_tags_ok_def)
  then show "\<forall>ts\<in>set (table_tags env). LB_TAG_FORWARD \<notin> set ts" by (simp add: table_tags_def table_tag_numerals)
qed

section \<open>From the writer to the reader\<close>

lemma forwarding_table:
  assumes "h = (entry + 15) AND NOT 15"
  obtains m' r where "write_coreboot_forwarding_table entry target m = (h + 40 - entry, m')" and "lb_closed m' h [r]"
    and "rec_is (forward_record target) r" and "same_behind h 40 m m'"
proof -
  obtain m0 where m0: "lb_table_init entry m = (h, m0)" "lb_open m0 h []" "same_behind h 24 m m0"
    using lb_open_init [OF assms, of m] by (cases "lb_table_init entry m") simp
  define m1 where "m1 = lb_forward h target m0"
  have sz: "lr_size (forward_record target) = 16" by (simp add: forward_record_def)
  have "adds_records h (lb_forward h target) [forward_record target]" unfolding lb_forward_def by (rule adds_record) simp
  then obtain rs where rs: "list_all2 rec_is [forward_record target] rs" "lb_open m1 h rs" "same_behind h 40 m0 m1"
    using m0(2) sz unfolding adds_records_def m1_def by fastforce
  then obtain r where r: "rs = [r]" "rec_is (forward_record target) r" by (auto simp: list_all2_Cons1)
  then have len: "length (concat rs) = 16" using sz by (simp add: rec_is_def)
  obtain m' where m': "lb_table_fini h m1 = (h + of_nat (24 + length (concat rs)), m')" "lb_closed m' h rs" "same_behind h 24 m1 m'"
    using lb_table_fini [OF rs(2)] r(1) by blast
  have "write_coreboot_forwarding_table entry target m = (h + 40 - entry, m')"
    using m0(1) m'(1) len by (simp add: write_coreboot_forwarding_table_def m1_def)
  moreover have "same_behind h 40 m m'" using m0(3) rs(3) m'(3) by (auto simp: same_behind_def)
  ultimately show ?thesis using that m'(2) r by simp
qed

text \<open>What is read below four kilobytes is not touched by what is written above.\<close>

definition low_same :: "mem \<Rightarrow> mem \<Rightarrow> bool" where
  "low_same m m' \<longleftrightarrow> (\<forall>p. unat p < 0x1000 \<longrightarrow> m' p = m p)"

lemma low_same_read: "low_same m m' \<Longrightarrow> k + n \<le> 0x1000 \<Longrightarrow> mem_read m' (of_nat k) n = mem_read m (of_nat k) n"
proof (rule nth_equalityI)
  fix i assume a: "low_same m m'" "k + n \<le> 0x1000" "i < length (mem_read m' (of_nat k) n)"
  have "unat (of_nat (k + i) :: ptr) = k + i" using a by (intro unat_of_nat_id) simp
  then have "m' (of_nat (k + i)) = m (of_nat (k + i))" using a by (simp add: low_same_def del: of_nat_add)
  then show "mem_read m' (of_nat k) n ! i = mem_read m (of_nat k) n ! i" using a(3) by simp
qed simp

lemma same_before:
  assumes "same_behind h n m m'" and "unat p < unat h" and "unat h + n \<le> 2 ^ 32"
  shows "m' p = m p"
proof -
  have "unat (p - h) = 2 ^ 32 + unat p - unat h"
    using assms(2) by (simp only: unat_sub_if' word_size) (auto simp: word_le_nat_alt)
  then have "n \<le> unat (p - h)" using assms(3) by simp
  then show ?thesis using assms(1) by (simp add: same_behind_def)
qed

lemma same_behind_low: "same_behind h n m m' \<Longrightarrow> 0x1000 \<le> unat h \<Longrightarrow> unat h + n \<le> 2 ^ 32 \<Longrightarrow> low_same m m'"
  by (simp add: low_same_def same_before)

lemma mem_write_low:
  assumes "0x1000 \<le> unat a" and "unat a + length bs \<le> 2 ^ 32"
  shows "low_same m (mem_write m a bs)"
  using same_behind_write [of 0 bs "length bs" a m] assms by (intro same_behind_low [of a "length bs"]) simp_all

lemma closed_cong:
  assumes "lb_closed m h rs" and "mem_read m' h (24 + length (concat rs)) = mem_read m h (24 + length (concat rs))"
  shows "lb_closed m' h rs"
  using assms by (simp add: lb_closed_def Let_def)

lemma rec_is_wf:
  assumes "rec_is s r" and "lr_size s < 2 ^ 32"
  shows "rec_wf r"
proof -
  have "take 4 (drop 4 r) = take 4 (drop 4 (take (8 + length (lr_body s)) r))" by (simp add: drop_take)
  also have "\<dots> = le_encode 4 (of_nat (lr_size s) :: u32)" using assms(1) by (simp add: rec_is_def rec_bytes_def)
  finally show ?thesis using assms rec_is_parts(3) [OF assms(1)] by (simp add: rec_wf_def rec_is_def)
qed

lemma total_size_member: "s \<in> set ss \<Longrightarrow> lr_size s \<le> total_size ss"
  by (simp add: total_size_def member_le_sum_list)

lemma strapping_field:
  assumes "strapping tag code = [] \<Longrightarrow> v = UNDEFINED_STRAPPING_ID"
    and "\<And>s. strapping tag code = [s] \<Longrightarrow> \<exists>q r. rec_is s r \<and> mem_read m q (length r) = r \<and> v = load32 m (q + 8)"
  shows "v = code"
proof (cases "code = UNDEFINED_STRAPPING_ID")
  case True
  then show ?thesis using assms(1) by (simp add: strapping_def)
next
  case False
  then obtain q r where q: "rec_is (strapping_record tag code) r" "mem_read m q (length r) = r" "v = load32 m (q + 8)"
    using assms(2) by (auto simp: strapping_def)
  then show ?thesis using read_body [OF q(1,2), of 0 4] by (simp add: load32_def strapping_record_def)
qed

lemma pointer_field:
  assumes "cbmem_pointer cfind (cid, tag) = [] \<Longrightarrow> v = v0"
    and "\<And>s. cbmem_pointer cfind (cid, tag) = [s] \<Longrightarrow> \<exists>q r. rec_is s r \<and> mem_read m q (length r) = r \<and> v = cbmem_tab m q"
  shows "v = (if cfind cid = NULL then v0 else cfind cid)"
proof (cases "cfind cid = NULL")
  case True
  then show ?thesis using assms(1) by (simp add: cbmem_pointer_def)
next
  case False
  then obtain q r where q: "rec_is (cbmem_ref tag (cfind cid)) r" "mem_read m q (length r) = r" "v = cbmem_tab m q"
    using assms(2) by (auto simp: cbmem_pointer_def)
  have "ucast (ucast (cfind cid) :: u64) = cfind cid" by (intro bit_eqI) (auto simp: bit_simps dest: bit_imp_le_length)
  then show ?thesis using False read_body [OF q(1,2), of 0 8] q(3) by (simp add: cbmem_tab_def load64_def cbmem_ref_def)
qed

text \<open>What the payload knows of the machine, against what the machine is.\<close>

definition payload_knows :: "lp_config \<Rightarrow> lb_env \<Rightarrow> lb_memory \<Rightarrow> mem \<Rightarrow> sysinfo \<Rightarrow> sysinfo \<Rightarrow> bool" where
  "payload_knows cfg env lbm m info0 info \<longleftrightarrow>
     board_id info = le_board_id env \<and> ram_code info = le_ram_code env \<and> sku_id info = le_sku_id env \<and>
     memrange info = filter (\<lambda>(base, sz, typ). \<not> (lp_memmap_ram_only cfg \<and> typ \<noteq> CB_MEM_RAM)) (take 32 (map range_triple (lbm_map lbm))) \<and>
     mem_read m (cb_version info) (length (le_version env) + 1) = le_version env @ [0] \<and>
     (let ref = (\<lambda>old cid. if le_cbmem_find env cid = NULL then old else le_cbmem_find env cid) in
        tstamp_table info = ref (tstamp_table info0) CBMEM_ID_TIMESTAMP \<and>
        cbmem_cons info = ref (cbmem_cons info0) CBMEM_ID_CONSOLE \<and>
        acpi_gnvs info = ref (acpi_gnvs info0) CBMEM_ID_ACPI_GNVS)"

lemma closed_table_known:
  assumes "option_tag_ok env" and "board_tags_ok env" and "lb_closed m h rs"
    and "list_all2 rec_is (concat (table_records env lbm)) rs" and "24 + length (concat rs) \<le> 0x8000" and "0 < len"
  shows "\<exists>info. cb_parse_header cfg m h len info0 = Some (0, info) \<and> payload_knows cfg env lbm m info0 info"
proof -
  let ?ss = "concat (table_records env lbm)"
  let ?i0 = "info0\<lparr>header := h, board_id := UNDEFINED_STRAPPING_ID, ram_code := UNDEFINED_STRAPPING_ID, sku_id := UNDEFINED_STRAPPING_ID\<rparr>"
  define info where "info = parse_all cfg m (positions (h + 24) rs) ?i0"
  have ne: "rs \<noteq> []" using assms(4) by (auto simp: table_records_def)
  have L: "length (concat rs) \<le> 65536" using assms(5) by simp
  note c = closed_checks [OF assms(3) ne L]
  have wf: "\<forall>r\<in>set rs. rec_wf r" using assms(3) by (simp add: lb_closed_def)
  have "\<forall>r\<in>set rs. rec_tag r \<noteq> LB_TAG_FORWARD"
  proof
    fix r assume "r \<in> set rs"
    then obtain s where "s \<in> set ?ss" "rec_is s r" using assms(4) by (metis in_set_conv_nth list_all2_conv_all_nth)
    then show "rec_tag r \<noteq> LB_TAG_FORWARD" using table_forwards_not [OF assms(1,2)] rec_is_parts(1) by metis
  qed
  then have parsed: "cb_parse_header cfg m h len info0 = Some (0, info)"
    unfolding info_def by (intro parse_closed assms(3,6) ne L)
  note f = table_filters [OF assms(1,2), of lbm, unfolded with_tag_def]
  note known = assms(4) wf c(7)
  have "board_id info = le_board_id env"
    by (rule strapping_field [of LB_TAG_BOARD_ID _ _ m])
      (use board.field_none [OF known] board.field_one [OF known] f(3) in \<open>auto simp: info_def\<close>)
  moreover have "ram_code info = le_ram_code env"
    by (rule strapping_field [of LB_TAG_RAM_CODE _ _ m])
      (use ram.field_none [OF known] ram.field_one [OF known] f(4) in \<open>auto simp: info_def\<close>)
  moreover have "sku_id info = le_sku_id env"
    by (rule strapping_field [of LB_TAG_SKU_ID _ _ m])
      (use sku.field_none [OF known] sku.field_one [OF known] f(5) in \<open>auto simp: info_def\<close>)
  moreover have "tstamp_table info = (if le_cbmem_find env CBMEM_ID_TIMESTAMP = NULL then tstamp_table info0 else le_cbmem_find env CBMEM_ID_TIMESTAMP)"
    by (rule pointer_field [of _ _ LB_TAG_TIMESTAMPS _ _ m])
      (use tstamp.field_none [OF known] tstamp.field_one [OF known] f(6) in \<open>auto simp: info_def\<close>)
  moreover have "cbmem_cons info = (if le_cbmem_find env CBMEM_ID_CONSOLE = NULL then cbmem_cons info0 else le_cbmem_find env CBMEM_ID_CONSOLE)"
    by (rule pointer_field [of _ _ LB_TAG_CBMEM_CONSOLE _ _ m])
      (use console.field_none [OF known] console.field_one [OF known] f(7) in \<open>auto simp: info_def\<close>)
  moreover have "acpi_gnvs info = (if le_cbmem_find env CBMEM_ID_ACPI_GNVS = NULL then acpi_gnvs info0 else le_cbmem_find env CBMEM_ID_ACPI_GNVS)"
    by (rule pointer_field [of _ _ LB_TAG_ACPI_GNVS _ _ m])
      (use gnvs.field_none [OF known] gnvs.field_one [OF known] f(8) in \<open>auto simp: info_def\<close>)
  moreover have "mem_read m (cb_version info) (length (le_version env) + 1) = le_version env @ [0]"
  proof -
    obtain q r where q: "rec_is (pad_string LB_TAG_VERSION (le_version env)) r" "mem_read m q (length r) = r" "cb_version info = q + 8"
      using version.field_one [OF known f(2), of cfg ?i0] by (auto simp: info_def)
    then show ?thesis using read_body [OF q(1,2), of 0 "length (le_version env) + 1"] by (simp add: pad_string_def)
  qed
  moreover have "memrange info = filter (\<lambda>(base, sz, typ). \<not> (lp_memmap_ram_only cfg \<and> typ \<noteq> CB_MEM_RAM)) (take 32 (map range_triple (lbm_map lbm)))"
  proof -
    obtain q r where q: "rec_is (memory_record lbm) r" "mem_read m q (length r) = r"
        "memrange info = memrange (cb_parse_memory cfg m q undefined)"
      using ranges.field_one [OF known f(1), of cfg ?i0] by (auto simp: info_def)
    have "length r = 8 + 20 * length (lbm_map lbm)" using q(1) by (simp add: rec_is_def memory_record_def)
    moreover have "memory_record lbm \<in> set ?ss" by (simp add: table_records_def)
    then have "lr_size (memory_record lbm) < 2 ^ 32"
      using total_size_member [of _ ?ss] length_recs [OF assms(4)] assms(5) by fastforce
    then have "rec_wf r" by (rule rec_is_wf [OF q(1)])
    ultimately show ?thesis using parse_memory_record [OF q(1,2)] q(3) by (simp add: rec_wf_def)
  qed
  ultimately have "payload_knows cfg env lbm m info0 info" by (simp add: payload_knows_def)
  then show ?thesis using parsed by blast
qed

lemma aligned_16:
  assumes "start AND 15 = 0" and "unat start + 15 < 2 ^ 32"
  shows "((start :: ptr) + 15) AND NOT 15 = start"
proof -
  have "16 dvd unat start" using is_aligned_iff [of start 4] assms(1) by (simp add: is_aligned_def)
  then have "(unat start + 15) div 16 * 16 = unat start" by (auto elim!: dvdE)
  moreover have "unat (align_up start 16) = (unat start + 15) div 16 * 16" using unat_align_up [of 4 start] assms(2) by simp
  ultimately have "align_up start 16 = start" by (simp add: word_unat_eq_iff)
  then show ?thesis by (simp add: align_up_def)
qed

text \<open>The payload's search stops at the forwarding table.\<close>

lemma find_forwarding_table:
  assumes "lb_closed m' 0x500 [r]" and "length r = 16" and "same_behind 0x500 40 m m1" and "low_same m1 m'"
    and "\<forall>i<80. mem_read m (16 * of_nat i) 4 \<noteq> LBIO"
  shows "find_header m' 256 0 = Some 0x500"
proof -
  have "mem_read m' (0 + 16 * of_nat i) 4 \<noteq> LBIO" if i: "i < 80" for i
  proof -
    have "mem_read m' (of_nat (16 * i)) 4 = mem_read m1 (of_nat (16 * i)) 4" using i by (intro low_same_read [OF assms(4)]) simp
    also have "\<dots> = mem_read m (of_nat (16 * i)) 4"
    proof (rule mem_read_cong)
      fix j :: nat assume j: "j < 4"
      have "unat (of_nat (16 * i + j) :: ptr) = 16 * i + j" using i j by (intro unat_of_nat_id) simp
      then have "m1 (of_nat (16 * i + j)) = m (of_nat (16 * i + j))" using i j by (intro same_before [OF assms(3)]) simp_all
      then show "m1 (of_nat (16 * i) + of_nat j) = m (of_nat (16 * i) + of_nat j)" by simp
    qed
    finally show ?thesis using assms(5) i by simp
  qed
  then have "find_header m' 256 0 = Some (0 + 16 * of_nat 80)"
    using closed_checks(1) [OF assms(1)] assms(2) by (intro find_header_at) simp_all
  then show ?thesis by simp
qed

text \<open>
  C1: Tables written into an aligned room above the first four kilobytes are found by the
  payload. When the low memory holds no other signature before the forwarding table, the
  payload's search finds it, follows it to the table, accepts all checksums and ends with
  success; it then knows the board's identifiers, the first 32 ranges of the memory map that
  the boot memory component computed, the version string and the directory's buffers, exactly
  as coreboot had them.
\<close>

theorem payload_reads_what_coreboot_wrote:
  assumes "env_ok env" and "option_tag_ok env" and "board_tags_ok env"
    and "bootmem_write_memory_table fatal benv \<lparr>lbm_tag = LB_TAG_MEMORY, lbm_size = 8, lbm_map = []\<rparr> bm = Some (lbm, bm')"
    and "24 + total_size (concat (table_records env lbm)) \<le> 0x8000"
    and "0x1000 \<le> unat start" and "unat start + 0x8000 \<le> 2 ^ 32" and "start AND 15 = 0"
    and "stash = NULL \<or> 0x1000 \<le> unat stash \<and> unat stash + 40 \<le> 2 ^ 32"
    and "\<forall>i<80. mem_read m (16 * of_nat i) 4 \<noteq> LBIO"
  shows "\<exists>m' ft' info. write_tables env fatal benv start stash (m, FORWARDING_TABLE_ADDR, bm) = Some (start, False, m', ft', bm') \<and>
    get_coreboot_info cfg m' info0 = Some (0, info) \<and> payload_knows cfg env lbm m' info0 info"
proof -
  let ?n = "24 + total_size (concat (table_records env lbm))"
  have aligned: "(start + 15) AND NOT 15 = start" using assms(7) by (intro aligned_16 assms(8)) simp
  have aligned_fwd: "0x500 = ((0x500 :: ptr) + 15) AND NOT 15" by simp
  obtain m1 r where m1: "write_coreboot_forwarding_table 0x500 start m = (40, m1)" "lb_closed m1 0x500 [r]"
      "rec_is (forward_record start) r" "same_behind 0x500 40 m m1"
    using forwarding_table [OF aligned_fwd, of start m] by auto
  have len: "length r = 16" using m1(3) by (simp add: rec_is_def forward_record_def)
  define m2 where "m2 = stash_forwarding_table stash 0x500 40 m1"
  have low2: "low_same m1 m2"
    using mem_write_low [of stash "mem_read m1 0x500 40" m1] assms(9)
    by (auto simp: m2_def stash_forwarding_table_def low_same_def)
  obtain m3 rs where m3: "write_coreboot_table env fatal benv start (m2, bm) = Some (start + of_nat ?n, m3, bm')" "lb_closed m3 start rs"
      "list_all2 rec_is (concat (table_records env lbm)) rs" "same_behind start ?n m2 m3"
    using coreboot_table_written [OF aligned [symmetric] assms(1,4), where m = m2] assms(5) by auto
  have low3: "low_same m1 m3"
    using same_behind_low [OF m3(4)] low2 assms(5-7) by (auto simp: low_same_def)
  have fwd: "lb_closed m3 0x500 [r]"
    using low_same_read [OF low3, of "0x500" 40] len by (intro closed_cong [OF m1(2)]) simp
  have find: "find_header m3 256 0 = Some 0x500"
    by (rule find_forwarding_table [OF fwd len m1(4) low3 assms(10)])
  let ?i1 = "(info0\<lparr>x86_rom_var_mtrr_index := - 1\<rparr>)\<lparr>header := 0x500, board_id := UNDEFINED_STRAPPING_ID, ram_code := UNDEFINED_STRAPPING_ID, sku_id := UNDEFINED_STRAPPING_ID\<rparr>"
  obtain info where info: "cb_parse_header cfg m3 start 0x1000 ?i1 = Some (0, info)" "payload_knows cfg env lbm m3 ?i1 info"
    using closed_table_known [OF assms(2,3) m3(2,3), of "0x1000" cfg ?i1] length_recs [OF m3(3)] assms(5) by auto
  have "get_coreboot_info cfg m3 info0 = Some (0, info)"
    using parse_forward [OF fwd m1(3), of "0x1000" 0 cfg] find info(1) by (simp add: get_coreboot_info_def)
  moreover have "payload_knows cfg env lbm m3 info0 info" using info(2) by (simp add: payload_knows_def)
  moreover have "start \<noteq> NULL" using assms(6) by auto
  moreover have "\<not> of_nat ?n > COREBOOT_TABLE_SIZE"
    using assms(5) unat_of_nat_id [of ?n, where ?'a = 32] by (simp add: COREBOOT_TABLE_SIZE_def word_less_nat_alt del: of_nat_add)
  ultimately have "write_tables env fatal benv start stash (m, FORWARDING_TABLE_ADDR, bm) =
      Some (start, False, m3, align_up (0x500 + 40) (4 * 1024), bm')"
    using m1(1) m3(1) by (simp add: write_tables_def arch_write_tables_def FORWARDING_TABLE_ADDR_def m2_def [symmetric])
  then show ?thesis
    using \<open>get_coreboot_info cfg m3 info0 = Some (0, info)\<close> \<open>payload_knows cfg env lbm m3 info0 info\<close> by blast
qed

theorem payload_reads_what_coreboot_wrote_witness:
  "\<exists>m' ft' bm' info. write_tables example_lb_env True example_env 0x7fd6000 0x7fd5000 (\<lambda>_. 0, FORWARDING_TABLE_ADDR, bootmem_start) =
       Some (0x7fd6000, False, m', ft', bm') \<and>
     get_coreboot_info \<lparr>lp_nvram = True, lp_video_console = False, lp_timer_rdtsc = True, lp_memmap_ram_only = False\<rparr> m' undefined = Some (0, info) \<and>
     board_id info = 7 \<and> ram_code info = NOT 0 \<and> sku_id info = 2 \<and>
     memrange info = [(0, 0x1000, 16), (0x1000, 0x7fef000, 1), (0x7ff0000, 0x10000, 16)] \<and>
     mem_read m' (cb_version info) 4 = [0x34, 0x2e, 0x38, 0] \<and> cbmem_cons info = 0x7fde000"
proof -
  obtain lbm bm' where lbm: "bootmem_write_memory_table True example_env \<lparr>lbm_tag = LB_TAG_MEMORY, lbm_size = 8, lbm_map = []\<rparr> bootmem_start = Some (lbm, bm')"
      and ranges: "map (\<lambda>r. (unpack_lb64 (lbr_start r), unpack_lb64 (lbr_size r), lbr_type r)) (lbm_map lbm) =
        [(0, 0x1000, 16), (0x1000, 0x7fef000, 1), (0x7ff0000, 0x10000, 16)]"
    using example_memory_map by blast
  have triples: "map range_triple (lbm_map lbm) = [(0, 0x1000, 16), (0x1000, 0x7fef000, 1), (0x7ff0000, 0x10000, 16)]"
    using ranges by (simp add: range_triple_def [abs_def])
  have "length (lbm_map lbm) = 3" using arg_cong [OF ranges, of length] by simp
  note size = example_table_size [OF this]
  have tags: "option_tag_ok example_lb_env" "board_tags_ok example_lb_env"
    by (simp_all add: option_tag_ok_def board_tags_ok_def example_lb_env_def rec_tag_def CB_TAG_CMOS_OPTION_TABLE_def)
  have low: "\<forall>i<80. mem_read (\<lambda>_. 0) (16 * of_nat i) 4 \<noteq> LBIO" by (simp add: mem_read_def LBIO_def upt_rec)
  let ?cfg = "\<lparr>lp_nvram = True, lp_video_console = False, lp_timer_rdtsc = True, lp_memmap_ram_only = False\<rparr>"
  obtain m' ft' info where
    "write_tables example_lb_env True example_env 0x7fd6000 0x7fd5000 (\<lambda>_. 0, FORWARDING_TABLE_ADDR, bootmem_start) = Some (0x7fd6000, False, m', ft', bm')"
    and "get_coreboot_info ?cfg m' undefined = Some (0, info)" and "payload_knows ?cfg example_lb_env lbm m' undefined info"
    using payload_reads_what_coreboot_wrote [OF example_lb_env_ok tags lbm _ _ _ _ _ low, of "0x7fd6000" "0x7fd5000" ?cfg undefined] size by auto
  moreover from this(3) have "board_id info = 7" "ram_code info = NOT 0" "sku_id info = 2" "cbmem_cons info = 0x7fde000"
    "memrange info = [(0, 0x1000, 16), (0x1000, 0x7fef000, 1), (0x7ff0000, 0x10000, 16)]"
    by (simp_all add: payload_knows_def triples Let_def) (simp_all add: example_lb_env_def UNDEFINED_STRAPPING_ID_def)
  moreover have "length (le_version example_lb_env) + 1 = 4" "le_version example_lb_env @ [0] = [0x34, 0x2e, 0x38, 0]"
    by (simp_all add: example_lb_env_def)
  then have "mem_read m' (cb_version info) 4 = [0x34, 0x2e, 0x38, 0]"
    using calculation(3) unfolding payload_knows_def by metis
  ultimately show ?thesis by blast
qed

end
