(* ===== verification/Spec2Isabelle.thy ===== *)
theory Spec2Isabelle
  imports Region Memrange Bootmem Timer_Queue Region_File Imd_Life Boot_State Mtrr_Fixed Resource_Fixed Cmos_Options Rtc Mp_Flight Lb_Handoff
begin

text \<open>
  Verification of the core libraries of coreboot's ramstage.

  \<^bold>\<open>The program.\<close> coreboot brings a machine up in stages. The last of them, the ramstage
  (\<^verbatim>\<open>src/lib/hardwaremain.c\<close>), walks a fixed sequence of boot states: it enumerates the
  device tree, gives every device its addresses, programs the memory type registers of the
  processors, writes the tables the operating system reads and jumps to the payload. The parts
  modelled here are the libraries this walk is built from. Their names below are paths under
  \<^verbatim>\<open>src/coreboot\<close> in the repository.

  \<^bold>\<open>Parts, theories and interaction.\<close>

  \<^item> Prelude: machine words (\<open>u8\<close>, \<open>u16\<close>, \<open>u32\<close>, \<open>u64\<close>), the alignment macros of
    \<^verbatim>\<open>src/commonlib/include/commonlib/helpers.h\<close>, little-endian byte strings, the collections
    of lemmas. Memory: the flat byte memory that pointers address.
  \<^item> Mem_Pool, \<^verbatim>\<open>src/commonlib/mem_pool.c\<close>: the bump allocator of the mapping caches.
  \<^item> Region, \<^verbatim>\<open>src/commonlib/region.c\<close>: windows onto storage. A device is a record of its driver
    operations and its window; a child refers to its parent by value; a cached mapping lives in
    a memory pool.
  \<^item> Region_File, \<^verbatim>\<open>src/lib/region_file.c\<close>: an append-only log of data updates inside a region
    device, written through the operations of a driver, which a locale describes and which the
    memory-mapped devices of Region and a model of NOR flash provide.
  \<^item> Memrange, \<^verbatim>\<open>src/lib/memrange.c\<close>: sorted lists of tagged address ranges, filled from the
    resources of the device tree (\<^verbatim>\<open>search_global_resources\<close> of \<^verbatim>\<open>src/device/device_util.c\<close>).
  \<^item> Bootmem, \<^verbatim>\<open>src/lib/bootmem.c\<close>: two such lists, one for the boot and one for the operating
    system, the buffer allocator on the first, the memory record of the coreboot table from the
    second.
  \<^item> Imd, Imd_Life, \<^verbatim>\<open>src/lib/imd.c\<close>: the in-memory directory that hands regions over from one
    stage to the next, entirely inside the flat memory.
  \<^item> Timer_Queue, \<^verbatim>\<open>src/lib/timer_queue.c\<close>: the array heap of timed callbacks.
  \<^item> Boot_State, \<^verbatim>\<open>src/lib/hardwaremain.c\<close>: the walk, its callbacks and blockers, and the
    interface that chip code and callbacks use. Where the walk runs the expired timers, whose queue
    is that of Timer_Queue, the model only records that it does.
  \<^item> Mtrr, Mtrr_Types, Mtrr_Fixed, \<^verbatim>\<open>src/cpu/x86/mtrr/mtrr.c\<close>: the address space as a list of
    Memrange, the fixed and variable registers computed from it, and what the processor makes
    of the registers.
  \<^item> Resources, Resource_Order, Resource_Plan, Resource_Placement, Resource_Fixed,
    \<^verbatim>\<open>src/device/device.c\<close>: the two passes of the resource allocator and the avoidance of
    fixed resources.
  \<^item> Cmos, Cmos_Options, \<^verbatim>\<open>src/drivers/pc80/rtc/\<close>: the battery-backed memory of the clock
    behind its index and data ports, its checksums, the options laid out by a table in memory,
    the choice between the normal and the fallback image. Rtc, \<^verbatim>\<open>src/lib/rtc.c\<close>: the dates that
    are set into and read from that clock.
  \<^item> Mp_Flight, \<^verbatim>\<open>src/cpu/x86/mp_init.c\<close>: the list of records that the boot processor and the
    application processors walk together, as interleaved steps of program counters.
  \<^item> Lb_Table, Lb_Records, Lb_Spec, \<^verbatim>\<open>src/lib/coreboot_table.c\<close>: the layout of the coreboot
    table in the flat memory, its checksums (\<^verbatim>\<open>src/lib/compute_ip_checksum.c\<close>), one writer per
    kind of record, the walk over all of them, and the forwarding table in low memory
    (\<^verbatim>\<open>src/arch/x86/tables.c\<close>). The memory record comes from Bootmem; the identifiers of the
    directory's entries are in Cbmem_Id. Lb_Spec says which records a machine's table must have.
  \<^item> Ip_Checksum, Lb_Payload, Lb_Fields, \<^verbatim>\<open>payloads/libpayload/libc/\<close>: the reader of that table
    on the payload's side, its own checksum, and what single fields hold after the walk over a
    closed table (a locale for a field that one kind of record sets, interpreted on nine of them).
    Lb_Handoff composes writer, memory map and reader.

  \<^bold>\<open>How state and operations correspond.\<close> A C struct is a record with the fields of the
  struct, an enumeration a datatype or the words of its constants, an operation a function from
  the state to the new state and the return value. Pointers are values where the code never
  shares what they point to, identities where it does (the resources of a bridge and its bus),
  and addresses of the flat memory where the layout matters (the directory). Integers keep their
  width. A return code is the word the code returns, NULL is \<open>None\<close> or the null address. Linked
  lists are lists; the free list of range entries is kept, because the code runs out of it.
  Callbacks of the boot walk, the operations of a storage driver and the hooks of a board are
  parameters: a record of functions or, in the boot walk, the calls of the interface they make.
  Printing is left out everywhere.

  \<^bold>\<open>What the lemmas show.\<close> Region: requests inside a window, of any nesting and on every kind
  of device, act on the parent at the shifted offset, and what is written is read back; a
  request whose end wraps around escapes. Region_File: an update that fits ends within four
  rounds and is read back, also by a file opened anew; one size never returns. Memrange and
  Bootmem: the list operations are the pointwise operations on addresses (the abstraction
  \<open>tag_at\<close>), keep the lists sorted and disjoint, and the table written describes exactly the
  operating system's view. Imd_Life: in every reachable state, a step relation over all
  operations and the writes of clients, the directory can be recovered from memory alone and
  its regions do not overlap. Timer_Queue: the heap is a priority queue (locale, interpreted on
  the array heap), so draining runs the expired callbacks in order. Boot_State: order, progress
  and the fate of callbacks over all interleavings of the interface with the walk. Mtrr_Types
  and Mtrr_Fixed: the registers give every address the type its range was tagged with.
  Resource_Plan and Resource_Placement: the loops that search the bus for the next largest
  resource are a structural recursion over sorted lists, and the two passes together pack every
  bus into its bridge's window, aligned and without overlap. Resource_Fixed: the window of a
  domain is cut back clear of all fixed resources when a stretch of it is free of them and on the
  larger side of each; a fixed resource that starts at zero and covers the window is not avoided. Cmos_Options: an option that is set is got
  back, alone, under a valid checksum, and failed
  boots are counted. Rtc: seconds become a date, survive the clock chip and become the same
  seconds. Mp_Flight: over all interleavings the calls of a plan come in its order, and, as
  long as they return, all of them are made in bounded time; the last one may keep the application
  processors for ever, as the wait for work does. Lb_Spec: whatever the machine, the table written is closed (its
  counts, sizes and checksums are right) and has exactly the records of the specification.
  Ip_Checksum: both sides' checksums agree. Lb_Handoff: the payload finds the table, accepts it
  and knows of the machine what coreboot knew.

  \<^bold>\<open>Bounds and fuel.\<close> Structural recursion is used wherever the code recurses on data; loops
  that search for the next largest resource are \<open>partial_function (option)\<close> and shown to
  return. The update loop of region files, which need not end, takes fuel: four rounds are proved
  to be enough for updates that fit, and no fuel is enough for one size. Counters that the code
  keeps in an \<^verbatim>\<open>int\<close> and that no claim can make overflow (the blocks of a boot phase, the processors
  that checked in) are integers. The boot walk is a relation; its liveness bound counts
  the phases, the callbacks and the timers. The address arithmetic of the memory type registers
  is bounded by the number of address bits of the processor, and the layout of resources by
  \<open>sizeable A\<close>: sizes below \<open>2 ^ A\<close> in total with \<open>A \<le> 62\<close>, so that no 64-bit sum wraps.
  Dates are those whose seconds since 1970 fit a signed 32-bit word. A wait for the application
  processors gives up after ten thousand polls, as in the code, which bounds the boot
  processor's steps. The coreboot table has its room of 32 KiB (\<open>COREBOOT_TABLE_SIZE\<close>) in the
  theorem about the payload; checksums are proved equal up to 64 KiB, where the payload's 32-bit
  accumulation cannot lose a carry. The payload's parser recurses through forwarding records and
  is a \<open>partial_function (option)\<close>, shown to return on what coreboot writes.

  \<^bold>\<open>Not modelled.\<close> Code that only touches hardware registers (chipset, board, processor and bus
  drivers), code of other programs kept in the same repository (payloads but for the
  table reader of libpayload, tools under \<^verbatim>\<open>util\<close>, vendor code, the x86 emulator), ACPI source, and the assembly that starts the
  stages. Of the ramstage's own libraries: the readers of the flash image (CBFS and the flash
  map), the loaders of programs and the third-party decompressors they call, the decoder of
  display data, the console, and verified boot, whose library is a submodule outside the tree. Of the modelled parts: the printing; the log of POST codes in the clock's memory; the
  start-up interrupts and the relocation of system management mode before and inside the flight
  plan; the work that is given to application processors once the flight plan is over; the
  debug dump of the memory type registers; the MP, PIRQ, ACPI and SMBIOS tables written beside
  the coreboot table, and a payload that has moved itself; the
  theorems about the directory cover single-tiered directories only, although both tiers are
  modelled. Enumeration, chip and device callbacks appear in Resources as parameters.
\<close>

end
